(* ===== verification/Prelude.thy ===== *)
theory Prelude
  imports Main "HOL-Library.Char_ord" "HOL-Library.List_Lexorder" "HOL-Library.Product_Lexorder"
begin

text \<open>
  Shared vocabulary of the development: Go strings as byte lists with the parts of the packages
  \<open>strings\<close>, \<open>unicode\<close>, \<open>unicode/utf8\<close> and \<open>path\<close> that the source uses, results as sums, the
  generic facts on lists that the table models of the components share, and the collections of
  hints.  A Go \<open>string\<close> is a HOL \<open>string\<close> whose characters are its bytes, so \<open>length\<close> is Go's
  \<open>len\<close>.  An instant (\<open>time.Time\<close>) is an integer number of nanoseconds since the Unix epoch.
\<close>

section \<open>Collections, results and clocks\<close>

named_theorems table_simps \<open>rewrite rules of the row and table operations\<close>
named_theorems wf_intros \<open>introduction rules for the well-formedness invariants\<close>
named_theorems frame_simps \<open>what an operation leaves unchanged\<close>

type_synonym instant = int
type_synonym duration = int

text \<open>The successive readings of a component's clock during one call: reading \<open>i\<close> is the
  \<open>i\<close>-th time the call evaluates \<open>s.now()\<close>.\<close>

type_synonym clock = "nat \<Rightarrow> instant"

abbreviation nanosecond :: duration where "nanosecond \<equiv> 1"
abbreviation second :: duration where "second \<equiv> 1000000000"
abbreviation minute :: duration where "minute \<equiv> 60 * second"
abbreviation hour :: duration where "hour \<equiv> 60 * minute"

definition clock_later :: "nat \<Rightarrow> clock \<Rightarrow> clock" where
  "clock_later n now = (\<lambda>i. now (n + i))"

text \<open>A fallible operation on a state: the error or the value, with the state it leaves.\<close>

type_synonym ('s, 'e, 'a) op = "'s \<Rightarrow> ('e + 'a) \<times> 's"

fun is_ok :: "'e + 'a \<Rightarrow> bool" where
  "is_ok (Inl _) = False"
| "is_ok (Inr _) = True"

lemma is_ok_iff: "is_ok r \<longleftrightarrow> (\<exists>a. r = Inr a)"
  by (cases r) auto

lemma not_is_ok_iff: "\<not> is_ok r \<longleftrightarrow> (\<exists>e. r = Inl e)"
  by (cases r) auto

section \<open>Go strings\<close>

subsection \<open>Prefixes, suffixes and substrings\<close>

definition has_prefix :: "string \<Rightarrow> string \<Rightarrow> bool" where
  "has_prefix s p \<longleftrightarrow> take (length p) s = p"

definition has_suffix :: "string \<Rightarrow> string \<Rightarrow> bool" where
  "has_suffix s p \<longleftrightarrow> length p \<le> length s \<and> drop (length s - length p) s = p"

definition cut_prefix :: "string \<Rightarrow> string \<Rightarrow> string option" where
  "cut_prefix s p = (if has_prefix s p then Some (drop (length p) s) else None)"

definition cut_suffix :: "string \<Rightarrow> string \<Rightarrow> string option" where
  "cut_suffix s p = (if has_suffix s p then Some (take (length s - length p) s) else None)"

definition trim_prefix :: "string \<Rightarrow> string \<Rightarrow> string" where
  "trim_prefix s p = (if has_prefix s p then drop (length p) s else s)"

lemma has_prefix_append: "has_prefix s p \<longleftrightarrow> (\<exists>t. s = p @ t)"
proof
  assume "has_prefix s p"
  then have "s = p @ drop (length p) s"
    by (metis append_take_drop_id has_prefix_def)
  then show "\<exists>t. s = p @ t" by blast
next
  assume "\<exists>t. s = p @ t"
  then show "has_prefix s p" by (auto simp: has_prefix_def)
qed

lemma has_suffix_append: "has_suffix s p \<longleftrightarrow> (\<exists>t. s = t @ p)"
proof
  assume "has_suffix s p"
  then have "s = take (length s - length p) s @ p"
    by (metis append_take_drop_id has_suffix_def)
  then show "\<exists>t. s = t @ p" by blast
next
  assume "\<exists>t. s = t @ p"
  then show "has_suffix s p" by (auto simp: has_suffix_def)
qed

lemma has_prefix_Nil [simp]: "has_prefix s []"
  by (simp add: has_prefix_def)

lemma has_prefix_self [simp]: "has_prefix (p @ t) p"
  by (simp add: has_prefix_def)

lemma has_prefix_trans: "has_prefix s p \<Longrightarrow> has_prefix p q \<Longrightarrow> has_prefix s q"
  by (auto simp: has_prefix_append)

lemma has_prefix_length: "has_prefix s p \<Longrightarrow> length p \<le> length s"
  by (auto simp: has_prefix_append)

lemma has_prefix_comparable:
  "has_prefix s p \<Longrightarrow> has_prefix s q \<Longrightarrow> length p \<le> length q \<Longrightarrow> has_prefix q p"
  by (auto simp: has_prefix_append append_eq_append_conv2)

lemma has_prefix_same_length:
  "has_prefix s p \<Longrightarrow> has_prefix s q \<Longrightarrow> length p = length q \<Longrightarrow> p = q"
  by (auto simp: has_prefix_append)

lemma cut_suffix_append [simp]: "cut_suffix (s @ p) p = Some s"
  by (simp add: cut_suffix_def has_suffix_def)

lemma cut_suffix_Some: "cut_suffix s p = Some t \<longleftrightarrow> s = t @ p"
  by (auto simp: cut_suffix_def has_suffix_append)

text \<open>\<open>strings.Index\<close> for a non-empty pattern: the first position it occurs at.\<close>

fun index_of :: "string \<Rightarrow> string \<Rightarrow> nat option" where
  "index_of [] p = (if p = [] then Some 0 else None)"
| "index_of (c # s) p =
     (if has_prefix (c # s) p then Some 0 else map_option Suc (index_of s p))"

definition contains_sub :: "string \<Rightarrow> string \<Rightarrow> bool" where
  "contains_sub s p \<longleftrightarrow> index_of s p \<noteq> None"

lemma index_of_Some: "index_of s p = Some i \<Longrightarrow> has_prefix (drop i s) p \<and> i \<le> length s"
  by (induction s arbitrary: i) (auto split: if_splits)

lemma index_of_bound: "index_of s p = Some i \<Longrightarrow> i + length p \<le> length s"
  using index_of_Some [of s p i] has_prefix_length [of "drop i s" p] by auto

text \<open>\<open>strings.Split\<close> on a one-byte separator.\<close>

fun split_byte :: "char \<Rightarrow> string \<Rightarrow> string list" where
  "split_byte d [] = [[]]"
| "split_byte d (c # s) =
     (if c = d then [] # split_byte d s
      else (case split_byte d s of [] \<Rightarrow> [[c]] | w # ws \<Rightarrow> (c # w) # ws))"

lemma split_byte_not_Nil [simp]: "split_byte d s \<noteq> []"
  by (cases s) (auto split: list.splits)

lemma split_byte_no_sep: "d \<notin> set s \<Longrightarrow> split_byte d s = [s]"
  by (induction s) auto

lemma split_byte_append:
  "d \<notin> set w \<Longrightarrow> split_byte d (w @ d # s) = w # split_byte d s"
  by (induction w) auto

text \<open>\<open>strings.Join\<close>.\<close>

fun join_with :: "string \<Rightarrow> string list \<Rightarrow> string" where
  "join_with sep [] = []"
| "join_with sep [w] = w"
| "join_with sep (w # ws) = w @ sep @ join_with sep ws"

subsection \<open>UTF-8\<close>

definition byte :: "char \<Rightarrow> nat" where
  "byte c = of_char c"

definition in_range :: "nat \<Rightarrow> nat \<Rightarrow> nat \<Rightarrow> bool" where
  "in_range lo hi n \<longleftrightarrow> lo \<le> n \<and> n \<le> hi"

definition is_cont :: "char \<Rightarrow> bool" where
  "is_cont c \<longleftrightarrow> in_range 128 191 (byte c)"

text \<open>
  \<open>utf8.DecodeRuneInString\<close>: the rune and its width in bytes.  An ill-formed sequence gives
  \<open>None\<close> (Go's \<open>RuneError\<close>) with width one; overlong forms, surrogates and code points above
  U+10FFFF are ill-formed.  The empty string has width zero.
\<close>

definition rune_if :: "bool \<Rightarrow> nat \<Rightarrow> nat \<Rightarrow> nat option \<times> nat" where
  "rune_if ok r w = (if ok then (Some r, w) else (None, 1))"

fun decode3 :: "nat \<Rightarrow> nat \<Rightarrow> string \<Rightarrow> nat option \<times> nat" where
  "decode3 x y [] = (None, 1)"
| "decode3 x y (c # _) =
     rune_if (is_cont c \<and> in_range (if x = 224 then 160 else 128) (if x = 237 then 159 else 191) y)
       ((x - 224) * 4096 + (y - 128) * 64 + (byte c - 128)) 3"

fun decode4 :: "nat \<Rightarrow> nat \<Rightarrow> string \<Rightarrow> nat option \<times> nat" where
  "decode4 x y (c # d # _) =
     rune_if (is_cont c \<and> is_cont d
              \<and> in_range (if x = 240 then 144 else 128) (if x = 244 then 143 else 191) y)
       ((x - 240) * 262144 + (y - 128) * 4096 + (byte c - 128) * 64 + (byte d - 128)) 4"
| "decode4 x y _ = (None, 1)"

fun decode_rune :: "string \<Rightarrow> nat option \<times> nat" where
  "decode_rune [] = (None, 0)"
| "decode_rune [a] = rune_if (byte a < 128) (byte a) 1"
| "decode_rune (a # b # s) =
     (if byte a < 128 then (Some (byte a), 1)
      else if in_range 194 223 (byte a) then
        rune_if (is_cont b) ((byte a - 192) * 64 + (byte b - 128)) 2
      else if in_range 224 239 (byte a) then decode3 (byte a) (byte b) s
      else if in_range 240 244 (byte a) then decode4 (byte a) (byte b) s
      else (None, 1))"

lemma rune_if_width: "1 \<le> w \<Longrightarrow> 1 \<le> snd (rune_if ok r w)"
  by (simp add: rune_if_def)

lemma decode3_width: "1 \<le> snd (decode3 x y s)"
  by (cases s) (simp_all add: rune_if_def)

lemma decode4_width: "1 \<le> snd (decode4 x y s)"
proof (cases s)
  case Nil
  then show ?thesis by simp
next
  case (Cons c t)
  then show ?thesis by (cases t) (simp_all add: rune_if_def)
qed

lemma decode_rune_width: "s \<noteq> [] \<Longrightarrow> 1 \<le> snd (decode_rune s)"
  by (cases s rule: decode_rune.cases)
    (simp_all add: rune_if_def decode3_width [simplified] decode4_width [simplified])

lemma decode_rune_ascii [simp]: "byte c < 128 \<Longrightarrow> decode_rune (c # s) = (Some (byte c), 1)"
  by (cases s) (simp_all add: rune_if_def)

text \<open>Iteration over the runes of a string (\<open>for _, r := range s\<close>).\<close>

function runes :: "string \<Rightarrow> nat option list" where
  "runes s = (if s = [] then [] else fst (decode_rune s) # runes (drop (snd (decode_rune s)) s))"
  by pat_completeness auto
termination
proof (relation "measure length")
  show "wf (measure length)" by simp
next
  fix s :: string
  assume "s \<noteq> []"
  then have "1 \<le> snd (decode_rune s)"
    by (rule decode_rune_width)
  moreover from \<open>s \<noteq> []\<close> have "0 < length s"
    by simp
  ultimately show "(drop (snd (decode_rune s)) s, s) \<in> measure length"
    by simp
qed

declare runes.simps [simp del]

lemma runes_Nil [simp]: "runes [] = []"
  by (subst runes.simps) simp

lemma runes_Cons:
  "runes (c # s) = fst (decode_rune (c # s)) # runes (drop (snd (decode_rune (c # s))) (c # s))"
  by (subst runes.simps) simp

lemma runes_ascii: "byte c < 128 \<Longrightarrow> runes (c # s) = Some (byte c) # runes s"
  by (simp add: runes_Cons)

text \<open>\<open>utf8.ValidString\<close> and \<open>unicode.IsControl\<close>.\<close>

definition valid_utf8 :: "string \<Rightarrow> bool" where
  "valid_utf8 s \<longleftrightarrow> None \<notin> set (runes s)"

definition is_control :: "nat option \<Rightarrow> bool" where
  "is_control r = (case r of None \<Rightarrow> False | Some n \<Rightarrow> n < 32 \<or> in_range 127 159 n)"

subsection \<open>White space\<close>

text \<open>The UTF-8 encodings of the runes \<open>unicode.IsSpace\<close> accepts.\<close>

definition space_encodings :: "string list" where
  "space_encodings =
     map (map char_of)
       ([[9], [10], [11], [12], [13], [32], [194, 133], [194, 160], [225, 154, 128]]
        @ map (\<lambda>n. [226, 128, n]) [128..<139]
        @ [[226, 128, 168], [226, 128, 169], [226, 128, 175], [226, 129, 159],
           [227, 128, 128 :: nat]])"

definition starts_space :: "string list \<Rightarrow> string \<Rightarrow> string option" where
  "starts_space encs s = find (has_prefix s) (filter (\<lambda>e. e \<noteq> []) encs)"

lemma starts_space_Some: "starts_space encs s = Some e \<Longrightarrow> e \<noteq> [] \<and> has_prefix s e"
  by (auto simp: starts_space_def find_Some_iff dest: nth_mem)

text \<open>\<open>strings.TrimSpace\<close> removes the longest run of white-space runes at either end.  A rune is
  at the end of a string exactly when the string ends in its encoding, so the right end is the
  left end of the reversed string for the reversed encodings.\<close>

function strip_encodings :: "string list \<Rightarrow> string \<Rightarrow> string" where
  "strip_encodings encs s =
     (case starts_space encs s of None \<Rightarrow> s | Some e \<Rightarrow> strip_encodings encs (drop (length e) s))"
  by pat_completeness auto
termination
proof (relation "measure (length \<circ> snd)")
  show "wf (measure (length \<circ> snd))" by simp
next
  fix encs :: "string list" and s e
  assume "starts_space encs s = Some e"
  then have "e \<noteq> []" and "has_prefix s e"
    by (auto dest: starts_space_Some)
  then have "0 < length e" and "length e \<le> length s"
    by (auto dest: has_prefix_length)
  then have "length s - length e < length s"
    by linarith
  then show "((encs, drop (length e) s), (encs, s)) \<in> measure (length \<circ> snd)"
    by simp
qed

declare strip_encodings.simps [simp del]

definition trim_left_space :: "string \<Rightarrow> string" where
  "trim_left_space s = strip_encodings space_encodings s"

definition trim_right_space :: "string \<Rightarrow> string" where
  "trim_right_space s = rev (strip_encodings (map rev space_encodings) (rev s))"

definition trim_space :: "string \<Rightarrow> string" where
  "trim_space s = trim_right_space (trim_left_space s)"

lemma strip_encodings_suffix: "\<exists>t. s = t @ strip_encodings encs s"
proof (induction encs s rule: strip_encodings.induct)
  case (1 encs s)
  show ?case
  proof (cases "starts_space encs s")
    case None
    then show ?thesis by (subst strip_encodings.simps) simp
  next
    case (Some e)
    then have "s = e @ drop (length e) s"
      by (auto dest!: starts_space_Some simp: has_prefix_append)
    moreover obtain t where "drop (length e) s = t @ strip_encodings encs (drop (length e) s)"
      using "1.IH" [OF Some] by blast
    ultimately have "s = (e @ t) @ strip_encodings encs (drop (length e) s)"
      by (metis append_assoc)
    then show ?thesis using Some by (subst strip_encodings.simps) (metis option.simps(5))
  qed
qed

lemma strip_encodings_length: "length (strip_encodings encs s) \<le> length s"
  using strip_encodings_suffix [of s encs] by (metis le_add2 length_append)

lemma strip_encodings_idem [simp]:
  "strip_encodings encs (strip_encodings encs s) = strip_encodings encs s"
proof (induction encs s rule: strip_encodings.induct)
  case (1 encs s)
  then show ?case
    by (cases "starts_space encs s")
      (simp_all add: strip_encodings.simps [of encs s] strip_encodings.simps [of encs s])
qed

lemma trim_space_length: "length (trim_space s) \<le> length s"
proof -
  have "length (trim_space s) \<le> length (trim_left_space s)"
    using strip_encodings_length by (simp add: trim_space_def trim_right_space_def)
      (metis length_rev)
  also have "\<dots> \<le> length s"
    by (simp add: trim_left_space_def strip_encodings_length)
  finally show ?thesis .
qed

lemma trim_left_Nil [simp]: "trim_left_space [] = []"
  using strip_encodings_length [of space_encodings "[]"] by (simp add: trim_left_space_def)

lemma trim_space_Nil [simp]: "trim_space [] = []"
  using trim_space_length [of "[]"] by simp

lemma trim_space_blank_iff: "trim_left_space s = [] \<Longrightarrow> trim_space s = []"
  by (simp add: trim_space_def trim_right_space_def)
    (metis strip_encodings_length length_0_conv le_zero_eq list.size(3) rev.simps(1))

subsection \<open>Case and numerals\<close>

text \<open>
  \<open>strings.ToLower\<close>, as far as the source observes it: it only compares the result with ASCII
  words and punctuation.  ASCII letters are lowered, and so are the only two other runes whose
  lower case is ASCII (U+0130 and the Kelvin sign U+212A); every other rune maps to a rune that
  is not ASCII and is kept.
\<close>

definition lower_char :: "char \<Rightarrow> char" where
  "lower_char c = (if in_range 65 90 (byte c) then char_of (byte c + 32) else c)"

fun to_lower :: "string \<Rightarrow> string" where
  "to_lower [] = []"
| "to_lower [a] = [lower_char a]"
| "to_lower (a # b # s) =
     (if byte a = 196 \<and> byte b = 176 then CHR ''i'' # to_lower s
      else if byte a = 226 \<and> byte b = 132 \<and> s \<noteq> [] \<and> byte (hd s) = 170
        then CHR ''k'' # to_lower (tl s)
      else lower_char a # to_lower (b # s))"

text \<open>Decimal numerals (\<open>strconv.Itoa\<close> and the verb \<open>%d\<close> on naturals).\<close>

definition digit_char :: "nat \<Rightarrow> char" where
  "digit_char d = char_of (48 + d)"

fun nat_str :: "nat \<Rightarrow> string" where
  "nat_str n = (if n < 10 then [digit_char n] else nat_str (n div 10) @ [digit_char (n mod 10)])"

declare nat_str.simps [simp del]

text \<open>The verb \<open>%0wd\<close>: at least \<open>w\<close> digits, padded with zeros.\<close>

definition pad_nat :: "nat \<Rightarrow> nat \<Rightarrow> string" where
  "pad_nat w n = replicate (w - length (nat_str n)) (CHR ''0'') @ nat_str n"

fun nat_val :: "nat \<Rightarrow> string \<Rightarrow> nat" where
  "nat_val acc [] = acc"
| "nat_val acc (c # s) = nat_val (10 * acc + (byte c - 48)) s"

lemma byte_digit_char: "d < 10 \<Longrightarrow> byte (digit_char d) = 48 + d"
  by (simp add: byte_def digit_char_def)

lemma nat_val_append: "nat_val acc (s @ t) = nat_val (nat_val acc s) t"
  by (induction s arbitrary: acc) auto

lemma nat_val_nat_str: "nat_val 0 (nat_str n) = n"
proof (induction n rule: nat_str.induct)
  case (1 n)
  show ?case
  proof (cases "n < 10")
    case True
    then show ?thesis by (subst nat_str.simps) (simp add: byte_digit_char)
  next
    case False
    with 1 show ?thesis by (subst nat_str.simps) (simp add: nat_val_append byte_digit_char)
  qed
qed

lemma nat_str_inject [simp]: "nat_str m = nat_str n \<longleftrightarrow> m = n"
  by (metis nat_val_nat_str)

lemma nat_val_zeros [simp]: "nat_val 0 (replicate k (CHR ''0'')) = 0"
  by (induction k) (simp_all add: byte_def)

lemma nat_val_pad_nat: "nat_val 0 (pad_nat w n) = n"
  by (simp add: pad_nat_def nat_val_append nat_val_nat_str)

lemma pad_nat_inject [simp]: "pad_nat w m = pad_nat w n \<longleftrightarrow> m = n"
  by (metis nat_val_pad_nat)

section \<open>Tables\<close>

text \<open>
  A table is the list of its rows in insertion order.  \<open>UPDATE t SET f WHERE P\<close> maps the rows,
  its count of affected rows is the number that satisfy \<open>P\<close>; \<open>DELETE\<close> filters.
\<close>

definition update_where :: "('r \<Rightarrow> bool) \<Rightarrow> ('r \<Rightarrow> 'r) \<Rightarrow> 'r list \<Rightarrow> 'r list" where
  "update_where P f rows = map (\<lambda>r. if P r then f r else r) rows"

definition rows_affected :: "('r \<Rightarrow> bool) \<Rightarrow> 'r list \<Rightarrow> nat" where
  "rows_affected P rows = length (filter P rows)"

lemma update_where_Nil [table_simps]: "update_where P f [] = []"
  by (simp add: update_where_def)

lemma update_where_Cons [table_simps]:
  "update_where P f (r # rows) = (if P r then f r else r) # update_where P f rows"
  by (simp add: update_where_def)

lemma update_where_append [table_simps]:
  "update_where P f (xs @ ys) = update_where P f xs @ update_where P f ys"
  by (simp add: update_where_def)

lemma length_update_where [simp]: "length (update_where P f rows) = length rows"
  by (simp add: update_where_def)

lemma set_update_where:
  "set (update_where P f rows) = {if P r then f r else r | r. r \<in> set rows}"
  by (auto simp: update_where_def)

lemma in_update_whereE:
  assumes "r \<in> set (update_where P f rows)"
  obtains r0 where "r0 \<in> set rows" "r = (if P r0 then f r0 else r0)"
  using assms by (auto simp: update_where_def)

lemma in_update_whereI:
  "r \<in> set rows \<Longrightarrow> (if P r then f r else r) \<in> set (update_where P f rows)"
  by (auto simp: update_where_def)

lemma map_update_where [table_simps]:
  "(\<And>r. P r \<Longrightarrow> g (f r) = g r) \<Longrightarrow> map g (update_where P f rows) = map g rows"
  by (simp add: update_where_def)

lemma filter_update_where [table_simps]:
  "(\<And>r. P r \<Longrightarrow> Q (f r) = Q r) \<Longrightarrow>
   filter Q (update_where P f rows) = update_where P f (filter Q rows)"
  by (induction rows) (auto simp: update_where_def)

lemma update_where_none: "\<forall>r\<in>set rows. \<not> P r \<Longrightarrow> update_where P f rows = rows"
  by (simp add: update_where_def map_idI)

lemma rows_affected_0: "rows_affected P rows = 0 \<longleftrightarrow> (\<forall>r\<in>set rows. \<not> P r)"
  by (simp add: rows_affected_def filter_empty_conv)

text \<open>Rows with a unique key: the row found by its key.\<close>

lemma find_distinct_key:
  "distinct (map k rows) \<Longrightarrow> find (\<lambda>r. k r = x) rows = Some r \<longleftrightarrow> r \<in> set rows \<and> k r = x"
proof (induction rows)
  case Nil
  then show ?case by simp
next
  case (Cons a rows)
  then show ?case by (auto simp: image_iff)
qed

lemma find_None_key: "find (\<lambda>r. k r = x) rows = None \<longleftrightarrow> x \<notin> k ` set rows"
  by (auto simp: find_None_iff)

lemma find_SomeD: "find P xs = Some x \<Longrightarrow> P x \<and> x \<in> set xs"
  by (auto simp: find_Some_iff)

lemma find_append:
  "find P (xs @ ys) = (case find P xs of None \<Rightarrow> find P ys | Some x \<Rightarrow> Some x)"
  by (induction xs) auto

lemma find_update_where:
  assumes "\<And>r. Q (f r) = Q r"
  shows "find Q (update_where P f rows) =
    map_option (\<lambda>r. if P r then f r else r) (find Q rows)"
  using assms by (induction rows) (auto simp: update_where_def)

lemma distinct_key_eq: "distinct (map k rows) \<Longrightarrow> r \<in> set rows \<Longrightarrow> s \<in> set rows \<Longrightarrow> k r = k s \<Longrightarrow> r = s"
  by (auto simp: distinct_map inj_on_def)

text \<open>A page of a result: \<open>LIMIT n\<close>.\<close>

lemma take_filter_subset: "set (take n (filter P xs)) \<subseteq> set xs"
  using set_take_subset [of n "filter P xs"] by auto

section \<open>Plain text\<close>

text \<open>Printable ASCII without blanks: such text decodes byte by byte and trims to itself.\<close>

definition graphic :: "char \<Rightarrow> bool" where
  "graphic c \<longleftrightarrow> in_range 33 126 (byte c)"

lemma graphic_ascii: "graphic c \<Longrightarrow> byte c < 128"
  by (simp add: graphic_def in_range_def)

lemma runes_graphic: "list_all graphic s \<Longrightarrow> runes s = map (Some \<circ> byte) s"
  by (induction s) (simp_all add: runes_ascii graphic_ascii)

lemma valid_utf8_graphic: "list_all graphic s \<Longrightarrow> valid_utf8 s"
  by (auto simp: valid_utf8_def runes_graphic)

lemma no_control_graphic: "list_all graphic s \<Longrightarrow> \<not> list_ex is_control (runes s)"
  by (auto simp: runes_graphic list_ex_iff list_all_iff is_control_def graphic_def in_range_def)

lemma starts_space_graphic:
  assumes "\<forall>e \<in> set encs. e \<noteq> [] \<longrightarrow> \<not> graphic (hd e)" and "s \<noteq> [] \<longrightarrow> graphic (hd s)"
  shows "strip_encodings encs s = s"
proof -
  have "\<not> has_prefix s e" if "e \<in> set encs" "e \<noteq> []" for e
  proof
    assume "has_prefix s e"
    then obtain t where "s = e @ t" by (auto simp: has_prefix_append)
    then show False using assms that by auto
  qed
  then have "starts_space encs s = None" by (auto simp: starts_space_def find_None_iff)
  then show ?thesis by (subst strip_encodings.simps) simp
qed

lemma byte_char_of: "n < 256 \<Longrightarrow> byte (char_of (n :: nat)) = n"
  by (simp add: byte_def)

lemma space_encodings_graphic:
  "\<forall>e \<in> set space_encodings. \<not> graphic (hd e) \<and> \<not> graphic (last e)"
  by (auto simp: space_encodings_def graphic_def in_range_def byte_char_of)

lemma trim_space_graphic:
  assumes "s = [] \<or> graphic (hd s) \<and> graphic (last s)"
  shows "trim_space s = s"
proof -
  have "strip_encodings space_encodings s = s"
    by (rule starts_space_graphic) (use assms space_encodings_graphic in auto)
  moreover have "strip_encodings (map rev space_encodings) (rev s) = rev s"
    by (rule starts_space_graphic) (use assms space_encodings_graphic in \<open>auto simp: hd_rev\<close>)
  ultimately show ?thesis by (simp add: trim_space_def trim_left_space_def trim_right_space_def)
qed

lemma trim_space_plain:
  assumes "list_all graphic s"
  shows "trim_space s = s"
  by (rule trim_space_graphic) (use assms in \<open>auto simp: list_all_iff\<close>)

end
