(* ===== verification/Db.thy ===== *)
theory Db
  imports Prelude
begin

text \<open>
  The package \<open>internal/store\<close>: transactions (\<open>WithTx\<close>), placeholder rewriting (\<open>Rebind\<close>), SQL
  quoting and the timestamp encoding.  Opening a database, migrations and backups are I/O and are
  not modelled.  A transaction body is an operation on the state of the tables; the state it
  leaves when it fails is dropped.
\<close>

section \<open>Drivers and transactions\<close>

datatype driver = SQLite | Postgres

text \<open>\<open>WithTx\<close>: rollback on error, commit otherwise.  Failures of the engine itself (begin,
  commit, rollback) are not modelled.\<close>

definition with_tx :: "('s, 'e, 'a) op \<Rightarrow> ('s, 'e, 'a) op" where
  "with_tx fn s = (case fn s of (Inr a, s') \<Rightarrow> (Inr a, s') | (Inl e, s') \<Rightarrow> (Inl e, s))"

lemma with_tx_ok: "fst (with_tx fn s) = Inr a \<Longrightarrow> with_tx fn s = fn s"
  by (auto simp: with_tx_def split: prod.splits sum.splits)

lemma with_tx_result: "fst (with_tx fn s) = fst (fn s)"
  by (auto simp: with_tx_def split: prod.splits sum.splits)

lemma with_tx_error: "fst (fn s) = Inl e \<Longrightarrow> with_tx fn s = (Inl e, s)"
  by (auto simp: with_tx_def split: prod.splits sum.splits)

lemma with_tx_cases:
  obtains (commit) a s' where "fn s = (Inr a, s')" "with_tx fn s = (Inr a, s')"
  | (rollback) e s' where "fn s = (Inl e, s')" "with_tx fn s = (Inl e, s)"
  by (cases "fn s"; cases "fst (fn s)") (auto simp: with_tx_def)

text \<open>An invariant that the body keeps when it succeeds is kept by the transaction always.\<close>

lemma with_tx_inv:
  assumes "Inv s" and "\<And>a s'. fn s = (Inr a, s') \<Longrightarrow> Inv s'"
  shows "Inv (snd (with_tx fn s))"
  using assms by (cases rule: with_tx_cases [of fn s]) auto

text \<open>
  The contract every component's transactional operation relies on: it either reports success and
  its state is the one its body leaves, or it reports an error and the tables are untouched.
\<close>

locale atomic_op =
  fixes body run :: "('s, 'e, 'a) op"
  assumes commits: "body s = (Inr a, s') \<Longrightarrow> run s = (Inr a, s')"
    and rolls_back: "body s = (Inl e, s') \<Longrightarrow> run s = (Inl e, s)"
begin

lemma result_of_body: "fst (run s) = fst (body s)"
  by (cases "body s"; cases "fst (body s)") (auto simp: commits rolls_back)

lemma error_keeps_state: "fst (run s) = Inl e \<Longrightarrow> snd (run s) = s"
  by (cases "body s"; cases "fst (body s)") (auto simp: commits rolls_back)

lemma keeps_inv:
  assumes "Inv s" and "\<And>a s'. body s = (Inr a, s') \<Longrightarrow> Inv s'"
  shows "Inv (snd (run s))"
  using assms by (cases "body s"; cases "fst (body s)") (auto simp: commits rolls_back)

end

interpretation tx: atomic_op fn "with_tx fn" for fn
  by unfold_locales (simp_all add: with_tx_def)

section \<open>Placeholders and quoting\<close>

definition is_digit :: "char \<Rightarrow> bool" where
  "is_digit c \<longleftrightarrow> in_range 48 57 (byte c)"

text \<open>\<open>Rebind\<close>: on SQLite every \<open>$\<close> in front of a digit becomes \<open>?\<close>.\<close>

fun rebind_loop :: "string \<Rightarrow> string" where
  "rebind_loop [] = []"
| "rebind_loop [c] = [c]"
| "rebind_loop (c # d # s) =
     (if c = CHR ''$'' \<and> is_digit d then CHR ''?'' else c) # rebind_loop (d # s)"

definition Rebind :: "driver \<Rightarrow> string \<Rightarrow> string" where
  "Rebind drv query = (if drv = SQLite then rebind_loop query else query)"

lemma rebind_loop_length: "length (rebind_loop q) = length q"
  by (induction q rule: rebind_loop.induct) auto

lemma rebind_loop_nth:
  "i < length q \<Longrightarrow>
   rebind_loop q ! i =
     (if q ! i = CHR ''$'' \<and> Suc i < length q \<and> is_digit (q ! Suc i) then CHR ''?'' else q ! i)"
proof (induction q arbitrary: i rule: rebind_loop.induct)
  case (3 c d s)
  then show ?case by (cases i) auto
qed auto

text \<open>\<open>sqliteQuote\<close> doubles every single quote and wraps the text in quotes.\<close>

fun double_quotes :: "string \<Rightarrow> string" where
  "double_quotes [] = []"
| "double_quotes (c # s) =
     (if c = CHR 0x27 then [CHR 0x27, CHR 0x27] else [c]) @ double_quotes s"

definition sqliteQuote :: "string \<Rightarrow> string" where
  "sqliteQuote s = CHR 0x27 # double_quotes s @ [CHR 0x27]"

text \<open>How SQLite reads a string literal: up to the first quote that is not doubled.  The result is
  the value and the text after the literal.\<close>

fun read_literal_body :: "string \<Rightarrow> (string \<times> string) option" where
  "read_literal_body [] = None"
| "read_literal_body (c # s) =
     (if c = CHR 0x27 then
        (case s of
           d # t \<Rightarrow>
             (if d = CHR 0x27 then map_option (apfst (Cons c)) (read_literal_body t)
              else Some ([], s))
         | [] \<Rightarrow> Some ([], []))
      else map_option (apfst (Cons c)) (read_literal_body s))"

fun read_literal :: "string \<Rightarrow> (string \<times> string) option" where
  "read_literal [] = None"
| "read_literal (c # s) = (if c = CHR 0x27 then read_literal_body s else None)"

lemma read_literal_body_quoted:
  "rest = [] \<or> hd rest \<noteq> CHR 0x27 \<Longrightarrow>
   read_literal_body (double_quotes s @ CHR 0x27 # rest) = Some (s, rest)"
  by (induction s) (auto split: list.splits)

section \<open>Timestamps\<close>

text \<open>
  A UTC wall-clock time as \<open>time.Format\<close> reads it.  \<open>time_to_db\<close> is the layout
  \<open>2006-01-02T15:04:05.000000000Z\<close>, \<open>time_from_db\<close> the parse of the same layout, which also checks
  the ranges of the fields.
\<close>

record civil =
  c_year :: nat
  c_month :: nat
  c_day :: nat
  c_hour :: nat
  c_min :: nat
  c_sec :: nat
  c_nsec :: nat

definition leap_year :: "nat \<Rightarrow> bool" where
  "leap_year y \<longleftrightarrow> y mod 4 = 0 \<and> (y mod 100 \<noteq> 0 \<or> y mod 400 = 0)"

definition days_in :: "nat \<Rightarrow> nat \<Rightarrow> nat" where
  "days_in y m =
     (if m = 2 then (if leap_year y then 29 else 28) else if m \<in> {4, 6, 9, 11} then 30 else 31)"

definition civil_ok :: "civil \<Rightarrow> bool" where
  "civil_ok c \<longleftrightarrow>
     c_year c < 10000 \<and> 1 \<le> c_month c \<and> c_month c \<le> 12 \<and> 1 \<le> c_day c
     \<and> c_day c \<le> days_in (c_year c) (c_month c)
     \<and> c_hour c < 24 \<and> c_min c < 60 \<and> c_sec c < 60 \<and> c_nsec c < 1000000000"

definition time_to_db :: "civil \<Rightarrow> string" where
  "time_to_db c =
     pad_nat 4 (c_year c) @ CHR ''-'' # pad_nat 2 (c_month c) @ CHR ''-'' # pad_nat 2 (c_day c)
     @ CHR ''T'' # pad_nat 2 (c_hour c) @ CHR '':'' # pad_nat 2 (c_min c) @ CHR '':''
     # pad_nat 2 (c_sec c) @ CHR ''.'' # pad_nat 9 (c_nsec c) @ ''Z''"

text \<open>A field of exactly \<open>w\<close> digits followed by the byte \<open>d\<close>.\<close>

definition read_field :: "nat \<Rightarrow> char \<Rightarrow> string \<Rightarrow> (nat \<times> string) option" where
  "read_field w d s =
     (if w < length s \<and> list_all is_digit (take w s) \<and> s ! w = d
      then Some (nat_val 0 (take w s), drop (Suc w) s) else None)"

definition time_from_db :: "string \<Rightarrow> civil option" where
  "time_from_db s =
     Option.bind (read_field 4 (CHR ''-'') s) (\<lambda>(y, s).
     Option.bind (read_field 2 (CHR ''-'') s) (\<lambda>(mo, s).
     Option.bind (read_field 2 (CHR ''T'') s) (\<lambda>(d, s).
     Option.bind (read_field 2 (CHR '':'') s) (\<lambda>(h, s).
     Option.bind (read_field 2 (CHR '':'') s) (\<lambda>(mi, s).
     Option.bind (read_field 2 (CHR ''.'') s) (\<lambda>(sec, s).
     Option.bind (read_field 9 (CHR ''Z'') s) (\<lambda>(ns, s).
       let c = \<lparr>c_year = y, c_month = mo, c_day = d, c_hour = h, c_min = mi, c_sec = sec,
                c_nsec = ns\<rparr>
       in if s = [] \<and> civil_ok c then Some c else None)))))))"

subsection \<open>Fixed-width numerals\<close>

lemma nat_str_digits: "list_all is_digit (nat_str n)"
proof (induction n rule: nat_str.induct)
  case (1 n)
  have d: "is_digit (digit_char d)" if "d < 10" for d
    using that by (simp add: is_digit_def in_range_def byte_digit_char)
  show ?case
  proof (cases "n < 10")
    case True
    then show ?thesis by (subst nat_str.simps) (simp add: d)
  next
    case False
    with 1 show ?thesis by (subst nat_str.simps) (simp add: d)
  qed
qed

lemma nat_str_length: "n < 10 ^ w \<Longrightarrow> 0 < w \<Longrightarrow> length (nat_str n) \<le> w"
proof (induction n arbitrary: w rule: nat_str.induct)
  case (1 n)
  show ?case
  proof (cases "n < 10")
    case True
    with "1.prems" show ?thesis by (subst nat_str.simps) simp
  next
    case False
    then obtain v where w: "w = Suc v" "0 < v"
      using "1.prems" by (cases w; cases "w - 1") auto
    with "1.prems" have "n div 10 < 10 ^ v" by (simp add: less_mult_imp_div_less mult.commute)
    with "1.IH" False w have "length (nat_str (n div 10)) \<le> v" by simp
    with False w show ?thesis by (subst nat_str.simps) simp
  qed
qed

lemma pad_nat_length: "n < 10 ^ w \<Longrightarrow> 0 < w \<Longrightarrow> length (pad_nat w n) = w"
  using nat_str_length [of n w] by (simp add: pad_nat_def)

lemma pad_nat_digits: "list_all is_digit (pad_nat w n)"
  using nat_str_digits [of n]
  by (auto simp: pad_nat_def list_all_iff is_digit_def in_range_def byte_def)

lemma read_field_pad_nat [simp]:
  assumes "n < 10 ^ w" "0 < w"
  shows "read_field w d (pad_nat w n @ d # s) = Some (n, s)"
  using pad_nat_length [OF assms] pad_nat_digits [of w n]
  by (simp add: read_field_def nth_append nat_val_pad_nat)

lemma char_less_iff: "(c :: char) < d \<longleftrightarrow> byte c < byte d"
  by (simp add: less_char_def byte_def)

lemma nat_val_digits_bound:
  "list_all is_digit s \<Longrightarrow> nat_val acc s < (acc + 1) * 10 ^ length s"
proof (induction s arbitrary: acc)
  case Nil
  then show ?case by simp
next
  case (Cons c s)
  then have "byte c - 48 < 10" by (auto simp: is_digit_def in_range_def)
  then have "10 * acc + (byte c - 48) + 1 \<le> 10 * (acc + 1)" by simp
  then have "(10 * acc + (byte c - 48) + 1) * 10 ^ length s \<le> 10 * (acc + 1) * 10 ^ length s"
    by (rule mult_le_mono1)
  moreover have "nat_val (10 * acc + (byte c - 48)) s
      < (10 * acc + (byte c - 48) + 1) * 10 ^ length s"
    using Cons by simp
  ultimately show ?case by (simp add: algebra_simps)
qed

lemma nat_val_acc: "nat_val acc s = acc * 10 ^ length s + nat_val 0 s"
proof (induction s arbitrary: acc)
  case (Cons c s)
  show ?case
    using Cons [of "10 * acc + (byte c - 48)"] Cons [of "byte c - 48"]
    by (simp add: algebra_simps)
qed simp

lemma digits_less_iff:
  "length s = length t \<Longrightarrow> list_all is_digit s \<Longrightarrow> list_all is_digit t \<Longrightarrow>
   s < t \<longleftrightarrow> nat_val 0 s < nat_val 0 t"
proof (induction s t rule: list_induct2)
  case Nil
  then show ?case by simp
next
  case (Cons c s d t)
  let ?x = "byte c - 48" and ?y = "byte d - 48"
  have cd: "48 \<le> byte c" "48 \<le> byte d"
    using Cons.prems by (auto simp: is_digit_def in_range_def)
  have bs: "nat_val 0 s < 10 ^ length t" "nat_val 0 t < 10 ^ length t"
    using nat_val_digits_bound [of s 0] nat_val_digits_bound [of t 0] Cons by auto
  have val: "nat_val 0 (c # s) = ?x * 10 ^ length t + nat_val 0 s"
    "nat_val 0 (d # t) = ?y * 10 ^ length t + nat_val 0 t"
    using nat_val_acc [of ?x s] nat_val_acc [of ?y t] Cons.hyps by simp_all
  consider "?x < ?y" | "?x = ?y" | "?y < ?x" by linarith
  then show ?case
  proof cases
    case 1
    then have "(?x + 1) * 10 ^ length t \<le> ?y * 10 ^ length t" by (intro mult_le_mono1) simp
    with bs val have "nat_val 0 (c # s) < nat_val 0 (d # t)" by simp
    moreover have "byte c < byte d" using 1 cd by linarith
    ultimately show ?thesis by (simp add: char_less_iff)
  next
    case 2
    with cd have "c = d" by (simp add: byte_def) (metis eq_diff_iff of_char_eq_iff)
    with Cons val show ?thesis by simp
  next
    case 3
    then have "(?y + 1) * 10 ^ length t \<le> ?x * 10 ^ length t" by (intro mult_le_mono1) simp
    with bs val have "\<not> nat_val 0 (c # s) < nat_val 0 (d # t)" by simp
    moreover have "byte d < byte c" using 3 cd by linarith
    ultimately show ?thesis by (auto simp: char_less_iff)
  qed
qed

lemma pad_nat_less_iff:
  "m < 10 ^ w \<Longrightarrow> n < 10 ^ w \<Longrightarrow> 0 < w \<Longrightarrow> pad_nat w m < pad_nat w n \<longleftrightarrow> m < n"
  by (simp add: digits_less_iff pad_nat_length pad_nat_digits nat_val_pad_nat)

lemma append_less_iff:
  "length s = length t \<Longrightarrow> (s @ u < t @ v) \<longleftrightarrow> s < t \<or> s = t \<and> u < (v :: string)"
  by (induction s t rule: list_induct2) auto

text \<open>Chronological order of wall-clock times.\<close>

definition civil_key :: "civil \<Rightarrow> nat \<times> nat \<times> nat \<times> nat \<times> nat \<times> nat \<times> nat" where
  "civil_key c = (c_year c, c_month c, c_day c, c_hour c, c_min c, c_sec c, c_nsec c)"

definition civil_before :: "civil \<Rightarrow> civil \<Rightarrow> bool" where
  "civil_before a b \<longleftrightarrow> civil_key a < civil_key b"

lemma days_in_bound: "days_in y m < 100"
  by (simp add: days_in_def)

lemma civil_ok_bounds:
  assumes "civil_ok c"
  shows "c_year c < 10 ^ 4" "c_month c < 10 ^ 2" "c_day c < 10 ^ 2" "c_hour c < 10 ^ 2"
    "c_min c < 10 ^ 2" "c_sec c < 10 ^ 2" "c_nsec c < 10 ^ 9"
  using assms days_in_bound [of "c_year c" "c_month c"] by (auto simp: civil_ok_def)

lemma pad_field_less_iff:
  "m < 10 ^ w \<Longrightarrow> n < 10 ^ w \<Longrightarrow> 0 < w \<Longrightarrow>
   pad_nat w m @ d # u < pad_nat w n @ d # v \<longleftrightarrow> m < n \<or> m = n \<and> u < v"
  by (simp add: append_less_iff pad_nat_length pad_nat_less_iff)

lemma pair_less_iff: "(a, b) < (c, d) \<longleftrightarrow> a < c \<or> a = c \<and> b < d" for a c :: "'a::order"
  by (auto simp: less_prod_def)

lemma time_to_db_key_less:
  assumes "civil_ok a" "civil_ok b"
  shows "time_to_db a < time_to_db b \<longleftrightarrow> civil_before a b"
  using civil_ok_bounds [OF assms(1)] civil_ok_bounds [OF assms(2)]
  by (simp add: time_to_db_def civil_before_def civil_key_def pad_field_less_iff pair_less_iff del: less_prod_simp)

section \<open>Properties of the store\<close>

text \<open>The timestamp encoding is order preserving: for well-formed UTC times up to the year
  9999 the stored strings compare (byte-wise, as both engines compare them) exactly as the times
  do chronologically.  Every comparison of timestamps in SQL rests on it.\<close>

lemma time_to_db_order:
  assumes "civil_ok a" "civil_ok b"
  shows "(time_to_db a < time_to_db b \<longleftrightarrow> civil_before a b)
    \<and> length (time_to_db a) = length (time_to_db b)"
  using time_to_db_key_less [OF assms] civil_ok_bounds [OF assms(1)] civil_ok_bounds [OF assms(2)]
  by (simp add: time_to_db_def pad_nat_length)

definition witness_time :: "nat \<Rightarrow> nat \<Rightarrow> civil" where
  "witness_time d ns = \<lparr>c_year = 2024, c_month = 2, c_day = d, c_hour = 9, c_min = 5, c_sec = 0,
     c_nsec = ns\<rparr>"

lemma witness_time_ok: "1 \<le> d \<Longrightarrow> d \<le> 29 \<Longrightarrow> ns < 1000000000 \<Longrightarrow> civil_ok (witness_time d ns)"
  by (simp add: civil_ok_def witness_time_def days_in_def leap_year_def)

lemma time_to_db_order_witness:
  "time_to_db (witness_time 9 999999999) < time_to_db (witness_time 29 1)"
  using time_to_db_order [of "witness_time 9 999999999" "witness_time 29 1"]
  by (simp add: witness_time_ok)
    (simp add: civil_before_def civil_key_def witness_time_def)

text \<open>A stored timestamp reads back as the time that was written.\<close>

lemma time_db_roundtrip:
  assumes "civil_ok c"
  shows "time_from_db (time_to_db c) = Some c"
  using civil_ok_bounds [OF assms] assms
  by (cases c) (simp add: time_from_db_def time_to_db_def Let_def)

lemma time_db_roundtrip_witness:
  "time_from_db (time_to_db (witness_time 29 7)) = Some (witness_time 29 7)"
  by (rule time_db_roundtrip) (simp add: witness_time_ok)

text \<open>Rewriting placeholders for SQLite changes exactly the dollar signs in front of a digit, to
  question marks; every other byte and the length of the query stay, and other drivers get the
  query as written.\<close>

lemma Rebind_effect:
  "Rebind Postgres q = q
   \<and> length (Rebind SQLite q) = length q
   \<and> Rebind SQLite q = map (\<lambda>i. if q ! i = CHR ''$'' \<and> Suc i < length q \<and> is_digit (q ! Suc i)
        then CHR ''?'' else q ! i) [0..<length q]"
proof -
  have "rebind_loop q = map (\<lambda>i. rebind_loop q ! i) [0..<length q]"
    by (metis map_nth rebind_loop_length)
  also have "\<dots> = map (\<lambda>i. if q ! i = CHR ''$'' \<and> Suc i < length q \<and> is_digit (q ! Suc i)
        then CHR ''?'' else q ! i) [0..<length q]"
    by (rule map_cong [OF refl]) (simp add: rebind_loop_nth)
  finally show ?thesis by (simp add: Rebind_def rebind_loop_length)
qed

text \<open>A quoted text is one SQL string literal with the text as its value, whatever quotes it
  contains: nothing of it can end the literal early.\<close>

lemma sqliteQuote_roundtrip:
  "read_literal (sqliteQuote s) = Some (s, [])"
  using read_literal_body_quoted [of "[]" s] by (simp add: sqliteQuote_def)

end
