(* ===== verification/Region.thy ===== *)
theory Region
  imports Db "HOL-Library.Multiset"
begin

text \<open>
  The package \<open>internal/region\<close>, first part: the regions and their members (\<open>region.go\<close>), the open
  inbox streams that make a member listening, the inbox bindings (\<open>inbox_binding.go\<close>) and the delivery
  diagnostics (\<open>message_diagnostics.go\<close>).  The record \<open>hub\<close> holds the tables of the store and its
  process-local presence map; work claims and messages are added to it by the theories \<open>Claims\<close> and
  \<open>Messages\<close>.
\<close>

section \<open>The store\<close>

record region_row =
  re_ns :: string
  re_title :: string
  re_created_at :: instant

record member =
  me_ns :: string
  me_agent :: string
  me_role :: string
  me_joined_at :: instant
  me_last_seen :: "instant option"

record binding_row =
  ib_agent :: string
  ib_ns :: string
  ib_set_by :: string
  ib_set_at :: instant

record diag_row =
  di_ns :: string
  di_agent :: string
  di_client :: string
  di_mode :: string
  di_state :: string
  di_last_attempt :: "instant option"
  di_next_attempt :: "instant option"
  di_last_error :: string
  di_pending :: int
  di_wakes :: int
  di_updated_at :: instant

record claim =
  cl_ns :: string
  cl_key :: string
  cl_holder :: string
  cl_claimed_at :: instant
  cl_expires_at :: instant
  cl_released_at :: "instant option"

record message =
  ms_seq :: nat
  ms_id :: string
  ms_ns :: string
  ms_sender :: string
  ms_recipient :: string
  ms_body :: string
  ms_task :: string
  ms_reply_to :: string
  ms_key :: "string option"
  ms_created_at :: instant
  ms_acked_at :: "instant option"
  ms_leased_until :: "instant option"
  ms_leased_by :: "string option"

text \<open>\<open>hu_streams\<close> are the inbox streams whose release has not been called, by the number \<open>Attach\<close> gave
  them; \<open>hu_presence\<close> is the nested map of counts, where an absent entry counts zero.\<close>

record hub =
  hu_driver :: driver
  hu_regions :: "region_row list"
  hu_members :: "member list"
  hu_bindings :: "binding_row list"
  hu_diags :: "diag_row list"
  hu_claims :: "claim list"
  hu_messages :: "message list"
  hu_next_seq :: nat
  hu_presence :: "string \<times> string \<Rightarrow> nat"
  hu_streams :: "(nat \<times> string \<times> string) list"
  hu_next_stream :: nat

datatype hub_error =
    RegionRequired
  | NotMember
  | Claimed string string
  | ClaimRequired
  | NoLiveClaim string string
  | MessageInvalid string
  | MessageNotFound
  | MessageConflict
  | MessageBacklog
  | MessageBlocked string string
  | MessageDuplicate

definition is_member :: "string \<Rightarrow> string \<Rightarrow> hub \<Rightarrow> bool" where
  "is_member ns agent h \<longleftrightarrow> (\<exists>m \<in> set (hu_members h). me_ns m = ns \<and> me_agent m = agent)"

definition at_member :: "string \<Rightarrow> string \<Rightarrow> member \<Rightarrow> bool" where
  "at_member ns agent m \<longleftrightarrow> me_ns m = ns \<and> me_agent m = agent"

section \<open>Members\<close>

definition Ensure :: "instant \<Rightarrow> string \<Rightarrow> string \<Rightarrow> hub \<Rightarrow> hub" where
  "Ensure now ns title h =
     (if \<exists>r \<in> set (hu_regions h). re_ns r = ns then h
      else h\<lparr>hu_regions := hu_regions h @ [\<lparr>re_ns = ns, re_title = title, re_created_at = now\<rparr>]\<rparr>)"

definition Register :: "clock \<Rightarrow> string \<Rightarrow> string \<Rightarrow> string \<Rightarrow> (hub, hub_error, unit) op" where
  "Register now ns agent role h =
     (if ns = [] \<or> agent = [] then (Inl RegionRequired, h)
      else
        let h1 = Ensure (now 0) ns [] h in
        (Inr (), h1\<lparr>hu_members :=
          (if is_member ns agent h1
           then update_where (at_member ns agent)
             (\<lambda>m. m\<lparr>me_role := role, me_last_seen := Some (now 1)\<rparr>) (hu_members h1)
           else hu_members h1 @ [\<lparr>me_ns = ns, me_agent = agent, me_role = role,
             me_joined_at = now 1, me_last_seen = Some (now 1)\<rparr>])\<rparr>))"

definition Touch :: "instant \<Rightarrow> string \<Rightarrow> string \<Rightarrow> hub \<Rightarrow> hub" where
  "Touch now ns agent h =
     (if ns = [] \<or> agent = [] then h
      else h\<lparr>hu_members := update_where (at_member ns agent)
        (\<lambda>m. m\<lparr>me_last_seen := Some now\<rparr>) (hu_members h)\<rparr>)"

definition deleteMessageDiagnostic :: "string \<Rightarrow> string \<Rightarrow> hub \<Rightarrow> hub" where
  "deleteMessageDiagnostic ns agent h =
     h\<lparr>hu_diags := filter (\<lambda>d. \<not> (di_ns d = ns \<and> di_agent d = agent)) (hu_diags h)\<rparr>"

definition remove_member_body :: "string \<Rightarrow> string \<Rightarrow> (hub, hub_error, bool) op" where
  "remove_member_body ns agent h =
     (Inr (is_member ns agent h),
      deleteMessageDiagnostic ns agent
        (h\<lparr>hu_members := filter (\<lambda>m. \<not> at_member ns agent m) (hu_members h)\<rparr>))"

definition RemoveMember :: "string \<Rightarrow> string \<Rightarrow> (hub, hub_error, bool) op" where
  "RemoveMember ns agent = with_tx (remove_member_body ns agent)"

definition Deregister :: "string \<Rightarrow> string \<Rightarrow> (hub, hub_error, unit) op" where
  "Deregister ns agent h = (case RemoveMember ns agent h of
      (Inl e, h') \<Rightarrow> (Inl e, h') | (Inr _, h') \<Rightarrow> (Inr (), h'))"

definition Members :: "string \<Rightarrow> hub \<Rightarrow> member list" where
  "Members ns h = sort_key me_agent (filter (\<lambda>m. me_ns m = ns) (hu_members h))"

definition Regions :: "string \<Rightarrow> hub \<Rightarrow> member list" where
  "Regions agent h = sort_key me_ns (filter (\<lambda>m. me_agent m = agent) (hu_members h))"

definition AllNamespaces :: "hub \<Rightarrow> string list" where
  "AllNamespaces h = sort (map re_ns (hu_regions h))"

fun register_all :: "clock \<Rightarrow> string \<Rightarrow> string list \<Rightarrow> (hub, hub_error, unit) op" where
  "register_all now agent [] h = (Inr (), h)"
| "register_all now agent (ns # nss) h =
     (case Register now ns agent ''declared'' h of
        (Inl e, h') \<Rightarrow> (Inl e, h')
      | (Inr _, h') \<Rightarrow> register_all (clock_later 2 now) agent nss h')"

fun SyncFromSpecs :: "clock \<Rightarrow> (string \<times> string list) list \<Rightarrow> (hub, hub_error, unit) op" where
  "SyncFromSpecs now [] h = (Inr (), h)"
| "SyncFromSpecs now ((agent, nss) # rest) h =
     (case register_all now agent nss h of
        (Inl e, h') \<Rightarrow> (Inl e, h')
      | (Inr _, h') \<Rightarrow> SyncFromSpecs (clock_later (2 * length nss) now) rest h')"

section \<open>Presence\<close>

text \<open>\<open>Attach\<close> gives the number of the stream whose release the caller holds, or nothing when the release
  does nothing; \<open>release\<close> is that closure, with its \<open>sync.Once\<close>.\<close>

definition Attach :: "string \<Rightarrow> string \<Rightarrow> hub \<Rightarrow> nat option \<times> hub" where
  "Attach ns agent h =
     (if ns = [] \<or> agent = [] then (None, h)
      else (Some (hu_next_stream h),
        h\<lparr>hu_presence := (hu_presence h)((ns, agent) := hu_presence h (ns, agent) + 1),
          hu_streams := (hu_next_stream h, ns, agent) # hu_streams h,
          hu_next_stream := Suc (hu_next_stream h)\<rparr>))"

definition release :: "nat \<Rightarrow> hub \<Rightarrow> hub" where
  "release tok h =
     (case map_of (hu_streams h) tok of
        None \<Rightarrow> h
      | Some at_agent \<Rightarrow>
          h\<lparr>hu_presence := (hu_presence h)(at_agent :=
               (if hu_presence h at_agent \<le> 1 then 0 else hu_presence h at_agent - 1)),
            hu_streams := filter (\<lambda>(t, _). t \<noteq> tok) (hu_streams h)\<rparr>)"

definition Listening :: "string \<Rightarrow> string \<Rightarrow> hub \<Rightarrow> bool" where
  "Listening ns agent h \<longleftrightarrow> hu_presence h (ns, agent) > 0"

definition MemberStatuses :: "string \<Rightarrow> hub \<Rightarrow> (member \<times> bool) list" where
  "MemberStatuses ns h = map (\<lambda>m. (m, Listening (me_ns m) (me_agent m) h)) (Members ns h)"

definition Active :: "instant \<Rightarrow> member \<times> bool \<Rightarrow> duration \<Rightarrow> bool" where
  "Active now ml within = (case ml of (m, listening) \<Rightarrow>
     listening \<or> (case me_last_seen m of None \<Rightarrow> False | Some seen \<Rightarrow> \<not> seen < now - within))"

text \<open>\<open>ExpireMembers\<close> selects the members not seen since the cutoff and removes, one transaction each,
  those that are not listening when their turn comes.\<close>

definition last_sign :: "member \<Rightarrow> instant" where
  "last_sign m = (case me_last_seen m of None \<Rightarrow> me_joined_at m | Some x \<Rightarrow> x)"

fun expire_loop :: "(string \<times> string) list \<Rightarrow> nat \<Rightarrow> (hub, nat \<times> hub_error, nat) op" where
  "expire_loop [] n h = (Inr n, h)"
| "expire_loop ((ns, agent) # cs) n h =
     (if Listening ns agent h then expire_loop cs n h
      else case RemoveMember ns agent h of
        (Inl e, h') \<Rightarrow> (Inl (n, e), h')
      | (Inr removed, h') \<Rightarrow> expire_loop cs (if removed then Suc n else n) h')"

definition ExpireMembers :: "instant \<Rightarrow> duration \<Rightarrow> (hub, nat \<times> hub_error, nat) op" where
  "ExpireMembers now olderThan h =
     (if olderThan \<le> 0 then (Inr 0, h)
      else expire_loop (map (\<lambda>m. (me_ns m, me_agent m))
        (filter (\<lambda>m. last_sign m < now - olderThan) (hu_members h))) 0 h)"

section \<open>Inbox bindings\<close>

definition SetInboxBindingAs ::
  "instant \<Rightarrow> string \<Rightarrow> string \<Rightarrow> string \<Rightarrow> (hub, hub_error, unit) op" where
  "SetInboxBindingAs now ns agent setBy h =
     (if ns = [] \<or> agent = [] then (Inl RegionRequired, h)
      else if \<not> is_member ns agent h then (Inl NotMember, h)
      else (Inr (), h\<lparr>hu_bindings :=
        (if \<exists>b \<in> set (hu_bindings h). ib_agent b = agent
         then update_where (\<lambda>b. ib_agent b = agent)
           (\<lambda>b. b\<lparr>ib_ns := ns, ib_set_by := setBy, ib_set_at := now\<rparr>) (hu_bindings h)
         else hu_bindings h @ [\<lparr>ib_agent = agent, ib_ns = ns, ib_set_by = setBy,
           ib_set_at = now\<rparr>])\<rparr>))"

definition SetInboxBinding :: "instant \<Rightarrow> string \<Rightarrow> string \<Rightarrow> (hub, hub_error, unit) op" where
  "SetInboxBinding now ns agent = SetInboxBindingAs now ns agent []"

definition InboxBindingInfo :: "string \<Rightarrow> hub \<Rightarrow> (string \<times> string \<times> instant) option" where
  "InboxBindingInfo agent h =
     (if agent = [] then None
      else map_option (\<lambda>b. (ib_ns b, ib_set_by b, ib_set_at b))
        (find (\<lambda>b. ib_agent b = agent) (hu_bindings h)))"

definition InboxBinding :: "string \<Rightarrow> hub \<Rightarrow> string option" where
  "InboxBinding agent h = map_option fst (InboxBindingInfo agent h)"

section \<open>Identifiers\<close>

definition MaxMessageIDLen :: nat where "MaxMessageIDLen = 256"

text \<open>\<open>checkIdent\<close>: the violation, if any.\<close>

definition checkIdent :: "string \<Rightarrow> string \<Rightarrow> bool \<Rightarrow> hub_error + unit" where
  "checkIdent field v required =
     (if v = [] then (if required then Inl (MessageInvalid field) else Inr ())
      else if length v > MaxMessageIDLen then Inl (MessageInvalid field)
      else if \<not> valid_utf8 v \<or> trim_space v \<noteq> v then Inl (MessageInvalid field)
      else if list_ex is_control (runes v) then Inl (MessageInvalid field)
      else Inr ())"

definition checkNamespace :: "string \<Rightarrow> hub_error + unit" where
  "checkNamespace ns =
     (case checkIdent ''namespace'' ns True of
        Inl e \<Rightarrow> Inl e
      | Inr _ \<Rightarrow> if CHR '':'' \<in> set ns then Inl (MessageInvalid ''namespace'') else Inr ())"

definition checkInbox :: "string \<Rightarrow> string \<Rightarrow> hub_error + unit" where
  "checkInbox ns agent =
     (case checkNamespace ns of Inl e \<Rightarrow> Inl e | Inr _ \<Rightarrow> checkIdent ''agent'' agent True)"

section \<open>Delivery diagnostics\<close>

definition MessageDiagnosticStaleAfter :: duration where
  "MessageDiagnosticStaleAfter = 120 * second"

definition MaxMessageDiagnosticCount :: int where "MaxMessageDiagnosticCount = 10000"
definition MaxMessageDiagnosticList :: nat where "MaxMessageDiagnosticList = 1000"

definition diagnosticModes :: "string list" where
  "diagnosticModes = [''idle_wake'', ''hook_continuation'', ''catch_up'']"

definition diagnosticStates :: "string list" where
  "diagnosticStates = [''ready'', ''waiting_for_idle'', ''waiting_for_next_prompt'',
     ''wake_budget_exhausted'', ''sender_filtered'', ''delivery_failed'', ''handoff_unconfirmed'',
     ''disabled'']"

record diag_input =
  dg_ns :: string
  dg_agent :: string
  dg_client :: string
  dg_mode :: string
  dg_state :: string
  dg_last_attempt :: string
  dg_next_attempt :: string
  dg_last_error :: string
  dg_pending :: int
  dg_wakes :: int

definition diag_char :: "char \<Rightarrow> bool" where
  "diag_char c \<longleftrightarrow> in_range 97 122 (byte c) \<or> in_range 48 57 (byte c)"

definition checkDiagToken :: "string \<Rightarrow> string \<Rightarrow> string \<Rightarrow> bool \<Rightarrow> hub_error + unit" where
  "checkDiagToken field v extra required =
     (if v = [] then (if required then Inl (MessageInvalid field) else Inr ())
      else if length v > 64 then Inl (MessageInvalid field)
      else if diag_char (hd v) \<and> list_all (\<lambda>c. diag_char c \<or> c \<in> set extra) (tl v) then Inr ()
      else Inl (MessageInvalid field))"

text \<open>\<open>time.Parse(time.RFC3339Nano, v)\<close> is the parameter \<open>rfc3339\<close>.\<close>

definition normalizeDiagTime ::
  "(string \<Rightarrow> instant option) \<Rightarrow> string \<Rightarrow> string \<Rightarrow> hub_error + instant option" where
  "normalizeDiagTime rfc3339 field v =
     (if v = [] then Inr None
      else if length v > 64 then Inl (MessageInvalid field)
      else case rfc3339 v of None \<Rightarrow> Inl (MessageInvalid field) | Some t \<Rightarrow> Inr (Some t))"

definition checkDiagCount :: "string \<Rightarrow> int \<Rightarrow> hub_error + unit" where
  "checkDiagCount field n =
     (if n < 0 \<or> n > MaxMessageDiagnosticCount then Inl (MessageInvalid field) else Inr ())"

text \<open>Checks in sequence: the first violation wins.\<close>

fun first_error :: "('e + unit) list \<Rightarrow> 'e + unit" where
  "first_error [] = Inr ()"
| "first_error (Inl e # rs) = Inl e"
| "first_error (Inr _ # rs) = first_error rs"

definition require :: "bool \<Rightarrow> string \<Rightarrow> hub_error + unit" where
  "require b field = (if b then Inr () else Inl (MessageInvalid field))"

definition diag_validate ::
  "(string \<Rightarrow> instant option) \<Rightarrow> diag_input \<Rightarrow> hub_error + instant option \<times> instant option" where
  "diag_validate rfc3339 inp =
     (case first_error
        [checkInbox (dg_ns inp) (dg_agent inp),
         checkDiagToken ''client'' (dg_client inp) ''._-'' True,
         require (dg_mode inp \<in> set diagnosticModes) ''delivery_mode'',
         require (dg_state inp \<in> set diagnosticStates) ''state'',
         checkDiagToken ''last_error'' (dg_last_error inp) ''_.:-'' False,
         checkDiagCount ''pending_ack_count'' (dg_pending inp),
         checkDiagCount ''wake_count'' (dg_wakes inp)] of
        Inl e \<Rightarrow> Inl e
      | Inr _ \<Rightarrow>
          (case normalizeDiagTime rfc3339 ''last_attempt_at'' (dg_last_attempt inp) of
             Inl e \<Rightarrow> Inl e
           | Inr last_at \<Rightarrow>
               (case normalizeDiagTime rfc3339 ''next_attempt_at'' (dg_next_attempt inp) of
                  Inl e \<Rightarrow> Inl e
                | Inr next_at \<Rightarrow> Inr (last_at, next_at))))"

definition diag_row_of ::
  "instant \<Rightarrow> instant option \<Rightarrow> instant option \<Rightarrow> diag_input \<Rightarrow> diag_row" where
  "diag_row_of now last_at next_at inp =
     \<lparr>di_ns = dg_ns inp, di_agent = dg_agent inp, di_client = dg_client inp, di_mode = dg_mode inp,
      di_state = dg_state inp, di_last_attempt = last_at, di_next_attempt = next_at,
      di_last_error = dg_last_error inp, di_pending = dg_pending inp, di_wakes = dg_wakes inp,
      di_updated_at = now\<rparr>"

definition upsert_diag :: "diag_row \<Rightarrow> diag_row list \<Rightarrow> diag_row list" where
  "upsert_diag d ds =
     (if \<exists>e \<in> set ds. di_ns e = di_ns d \<and> di_agent e = di_agent d
      then update_where (\<lambda>e. di_ns e = di_ns d \<and> di_agent e = di_agent d) (\<lambda>_. d) ds
      else ds @ [d])"

definition record_diag_body ::
  "instant \<Rightarrow> instant option \<Rightarrow> instant option \<Rightarrow> diag_input \<Rightarrow> (hub, hub_error, unit) op" where
  "record_diag_body now last_at next_at inp h =
     (if \<not> is_member (dg_ns inp) (dg_agent inp) h then (Inl MessageNotFound, h)
      else (Inr (), h\<lparr>hu_diags := upsert_diag (diag_row_of now last_at next_at inp) (hu_diags h)\<rparr>))"

definition RecordMessageDiagnostic ::
  "(string \<Rightarrow> instant option) \<Rightarrow> instant \<Rightarrow> diag_input \<Rightarrow> (hub, hub_error, unit) op" where
  "RecordMessageDiagnostic rfc3339 now inp h =
     (case diag_validate rfc3339 inp of
        Inl e \<Rightarrow> (Inl e, h)
      | Inr (last_at, next_at) \<Rightarrow> with_tx (record_diag_body now last_at next_at inp) h)"

definition MessageDiagnostics ::
  "instant \<Rightarrow> string \<Rightarrow> string \<Rightarrow> hub \<Rightarrow> hub_error + (diag_row \<times> bool) list" where
  "MessageDiagnostics now ns agent h =
     (case first_error [checkNamespace ns, checkIdent ''agent'' agent False] of
        Inl e \<Rightarrow> Inl e
      | Inr _ \<Rightarrow> Inr (map (\<lambda>d. (d, di_updated_at d < now - MessageDiagnosticStaleAfter))
          (take MaxMessageDiagnosticList (sort_key di_agent
            (filter (\<lambda>d. di_ns d = ns \<and> (agent \<noteq> [] \<longrightarrow> di_agent d = agent)) (hu_diags h))))))"

section \<open>Presence counts the open streams\<close>

definition open_streams :: "string \<times> string \<Rightarrow> hub \<Rightarrow> (nat \<times> string \<times> string) list" where
  "open_streams at_agent h = filter (\<lambda>(_, a). a = at_agent) (hu_streams h)"

text \<open>The invariant of the presence map: stream numbers are used once, and the count of an address is
  the number of its streams not yet released.\<close>

definition presence_ok :: "hub \<Rightarrow> bool" where
  "presence_ok h \<longleftrightarrow> distinct (map fst (hu_streams h))
     \<and> (\<forall>(t, _) \<in> set (hu_streams h). t < hu_next_stream h)
     \<and> (\<forall>a. hu_presence h a = length (open_streams a h))"

lemma Attach_presence:
  assumes "presence_ok h"
  shows "presence_ok (snd (Attach ns agent h))"
  using assms
  by (auto simp: Attach_def presence_ok_def open_streams_def less_Suc_eq)

lemma filter_token_at:
  "distinct (map fst xs) \<Longrightarrow> (tok, a) \<in> set xs \<Longrightarrow>
   length (filter (\<lambda>(_, b). b = a) (filter (\<lambda>(t, _). t \<noteq> tok) xs)) + 1 =
   length (filter (\<lambda>(_, b). b = a) xs)"
proof (induction xs)
  case Nil
  then show ?case by simp
next
  case (Cons x xs)
  have rest: "filter (\<lambda>(t, _). t \<noteq> tok) xs = xs" if "fst x = tok"
    using Cons.prems(1) that by (auto simp: filter_id_conv image_iff)
  show ?case
  proof (cases "fst x = tok")
    case True
    then have "x = (tok, a)" using Cons.prems by (auto simp: image_iff)
    then show ?thesis using rest by simp
  next
    case False
    then show ?thesis using Cons by (cases x) auto
  qed
qed

lemma filter_token_other:
  assumes "distinct (map fst xs)" and "(tok, a) \<in> set xs" and "c \<noteq> a"
  shows "filter (\<lambda>(_, b). b = c) (filter (\<lambda>(t, _). t \<noteq> tok) xs) = filter (\<lambda>(_, b). b = c) xs"
proof -
  have "t \<noteq> tok" if "(t, c) \<in> set xs" for t
    using distinct_key_eq [OF assms(1) that assms(2)] assms(3) by auto
  then show ?thesis unfolding filter_filter by (intro filter_cong) auto
qed

lemma release_presence:
  assumes "presence_ok h"
  shows "presence_ok (release tok h)"
proof (cases "map_of (hu_streams h) tok")
  case None
  then show ?thesis using assms by (simp add: release_def)
next
  case (Some a)
  have d: "distinct (map fst (hu_streams h))" using assms by (simp add: presence_ok_def)
  have mem: "(tok, a) \<in> set (hu_streams h)" by (rule map_of_SomeD [OF Some])
  have cnt: "hu_presence h b = length (open_streams b h)" for b
    using assms unfolding presence_ok_def by blast
  have own: "length (open_streams a (release tok h)) + 1 = length (open_streams a h)"
    using filter_token_at [OF d mem] by (simp add: open_streams_def release_def Some)
  have other: "open_streams b (release tok h) = open_streams b h" if "b \<noteq> a" for b
    using filter_token_other [OF d mem that] by (simp add: open_streams_def release_def Some)
  have "hu_presence (release tok h) b = (if b = a then hu_presence h a - 1 else hu_presence h b)" for b
    by (simp add: release_def Some)
  then have "hu_presence (release tok h) b = length (open_streams b (release tok h))" for b
    using own other [of b] cnt [of b] cnt [of a] by (cases "b = a") simp_all
  then show ?thesis
    using assms by (auto simp: presence_ok_def release_def Some distinct_map_filter)
qed

section \<open>Plain identifiers\<close>

lemma checkIdent_plain:
  assumes "list_all graphic v" and "v \<noteq> []" and "length v \<le> 256"
  shows "checkIdent field v required = Inr ()"
  using assms
  by (simp add: checkIdent_def MaxMessageIDLen_def valid_utf8_graphic trim_space_plain no_control_graphic)

lemma checkIdent_empty: "checkIdent field [] False = Inr ()"
  by (simp add: checkIdent_def)

lemma checkNamespace_plain:
  assumes "list_all graphic ns" and "ns \<noteq> []" and "length ns \<le> 256" and "CHR '':'' \<notin> set ns"
  shows "checkNamespace ns = Inr ()"
  using assms by (simp add: checkNamespace_def checkIdent_plain)

lemma checkInbox_plain:
  assumes "list_all graphic ns" and "ns \<noteq> []" and "length ns \<le> 256" and "CHR '':'' \<notin> set ns"
    and "list_all graphic agent" and "agent \<noteq> []" and "length agent \<le> 256"
  shows "checkInbox ns agent = Inr ()"
  using assms by (simp add: checkInbox_def checkNamespace_plain checkIdent_plain)

lemmas plain_checks = checkIdent_plain checkIdent_empty checkNamespace_plain checkInbox_plain
  graphic_def in_range_def byte_def

end
