(* ===== verification/Claims.thy ===== *)
theory Claims
  imports Region
begin

text \<open>
  Work leases (\<open>internal/region/claim.go\<close>).  A claim is taken in one transaction that reads the latest
  unreleased claim of the key and, unless another holder's is still live, releases what is there and
  inserts a new one.  The read (\<open>claim_read\<close>) and the writes (\<open>claim_write\<close>) are separate definitions, so
  that their interleaving can be stated.
\<close>

section \<open>The operations\<close>

definition unreleased :: "string \<Rightarrow> string \<Rightarrow> claim \<Rightarrow> bool" where
  "unreleased ns key c \<longleftrightarrow> cl_ns c = ns \<and> cl_key c = key \<and> cl_released_at c = None"

text \<open>\<open>ORDER BY id DESC LIMIT 1\<close>: rows are kept in the order of their identifiers.\<close>

definition latest_claim :: "string \<Rightarrow> string \<Rightarrow> hub \<Rightarrow> claim option" where
  "latest_claim ns key h = find (unreleased ns key) (rev (hu_claims h))"

text \<open>What the transaction read: nothing, a claim to release first, or another holder's live claim.\<close>

definition claim_read :: "instant \<Rightarrow> string \<Rightarrow> string \<Rightarrow> string \<Rightarrow> hub \<Rightarrow> hub_error + bool" where
  "claim_read now ns key holder h =
     (case latest_claim ns key h of
        None \<Rightarrow> Inr False
      | Some c \<Rightarrow>
          if cl_expires_at c > now \<and> cl_holder c \<noteq> holder then Inl (Claimed key (cl_holder c))
          else Inr True)"

definition release_claims :: "instant \<Rightarrow> (claim \<Rightarrow> bool) \<Rightarrow> hub \<Rightarrow> hub" where
  "release_claims now P h =
     h\<lparr>hu_claims := update_where P (\<lambda>c. c\<lparr>cl_released_at := Some now\<rparr>) (hu_claims h)\<rparr>"

definition new_claim :: "instant \<Rightarrow> duration \<Rightarrow> string \<Rightarrow> string \<Rightarrow> string \<Rightarrow> claim" where
  "new_claim now ttl ns key holder =
     \<lparr>cl_ns = ns, cl_key = key, cl_holder = holder, cl_claimed_at = now,
      cl_expires_at = now + ttl, cl_released_at = None\<rparr>"

definition claim_write ::
  "instant \<Rightarrow> duration \<Rightarrow> string \<Rightarrow> string \<Rightarrow> string \<Rightarrow> bool \<Rightarrow> hub \<Rightarrow> hub" where
  "claim_write now ttl ns key holder found h =
     (let h1 = (if found then release_claims now (unreleased ns key) h else h) in
      h1\<lparr>hu_claims := hu_claims h1 @ [new_claim now ttl ns key holder]\<rparr>)"

definition claim_work_body ::
  "instant \<Rightarrow> string \<Rightarrow> string \<Rightarrow> string \<Rightarrow> duration \<Rightarrow> (hub, hub_error, unit) op" where
  "claim_work_body now ns key holder ttl h =
     (case claim_read now ns key holder h of
        Inl e \<Rightarrow> (Inl e, h)
      | Inr found \<Rightarrow> (Inr (), claim_write now ttl ns key holder found h))"

definition ClaimWork ::
  "instant \<Rightarrow> string \<Rightarrow> string \<Rightarrow> string \<Rightarrow> duration \<Rightarrow> (hub, hub_error, claim) op" where
  "ClaimWork now ns key holder ttl h =
     (if ns = [] \<or> key = [] \<or> holder = [] then (Inl ClaimRequired, h)
      else case with_tx (claim_work_body now ns key holder ttl) h of
        (Inl e, h') \<Rightarrow> (Inl e, h')
      | (Inr _, h') \<Rightarrow> (Inr (new_claim now ttl ns key holder), h'))"

definition ReleaseWork ::
  "instant \<Rightarrow> string \<Rightarrow> string \<Rightarrow> string \<Rightarrow> (hub, hub_error, unit) op" where
  "ReleaseWork now ns key holder h =
     (let P = (\<lambda>c. unreleased ns key c \<and> cl_holder c = holder) in
      if rows_affected P (hu_claims h) = 0
      then (Inl (NoLiveClaim key holder), release_claims now P h)
      else (Inr (), release_claims now P h))"

definition ListClaims :: "instant \<Rightarrow> string \<Rightarrow> hub \<Rightarrow> claim list" where
  "ListClaims now ns h =
     sort_key cl_key
       (filter (\<lambda>c. cl_ns c = ns \<and> cl_released_at c = None \<and> cl_expires_at c > now) (hu_claims h))"

section \<open>Leases\<close>

text \<open>
  The contract of a lease service: who holds a key at a time, and what acquiring and releasing do.  A
  client that only uses this contract gets mutual exclusion.
\<close>

locale lease_service =
  fixes holder_at :: "'s \<Rightarrow> 'k \<Rightarrow> instant \<Rightarrow> 'h option"
    and acquire :: "instant \<Rightarrow> duration \<Rightarrow> 'k \<Rightarrow> 'h \<Rightarrow> 's \<Rightarrow> bool \<times> 's"
    and release_lease :: "instant \<Rightarrow> 'k \<Rightarrow> 'h \<Rightarrow> 's \<Rightarrow> 's"
    and good :: "'s \<Rightarrow> bool"
  assumes refused: "good s \<Longrightarrow> holder_at s k now = Some g \<Longrightarrow> g \<noteq> h \<Longrightarrow>
      acquire now ttl k h s = (False, s)"
    and granted: "good s \<Longrightarrow> holder_at s k now \<in> {None, Some h} \<Longrightarrow> \<exists>s'.
      acquire now ttl k h s = (True, s') \<and> good s'
      \<and> (\<forall>t. holder_at s' k t = (if t < now + ttl then Some h else None))
      \<and> (\<forall>j t. j \<noteq> k \<longrightarrow> holder_at s' j t = holder_at s j t)"
    and released: "good s \<Longrightarrow> good (release_lease now k h s)
      \<and> (\<forall>t. holder_at (release_lease now k h s) k t =
           (if holder_at s k t = Some h then None else holder_at s k t))
      \<and> (\<forall>j t. j \<noteq> k \<longrightarrow> holder_at (release_lease now k h s) j t = holder_at s j t)"
begin

lemma acquire_cases:
  assumes "good s"
  obtains (yes) s' where "acquire now ttl k h s = (True, s')" "good s'"
      "holder_at s k now \<in> {None, Some h}"
      "\<forall>t. holder_at s' k t = (if t < now + ttl then Some h else None)"
      "\<forall>j t. j \<noteq> k \<longrightarrow> holder_at s' j t = holder_at s j t"
  | (no) g where "acquire now ttl k h s = (False, s)" "holder_at s k now = Some g" "g \<noteq> h"
proof (cases "holder_at s k now \<in> {None, Some h}")
  case True
  then show thesis using yes granted [OF assms True] by blast
next
  case False
  then obtain g where "holder_at s k now = Some g" "g \<noteq> h" by auto
  then show thesis using no refused [OF assms] by blast
qed

text \<open>While a lease runs, every other claimant is refused and the holder stays.\<close>

lemma exclusive:
  assumes "good s" and "acquire t0 ttl k h s = (True, s')" and "t < t0 + ttl" and "g \<noteq> h"
  shows "acquire t ttl' k g s' = (False, s')"
  using assms(1)
proof (cases rule: acquire_cases [of s t0 ttl k h])
  case (yes s'')
  then have "good s'" "holder_at s' k t = Some h" using assms(2,3) by auto
  then show ?thesis using refused assms(4) by metis
next
  case (no g')
  then show ?thesis using assms(2) by simp
qed

text \<open>A lapsed or released lease can be taken by anybody.\<close>

lemma available:
  assumes "good s" and "acquire t0 ttl k h s = (True, s')" and "t0 + ttl \<le> t"
  shows "fst (acquire t ttl' k g s')"
  using assms(1)
proof (cases rule: acquire_cases [of s t0 ttl k h])
  case (yes s'')
  then have "good s'" "holder_at s' k t = None" using assms(2,3) by auto
  then show ?thesis using granted [of s' k t g ttl'] by auto
next
  case (no g')
  then show ?thesis using assms(2) by simp
qed

lemma handed_over:
  assumes "good s" and "acquire t0 ttl k h s = (True, s')"
  shows "fst (acquire t ttl' k g (release_lease t k h s'))"
  using assms(1)
proof (cases rule: acquire_cases [of s t0 ttl k h])
  case (yes s'')
  then have good: "good s'" and at: "holder_at s' k t \<in> {None, Some h}"
    using assms(2) by (auto split: if_splits)
  have "good (release_lease t k h s')" "holder_at (release_lease t k h s') k t = None"
    using released [OF good] at by auto
  then show ?thesis using granted [of "release_lease t k h s'" k t g ttl'] by auto
next
  case (no g')
  then show ?thesis using assms(2) by simp
qed

end

subsection \<open>The claims table is a lease service\<close>

text \<open>At most one unreleased claim per key: the invariant serial transactions keep.\<close>

definition claims_ok :: "hub \<Rightarrow> bool" where
  "claims_ok h \<longleftrightarrow> (\<forall>ns key. rows_affected (unreleased ns key) (hu_claims h) \<le> 1)"

definition live_holder :: "hub \<Rightarrow> string \<times> string \<Rightarrow> instant \<Rightarrow> string option" where
  "live_holder h k now = (case latest_claim (fst k) (snd k) h of
      None \<Rightarrow> None
    | Some c \<Rightarrow> if cl_expires_at c > now then Some (cl_holder c) else None)"

definition take_claim ::
  "instant \<Rightarrow> duration \<Rightarrow> string \<times> string \<Rightarrow> string \<Rightarrow> hub \<Rightarrow> bool \<times> hub" where
  "take_claim now ttl k holder h =
     (case with_tx (claim_work_body now (fst k) (snd k) holder ttl) h of
        (Inl _, h') \<Rightarrow> (False, h') | (Inr _, h') \<Rightarrow> (True, h'))"

definition drop_claim :: "instant \<Rightarrow> string \<times> string \<Rightarrow> string \<Rightarrow> hub \<Rightarrow> hub" where
  "drop_claim now k holder h = snd (ReleaseWork now (fst k) (snd k) holder h)"

lemma unreleased_release:
  "unreleased ns key (c\<lparr>cl_released_at := Some t\<rparr>) = False"
  by (simp add: unreleased_def)

lemma filter_release:
  "filter (unreleased ns key) (update_where P (\<lambda>c. c\<lparr>cl_released_at := Some t\<rparr>) cs) =
   filter (\<lambda>c. unreleased ns key c \<and> \<not> P c) cs"
  by (induction cs) (auto simp: update_where_def unreleased_release)

lemma latest_claim_filter:
  "latest_claim ns key h = (case rev (filter (unreleased ns key) (hu_claims h)) of
      [] \<Rightarrow> None | c # _ \<Rightarrow> Some c)"
proof -
  have "find P xs = (case filter P xs of [] \<Rightarrow> None | c # _ \<Rightarrow> Some c)" for P and xs :: "claim list"
    by (induction xs) auto
  then show ?thesis by (simp add: latest_claim_def rev_filter)
qed

lemma unreleased_new:
  "unreleased ns key (new_claim now ttl ns' key' holder) \<longleftrightarrow> ns' = ns \<and> key' = key"
  by (simp add: unreleased_def new_claim_def)

text \<open>The unreleased claims of a key after each write.\<close>

lemma claim_write_filter:
  "filter (unreleased ns key) (hu_claims (claim_write now ttl ns' key' holder found h)) =
   (if ns' = ns \<and> key' = key
    then (if found then [] else filter (unreleased ns key) (hu_claims h))
         @ [new_claim now ttl ns key holder]
    else filter (unreleased ns key) (hu_claims h))"
proof -
  have other: "filter (\<lambda>c. unreleased ns key c \<and> \<not> unreleased ns' key' c) (hu_claims h) =
      filter (unreleased ns key) (hu_claims h)" if "\<not> (ns' = ns \<and> key' = key)"
    using that by (intro filter_cong) (auto simp: unreleased_def)
  show ?thesis
    using other
    by (simp add: claim_write_def Let_def release_claims_def filter_release unreleased_new)
qed

lemma release_work_filter:
  "filter (unreleased ns key) (hu_claims (snd (ReleaseWork now ns' key' holder h))) =
   filter (\<lambda>c. unreleased ns key c \<and> \<not> (unreleased ns' key' c \<and> cl_holder c = holder)) (hu_claims h)"
  by (simp add: ReleaseWork_def Let_def release_claims_def filter_release)

text \<open>With at most one unreleased claim per key, what a key's claims are is what its last one is.\<close>

definition key_claims :: "string \<times> string \<Rightarrow> hub \<Rightarrow> claim list" where
  "key_claims k h = filter (unreleased (fst k) (snd k)) (hu_claims h)"

lemma claims_ok_key: "claims_ok h \<longleftrightarrow> (\<forall>k. length (key_claims k h) \<le> 1)"
  by (simp add: claims_ok_def key_claims_def rows_affected_def)

lemma key_claims_cases:
  assumes "claims_ok h"
  obtains (none) "key_claims k h = []" | (one) c where "key_claims k h = [c]"
proof (cases "key_claims k h")
  case Nil
  then show thesis by (rule none)
next
  case (Cons c cs)
  have "length (key_claims k h) \<le> 1" using assms unfolding claims_ok_key by blast
  then have "cs = []" using Cons by simp
  then show thesis using one Cons by simp
qed

lemma latest_claim_key:
  "latest_claim (fst k) (snd k) h = (case rev (key_claims k h) of [] \<Rightarrow> None | c # _ \<Rightarrow> Some c)"
  by (simp add: latest_claim_filter key_claims_def)

lemma live_holder_key:
  "live_holder h k now = (case rev (key_claims k h) of [] \<Rightarrow> None
     | c # _ \<Rightarrow> if cl_expires_at c > now then Some (cl_holder c) else None)"
  by (simp add: live_holder_def latest_claim_key split: list.split)

lemma key_claims_write:
  "key_claims j (claim_write now ttl (fst k) (snd k) holder found h) =
   (if j = k then (if found then [] else key_claims k h) @ [new_claim now ttl (fst k) (snd k) holder]
    else key_claims j h)"
  by (auto simp: key_claims_def claim_write_filter prod_eq_iff)

lemma key_claims_drop:
  "key_claims j (drop_claim now k holder h) =
   (if j = k then filter (\<lambda>c. cl_holder c \<noteq> holder) (key_claims k h) else key_claims j h)"
  unfolding key_claims_def drop_claim_def release_work_filter
  by (cases "j = k") (auto simp: unreleased_def prod_eq_iff intro!: filter_cong)

lemma take_claim_refused:
  assumes "live_holder h k now = Some g" and "g \<noteq> holder"
  shows "take_claim now ttl k holder h = (False, h)"
proof -
  obtain c where "latest_claim (fst k) (snd k) h = Some c" "cl_expires_at c > now" "cl_holder c = g"
    using assms(1) by (auto simp: live_holder_def split: option.splits if_splits)
  then show ?thesis
    using assms(2) by (simp add: take_claim_def with_tx_def claim_work_body_def claim_read_def)
qed

lemma take_claim_granted:
  assumes "claims_ok h" and "live_holder h k now \<in> {None, Some holder}"
  shows "\<exists>h' found. take_claim now ttl k holder h = (True, h')
    \<and> h' = claim_write now ttl (fst k) (snd k) holder found h
    \<and> (found \<longleftrightarrow> key_claims k h \<noteq> [])"
  using assms(1)
proof (cases rule: key_claims_cases [of h k])
  case none
  then have "claim_read now (fst k) (snd k) holder h = Inr False"
    by (simp add: claim_read_def latest_claim_key)
  then have "take_claim now ttl k holder h =
      (True, claim_write now ttl (fst k) (snd k) holder False h)"
    by (simp add: take_claim_def with_tx_def claim_work_body_def)
  then show ?thesis using none by blast
next
  case (one c)
  then have "claim_read now (fst k) (snd k) holder h = Inr True"
    using assms(2) by (auto simp: claim_read_def latest_claim_key live_holder_key split: if_splits)
  then have "take_claim now ttl k holder h =
      (True, claim_write now ttl (fst k) (snd k) holder True h)"
    by (simp add: take_claim_def with_tx_def claim_work_body_def)
  moreover have "key_claims k h \<noteq> []" using one by simp
  ultimately show ?thesis by blast
qed

lemma live_holder_write:
  "live_holder (claim_write now ttl (fst k) (snd k) holder found h) j t =
   (if j = k then (if t < now + ttl then Some holder else None) else live_holder h j t)"
  by (simp add: live_holder_key key_claims_write new_claim_def)

lemma claims_ok_write:
  assumes "claims_ok h" and "found \<longleftrightarrow> key_claims k h \<noteq> []"
  shows "claims_ok (claim_write now ttl (fst k) (snd k) holder found h)"
  using assms by (auto simp: claims_ok_key key_claims_write)

lemma claims_ok_drop: "claims_ok h \<Longrightarrow> claims_ok (drop_claim now k holder h)"
proof -
  assume "claims_ok h"
  then have le: "length (key_claims j h) \<le> 1" for j
    unfolding claims_ok_key by blast
  have "length (key_claims j (drop_claim now k holder h)) \<le> 1" for j
  proof -
    have "length (key_claims j (drop_claim now k holder h)) \<le> length (key_claims j h)"
      by (simp add: key_claims_drop)
    then show ?thesis using le [of j] by (rule le_trans)
  qed
  then show ?thesis unfolding claims_ok_key by blast
qed

interpretation work: lease_service live_holder take_claim drop_claim claims_ok
proof unfold_locales
  fix s :: hub and k now g h ttl
  assume "live_holder s k now = Some g" and "g \<noteq> h"
  then show "take_claim now ttl k h s = (False, s)" by (rule take_claim_refused)
next
  fix s :: hub and k now h ttl
  assume ok: "claims_ok s" and free: "live_holder s k now \<in> {None, Some h}"
  obtain s' found where s': "take_claim now ttl k h s = (True, s')"
    "s' = claim_write now ttl (fst k) (snd k) h found s" "found \<longleftrightarrow> key_claims k s \<noteq> []"
    using take_claim_granted [OF ok free] by blast
  show "\<exists>s'. take_claim now ttl k h s = (True, s') \<and> claims_ok s'
      \<and> (\<forall>t. live_holder s' k t = (if t < now + ttl then Some h else None))
      \<and> (\<forall>j t. j \<noteq> k \<longrightarrow> live_holder s' j t = live_holder s j t)"
    using s' claims_ok_write [OF ok s'(3)] by (simp add: live_holder_write)
next
  fix s :: hub and now k h
  assume ok: "claims_ok s"
  have "live_holder (drop_claim now k h s) k t =
      (if live_holder s k t = Some h then None else live_holder s k t)" for t
    using ok by (cases rule: key_claims_cases [of s k])
      (auto simp: live_holder_key key_claims_drop)
  moreover have "live_holder (drop_claim now k h s) j t = live_holder s j t" if "j \<noteq> k" for j t
    using that by (simp add: live_holder_key key_claims_drop)
  ultimately show "claims_ok (drop_claim now k h s)
      \<and> (\<forall>t. live_holder (drop_claim now k h s) k t =
           (if live_holder s k t = Some h then None else live_holder s k t))
      \<and> (\<forall>j t. j \<noteq> k \<longrightarrow> live_holder (drop_claim now k h s) j t = live_holder s j t)"
    using claims_ok_drop [OF ok] by blast
qed

section \<open>The properties of work claims\<close>

lemma ClaimWork_take:
  assumes "ns \<noteq> []" and "key \<noteq> []" and "holder \<noteq> []"
  shows "(\<exists>c. fst (ClaimWork now ns key holder ttl h) = Inr c) = fst (take_claim now ttl (ns, key) holder h)"
    and "snd (ClaimWork now ns key holder ttl h) = snd (take_claim now ttl (ns, key) holder h)"
  using assms by (auto simp: ClaimWork_def take_claim_def split: prod.splits sum.splits)

lemma ClaimWork_granted_take:
  assumes "ClaimWork now ns key holder ttl h = (Inr c, h')"
  shows "ns \<noteq> [] \<and> key \<noteq> [] \<and> holder \<noteq> [] \<and> take_claim now ttl (ns, key) holder h = (True, h')"
  using assms by (auto simp: ClaimWork_def take_claim_def split: if_splits prod.splits sum.splits)


definition empty_hub :: "driver \<Rightarrow> hub" where
  "empty_hub d = \<lparr>hu_driver = d, hu_regions = [], hu_members = [], hu_bindings = [], hu_diags = [],
     hu_claims = [], hu_messages = [], hu_next_seq = 1, hu_presence = (\<lambda>_. 0), hu_streams = [],
     hu_next_stream = 0\<rparr>"

lemma empty_hub_claims_ok: "claims_ok (empty_hub d)"
  by (simp add: claims_ok_def empty_hub_def rows_affected_def)

lemma demo_claim:
  "ClaimWork 0 ''ns'' ''k'' ''a'' 10 (empty_hub SQLite) =
    (Inr (new_claim 0 10 ''ns'' ''k'' ''a''),
     claim_write 0 10 ''ns'' ''k'' ''a'' False (empty_hub SQLite))"
  by (simp add: ClaimWork_def with_tx_def claim_work_body_def claim_read_def latest_claim_def
      empty_hub_def)


text \<open>Two first claims of a key can both win on Postgres.  There the claim's transaction locks the row
  it read, but a key nobody holds has no row to lock and no unique index guards the insert: when two
  transactions both read before either writes, both commit, and the key has two live claims by
  different holders, neither of which \<open>ListClaims\<close> hides.\<close>

lemma ClaimWork_fresh_race:
  assumes "latest_claim ns key h = None" and "0 < ttl" and "a \<noteq> b"
  shows "claim_read now ns key a h = Inr False \<and> claim_read now ns key b h = Inr False
    \<and> (let h1 = claim_write now ttl ns key a False h; h2 = claim_write now ttl ns key b False h1 in
         \<not> claims_ok h2
         \<and> {new_claim now ttl ns key a, new_claim now ttl ns key b} \<subseteq> set (ListClaims now ns h2))"
proof -
  have none: "key_claims (ns, key) h = []"
    using assms(1) latest_claim_key [of "(ns, key)" h] by (auto split: list.splits)
  define h2 where "h2 = claim_write now ttl ns key b False (claim_write now ttl ns key a False h)"
  have "key_claims (ns, key) h2 = [new_claim now ttl ns key a, new_claim now ttl ns key b]"
    using key_claims_write [of "(ns, key)" now ttl "(ns, key)"] none by (simp add: h2_def)
  then have "\<not> claims_ok h2"
    unfolding claims_ok_key by (metis One_nat_def Suc_1 Suc_n_not_le_n length_Cons list.size(3))
  moreover have "{new_claim now ttl ns key a, new_claim now ttl ns key b} \<subseteq> set (ListClaims now ns h2)"
    using assms(2) by (simp add: ListClaims_def h2_def claim_write_def new_claim_def)
  ultimately show ?thesis
    using assms(1) by (simp add: claim_read_def h2_def Let_def)
qed

lemma ClaimWork_fresh_race_witness:
  "\<not> claims_ok (claim_write 0 10 ''ns'' ''k'' ''b'' False
     (claim_write 0 10 ''ns'' ''k'' ''a'' False (empty_hub Postgres)))"
proof -
  have "latest_claim ''ns'' ''k'' (empty_hub Postgres) = None"
    by (simp add: latest_claim_def empty_hub_def)
  from ClaimWork_fresh_race [OF this, of 10 "''a''" "''b''" 0] show ?thesis
    by (simp add: Let_def)
qed

end
