(* ===== verification/Messages.thy ===== *)
theory Messages
  imports Claims
begin

text \<open>
  The durable agent inboxes (\<open>internal/region/messages.go\<close>), the content policy in front of them
  (\<open>contentpolicy.go\<close>), the archive moves (\<open>consolidate.go\<close>) and the activity overview
  (\<open>overview.go\<close>).  Random identifiers, the clock and the regular-expression engine are parameters.
\<close>

section \<open>Content policy\<close>

text \<open>A compiled pattern is the predicate its expression decides.\<close>

record content_pattern =
  cp_category :: string
  cp_name :: string
  cp_matches :: "string \<Rightarrow> bool"

record content_policy =
  po_patterns :: "content_pattern list"
  po_skip :: "string list"

record content_config =
  cf_mode :: string
  cf_namespaces :: "string list"
  cf_extra :: "string list"

datatype policy_error = UnknownMode string | BadPattern string string | BadExtra nat

fun compile_specs ::
  "(string \<Rightarrow> (string \<Rightarrow> bool) option) \<Rightarrow> (string \<times> string \<times> string) list
   \<Rightarrow> policy_error + content_pattern list" where
  "compile_specs compile [] = Inr []"
| "compile_specs compile ((cat, name, pat) # specs) =
     (case compile (''(?i)'' @ pat) of
        None \<Rightarrow> Inl (BadPattern cat name)
      | Some re \<Rightarrow>
          (case compile_specs compile specs of
             Inl e \<Rightarrow> Inl e
           | Inr ps \<Rightarrow> Inr (\<lparr>cp_category = cat, cp_name = name, cp_matches = re\<rparr> # ps)))"

fun compile_extra ::
  "(string \<Rightarrow> (string \<Rightarrow> bool) option) \<Rightarrow> nat \<Rightarrow> string list
   \<Rightarrow> policy_error + content_pattern list" where
  "compile_extra compile i [] = Inr []"
| "compile_extra compile i (raw # raws) =
     (case compile (''(?i)'' @ raw) of
        None \<Rightarrow> Inl (BadExtra i)
      | Some re \<Rightarrow>
          (case compile_extra compile (Suc i) raws of
             Inl e \<Rightarrow> Inl e
           | Inr ps \<Rightarrow> Inr (\<lparr>cp_category = ''custom'', cp_name = ''extra-'' @ nat_str i,
               cp_matches = re\<rparr> # ps)))"

text \<open>The registry \<open>contentPatternSpecs\<close> is the parameter \<open>specs\<close>.\<close>

definition NewContentPolicy ::
  "(string \<Rightarrow> (string \<Rightarrow> bool) option) \<Rightarrow> (string \<times> string \<times> string) list \<Rightarrow> content_config
   \<Rightarrow> policy_error + content_policy option" where
  "NewContentPolicy compile specs cfg =
     (let mode = to_lower (trim_space (cf_mode cfg)) in
      if mode = [] \<or> mode = ''off'' then Inr None
      else if mode \<noteq> ''block'' then Inl (UnknownMode (cf_mode cfg))
      else case compile_specs compile specs of
        Inl e \<Rightarrow> Inl e
      | Inr ps \<Rightarrow>
          (case compile_extra compile 0 (cf_extra cfg) of
             Inl e \<Rightarrow> Inl e
           | Inr qs \<Rightarrow> Inr (Some \<lparr>po_patterns = ps @ qs, po_skip = cf_namespaces cfg\<rparr>)))"

definition policy_check :: "content_policy option \<Rightarrow> string \<Rightarrow> string \<Rightarrow> (string \<times> string) option" where
  "policy_check p ns body =
     (case p of
        None \<Rightarrow> None
      | Some q \<Rightarrow>
          if ns \<in> set (po_skip q) then None
          else map_option (\<lambda>c. (cp_category c, cp_name c))
            (find (\<lambda>c. cp_matches c body) (po_patterns q)))"

section \<open>Sending\<close>

record mail_config =
  mc_cap :: int
  mc_retention :: duration
  mc_policy :: "content_policy option"

record message_input =
  mi_ns :: string
  mi_sender :: string
  mi_recipient :: string
  mi_body :: string
  mi_task :: string
  mi_reply_to :: string
  mi_key :: string

definition MaxMessageBody :: nat where "MaxMessageBody = 16 * 1024"
definition MaxMessageBatch :: nat where "MaxMessageBatch = 100"

definition body_ok :: "string \<Rightarrow> bool" where
  "body_ok b \<longleftrightarrow> trim_space b \<noteq> [] \<and> length b \<le> MaxMessageBody \<and> valid_utf8 b
     \<and> char_of (0 :: nat) \<notin> set b"

definition message_validate :: "message_input \<Rightarrow> hub_error + unit" where
  "message_validate inp = first_error
     [checkNamespace (mi_ns inp),
      checkIdent ''sender'' (mi_sender inp) True,
      checkIdent ''recipient'' (mi_recipient inp) True,
      checkIdent ''task_id'' (mi_task inp) False,
      checkIdent ''reply_to'' (mi_reply_to inp) False,
      checkIdent ''idempotency_key'' (mi_key inp) False,
      require (body_ok (mi_body inp)) ''body'']"

definition sameContent :: "message \<Rightarrow> message_input \<Rightarrow> bool" where
  "sameContent m inp \<longleftrightarrow> ms_recipient m = mi_recipient inp \<and> ms_body m = mi_body inp
     \<and> ms_task m = mi_task inp \<and> ms_reply_to m = mi_reply_to inp"

definition has_key :: "string \<Rightarrow> string \<Rightarrow> string \<Rightarrow> message \<Rightarrow> bool" where
  "has_key ns sender key m \<longleftrightarrow> ms_ns m = ns \<and> ms_sender m = sender \<and> ms_key m = Some key"

definition findIdempotent :: "message_input \<Rightarrow> hub \<Rightarrow> hub_error + message option" where
  "findIdempotent inp h =
     (case find (has_key (mi_ns inp) (mi_sender inp) (mi_key inp)) (hu_messages h) of
        None \<Rightarrow> Inr None
      | Some m \<Rightarrow> if \<not> sameContent m inp then Inl MessageConflict else Inr (Some m))"

definition unread_for :: "string \<Rightarrow> string \<Rightarrow> message \<Rightarrow> bool" where
  "unread_for ns agent m \<longleftrightarrow> ms_ns m = ns \<and> ms_recipient m = agent \<and> ms_acked_at m = None"

definition effective_cap :: "mail_config \<Rightarrow> int" where
  "effective_cap cfg = (if mc_cap cfg \<le> 0 then 200 else mc_cap cfg)"

text \<open>The number the insert gives: SQLite takes one past the largest row identifier, Postgres draws from
  its sequence.\<close>

definition next_seq :: "hub \<Rightarrow> nat" where
  "next_seq h = (case hu_driver h of
      SQLite \<Rightarrow> Suc (foldr max (map ms_seq (hu_messages h)) 0)
    | Postgres \<Rightarrow> hu_next_seq h)"

definition new_message :: "instant \<Rightarrow> string \<Rightarrow> message_input \<Rightarrow> nat \<Rightarrow> message" where
  "new_message now mid inp sq =
     \<lparr>ms_seq = sq, ms_id = mid, ms_ns = mi_ns inp, ms_sender = mi_sender inp,
      ms_recipient = mi_recipient inp, ms_body = mi_body inp, ms_task = mi_task inp,
      ms_reply_to = mi_reply_to inp,
      ms_key = (if mi_key inp = [] then None else Some (mi_key inp)),
      ms_created_at = now, ms_acked_at = None, ms_leased_until = None, ms_leased_by = None\<rparr>"

text \<open>The primary key and the partial unique index on (namespace, sender, idempotency key).\<close>

definition key_taken :: "message \<Rightarrow> message list \<Rightarrow> bool" where
  "key_taken m ms \<longleftrightarrow> (\<exists>k \<in> set_option (ms_key m). \<exists>x \<in> set ms. has_key (ms_ns m) (ms_sender m) k x)"

definition insert_message :: "message \<Rightarrow> (hub, hub_error, message) op" where
  "insert_message m h =
     (if ms_id m \<in> ms_id ` set (hu_messages h) \<or> key_taken m (hu_messages h)
      then (Inl MessageDuplicate, h)
      else (Inr m, h\<lparr>hu_messages := hu_messages h @ [m], hu_next_seq := Suc (hu_next_seq h)\<rparr>))"

definition send_new :: "mail_config \<Rightarrow> instant \<Rightarrow> string \<Rightarrow> message_input \<Rightarrow> (hub, hub_error, message) op" where
  "send_new cfg now mid inp h =
     (if \<not> is_member (mi_ns inp) (mi_sender inp) h then (Inl MessageNotFound, h)
      else if \<not> is_member (mi_ns inp) (mi_recipient inp) h then (Inl MessageNotFound, h)
      else if mi_reply_to inp \<noteq> []
          \<and> (\<forall>m \<in> set (hu_messages h). \<not> (ms_ns m = mi_ns inp \<and> ms_id m = mi_reply_to inp))
        then (Inl MessageNotFound, h)
      else if int (rows_affected (unread_for (mi_ns inp) (mi_recipient inp)) (hu_messages h))
          \<ge> effective_cap cfg then (Inl MessageBacklog, h)
      else insert_message (new_message now mid inp (next_seq h)) h)"

definition send_body :: "mail_config \<Rightarrow> instant \<Rightarrow> string \<Rightarrow> message_input \<Rightarrow> (hub, hub_error, message) op" where
  "send_body cfg now mid inp h =
     (if mi_key inp = [] then send_new cfg now mid inp h
      else case findIdempotent inp h of
        Inl e \<Rightarrow> (Inl e, h)
      | Inr (Some m) \<Rightarrow> (Inr m, h)
      | Inr None \<Rightarrow> send_new cfg now mid inp h)"

text \<open>The errors after which \<open>SendMessage\<close> does not look again for the key.\<close>

definition final_error :: "hub_error \<Rightarrow> bool" where
  "final_error e = (case e of
      MessageInvalid _ \<Rightarrow> True | MessageNotFound \<Rightarrow> True | MessageConflict \<Rightarrow> True | _ \<Rightarrow> False)"

definition SendMessage ::
  "mail_config \<Rightarrow> instant \<Rightarrow> string \<Rightarrow> message_input \<Rightarrow> (hub, hub_error, message) op" where
  "SendMessage cfg now mid inp h =
     (case message_validate inp of
        Inl e \<Rightarrow> (Inl e, h)
      | Inr _ \<Rightarrow>
          (case policy_check (mc_policy cfg) (mi_ns inp) (mi_body inp) of
             Some (cat, name) \<Rightarrow> (Inl (MessageBlocked cat name), h)
           | None \<Rightarrow>
               (case with_tx (send_body cfg now mid inp) h of
                  (Inr m, h') \<Rightarrow> (Inr m, h')
                | (Inl e, h') \<Rightarrow>
                    if mi_key inp \<noteq> [] \<and> \<not> final_error e then
                      (case findIdempotent inp h' of
                         Inr (Some m) \<Rightarrow> (Inr m, h')
                       | Inr None \<Rightarrow> (Inl e, h')
                       | Inl e' \<Rightarrow> (Inl e', h'))
                    else (Inl e, h'))))"

section \<open>Reading and leasing\<close>

record read_options =
  op_limit :: int
  op_box :: string
  op_id :: string
  op_lease_seconds :: int
  op_leased_by :: string

definition read_validate :: "string \<Rightarrow> string \<Rightarrow> read_options \<Rightarrow> hub_error + unit" where
  "read_validate ns agent opts = first_error
     [checkInbox ns agent,
      require (op_box opts \<in> {[], ''inbox'', ''sent''}) ''box'',
      checkIdent ''id'' (op_id opts) False,
      checkIdent ''leased_by'' (op_leased_by opts) (op_lease_seconds opts > 0),
      require (\<not> (op_lease_seconds opts < 0 \<or> op_lease_seconds opts > 300
        \<or> (op_lease_seconds opts = 0 \<and> op_leased_by opts \<noteq> []))) ''lease_seconds'',
      require (\<not> (op_lease_seconds opts > 0 \<and> (op_id opts \<noteq> [] \<or> op_box opts = ''sent'')))
        ''lease_seconds'']"

text \<open>The \<open>WHERE\<close> clause of a read at an instant.\<close>

definition deliverable :: "instant \<Rightarrow> message \<Rightarrow> bool" where
  "deliverable now m \<longleftrightarrow> ms_acked_at m = None
     \<and> (case ms_leased_until m of None \<Rightarrow> True | Some u \<Rightarrow> u \<le> now)"

definition read_where :: "instant \<Rightarrow> string \<Rightarrow> string \<Rightarrow> read_options \<Rightarrow> message \<Rightarrow> bool" where
  "read_where now ns agent opts m \<longleftrightarrow>
     ms_ns m = ns \<and> (if op_box opts = ''sent'' then ms_sender m = agent else ms_recipient m = agent)
     \<and> (if op_id opts \<noteq> [] then ms_id m = op_id opts
        else op_box opts \<noteq> ''sent'' \<longrightarrow> deliverable now m)"

definition read_limit :: "int \<Rightarrow> nat" where
  "read_limit n = (if n \<le> 0 \<or> n > int MaxMessageBatch then MaxMessageBatch else nat n)"

definition select_messages :: "nat \<Rightarrow> (message \<Rightarrow> bool) \<Rightarrow> hub \<Rightarrow> message list" where
  "select_messages n P h = take n (sort_key ms_seq (filter P (hu_messages h)))"

definition lease_message :: "instant \<Rightarrow> string \<Rightarrow> message \<Rightarrow> message" where
  "lease_message until owner m = m\<lparr>ms_leased_until := Some until, ms_leased_by := Some owner\<rparr>"

definition lease_body ::
  "instant \<Rightarrow> string \<Rightarrow> string \<Rightarrow> read_options \<Rightarrow> (hub, hub_error, message list) op" where
  "lease_body now ns agent opts h =
     (let out = select_messages (read_limit (op_limit opts)) (read_where now ns agent opts) h;
          until = now + op_lease_seconds opts * second;
          f = lease_message until (op_leased_by opts)
      in if out = [] then (Inr [], h)
         else (Inr (map f out),
           h\<lparr>hu_messages := update_where
              (\<lambda>m. ms_ns m = ns \<and> ms_recipient m = agent \<and> ms_id m \<in> ms_id ` set out) f
              (hu_messages h)\<rparr>))"

definition ReadMessagesWithOptions ::
  "clock \<Rightarrow> string \<Rightarrow> string \<Rightarrow> read_options \<Rightarrow> (hub, hub_error, message list) op" where
  "ReadMessagesWithOptions now ns agent opts h =
     (case read_validate ns agent opts of
        Inl e \<Rightarrow> (Inl e, h)
      | Inr _ \<Rightarrow>
          if op_lease_seconds opts = 0
          then (Inr (select_messages (read_limit (op_limit opts)) (read_where (now 0) ns agent opts) h), h)
          else with_tx (lease_body (now 1) ns agent opts) h)"

definition plain_read :: "int \<Rightarrow> read_options" where
  "plain_read limit = \<lparr>op_limit = limit, op_box = [], op_id = [], op_lease_seconds = 0,
     op_leased_by = []\<rparr>"

definition ReadMessages :: "clock \<Rightarrow> string \<Rightarrow> string \<Rightarrow> int \<Rightarrow> (hub, hub_error, message list) op" where
  "ReadMessages now ns agent limit = ReadMessagesWithOptions now ns agent (plain_read limit)"

definition clampMessageLogLimit :: "int \<Rightarrow> int" where
  "clampMessageLogLimit n = (if n \<le> 0 then 100 else if n > 500 then 500 else n)"

definition ListMessages ::
  "string \<Rightarrow> string \<Rightarrow> int \<Rightarrow> int \<Rightarrow> hub \<Rightarrow> hub_error + message list" where
  "ListMessages ns agent limit before h =
     (case first_error [checkNamespace ns, checkIdent ''agent'' agent False] of
        Inl e \<Rightarrow> Inl e
      | Inr _ \<Rightarrow> Inr (take (nat (clampMessageLogLimit limit)) (sort_key (\<lambda>m. - int (ms_seq m))
          (filter (\<lambda>m. ms_ns m = ns
             \<and> (agent \<noteq> [] \<longrightarrow> ms_sender m = agent \<or> ms_recipient m = agent)
             \<and> (before > 0 \<longrightarrow> int (ms_seq m) < before)) (hu_messages h)))))"

section \<open>Acknowledging and releasing\<close>

definition ids_ok :: "string list \<Rightarrow> hub_error + unit" where
  "ids_ok ids = first_error (map (\<lambda>i. checkIdent ''id'' i True) ids)"

definition batch_ok :: "string list \<Rightarrow> hub_error + unit" where
  "batch_ok ids = require (ids \<noteq> [] \<and> length ids \<le> MaxMessageBatch) ''ids''"

definition live_lease :: "instant \<Rightarrow> string \<Rightarrow> message \<Rightarrow> bool" where
  "live_lease now owner m \<longleftrightarrow> ms_leased_by m = Some owner
     \<and> (case ms_leased_until m of None \<Rightarrow> False | Some u \<Rightarrow> u > now)"

definition ack_message :: "instant \<Rightarrow> message \<Rightarrow> message" where
  "ack_message now m = m\<lparr>ms_acked_at := Some now, ms_leased_until := None, ms_leased_by := None\<rparr>"

definition ack_where ::
  "instant \<Rightarrow> string \<Rightarrow> string \<Rightarrow> string list \<Rightarrow> string \<Rightarrow> message \<Rightarrow> bool" where
  "ack_where now ns agent ids owner m \<longleftrightarrow>
     unread_for ns agent m \<and> ms_id m \<in> set ids \<and> (owner \<noteq> [] \<longrightarrow> live_lease now owner m)"

definition AckMessagesWithLease ::
  "instant \<Rightarrow> string \<Rightarrow> string \<Rightarrow> string list \<Rightarrow> string \<Rightarrow> (hub, hub_error, nat) op" where
  "AckMessagesWithLease now ns agent ids owner h =
     (case first_error [checkInbox ns agent, checkIdent ''leased_by'' owner False, batch_ok ids,
          ids_ok ids] of
        Inl e \<Rightarrow> (Inl e, h)
      | Inr _ \<Rightarrow>
          (Inr (rows_affected (ack_where now ns agent ids owner) (hu_messages h)),
           h\<lparr>hu_messages := update_where (ack_where now ns agent ids owner) (ack_message now)
              (hu_messages h)\<rparr>))"

definition AckMessages ::
  "instant \<Rightarrow> string \<Rightarrow> string \<Rightarrow> string list \<Rightarrow> (hub, hub_error, nat) op" where
  "AckMessages now ns agent ids = AckMessagesWithLease now ns agent ids []"

definition release_where ::
  "instant \<Rightarrow> string \<Rightarrow> string \<Rightarrow> string list \<Rightarrow> string \<Rightarrow> message \<Rightarrow> bool" where
  "release_where now ns agent ids owner m \<longleftrightarrow>
     unread_for ns agent m \<and> ms_id m \<in> set ids \<and> live_lease now owner m"

definition ReleaseMessageLeases ::
  "instant \<Rightarrow> string \<Rightarrow> string \<Rightarrow> string list \<Rightarrow> string \<Rightarrow> (hub, hub_error, nat) op" where
  "ReleaseMessageLeases now ns agent ids owner h =
     (case first_error [checkInbox ns agent, checkIdent ''leased_by'' owner True, batch_ok ids,
          ids_ok ids] of
        Inl e \<Rightarrow> (Inl e, h)
      | Inr _ \<Rightarrow>
          (Inr (rows_affected (release_where now ns agent ids owner) (hu_messages h)),
           h\<lparr>hu_messages := update_where (release_where now ns agent ids owner)
              (\<lambda>m. m\<lparr>ms_leased_until := None, ms_leased_by := None\<rparr>) (hu_messages h)\<rparr>))"

definition CountUnreadMessages :: "string \<Rightarrow> string \<Rightarrow> hub \<Rightarrow> hub_error + nat" where
  "CountUnreadMessages ns agent h =
     (case checkInbox ns agent of
        Inl e \<Rightarrow> Inl e
      | Inr _ \<Rightarrow> Inr (rows_affected (unread_for ns agent) (hu_messages h)))"

section \<open>Retention and archive\<close>

definition swept :: "string \<Rightarrow> instant \<Rightarrow> message \<Rightarrow> bool" where
  "swept ns cutoff m \<longleftrightarrow>
     ms_ns m = ns \<and> (case ms_acked_at m of None \<Rightarrow> False | Some a \<Rightarrow> a < cutoff)"

definition SweepMessageRetention :: "mail_config \<Rightarrow> instant \<Rightarrow> string \<Rightarrow> (hub, hub_error, nat) op" where
  "SweepMessageRetention cfg now ns h =
     (case checkNamespace ns of
        Inl e \<Rightarrow> (Inl e, h)
      | Inr _ \<Rightarrow>
          if mc_retention cfg \<le> 0 then (Inr 0, h)
          else
            let P = swept ns (now - mc_retention cfg) in
            (Inr (rows_affected P (hu_messages h)),
             h\<lparr>hu_messages := filter (\<lambda>m. \<not> P m) (hu_messages h)\<rparr>))"

definition keys_unique :: "message list \<Rightarrow> bool" where
  "keys_unique ms \<longleftrightarrow>
     distinct (map (\<lambda>m. (ms_ns m, ms_sender m, ms_key m)) (filter (\<lambda>m. ms_key m \<noteq> None) ms))"

text \<open>\<open>UPDATE agent_messages SET namespace = ... WHERE P\<close>, refused by the unique index when a key would
  occur twice.\<close>

definition move_messages :: "(message \<Rightarrow> bool) \<Rightarrow> string \<Rightarrow> (hub, hub_error, nat) op" where
  "move_messages P ns h =
     (let ms = update_where P (\<lambda>m. m\<lparr>ms_ns := ns\<rparr>) (hu_messages h) in
      if keys_unique ms then (Inr (rows_affected P (hu_messages h)), h\<lparr>hu_messages := ms\<rparr>)
      else (Inl MessageDuplicate, h))"

definition ArchiveReadMessages :: "string \<Rightarrow> string \<Rightarrow> (hub, hub_error, nat) op" where
  "ArchiveReadMessages ns archive h =
     (case first_error [checkNamespace ns, checkNamespace archive] of
        Inl e \<Rightarrow> (Inl e, h)
      | Inr _ \<Rightarrow> move_messages (\<lambda>m. ms_ns m = ns \<and> ms_acked_at m \<noteq> None) archive h)"

definition RestoreArchivedMessages :: "string \<Rightarrow> string \<Rightarrow> (hub, hub_error, nat) op" where
  "RestoreArchivedMessages archive ns h =
     (case first_error [checkNamespace ns, checkNamespace archive] of
        Inl e \<Rightarrow> (Inl e, h)
      | Inr _ \<Rightarrow> move_messages (\<lambda>m. ms_ns m = archive) ns h)"

record message_stats =
  st_total :: nat
  st_unread :: nat
  st_first :: "instant option"
  st_last :: "instant option"
  st_senders :: "(string \<times> nat) list"

definition min_of :: "instant list \<Rightarrow> instant option" where
  "min_of xs = (case xs of [] \<Rightarrow> None | x # ys \<Rightarrow> Some (foldr min ys x))"

definition max_of :: "instant list \<Rightarrow> instant option" where
  "max_of xs = (case xs of [] \<Rightarrow> None | x # ys \<Rightarrow> Some (foldr max ys x))"

definition NamespaceMessageStats :: "string \<Rightarrow> hub \<Rightarrow> hub_error + message_stats" where
  "NamespaceMessageStats ns h =
     (case checkNamespace ns of
        Inl e \<Rightarrow> Inl e
      | Inr _ \<Rightarrow>
          let ms = filter (\<lambda>m. ms_ns m = ns) (hu_messages h) in
          Inr \<lparr>st_total = length ms,
            st_unread = rows_affected (\<lambda>m. ms_acked_at m = None) ms,
            st_first = min_of (map ms_created_at ms), st_last = max_of (map ms_created_at ms),
            st_senders = map (\<lambda>w. (w, rows_affected (\<lambda>m. ms_sender m = w) ms))
              (remdups (map ms_sender ms))\<rparr>)"

section \<open>Activity\<close>

record activity =
  av_members :: nat
  av_live :: nat
  av_recent :: nat
  av_unread :: nat
  av_messages24h :: nat
  av_claims :: nat
  av_last_message :: "instant option"
  av_last_seen :: "instant option"

text \<open>One namespace of the map \<open>Activity\<close> builds from its three queries; a namespace with no member,
  message or live claim is absent.\<close>

definition Activity :: "instant \<Rightarrow> duration \<Rightarrow> hub \<Rightarrow> string \<Rightarrow> activity option" where
  "Activity now recent h ns =
     (let mem = filter (\<lambda>m. me_ns m = ns) (hu_members h);
          msgs = filter (\<lambda>m. ms_ns m = ns) (hu_messages h);
          cls = filter (\<lambda>c. cl_ns c = ns \<and> cl_released_at c = None \<and> cl_expires_at c > now)
            (hu_claims h);
          seen = (\<lambda>m. case me_last_seen m of None \<Rightarrow> False | Some t \<Rightarrow> t \<ge> now - recent)
      in if mem = [] \<and> msgs = [] \<and> cls = [] then None
         else Some
           \<lparr>av_members = length mem,
            av_live = rows_affected (\<lambda>m. Listening ns (me_agent m) h) mem,
            av_recent = rows_affected (\<lambda>m. Listening ns (me_agent m) h \<or> seen m) mem,
            av_unread = rows_affected (\<lambda>m. ms_acked_at m = None) msgs,
            av_messages24h = rows_affected (\<lambda>m. ms_created_at m \<ge> now - 24 * hour) msgs,
            av_claims = length cls,
            av_last_message = max_of (map ms_created_at msgs),
            av_last_seen = max_of (List.map_filter me_last_seen mem)\<rparr>)"

section \<open>Waiting\<close>

text \<open>What the select of \<open>WaitMessages\<close> can receive.\<close>

datatype wake =
    ContextDone
  | DeadlinePassed
  | PollTick
  | BusClosed
  | BusEvent string string

definition MessageEventKind :: string where "MessageEventKind = ''agent_message''"
definition MessageAckEventKind :: string where "MessageAckEventKind = ''message_ack''"

definition MessageEventKey :: "string \<Rightarrow> string \<Rightarrow> string" where
  "MessageEventKey ns agent = ns @ CHR '':'' # agent"

datatype wait_result = WaitMessagesGot "message list" | WaitError hub_error | WaitCanceled | WaitExpired

text \<open>The loop after the first read, over the signals it receives with the store as it is when each is
  handled; \<open>None\<close> is a wait still going on.  A bus event of another kind or key is skipped without
  reading.  A closed bus is only reported once.\<close>

fun wait_loop ::
  "string \<Rightarrow> string \<Rightarrow> int \<Rightarrow> (wake \<times> clock \<times> hub) list \<Rightarrow> wait_result option" where
  "wait_loop ns agent limit [] = None"
| "wait_loop ns agent limit ((w, now, h) # ws) =
     (let reread = (case fst (ReadMessages now ns agent limit h) of
                      Inl e \<Rightarrow> Some (WaitError e)
                    | Inr [] \<Rightarrow> wait_loop ns agent limit ws
                    | Inr ms \<Rightarrow> Some (WaitMessagesGot ms)) in
      case w of
        ContextDone \<Rightarrow> Some WaitCanceled
      | DeadlinePassed \<Rightarrow> Some WaitExpired
      | BusClosed \<Rightarrow> wait_loop ns agent limit ws
      | PollTick \<Rightarrow> reread
      | BusEvent kind key \<Rightarrow>
          if kind \<noteq> MessageEventKind \<or> key \<noteq> MessageEventKey ns agent
          then wait_loop ns agent limit ws else reread)"

definition WaitMessages ::
  "string \<Rightarrow> string \<Rightarrow> int \<Rightarrow> duration \<Rightarrow> clock \<Rightarrow> hub \<Rightarrow> (wake \<times> clock \<times> hub) list
   \<Rightarrow> wait_result option" where
  "WaitMessages ns agent limit timeout now h ws =
     (case checkInbox ns agent of
        Inl e \<Rightarrow> Some (WaitError e)
      | Inr _ \<Rightarrow>
          (case fst (ReadMessages now ns agent limit h) of
             Inl e \<Rightarrow> Some (WaitError e)
           | Inr ms \<Rightarrow>
               if ms \<noteq> [] \<or> timeout \<le> 0 then Some (WaitMessagesGot ms)
               else wait_loop ns agent limit ws))"

end
