(* ===== verification/Hub_Proofs.thy ===== *)
theory Hub_Proofs
  imports Messages
begin

text \<open>
  What holds of the hub (\<open>internal/region\<close>) over any sequence of its operations.  An operation with its
  arguments is a value of \<open>hub_op\<close>, and \<open>hub_do\<close> runs it.  The first sections classify what each
  operation changes; the invariants and the delivery properties of the inboxes follow from that
  classification.
\<close>

section \<open>Operations\<close>

datatype hub_op =
    DoRegister clock string string string
  | DoTouch instant string string
  | DoRemove string string
  | DoExpire instant duration
  | DoBind instant string string string
  | DoDiag "string \<Rightarrow> instant option" instant diag_input
  | DoAttach string string
  | DoRelease nat
  | DoClaim instant string string string duration
  | DoReleaseWork instant string string string
  | DoSend instant string message_input
  | DoRead clock string string read_options
  | DoAck instant string string "string list" string
  | DoReleaseLeases instant string string "string list" string
  | DoSweep instant string
  | DoArchive string string
  | DoRestore string string

fun hub_do :: "mail_config \<Rightarrow> hub_op \<Rightarrow> hub \<Rightarrow> hub" where
  "hub_do cfg (DoRegister now ns agent role) h = snd (Register now ns agent role h)"
| "hub_do cfg (DoTouch now ns agent) h = Touch now ns agent h"
| "hub_do cfg (DoRemove ns agent) h = snd (RemoveMember ns agent h)"
| "hub_do cfg (DoExpire now age) h = snd (ExpireMembers now age h)"
| "hub_do cfg (DoBind now ns agent who) h = snd (SetInboxBindingAs now ns agent who h)"
| "hub_do cfg (DoDiag parse now inp) h = snd (RecordMessageDiagnostic parse now inp h)"
| "hub_do cfg (DoAttach ns agent) h = snd (Attach ns agent h)"
| "hub_do cfg (DoRelease tok) h = release tok h"
| "hub_do cfg (DoClaim now ns key holder ttl) h = snd (ClaimWork now ns key holder ttl h)"
| "hub_do cfg (DoReleaseWork now ns key holder) h = snd (ReleaseWork now ns key holder h)"
| "hub_do cfg (DoSend now mid inp) h = snd (SendMessage cfg now mid inp h)"
| "hub_do cfg (DoRead now ns agent opts) h = snd (ReadMessagesWithOptions now ns agent opts h)"
| "hub_do cfg (DoAck now ns agent ids owner) h = snd (AckMessagesWithLease now ns agent ids owner h)"
| "hub_do cfg (DoReleaseLeases now ns agent ids owner) h =
     snd (ReleaseMessageLeases now ns agent ids owner h)"
| "hub_do cfg (DoSweep now ns) h = snd (SweepMessageRetention cfg now ns h)"
| "hub_do cfg (DoArchive ns archive) h = snd (ArchiveReadMessages ns archive h)"
| "hub_do cfg (DoRestore archive ns) h = snd (RestoreArchivedMessages archive ns h)"

definition hub_run :: "mail_config \<Rightarrow> hub_op list \<Rightarrow> hub \<Rightarrow> hub" where
  "hub_run cfg ops h = fold (hub_do cfg) ops h"

lemma hub_run_Nil [simp]: "hub_run cfg [] h = h"
  by (simp add: hub_run_def)

lemma hub_run_Cons [simp]: "hub_run cfg (op # ops) h = hub_run cfg ops (hub_do cfg op h)"
  by (simp add: hub_run_def)

lemma hub_run_inv:
  assumes "\<And>op h. op \<in> set ops \<Longrightarrow> Inv h \<Longrightarrow> Inv (hub_do cfg op h)" and "Inv h"
  shows "Inv (hub_run cfg ops h)"
  using assms by (induction ops arbitrary: h) auto

section \<open>What each operation touches\<close>

lemma RemoveMember_body: "RemoveMember ns agent h = remove_member_body ns agent h"
  by (simp add: RemoveMember_def with_tx_def remove_member_body_def)

lemma RemoveMember_state:
  "snd (RemoveMember ns agent h) =
   h\<lparr>hu_members := filter (\<lambda>m. \<not> at_member ns agent m) (hu_members h),
     hu_diags := filter (\<lambda>d. \<not> (di_ns d = ns \<and> di_agent d = agent)) (hu_diags h)\<rparr>"
  by (simp add: RemoveMember_body remove_member_body_def deleteMessageDiagnostic_def)

lemma RemoveMember_result: "fst (RemoveMember ns agent h) = Inr (is_member ns agent h)"
  by (simp add: RemoveMember_body remove_member_body_def)

lemma RemoveMember_eq:
  "RemoveMember ns agent h = (Inr (is_member ns agent h), snd (RemoveMember ns agent h))"
  by (metis RemoveMember_result prod.collapse)

lemma expire_loop_inv:
  assumes "\<And>ns agent h. Inv h \<Longrightarrow> Inv (snd (RemoveMember ns agent h))" and "Inv h"
  shows "Inv (snd (expire_loop cs n h))"
  using assms(2)
proof (induction cs n h rule: expire_loop.induct)
  case (1 n h)
  then show ?case by simp
next
  case (2 ns agent cs n h)
  show ?case
  proof (cases "Listening ns agent h")
    case True
    then show ?thesis using 2 by simp
  next
    case False
    have "Inv (snd (expire_loop cs (if is_member ns agent h then Suc n else n)
        (snd (RemoveMember ns agent h))))"
      using 2(2) [OF False RemoveMember_eq [symmetric] refl] assms(1) 2(3) by blast
    then show ?thesis using False by (subst expire_loop.simps, subst RemoveMember_eq) simp
  qed
qed

lemma ExpireMembers_inv:
  assumes "\<And>ns agent h. Inv h \<Longrightarrow> Inv (snd (RemoveMember ns agent h))" and "Inv h"
  shows "Inv (snd (ExpireMembers now age h))"
  using expire_loop_inv [of Inv, OF assms] assms(2) by (simp add: ExpireMembers_def)

text \<open>The parts of the state.\<close>

definition directory :: "hub \<Rightarrow> region_row list \<times> member list \<times> binding_row list \<times> diag_row list" where
  "directory h = (hu_regions h, hu_members h, hu_bindings h, hu_diags h)"

definition mailboxes :: "hub \<Rightarrow> driver \<times> message list \<times> nat" where
  "mailboxes h = (hu_driver h, hu_messages h, hu_next_seq h)"

definition streams :: "hub \<Rightarrow> (string \<times> string \<Rightarrow> nat) \<times> (nat \<times> string \<times> string) list \<times> nat" where
  "streams h = (hu_presence h, hu_streams h, hu_next_stream h)"

lemmas parts = directory_def mailboxes_def streams_def

lemma first_error_Inr: "first_error rs = Inr () \<longleftrightarrow> (\<forall>r \<in> set rs. r = Inr ())"
  by (induction rs rule: first_error.induct) auto

lemma first_error_Inr': "first_error rs = Inr u \<longleftrightarrow> (\<forall>r \<in> set rs. r = Inr ())"
  using first_error_Inr by (cases u) simp

lemma require_Inr [simp]: "require b field = Inr () \<longleftrightarrow> b"
  by (simp add: require_def)

subsection \<open>Directory and presence\<close>

lemma RemoveMember_parts [frame_simps]:
  "mailboxes (snd (RemoveMember ns agent h)) = mailboxes h"
  "streams (snd (RemoveMember ns agent h)) = streams h"
  "hu_claims (snd (RemoveMember ns agent h)) = hu_claims h"
  by (simp_all add: RemoveMember_state parts)

lemma ExpireMembers_parts [frame_simps]:
  "mailboxes (snd (ExpireMembers now age h)) = mailboxes h"
  "streams (snd (ExpireMembers now age h)) = streams h"
  "hu_claims (snd (ExpireMembers now age h)) = hu_claims h"
  by (rule ExpireMembers_inv; simp add: frame_simps)+

lemma Register_parts [frame_simps]:
  "mailboxes (snd (Register now ns agent role h)) = mailboxes h"
  "streams (snd (Register now ns agent role h)) = streams h"
  "hu_claims (snd (Register now ns agent role h)) = hu_claims h"
  by (simp_all add: Register_def Ensure_def parts Let_def)

lemma Touch_parts [frame_simps]:
  "mailboxes (Touch now ns agent h) = mailboxes h"
  "streams (Touch now ns agent h) = streams h"
  "hu_claims (Touch now ns agent h) = hu_claims h"
  by (simp_all add: Touch_def parts)

lemma SetInboxBindingAs_parts [frame_simps]:
  "mailboxes (snd (SetInboxBindingAs now ns agent who h)) = mailboxes h"
  "streams (snd (SetInboxBindingAs now ns agent who h)) = streams h"
  "hu_claims (snd (SetInboxBindingAs now ns agent who h)) = hu_claims h"
  by (simp_all add: SetInboxBindingAs_def parts)

lemma RecordMessageDiagnostic_cases:
  obtains (refused) e where "RecordMessageDiagnostic parse now inp h = (Inl e, h)"
  | (recorded) d where "RecordMessageDiagnostic parse now inp h =
        (Inr (), h\<lparr>hu_diags := upsert_diag d (hu_diags h)\<rparr>)"
      "is_member (di_ns d) (di_agent d) h"
proof (cases "diag_validate parse inp")
  case (Inl e)
  then show thesis using refused by (simp add: RecordMessageDiagnostic_def)
next
  case (Inr p)
  show thesis
  proof (cases "is_member (dg_ns inp) (dg_agent inp) h")
    case True
    then show thesis
      using recorded [of "diag_row_of now (fst p) (snd p) inp"] Inr
      by (auto simp: RecordMessageDiagnostic_def with_tx_def record_diag_body_def diag_row_of_def
          split: prod.split)
  next
    case False
    then show thesis
      using refused Inr
      by (auto simp: RecordMessageDiagnostic_def with_tx_def record_diag_body_def split: prod.split)
  qed
qed

lemma RecordMessageDiagnostic_parts [frame_simps]:
  "mailboxes (snd (RecordMessageDiagnostic parse now inp h)) = mailboxes h"
  "streams (snd (RecordMessageDiagnostic parse now inp h)) = streams h"
  "hu_claims (snd (RecordMessageDiagnostic parse now inp h)) = hu_claims h"
  by (cases rule: RecordMessageDiagnostic_cases [of parse now inp h]; simp add: parts)+

lemma Attach_parts [frame_simps]:
  "mailboxes (snd (Attach ns agent h)) = mailboxes h"
  "directory (snd (Attach ns agent h)) = directory h"
  "hu_claims (snd (Attach ns agent h)) = hu_claims h"
  by (simp_all add: Attach_def parts)

lemma release_parts [frame_simps]:
  "mailboxes (release tok h) = mailboxes h"
  "directory (release tok h) = directory h"
  "hu_claims (release tok h) = hu_claims h"
  by (simp_all add: release_def parts split: option.split)

lemma ClaimWork_claims_only:
  "\<exists>cs. snd (ClaimWork now ns key holder ttl h) = h\<lparr>hu_claims := cs\<rparr>"
proof -
  have same: "\<exists>cs. h = h\<lparr>hu_claims := cs\<rparr>" by (intro exI [of _ "hu_claims h"]) simp
  have wr: "\<exists>cs. claim_write now ttl ns key holder found h = h\<lparr>hu_claims := cs\<rparr>" for found
    by (auto simp: claim_write_def release_claims_def Let_def)
  show ?thesis
    using same wr
    by (auto simp: ClaimWork_def with_tx_def claim_work_body_def split: sum.split)
qed

lemma ClaimWork_parts [frame_simps]:
  "mailboxes (snd (ClaimWork now ns key holder ttl h)) = mailboxes h"
  "directory (snd (ClaimWork now ns key holder ttl h)) = directory h"
  "streams (snd (ClaimWork now ns key holder ttl h)) = streams h"
  using ClaimWork_claims_only [of now ns key holder ttl h] by (auto simp: parts)

lemma ReleaseWork_parts [frame_simps]:
  "mailboxes (snd (ReleaseWork now ns key holder h)) = mailboxes h"
  "directory (snd (ReleaseWork now ns key holder h)) = directory h"
  "streams (snd (ReleaseWork now ns key holder h)) = streams h"
  by (simp_all add: ReleaseWork_def release_claims_def parts Let_def)

subsection \<open>Mailboxes\<close>

definition push_message :: "message \<Rightarrow> hub \<Rightarrow> hub" where
  "push_message m h = h\<lparr>hu_messages := hu_messages h @ [m], hu_next_seq := Suc (hu_next_seq h)\<rparr>"

definition set_messages :: "message list \<Rightarrow> hub \<Rightarrow> hub" where
  "set_messages ms h = h\<lparr>hu_messages := ms\<rparr>"

lemma set_messages_parts [frame_simps]:
  "directory (set_messages ms h) = directory h" "streams (set_messages ms h) = streams h"
  "hu_claims (set_messages ms h) = hu_claims h" "hu_messages (set_messages ms h) = ms"
  "hu_driver (set_messages ms h) = hu_driver h" "hu_next_seq (set_messages ms h) = hu_next_seq h"
  "hu_members (set_messages ms h) = hu_members h"
  by (simp_all add: set_messages_def parts)

lemma push_message_parts [frame_simps]:
  "directory (push_message m h) = directory h" "streams (push_message m h) = streams h"
  "hu_claims (push_message m h) = hu_claims h"
  "hu_messages (push_message m h) = hu_messages h @ [m]"
  "hu_driver (push_message m h) = hu_driver h"
  "hu_next_seq (push_message m h) = Suc (hu_next_seq h)"
  "hu_members (push_message m h) = hu_members h"
  by (simp_all add: push_message_def parts)

text \<open>What a send that stores its message found.\<close>

definition admissible :: "mail_config \<Rightarrow> message_input \<Rightarrow> hub \<Rightarrow> bool" where
  "admissible cfg inp h \<longleftrightarrow> is_member (mi_ns inp) (mi_sender inp) h
     \<and> is_member (mi_ns inp) (mi_recipient inp) h
     \<and> (mi_reply_to inp = [] \<or> (\<exists>m \<in> set (hu_messages h). ms_ns m = mi_ns inp \<and> ms_id m = mi_reply_to inp))
     \<and> int (rows_affected (unread_for (mi_ns inp) (mi_recipient inp)) (hu_messages h)) < effective_cap cfg"

definition sendable :: "mail_config \<Rightarrow> message_input \<Rightarrow> bool" where
  "sendable cfg inp \<longleftrightarrow> message_validate inp = Inr ()
     \<and> policy_check (mc_policy cfg) (mi_ns inp) (mi_body inp) = None"

lemma send_new_cases:
  obtains (refused) e where "send_new cfg now mid inp h = (Inl e, h)"
  | (stored) m where "send_new cfg now mid inp h = (Inr m, push_message m h)"
      "m = new_message now mid inp (next_seq h)" "admissible cfg inp h"
      "mid \<notin> ms_id ` set (hu_messages h)" "\<not> key_taken m (hu_messages h)"
proof (cases "admissible cfg inp h")
  case True
  define m where "m = new_message now mid inp (next_seq h)"
  have mid: "ms_id m = mid" by (simp add: m_def new_message_def)
  have "send_new cfg now mid inp h = insert_message m h"
    using True by (auto simp: send_new_def admissible_def m_def)
  then show thesis
    using refused stored m_def True mid unfolding insert_message_def push_message_def by metis
next
  case False
  then have "\<exists>e. send_new cfg now mid inp h = (Inl e, h)"
    unfolding send_new_def admissible_def by auto
  then show thesis using refused by blast
qed

lemma SendMessage_cases:
  obtains (refused) e where "SendMessage cfg now mid inp h = (Inl e, h)"
  | (replayed) m where "SendMessage cfg now mid inp h = (Inr m, h)" "mi_key inp \<noteq> []"
      "findIdempotent inp h = Inr (Some m)" "sendable cfg inp"
  | (stored) m where "SendMessage cfg now mid inp h = (Inr m, push_message m h)"
      "m = new_message now mid inp (next_seq h)" "sendable cfg inp" "admissible cfg inp h"
      "mid \<notin> ms_id ` set (hu_messages h)" "\<not> key_taken m (hu_messages h)"
      "mi_key inp = [] \<or> findIdempotent inp h = Inr None"
proof (cases "sendable cfg inp")
  case False
  then have "\<exists>e. SendMessage cfg now mid inp h = (Inl e, h)"
    unfolding SendMessage_def sendable_def by (auto split: sum.split option.split)
  then show thesis using refused by blast
next
  case True
  define tail where "tail = (\<lambda>r. case r of
      (Inr m, h') \<Rightarrow> (Inr m, h')
    | (Inl e, h') \<Rightarrow>
        if mi_key inp \<noteq> [] \<and> \<not> final_error e then
          (case findIdempotent inp h' of
             Inr (Some m) \<Rightarrow> (Inr m, h')
           | Inr None \<Rightarrow> (Inl e, h')
           | Inl e' \<Rightarrow> (Inl e', h'))
        else (Inl e, h'))"
  have eq: "SendMessage cfg now mid inp h = tail (with_tx (send_body cfg now mid inp) h)"
    using True by (simp add: SendMessage_def sendable_def tail_def)
  have failed: thesis if "with_tx (send_body cfg now mid inp) h = (Inl e, h)" for e
    using that eq refused replayed True
    by (auto simp: tail_def split: if_splits sum.splits option.splits)
  note commit = stored
  have fresh: thesis if body: "send_body cfg now mid inp h = send_new cfg now mid inp h"
    and free: "mi_key inp = [] \<or> findIdempotent inp h = Inr None"
  proof (cases rule: send_new_cases [of cfg now mid inp h])
    case (refused e)
    then show thesis using failed body by (simp add: with_tx_def)
  next
    case (stored m)
    then show thesis using commit [of m] eq body free True by (simp add: with_tx_def tail_def)
  qed
  show thesis
  proof (cases "mi_key inp = []")
    case True
    then show thesis using fresh by (simp add: send_body_def)
  next
    case keyed: False
    consider (conflict) e where "findIdempotent inp h = Inl e"
      | (none) "findIdempotent inp h = Inr None"
      | (found) m where "findIdempotent inp h = Inr (Some m)"
      by (metis not_None_eq sum.exhaust)
    then show thesis
    proof cases
      case conflict
      then show thesis using failed keyed by (simp add: with_tx_def send_body_def)
    next
      case none
      then show thesis using fresh keyed by (simp add: send_body_def)
    next
      case (found m)
      then show thesis
        using replayed [of m] keyed True eq by (simp add: with_tx_def send_body_def tail_def)
    qed
  qed
qed

lemma ReadMessagesWithOptions_cases:
  obtains (refused) e where "ReadMessagesWithOptions now ns agent opts h = (Inl e, h)"
  | (plain) ms where "ReadMessagesWithOptions now ns agent opts h = (Inr ms, h)"
      "op_lease_seconds opts = 0"
      "ms = select_messages (read_limit (op_limit opts)) (read_where (now 0) ns agent opts) h"
  | (leased) ms where "op_lease_seconds opts > 0" "op_id opts = []" "op_box opts \<noteq> ''sent''"
      "ms = select_messages (read_limit (op_limit opts)) (read_where (now 1) ns agent opts) h"
      "ReadMessagesWithOptions now ns agent opts h =
        (Inr (map (lease_message (now 1 + op_lease_seconds opts * second) (op_leased_by opts)) ms),
         set_messages (update_where
           (\<lambda>m. ms_ns m = ns \<and> ms_recipient m = agent \<and> ms_id m \<in> ms_id ` set ms)
           (lease_message (now 1 + op_lease_seconds opts * second) (op_leased_by opts))
           (hu_messages h)) h)"
proof (cases "read_validate ns agent opts")
  case (Inl e)
  then show thesis using refused by (simp add: ReadMessagesWithOptions_def)
next
  case (Inr u)
  then have v: "\<not> op_lease_seconds opts < 0"
    "op_lease_seconds opts > 0 \<Longrightarrow> op_id opts = [] \<and> op_box opts \<noteq> ''sent''"
    by (auto simp: read_validate_def first_error_Inr')
  show thesis
  proof (cases "op_lease_seconds opts = 0")
    case True
    then show thesis using plain Inr by (simp add: ReadMessagesWithOptions_def)
  next
    case False
    define ms where
      "ms = select_messages (read_limit (op_limit opts)) (read_where (now 1) ns agent opts) h"
    have none: "update_where (\<lambda>_. False) f rows = rows" for f and rows :: "message list"
      by (simp add: update_where_def)
    have pos: "op_lease_seconds opts > 0" using v(1) False by simp
    have "ReadMessagesWithOptions now ns agent opts h =
        (Inr (map (lease_message (now 1 + op_lease_seconds opts * second) (op_leased_by opts)) ms),
         set_messages (update_where
           (\<lambda>m. ms_ns m = ns \<and> ms_recipient m = agent \<and> ms_id m \<in> ms_id ` set ms)
           (lease_message (now 1 + op_lease_seconds opts * second) (op_leased_by opts))
           (hu_messages h)) h)"
      using False Inr none
      by (cases "ms = []")
        (simp_all add: ReadMessagesWithOptions_def with_tx_def lease_body_def Let_def
          set_messages_def ms_def [symmetric] del: One_nat_def)
    then show thesis using leased [OF pos _ _ ms_def] v(2) [OF pos] by blast
  qed
qed

lemma Ack_cases:
  "(\<exists>e. AckMessagesWithLease now ns agent ids owner h = (Inl e, h))
   \<or> AckMessagesWithLease now ns agent ids owner h =
      (Inr (rows_affected (ack_where now ns agent ids owner) (hu_messages h)),
       set_messages (update_where (ack_where now ns agent ids owner) (ack_message now)
         (hu_messages h)) h)"
  unfolding AckMessagesWithLease_def set_messages_def by (simp split: sum.split)

lemma ReleaseLeases_cases:
  "(\<exists>e. ReleaseMessageLeases now ns agent ids owner h = (Inl e, h))
   \<or> ReleaseMessageLeases now ns agent ids owner h =
      (Inr (rows_affected (release_where now ns agent ids owner) (hu_messages h)),
       set_messages (update_where (release_where now ns agent ids owner)
         (\<lambda>m. m\<lparr>ms_leased_until := None, ms_leased_by := None\<rparr>) (hu_messages h)) h)"
  unfolding ReleaseMessageLeases_def set_messages_def by (simp split: sum.split)

lemma Sweep_cases:
  "(\<exists>r. SweepMessageRetention cfg now ns h = (r, h))
   \<or> mc_retention cfg > 0 \<and> SweepMessageRetention cfg now ns h =
      (Inr (rows_affected (swept ns (now - mc_retention cfg)) (hu_messages h)),
       set_messages (filter (\<lambda>m. \<not> swept ns (now - mc_retention cfg) m) (hu_messages h)) h)"
  unfolding SweepMessageRetention_def set_messages_def by (simp add: Let_def split: sum.split)

lemma move_messages_cases:
  "(\<exists>e. move_messages P ns h = (Inl e, h))
   \<or> keys_unique (update_where P (\<lambda>m. m\<lparr>ms_ns := ns\<rparr>) (hu_messages h))
     \<and> move_messages P ns h = (Inr (rows_affected P (hu_messages h)),
         set_messages (update_where P (\<lambda>m. m\<lparr>ms_ns := ns\<rparr>) (hu_messages h)) h)"
  unfolding move_messages_def set_messages_def by (simp add: Let_def)

lemma Archive_cases:
  "(\<exists>e. ArchiveReadMessages ns archive h = (Inl e, h))
   \<or> checkNamespace archive = Inr () \<and> ArchiveReadMessages ns archive h =
       move_messages (\<lambda>m. ms_ns m = ns \<and> ms_acked_at m \<noteq> None) archive h"
  unfolding ArchiveReadMessages_def
  by (cases "first_error [checkNamespace ns, checkNamespace archive]") (auto simp: first_error_Inr')

lemma Restore_cases:
  "(\<exists>e. RestoreArchivedMessages archive ns h = (Inl e, h))
   \<or> checkNamespace ns = Inr () \<and> RestoreArchivedMessages archive ns h =
       move_messages (\<lambda>m. ms_ns m = archive) ns h"
  unfolding RestoreArchivedMessages_def
  by (cases "first_error [checkNamespace ns, checkNamespace archive]") (auto simp: first_error_Inr')

section \<open>The invariant of the hub\<close>

definition member_key :: "member \<Rightarrow> string \<times> string" where
  "member_key m = (me_ns m, me_agent m)"

definition diag_key :: "diag_row \<Rightarrow> string \<times> string" where
  "diag_key d = (di_ns d, di_agent d)"

text \<open>Regions, members, bindings and diagnostics have unique keys, every member has its region, and
  every diagnostic belongs to a member.\<close>

definition directory_ok :: "hub \<Rightarrow> bool" where
  "directory_ok h \<longleftrightarrow> distinct (map re_ns (hu_regions h))
     \<and> distinct (map member_key (hu_members h))
     \<and> me_ns ` set (hu_members h) \<subseteq> re_ns ` set (hu_regions h)
     \<and> distinct (map ib_agent (hu_bindings h))
     \<and> distinct (map diag_key (hu_diags h))
     \<and> diag_key ` set (hu_diags h) \<subseteq> member_key ` set (hu_members h)"

text \<open>The input a stored message would be sent with.\<close>

definition input_of :: "message \<Rightarrow> message_input" where
  "input_of m = \<lparr>mi_ns = ms_ns m, mi_sender = ms_sender m, mi_recipient = ms_recipient m,
     mi_body = ms_body m, mi_task = ms_task m, mi_reply_to = ms_reply_to m,
     mi_key = (case ms_key m of None \<Rightarrow> [] | Some k \<Rightarrow> k)\<rparr>"

text \<open>Message identifiers, sequence numbers and idempotency keys are unique, numbers still to come are
  unused, and every message passes validation.\<close>

definition mail_ok :: "hub \<Rightarrow> bool" where
  "mail_ok h \<longleftrightarrow> distinct (map ms_id (hu_messages h))
     \<and> distinct (map ms_seq (hu_messages h))
     \<and> keys_unique (hu_messages h)
     \<and> (hu_driver h = Postgres \<longrightarrow> (\<forall>m \<in> set (hu_messages h). ms_seq m < hu_next_seq h))
     \<and> (\<forall>m \<in> set (hu_messages h). message_validate (input_of m) = Inr ())"

definition hub_ok :: "hub \<Rightarrow> bool" where
  "hub_ok h \<longleftrightarrow> directory_ok h \<and> mail_ok h \<and> presence_ok h \<and> claims_ok h"

subsection \<open>Directory operations keep it\<close>

lemma is_member_key: "is_member ns agent h \<longleftrightarrow> (ns, agent) \<in> member_key ` set (hu_members h)"
  by (auto simp: is_member_def member_key_def image_iff)

lemma directory_ok_part: "directory h = directory h' \<Longrightarrow> directory_ok h \<Longrightarrow> directory_ok h'"
  by (simp add: directory_def directory_ok_def)

lemma Ensure_ok: "directory_ok h \<Longrightarrow> directory_ok (Ensure now ns title h) \<and> hu_members (Ensure now ns title h) = hu_members h
    \<and> ns \<in> re_ns ` set (hu_regions (Ensure now ns title h))"
  by (auto simp: Ensure_def directory_ok_def)

lemma update_members_ok:
  assumes "directory_ok h" and "\<And>m. member_key (f m) = member_key m"
  shows "directory_ok (h\<lparr>hu_members := update_where P f (hu_members h)\<rparr>)"
proof -
  have "member_key ` set (update_where P f (hu_members h)) = member_key ` set (hu_members h)"
    "map member_key (update_where P f (hu_members h)) = map member_key (hu_members h)"
    using assms(2) map_update_where [of P member_key f] by (auto simp flip: set_map)
  moreover have "me_ns ` set (update_where P f (hu_members h)) = me_ns ` set (hu_members h)"
  proof -
    have "me_ns = fst \<circ> member_key" by (auto simp: member_key_def)
    then show ?thesis using calculation(1) by (metis image_comp)
  qed
  ultimately show ?thesis using assms(1) by (simp add: directory_ok_def)
qed

lemma Register_ok: "directory_ok h \<Longrightarrow> directory_ok (snd (Register now ns agent role h))"
proof -
  assume ok: "directory_ok h"
  define h1 where "h1 = Ensure (now 0) ns [] h"
  have h1: "directory_ok h1" "ns \<in> re_ns ` set (hu_regions h1)"
    using Ensure_ok [OF ok] by (auto simp: h1_def)
  define new where "new = \<lparr>me_ns = ns, me_agent = agent, me_role = role, me_joined_at = now 1,
      me_last_seen = Some (now 1)\<rparr>"
  have add: "directory_ok (h1\<lparr>hu_members := hu_members h1 @ [new]\<rparr>)" if "\<not> is_member ns agent h1"
    using that h1 by (auto simp: directory_ok_def is_member_key new_def member_key_def)
  have upd: "directory_ok (h1\<lparr>hu_members := update_where (at_member ns agent)
      (\<lambda>m. m\<lparr>me_role := role, me_last_seen := Some (now 1)\<rparr>) (hu_members h1)\<rparr>)"
    by (rule update_members_ok [OF h1(1)]) (simp add: member_key_def)
  show ?thesis
    using ok add upd unfolding Register_def Let_def h1_def new_def by (simp del: One_nat_def)
qed

lemma Touch_ok: "directory_ok h \<Longrightarrow> directory_ok (Touch now ns agent h)"
  by (simp add: Touch_def update_members_ok member_key_def)

lemma RemoveMember_ok:
  assumes "directory_ok h"
  shows "directory_ok (snd (RemoveMember ns agent h))"
proof -
  define ds where "ds = filter (\<lambda>d. \<not> (di_ns d = ns \<and> di_agent d = agent)) (hu_diags h)"
  define ms where "ms = filter (\<lambda>m. \<not> at_member ns agent m) (hu_members h)"
  have "diag_key ` set ds = diag_key ` set (hu_diags h) - {(ns, agent)}"
    by (auto simp: diag_key_def ds_def)
  moreover have "member_key ` set ms = member_key ` set (hu_members h) - {(ns, agent)}"
    by (auto simp: member_key_def at_member_def ms_def)
  moreover have "me_ns ` set ms \<subseteq> re_ns ` set (hu_regions h)"
    using assms image_mono [of "set ms" "set (hu_members h)" me_ns]
    by (simp add: directory_ok_def ms_def subset_iff)
  moreover have "distinct (map member_key ms)" "distinct (map diag_key ds)"
    using assms by (simp_all add: directory_ok_def distinct_map_filter ms_def ds_def)
  ultimately show ?thesis
    using assms unfolding RemoveMember_state ds_def [symmetric] ms_def [symmetric]
    by (auto simp: directory_ok_def)
qed

lemma SetInboxBindingAs_ok:
  assumes "directory_ok h"
  shows "directory_ok (snd (SetInboxBindingAs now ns agent who h))"
  using assms by (auto simp: SetInboxBindingAs_def directory_ok_def table_simps)

lemma RecordMessageDiagnostic_ok:
  assumes "directory_ok h"
  shows "directory_ok (snd (RecordMessageDiagnostic parse now inp h))"
proof (cases rule: RecordMessageDiagnostic_cases [of parse now inp h])
  case (refused e)
  then show ?thesis using assms by simp
next
  case (recorded d)
  have same: "map diag_key (update_where (\<lambda>e. di_ns e = di_ns d \<and> di_agent e = di_agent d) (\<lambda>_. d) ds) =
      map diag_key ds" for ds
    by (rule map_update_where) (simp add: diag_key_def)
  have ex: "(\<exists>e \<in> set (hu_diags h). di_ns e = di_ns d \<and> di_agent e = di_agent d)
      \<longleftrightarrow> diag_key d \<in> diag_key ` set (hu_diags h)"
    by (auto simp: diag_key_def image_iff eq_commute)
  have mapped: "map diag_key (upsert_diag d (hu_diags h)) = (if diag_key d \<in> diag_key ` set (hu_diags h)
      then map diag_key (hu_diags h) else map diag_key (hu_diags h) @ [diag_key d])"
    unfolding upsert_diag_def ex using same by simp
  have "distinct (map diag_key (hu_diags h))" using assms by (simp add: directory_ok_def)
  then have keys: "diag_key ` set (upsert_diag d (hu_diags h)) = insert (diag_key d) (diag_key ` set (hu_diags h))"
    "distinct (map diag_key (upsert_diag d (hu_diags h)))"
  proof -
    show "diag_key ` set (upsert_diag d (hu_diags h)) = insert (diag_key d) (diag_key ` set (hu_diags h))"
      unfolding set_map [symmetric] mapped by (simp add: insert_absorb)
    assume "distinct (map diag_key (hu_diags h))"
    then show "distinct (map diag_key (upsert_diag d (hu_diags h)))"
      unfolding mapped by simp
  qed
  show ?thesis
    using assms recorded keys by (auto simp: directory_ok_def is_member_key diag_key_def)
qed

subsection \<open>Mailbox operations keep it\<close>

lemma mail_ok_part: "mailboxes h = mailboxes h' \<Longrightarrow> mail_ok h \<Longrightarrow> mail_ok h'"
  by (simp add: mailboxes_def mail_ok_def)

lemma validate_ns:
  assumes "message_validate (input_of m) = Inr ()" and "checkNamespace ns = Inr ()"
  shows "message_validate (input_of (m\<lparr>ms_ns := ns\<rparr>)) = Inr ()"
  using assms by (simp add: message_validate_def input_of_def first_error_Inr)

lemma next_seq_fresh:
  assumes "mail_ok h"
  shows "next_seq h \<notin> ms_seq ` set (hu_messages h)"
proof -
  have "n < Suc (foldr max ns 0)" if "n \<in> set ns" for n and ns :: "nat list"
    using that by (induction ns) auto
  then have sqlite: "ms_seq m < Suc (foldr max (map ms_seq (hu_messages h)) 0)"
    if "m \<in> set (hu_messages h)" for m
    using that by (metis image_eqI list.set_map)
  have "ms_seq m < next_seq h" if "m \<in> set (hu_messages h)" for m
    using sqlite [OF that] that assms by (cases "hu_driver h") (simp_all add: next_seq_def mail_ok_def)
  then show ?thesis by (metis imageE less_irrefl)
qed

lemma keys_unique_snoc:
  assumes "keys_unique ms" and "\<not> key_taken m ms"
  shows "keys_unique (ms @ [m])"
  using assms by (auto simp: keys_unique_def key_taken_def has_key_def)

lemma SendMessage_ok:
  assumes "mail_ok h"
  shows "mail_ok (snd (SendMessage cfg now mid inp h))"
proof (cases rule: SendMessage_cases [of cfg now mid inp h])
  case (stored m)
  have "input_of m = inp"
    using stored(2) by (cases "mi_key inp = []") (simp_all add: input_of_def new_message_def)
  then have "message_validate (input_of m) = Inr ()"
    using stored(3) by (simp add: sendable_def)
  moreover have "ms_id m = mid" "ms_seq m = next_seq h"
    using stored(2) by (simp_all add: new_message_def)
  moreover have "hu_driver h = Postgres \<Longrightarrow> next_seq h = hu_next_seq h" by (simp add: next_seq_def)
  ultimately show ?thesis
    using assms stored next_seq_fresh [OF assms] keys_unique_snoc
    by (auto simp: mail_ok_def frame_simps less_Suc_eq)
qed (use assms in simp_all)

text \<open>Row updates of leases and acknowledgements leave identity and content alone.\<close>

definition same_letter :: "message \<Rightarrow> message \<Rightarrow> bool" where
  "same_letter m m' \<longleftrightarrow> ms_id m' = ms_id m \<and> ms_seq m' = ms_seq m \<and> ms_key m' = ms_key m
     \<and> ms_ns m' = ms_ns m \<and> ms_sender m' = ms_sender m \<and> ms_recipient m' = ms_recipient m
     \<and> ms_body m' = ms_body m \<and> ms_task m' = ms_task m \<and> ms_reply_to m' = ms_reply_to m
     \<and> ms_created_at m' = ms_created_at m"

lemma same_letter_updates [simp]:
  "same_letter m m" "same_letter m (lease_message u owner m)" "same_letter m (ack_message now m)"
  "same_letter m (m\<lparr>ms_leased_until := None, ms_leased_by := None\<rparr>)"
  by (simp_all add: same_letter_def lease_message_def ack_message_def)

lemma ball_update_where:
  assumes "\<forall>m \<in> set rows. Q m" and "\<And>m. Q m \<Longrightarrow> Q (f m)"
  shows "\<forall>m \<in> set (update_where P f rows). Q m"
  using assms by (auto elim!: in_update_whereE)

lemma update_letters_ok:
  assumes "mail_ok h" and f: "\<And>m. same_letter m (f m)"
  shows "mail_ok (set_messages (update_where P f (hu_messages h)) h)"
proof -
  have eq: "map g (update_where P f ms) = map g ms" if "\<And>m. g (f m) = g m" for g :: "message \<Rightarrow> 'a" and ms
    using that by (rule map_update_where)
  have "map (\<lambda>m. (ms_ns m, ms_sender m, ms_key m)) (filter (\<lambda>m. ms_key m \<noteq> None) (update_where P f ms)) =
      map (\<lambda>m. (ms_ns m, ms_sender m, ms_key m)) (filter (\<lambda>m. ms_key m \<noteq> None) ms)" for ms
    using f by (induction ms) (auto simp: update_where_def same_letter_def)
  then have keys: "keys_unique (update_where P f ms) = keys_unique ms" for ms
    by (simp add: keys_unique_def)
  have id: "ms_id (f m) = ms_id m" and sq: "ms_seq (f m) = ms_seq m" and inp: "input_of (f m) = input_of m" for m
    using f [of m] by (simp_all add: input_of_def same_letter_def)
  have "\<forall>m \<in> set (update_where P f (hu_messages h)). message_validate (input_of m) = Inr ()"
    using assms(1) inp by (intro ball_update_where) (simp_all add: mail_ok_def)
  moreover have "\<forall>m \<in> set (update_where P f (hu_messages h)). ms_seq m < hu_next_seq h"
    if "hu_driver h = Postgres"
    using assms(1) sq that by (intro ball_update_where) (simp_all add: mail_ok_def)
  ultimately show ?thesis
    using assms(1) by (simp add: mail_ok_def frame_simps keys eq [of ms_id, OF id] eq [of ms_seq, OF sq])
qed

lemma keys_unique_filter:
  assumes "keys_unique ms"
  shows "keys_unique (filter P ms)"
proof -
  have swap: "filter (\<lambda>m. ms_key m \<noteq> None) (filter P ms) =
      filter P (filter (\<lambda>m. ms_key m \<noteq> None) ms)"
    unfolding filter_filter by (rule filter_cong) auto
  show ?thesis
    using assms unfolding keys_unique_def swap by (rule distinct_map_filter)
qed

lemma filter_messages_ok:
  assumes "mail_ok h"
  shows "mail_ok (set_messages (filter P (hu_messages h)) h)"
proof -
  have "keys_unique (filter P (hu_messages h))"
    using assms by (simp add: keys_unique_filter mail_ok_def)
  then show ?thesis
    using assms by (auto simp: mail_ok_def frame_simps distinct_map_filter)
qed

lemma move_messages_ok:
  assumes "mail_ok h" and "checkNamespace ns = Inr ()"
  shows "mail_ok (snd (move_messages P ns h))"
  using move_messages_cases [of P ns h]
proof (elim disjE exE conjE)
  assume "keys_unique (update_where P (\<lambda>m. m\<lparr>ms_ns := ns\<rparr>) (hu_messages h))"
    and "move_messages P ns h = (Inr (rows_affected P (hu_messages h)),
      set_messages (update_where P (\<lambda>m. m\<lparr>ms_ns := ns\<rparr>) (hu_messages h)) h)"
  then show ?thesis
    using assms(1) validate_ns [OF _ assms(2)]
    by (auto simp: mail_ok_def frame_simps table_simps elim!: in_update_whereE)
qed (use assms in simp)

subsection \<open>Every step keeps the invariant\<close>

lemma ReadMessagesWithOptions_ok:
  assumes "mail_ok h"
  shows "mail_ok (snd (ReadMessagesWithOptions now ns agent opts h))"
  by (cases rule: ReadMessagesWithOptions_cases [of now ns agent opts h])
    (use assms in \<open>simp_all add: update_letters_ok\<close>)

lemma Ack_ok: "mail_ok h \<Longrightarrow> mail_ok (snd (AckMessagesWithLease now ns agent ids owner h))"
  using Ack_cases [of now ns agent ids owner h] by (auto simp: update_letters_ok)

lemma ReleaseLeases_ok: "mail_ok h \<Longrightarrow> mail_ok (snd (ReleaseMessageLeases now ns agent ids owner h))"
  using ReleaseLeases_cases [of now ns agent ids owner h] by (auto simp: update_letters_ok)

lemma Sweep_ok: "mail_ok h \<Longrightarrow> mail_ok (snd (SweepMessageRetention cfg now ns h))"
  using Sweep_cases [of cfg now ns h] by (auto simp: filter_messages_ok)

lemma Archive_ok: "mail_ok h \<Longrightarrow> mail_ok (snd (ArchiveReadMessages ns archive h))"
  using Archive_cases [of ns archive h] by (auto simp: move_messages_ok)

lemma Restore_ok: "mail_ok h \<Longrightarrow> mail_ok (snd (RestoreArchivedMessages archive ns h))"
  using Restore_cases [of archive ns h] by (auto simp: move_messages_ok)

lemmas mail_steps_ok = SendMessage_ok ReadMessagesWithOptions_ok Ack_ok ReleaseLeases_ok Sweep_ok
  Archive_ok Restore_ok

lemma mail_steps_frame [frame_simps]:
  "directory (snd (SendMessage cfg now mid inp h)) = directory h"
  "streams (snd (SendMessage cfg now mid inp h)) = streams h"
  "hu_claims (snd (SendMessage cfg now mid inp h)) = hu_claims h"
  "directory (snd (ReadMessagesWithOptions now' ns agent opts h)) = directory h"
  "streams (snd (ReadMessagesWithOptions now' ns agent opts h)) = streams h"
  "hu_claims (snd (ReadMessagesWithOptions now' ns agent opts h)) = hu_claims h"
  by (cases rule: SendMessage_cases [of cfg now mid inp h]; simp add: frame_simps)+
    (cases rule: ReadMessagesWithOptions_cases [of now' ns agent opts h]; simp add: frame_simps)+

lemma move_messages_frame [frame_simps]:
  "directory (snd (move_messages P ns h)) = directory h"
  "streams (snd (move_messages P ns h)) = streams h"
  "hu_claims (snd (move_messages P ns h)) = hu_claims h"
  using move_messages_cases [of P ns h] by (auto simp: frame_simps)

lemma ack_steps_frame [frame_simps]:
  "directory (snd (AckMessagesWithLease now ns agent ids owner h)) = directory h"
  "streams (snd (AckMessagesWithLease now ns agent ids owner h)) = streams h"
  "hu_claims (snd (AckMessagesWithLease now ns agent ids owner h)) = hu_claims h"
  "directory (snd (ReleaseMessageLeases now ns agent ids owner h)) = directory h"
  "streams (snd (ReleaseMessageLeases now ns agent ids owner h)) = streams h"
  "hu_claims (snd (ReleaseMessageLeases now ns agent ids owner h)) = hu_claims h"
  using Ack_cases [of now ns agent ids owner h] ReleaseLeases_cases [of now ns agent ids owner h]
  by (auto simp: frame_simps)

lemma archive_steps_frame [frame_simps]:
  "directory (snd (SweepMessageRetention cfg now ns h)) = directory h"
  "streams (snd (SweepMessageRetention cfg now ns h)) = streams h"
  "hu_claims (snd (SweepMessageRetention cfg now ns h)) = hu_claims h"
  "directory (snd (ArchiveReadMessages ns archive h)) = directory h"
  "streams (snd (ArchiveReadMessages ns archive h)) = streams h"
  "hu_claims (snd (ArchiveReadMessages ns archive h)) = hu_claims h"
  "directory (snd (RestoreArchivedMessages archive ns h)) = directory h"
  "streams (snd (RestoreArchivedMessages archive ns h)) = streams h"
  "hu_claims (snd (RestoreArchivedMessages archive ns h)) = hu_claims h"
  using Sweep_cases [of cfg now ns h] Archive_cases [of ns archive h] Restore_cases [of archive ns h]
  by (auto simp: frame_simps)

lemma presence_ok_part: "streams h = streams h' \<Longrightarrow> presence_ok h \<Longrightarrow> presence_ok h'"
  by (simp add: streams_def presence_ok_def open_streams_def)

lemma claims_ok_part: "hu_claims h = hu_claims h' \<Longrightarrow> claims_ok h \<Longrightarrow> claims_ok h'"
  by (simp add: claims_ok_def)

lemma ClaimWork_ok:
  assumes "claims_ok h"
  shows "claims_ok (snd (ClaimWork now ns key holder ttl h))"
proof (cases "ns = [] \<or> key = [] \<or> holder = []")
  case True
  then show ?thesis using assms by (auto simp: ClaimWork_def)
next
  case False
  then have "snd (ClaimWork now ns key holder ttl h) = snd (take_claim now ttl (ns, key) holder h)"
    using ClaimWork_take(2) by blast
  moreover have "claims_ok (snd (take_claim now ttl (ns, key) holder h))"
    by (cases rule: work.acquire_cases [OF assms, of now ttl "(ns, key)" holder]) (use assms in auto)
  ultimately show ?thesis by simp
qed

lemma ReleaseWork_ok: "claims_ok h \<Longrightarrow> claims_ok (snd (ReleaseWork now ns key holder h))"
  using claims_ok_drop [of h now "(ns, key)" holder] by (simp add: drop_claim_def)

lemma hub_do_directory_ok:
  assumes "directory_ok h"
  shows "directory_ok (hub_do cfg op h)"
proof (cases op)
  case (DoExpire now age)
  then show ?thesis using ExpireMembers_inv [of directory_ok] RemoveMember_ok assms by simp
qed (use assms in \<open>simp_all add: Register_ok Touch_ok RemoveMember_ok SetInboxBindingAs_ok
    RecordMessageDiagnostic_ok directory_ok_part [of h] frame_simps\<close>)

lemma hub_do_mail_ok:
  assumes "mail_ok h"
  shows "mail_ok (hub_do cfg op h)"
  using assms
  by (cases op) (simp_all add: mail_steps_ok mail_ok_part [of h] frame_simps)

lemma hub_do_presence_ok:
  assumes "presence_ok h"
  shows "presence_ok (hub_do cfg op h)"
  using assms
  by (cases op) (simp_all add: Attach_presence release_presence presence_ok_part [of h] frame_simps)

lemma hub_do_claims_ok:
  assumes "claims_ok h"
  shows "claims_ok (hub_do cfg op h)"
  using assms
  by (cases op) (simp_all add: ClaimWork_ok ReleaseWork_ok claims_ok_part [of h] frame_simps)

lemma empty_hub_ok: "hub_ok (empty_hub d)"
  by (simp add: hub_ok_def directory_ok_def mail_ok_def presence_ok_def claims_ok_def empty_hub_def
      rows_affected_def keys_unique_def open_streams_def)

lemma hub_run_ok: "hub_ok h \<Longrightarrow> hub_ok (hub_run cfg ops h)"
  by (rule hub_run_inv)
    (simp_all add: hub_ok_def hub_do_directory_ok hub_do_mail_ok hub_do_presence_ok hub_do_claims_ok)

text \<open>C9: the hub stays consistent.  After any sequence of operations from an empty store: regions,
  members, bindings and diagnostics have unique keys, every member has its region row and every
  diagnostic belongs to a current member; message identifiers, sequence numbers and idempotency keys
  are unique and every stored message passes validation; a key has at most one unreleased claim; and
  an address is listening exactly when a stream attached to it has not been released.\<close>

theorem hub_consistent:
  "directory_ok (hub_run cfg ops (empty_hub d)) \<and> mail_ok (hub_run cfg ops (empty_hub d))
   \<and> claims_ok (hub_run cfg ops (empty_hub d))
   \<and> (Listening ns agent (hub_run cfg ops (empty_hub d)) \<longleftrightarrow>
       (\<exists>tok. (tok, ns, agent) \<in> set (hu_streams (hub_run cfg ops (empty_hub d)))))"
proof -
  have ok: "hub_ok (hub_run cfg ops (empty_hub d))" by (rule hub_run_ok [OF empty_hub_ok])
  have "Listening ns agent h \<longleftrightarrow> open_streams (ns, agent) h \<noteq> []" if "presence_ok h" for h
    using that by (auto simp: Listening_def presence_ok_def)
  then show ?thesis
    using ok by (auto simp: hub_ok_def open_streams_def filter_empty_conv)
qed

text \<open>The effect of any operation on the mailboxes.\<close>

lemma hub_do_effect:
  obtains (quiet) "mailboxes (hub_do cfg op h) = mailboxes h"
  | (stored) now mid inp m where "op = DoSend now mid inp" "hub_do cfg op h = push_message m h"
      "m = new_message now mid inp (next_seq h)" "sendable cfg inp" "admissible cfg inp h"
      "mid \<notin> ms_id ` set (hu_messages h)"
  | (leased) now ns agent opts ms where "op = DoRead now ns agent opts" "op_lease_seconds opts > 0"
      "op_id opts = []" "op_box opts \<noteq> ''sent''"
      "ms = select_messages (read_limit (op_limit opts)) (read_where (now 1) ns agent opts) h"
      "hub_do cfg op h = set_messages (update_where
           (\<lambda>m. ms_ns m = ns \<and> ms_recipient m = agent \<and> ms_id m \<in> ms_id ` set ms)
           (lease_message (now 1 + op_lease_seconds opts * second) (op_leased_by opts))
           (hu_messages h)) h"
  | (acked) now ns agent ids owner where "op = DoAck now ns agent ids owner"
      "hub_do cfg op h = set_messages (update_where (ack_where now ns agent ids owner)
         (ack_message now) (hu_messages h)) h"
  | (released) now ns agent ids owner where "op = DoReleaseLeases now ns agent ids owner"
      "hub_do cfg op h = set_messages (update_where (release_where now ns agent ids owner)
         (\<lambda>m. m\<lparr>ms_leased_until := None, ms_leased_by := None\<rparr>) (hu_messages h)) h"
  | (swept) now ns where "op = DoSweep now ns"
      "hub_do cfg op h = set_messages
         (filter (\<lambda>m. \<not> swept ns (now - mc_retention cfg) m) (hu_messages h)) h"
  | (moved) P ns where
      "(\<exists>src. op = DoArchive src ns \<and> P = (\<lambda>m. ms_ns m = src \<and> ms_acked_at m \<noteq> None))
       \<or> (\<exists>src. op = DoRestore src ns \<and> P = (\<lambda>m. ms_ns m = src))"
      "hub_do cfg op h = set_messages (update_where P (\<lambda>m. m\<lparr>ms_ns := ns\<rparr>) (hu_messages h)) h"
proof (cases op)
  case (DoSend now mid inp)
  then show thesis
    using quiet stored [OF DoSend] by (cases rule: SendMessage_cases [of cfg now mid inp h]) auto
next
  case (DoRead now ns agent opts)
  show thesis
    using quiet leased [OF DoRead] DoRead
    by (cases rule: ReadMessagesWithOptions_cases [of now ns agent opts h]) simp_all
next
  case (DoAck now ns agent ids owner)
  then show thesis
    using quiet acked [OF DoAck] Ack_cases [of now ns agent ids owner h] by auto
next
  case (DoReleaseLeases now ns agent ids owner)
  then show thesis
    using quiet released [OF DoReleaseLeases] ReleaseLeases_cases [of now ns agent ids owner h] by auto
next
  case (DoSweep now ns)
  then show thesis using quiet swept [OF DoSweep] Sweep_cases [of cfg now ns h] by auto
next
  case (DoArchive src ns)
  let ?P = "\<lambda>m. ms_ns m = src \<and> ms_acked_at m \<noteq> None"
  show thesis
    using quiet moved [of ns ?P] DoArchive Archive_cases [of src ns h] move_messages_cases [of ?P ns h]
    by (elim disjE exE conjE) simp_all
next
  case (DoRestore src ns)
  let ?P = "\<lambda>m. ms_ns m = src"
  show thesis
    using quiet moved [of ns ?P] DoRestore Restore_cases [of src ns h] move_messages_cases [of ?P ns h]
    by (elim disjE exE conjE) simp_all
qed (rule quiet; simp add: frame_simps)+

end
