(* ===== verification/Delivery.thy ===== *)
theory Delivery
  imports Hub_Proofs
begin

text \<open>
  The delivery properties of the inboxes over any sequence of hub operations: admission, sends that
  take effect once, messages that are not lost, leases, acknowledgements, the archive round trip and
  the waiting loop.  Every proof is a case analysis over \<open>hub_do_effect\<close>.
\<close>

section \<open>Admission\<close>

fun moves :: "hub_op \<Rightarrow> bool" where
  "moves (DoArchive _ _) = True"
| "moves (DoRestore _ _) = True"
| "moves _ = False"

definition inbox_bounded :: "mail_config \<Rightarrow> hub \<Rightarrow> bool" where
  "inbox_bounded cfg h \<longleftrightarrow>
     (\<forall>ns agent. int (rows_affected (unread_for ns agent) (hu_messages h)) \<le> effective_cap cfg)"

definition policy_clean :: "mail_config \<Rightarrow> hub \<Rightarrow> bool" where
  "policy_clean cfg h \<longleftrightarrow>
     (\<forall>m \<in> set (hu_messages h). policy_check (mc_policy cfg) (ms_ns m) (ms_body m) = None)"

definition admitted :: "mail_config \<Rightarrow> hub \<Rightarrow> bool" where
  "admitted cfg h \<longleftrightarrow> inbox_bounded cfg h \<and> policy_clean cfg h"

lemma rows_affected_update_le:
  assumes "\<And>m. Q (f m) \<Longrightarrow> Q m"
  shows "rows_affected Q (update_where P f ms) \<le> rows_affected Q ms"
proof (induction ms)
  case Nil
  then show ?case by (simp add: rows_affected_def update_where_def)
next
  case (Cons m ms)
  have "Q (if P m then f m else m) \<longrightarrow> Q m" using assms [of m] by presburger
  then show ?case using Cons by (simp add: rows_affected_def update_where_def)
qed

lemma admitted_part: "mailboxes h = mailboxes h' \<Longrightarrow> admitted cfg h \<Longrightarrow> admitted cfg h'"
  by (simp add: mailboxes_def admitted_def inbox_bounded_def policy_clean_def)

lemma inbox_bounded_le:
  assumes "inbox_bounded cfg h"
    and "\<And>ns agent. rows_affected (unread_for ns agent) (hu_messages h') \<le>
      rows_affected (unread_for ns agent) (hu_messages h)"
  shows "inbox_bounded cfg h'"
  unfolding inbox_bounded_def
proof (intro allI)
  fix ns agent
  have "int (rows_affected (unread_for ns agent) (hu_messages h)) \<le> effective_cap cfg"
    using assms(1) unfolding inbox_bounded_def by blast
  then show "int (rows_affected (unread_for ns agent) (hu_messages h')) \<le> effective_cap cfg"
    using assms(2) [of ns agent] by linarith
qed

lemma acked_updates [simp]:
  "ms_acked_at (lease_message u owner m) = ms_acked_at m"
  "ms_acked_at (ack_message now m) = Some now"
  by (simp_all add: lease_message_def ack_message_def)

lemma admitted_update:
  assumes "admitted cfg h" and f: "\<And>m. same_letter m (f m)"
    and acked: "\<And>m. ms_acked_at (f m) = None \<Longrightarrow> ms_acked_at m = None"
  shows "admitted cfg (set_messages (update_where P f (hu_messages h)) h)"
proof -
  have unread: "unread_for ns agent m" if "unread_for ns agent (f m)" for ns agent m
    using f [of m] acked [of m] that by (simp add: unread_for_def same_letter_def)
  have "rows_affected (unread_for ns agent) (update_where P f ms) \<le> rows_affected (unread_for ns agent) ms"
    for ns agent ms
    by (rule rows_affected_update_le) (rule unread)
  moreover have "inbox_bounded cfg h" using assms(1) by (simp add: admitted_def)
  ultimately have "inbox_bounded cfg (set_messages (update_where P f (hu_messages h)) h)"
    using inbox_bounded_le set_messages_parts(4) by presburger
  moreover have "policy_check (mc_policy cfg) (ms_ns (f m)) (ms_body (f m)) =
      policy_check (mc_policy cfg) (ms_ns m) (ms_body m)" for m
    using f [of m] by (simp add: same_letter_def)
  then have "policy_clean cfg (set_messages (update_where P f (hu_messages h)) h)"
    using assms(1) unfolding policy_clean_def set_messages_parts
    by (intro ball_update_where) (simp_all add: admitted_def policy_clean_def)
  ultimately show ?thesis by (simp add: admitted_def)
qed

lemma admitted_filter:
  assumes "admitted cfg h"
  shows "admitted cfg (set_messages (filter P (hu_messages h)) h)"
proof -
  have "rows_affected Q (filter P ms) \<le> rows_affected Q ms" for Q and ms :: "message list"
    by (induction ms) (auto simp: rows_affected_def intro: le_SucI)
  moreover have "inbox_bounded cfg h" using assms by (simp add: admitted_def)
  ultimately have "inbox_bounded cfg (set_messages (filter P (hu_messages h)) h)"
    using inbox_bounded_le set_messages_parts(4) by presburger
  then show ?thesis using assms by (simp add: admitted_def policy_clean_def frame_simps)
qed

lemma unread_new:
  "unread_for ns agent (new_message now mid inp sq) \<longleftrightarrow> ns = mi_ns inp \<and> agent = mi_recipient inp"
  by (auto simp: unread_for_def new_message_def)

lemma admitted_send:
  assumes "admitted cfg h"
  shows "admitted cfg (snd (SendMessage cfg now mid inp h))"
proof (cases rule: SendMessage_cases [of cfg now mid inp h])
  case (stored m)
  have snoc: "rows_affected Q (ms @ [m]) = rows_affected Q ms + (if Q m then 1 else 0)" for Q ms
    by (simp add: rows_affected_def)
  have bounded: "int (rows_affected (unread_for ns agent) (hu_messages h)) \<le> effective_cap cfg" for ns agent
    using assms unfolding admitted_def inbox_bounded_def by blast
  have new: "unread_for ns agent m \<longleftrightarrow> ns = mi_ns inp \<and> agent = mi_recipient inp" for ns agent
    unfolding stored(2) by (rule unread_new)
  have "int (rows_affected (unread_for ns agent) (hu_messages h @ [m])) \<le> effective_cap cfg" for ns agent
    using bounded [of ns agent] stored(4) unfolding snoc new admissible_def by auto
  moreover have "policy_check (mc_policy cfg) (ms_ns m) (ms_body m) = None"
    using stored(2,3) by (simp add: sendable_def new_message_def)
  ultimately show ?thesis
    using assms stored(1)
    by (auto simp: admitted_def inbox_bounded_def policy_clean_def frame_simps)
qed (use assms in simp_all)

lemma admitted_read:
  assumes "admitted cfg h"
  shows "admitted cfg (snd (ReadMessagesWithOptions now ns agent opts h))"
proof (cases rule: ReadMessagesWithOptions_cases [of now ns agent opts h])
  case (leased ms)
  show ?thesis unfolding leased(5) snd_conv by (rule admitted_update [OF assms]) simp_all
qed (use assms in simp_all)

lemma hub_do_admitted:
  assumes "admitted cfg h" and "\<not> moves op"
  shows "admitted cfg (hub_do cfg op h)"
proof (cases rule: hub_do_effect [of cfg op h])
  case quiet
  then show ?thesis using admitted_part assms(1) by metis
next
  case (stored now mid inp m)
  then show ?thesis using admitted_send [OF assms(1), of now mid inp] by simp
next
  case (leased now ns agent opts ms)
  show ?thesis unfolding leased(6) by (rule admitted_update [OF assms(1)]) simp_all
next
  case (acked now ns agent ids owner)
  show ?thesis unfolding acked(2) by (rule admitted_update [OF assms(1)]) simp_all
next
  case (released now ns agent ids owner)
  show ?thesis unfolding released(2) by (rule admitted_update [OF assms(1)]) simp_all
next
  case (swept now ns)
  show ?thesis unfolding swept(2) by (rule admitted_filter [OF assms(1)])
next
  case (moved P ns)
  then show ?thesis using assms(2) by auto
qed


section \<open>A keyed send happens once\<close>

fun forgets :: "hub_op \<Rightarrow> bool" where
  "forgets (DoSweep _ _) = True"
| "forgets op = moves op"

definition has_letter :: "message \<Rightarrow> hub \<Rightarrow> bool" where
  "has_letter m h \<longleftrightarrow> (\<exists>m' \<in> set (hu_messages h). same_letter m m')"

lemma same_letter_trans: "same_letter a b \<Longrightarrow> same_letter b c \<Longrightarrow> same_letter a c"
  by (simp add: same_letter_def)

lemma has_letter_part: "mailboxes h = mailboxes h' \<Longrightarrow> has_letter m h \<Longrightarrow> has_letter m h'"
  by (simp add: mailboxes_def has_letter_def)

lemma has_letter_update:
  assumes "has_letter m h" and "\<And>x. same_letter x (f x)"
  shows "has_letter m (set_messages (update_where P f (hu_messages h)) h)"
proof -
  obtain x where x: "x \<in> set (hu_messages h)" and "same_letter m x" using assms(1) by (auto simp: has_letter_def)
  then have "same_letter m (if P x then f x else x)"
    using assms(2) [of x] same_letter_trans by simp
  moreover have "(if P x then f x else x) \<in> set (update_where P f (hu_messages h))"
    using x by (rule in_update_whereI)
  ultimately show ?thesis unfolding has_letter_def set_messages_parts by blast
qed

lemma hub_do_has_letter:
  assumes "has_letter m h" and "\<not> forgets op"
  shows "has_letter m (hub_do cfg op h)"
proof (cases rule: hub_do_effect [of cfg op h])
  case quiet
  then show ?thesis using has_letter_part assms(1) by metis
next
  case (stored now mid inp m')
  show ?thesis unfolding stored(2) using assms(1) by (auto simp: has_letter_def frame_simps)
next
  case (leased now ns agent opts ms)
  show ?thesis unfolding leased(6) by (rule has_letter_update [OF assms(1)]) simp
next
  case (acked now ns agent ids owner)
  show ?thesis unfolding acked(2) by (rule has_letter_update [OF assms(1)]) simp
next
  case (released now ns agent ids owner)
  show ?thesis unfolding released(2) by (rule has_letter_update [OF assms(1)]) simp
next
  case (swept now ns)
  then show ?thesis using assms(2) by simp
next
  case (moved P ns)
  then show ?thesis using assms(2) by auto
qed

lemma hub_run_has_letter:
  assumes "has_letter m h" and "\<not> list_ex forgets ops"
  shows "has_letter m (hub_run cfg ops h)"
proof -
  have "has_letter m (hub_do cfg op h)" if "op \<in> set ops" "has_letter m h" for op h
    using that assms(2) hub_do_has_letter by (simp add: list_ex_iff)
  then show ?thesis using assms(1) hub_run_inv [where Inv = "has_letter m"] by blast
qed

lemma hub_run_mail_ok: "mail_ok h \<Longrightarrow> mail_ok (hub_run cfg ops h)"
  using hub_run_inv [where Inv = mail_ok] hub_do_mail_ok by blast

text \<open>At most one message has a given namespace, sender and key.\<close>

lemma keys_unique_same:
  assumes "keys_unique ms" and "x \<in> set ms" and "y \<in> set ms"
    and "has_key ns sender key x" and "has_key ns sender key y"
  shows "x = y"
proof (rule distinct_key_eq)
  show "distinct (map (\<lambda>m. (ms_ns m, ms_sender m, ms_key m)) (filter (\<lambda>m. ms_key m \<noteq> None) ms))"
    using assms(1) by (simp add: keys_unique_def)
  show "x \<in> set (filter (\<lambda>m. ms_key m \<noteq> None) ms)" "y \<in> set (filter (\<lambda>m. ms_key m \<noteq> None) ms)"
    "(ms_ns x, ms_sender x, ms_key x) = (ms_ns y, ms_sender y, ms_key y)"
    using assms by (auto simp: has_key_def)
qed

lemma findIdempotent_stored:
  assumes "mail_ok h" and "m \<in> set (hu_messages h)"
    and "has_key (mi_ns inp) (mi_sender inp) (mi_key inp) m"
  shows "findIdempotent inp h = (if sameContent m inp then Inr (Some m) else Inl MessageConflict)"
proof -
  obtain x where x: "find (has_key (mi_ns inp) (mi_sender inp) (mi_key inp)) (hu_messages h) = Some x"
    using assms(2,3) by (metis find_None_iff2 not_Some_eq)
  then have "x = m"
    using keys_unique_same [of "hu_messages h" x m] find_SomeD [OF x] assms by (auto simp: mail_ok_def)
  then show ?thesis using x by (simp add: findIdempotent_def)
qed

lemma SendMessage_keyed:
  assumes "sendable cfg inp" and "mi_key inp \<noteq> []"
  shows "findIdempotent inp h = Inr (Some m) \<Longrightarrow> SendMessage cfg now mid inp h = (Inr m, h)"
    and "findIdempotent inp h = Inl MessageConflict \<Longrightarrow> SendMessage cfg now mid inp h = (Inl MessageConflict, h)"
  using assms by (simp_all add: SendMessage_def sendable_def send_body_def with_tx_def final_error_def)

text \<open>What a successful keyed send leaves behind.\<close>

lemma SendMessage_stored:
  assumes "SendMessage cfg now mid inp h = (Inr m, h')" and "mi_key inp \<noteq> []"
  shows "m \<in> set (hu_messages h') \<and> has_key (mi_ns inp) (mi_sender inp) (mi_key inp) m
    \<and> sameContent m inp \<and> sendable cfg inp"
proof (cases rule: SendMessage_cases [of cfg now mid inp h])
  case (replayed m')
  then show ?thesis
    using assms find_SomeD [of "has_key (mi_ns inp) (mi_sender inp) (mi_key inp)" "hu_messages h" m]
    by (auto simp: findIdempotent_def split: option.splits if_splits)
next
  case (stored m')
  then show ?thesis
    using assms by (simp add: frame_simps has_key_def sameContent_def new_message_def)
qed (use assms in simp)

text \<open>C8: a keyed send takes effect exactly once.  Once a send with an idempotency key has succeeded, and
  until the message is swept or archived, whatever else happens: repeating the send returns the same
  message and changes nothing, and another content under the key is refused with a conflict and
  changes nothing.\<close>

theorem SendMessage_once:
  assumes "mail_ok h" and "SendMessage cfg now mid inp h = (Inr m, h')" and "mi_key inp \<noteq> []"
    and "\<not> list_ex forgets ops"
  shows "(\<exists>m'. same_letter m m' \<and> SendMessage cfg now' mid' inp (hub_run cfg ops h') = (Inr m', hub_run cfg ops h'))
    \<and> (mi_ns inp2 = mi_ns inp \<and> mi_sender inp2 = mi_sender inp \<and> mi_key inp2 = mi_key inp
         \<and> sendable cfg inp2 \<and> \<not> sameContent m inp2 \<longrightarrow>
       SendMessage cfg now' mid' inp2 (hub_run cfg ops h') = (Inl MessageConflict, hub_run cfg ops h'))"
proof -
  note sent = SendMessage_stored [OF assms(2,3)]
  define s where "s = hub_run cfg ops h'"
  have ok: "mail_ok s"
    using hub_run_mail_ok SendMessage_ok [OF assms(1), of cfg now mid inp] assms(2) by (simp add: s_def)
  have "has_letter m h'" using sent same_letter_updates(1) unfolding has_letter_def by blast
  then obtain m' where m': "m' \<in> set (hu_messages s)" "same_letter m m'"
    using hub_run_has_letter [OF _ assms(4), of m h' cfg] by (auto simp: has_letter_def s_def)
  have key: "has_key (mi_ns inp) (mi_sender inp) (mi_key inp) m'"
    and content: "sameContent m' i = sameContent m i" for i
    using sent m'(2) by (simp_all add: has_key_def sameContent_def same_letter_def)
  have "SendMessage cfg now' mid' inp s = (Inr m', s)"
    using SendMessage_keyed(1) findIdempotent_stored [OF ok m'(1) key] content sent assms(3) by simp
  moreover have "SendMessage cfg now' mid' inp2 s = (Inl MessageConflict, s)"
    if "mi_ns inp2 = mi_ns inp" "mi_sender inp2 = mi_sender inp" "mi_key inp2 = mi_key inp"
      "sendable cfg inp2" "\<not> sameContent m inp2"
    using SendMessage_keyed(2) findIdempotent_stored [OF ok m'(1), of inp2] key content that assms(3) by simp
  ultimately show ?thesis using m'(2) unfolding s_def by blast
qed

section \<open>No message is lost\<close>

text \<open>The operations that may take a message out of its recipient's unread mail.\<close>

fun takes :: "message \<Rightarrow> hub_op \<Rightarrow> bool" where
  "takes m (DoAck now ns agent ids owner) = (ns = ms_ns m \<and> agent = ms_recipient m \<and> ms_id m \<in> set ids)"
| "takes m (DoRestore src ns) = (src = ms_ns m)"
| "takes m _ = False"

definition awaits :: "message \<Rightarrow> hub \<Rightarrow> bool" where
  "awaits m h \<longleftrightarrow> (\<exists>m' \<in> set (hu_messages h). same_letter m m' \<and> ms_acked_at m' = None)"

lemma awaits_part: "mailboxes h = mailboxes h' \<Longrightarrow> awaits m h \<Longrightarrow> awaits m h'"
  by (simp add: mailboxes_def awaits_def)

lemma awaits_update:
  assumes "awaits m h"
    and "\<And>x. same_letter m x \<Longrightarrow> ms_acked_at x = None \<Longrightarrow> P x \<Longrightarrow>
      same_letter x (f x) \<and> ms_acked_at (f x) = None"
  shows "awaits m (set_messages (update_where P f (hu_messages h)) h)"
proof -
  obtain x where x: "x \<in> set (hu_messages h)" "same_letter m x" "ms_acked_at x = None"
    using assms(1) by (auto simp: awaits_def)
  have "same_letter m (if P x then f x else x) \<and> ms_acked_at (if P x then f x else x) = None"
    using assms(2) [OF x(2,3)] x(2,3) same_letter_trans by simp
  moreover have "(if P x then f x else x) \<in> set (update_where P f (hu_messages h))"
    using x(1) by (rule in_update_whereI)
  ultimately show ?thesis unfolding awaits_def set_messages_parts by blast
qed

lemma hub_do_awaits:
  assumes "awaits m h" and "\<not> takes m op"
  shows "awaits m (hub_do cfg op h)"
proof (cases rule: hub_do_effect [of cfg op h])
  case quiet
  then show ?thesis using awaits_part assms(1) by metis
next
  case (stored now mid inp m')
  show ?thesis unfolding stored(2) using assms(1) by (auto simp: awaits_def frame_simps)
next
  case (leased now ns agent opts ms)
  show ?thesis unfolding leased(6) by (rule awaits_update [OF assms(1)]) simp
next
  case (acked now ns agent ids owner)
  have "\<not> ack_where now ns agent ids owner x" if "same_letter m x" for x
    using that assms(2) acked(1) by (auto simp: ack_where_def unread_for_def same_letter_def)
  then show ?thesis unfolding acked(2) using awaits_update [OF assms(1)] by blast
next
  case (released now ns agent ids owner)
  show ?thesis unfolding released(2) by (rule awaits_update [OF assms(1)]) simp
next
  case (swept now ns)
  then show ?thesis using assms(1) by (auto simp: awaits_def frame_simps swept_def)
next
  case (moved P ns)
  have "\<not> P x" if "same_letter m x" "ms_acked_at x = None" for x
    using that assms(2) moved(1) by (auto simp: same_letter_def)
  then show ?thesis unfolding moved(2) using awaits_update [OF assms(1)] by blast
qed

text \<open>C3: an unacknowledged message is never lost.  Through any operations other than an acknowledgement
  of it by its recipient and a restore that moves its namespace's mail away, sweeps, archiving, lease
  traffic and removals of its sender or recipient included, a stored unread message stays in the
  store with its content and keeps its recipient's unread count positive.\<close>

theorem no_message_lost:
  assumes "mail_ok h" and "m \<in> set (hu_messages h)" and "ms_acked_at m = None"
    and "\<not> list_ex (takes m) ops"
  shows "(\<exists>m' \<in> set (hu_messages (hub_run cfg ops h)). same_letter m m' \<and> ms_acked_at m' = None)
    \<and> (\<exists>n > 0. CountUnreadMessages (ms_ns m) (ms_recipient m) (hub_run cfg ops h) = Inr n)"
proof -
  have "awaits m h" using assms(2,3) same_letter_updates(1) unfolding awaits_def by blast
  moreover have "awaits m (hub_do cfg op h)" if "op \<in> set ops" "awaits m h" for op h
    using that assms(4) hub_do_awaits by (simp add: list_ex_iff)
  ultimately have aw: "awaits m (hub_run cfg ops h)"
    using hub_run_inv [where Inv = "awaits m"] by blast
  have "message_validate (input_of m) = Inr ()" using assms(1,2) by (simp add: mail_ok_def)
  then have "checkNamespace (ms_ns m) = Inr ()" "checkIdent ''recipient'' (ms_recipient m) True = Inr ()"
    by (simp_all add: message_validate_def first_error_Inr input_of_def)
  then have "checkInbox (ms_ns m) (ms_recipient m) = Inr ()"
    by (simp add: checkInbox_def checkIdent_def split: if_splits)
  moreover have "\<exists>x \<in> set (hu_messages (hub_run cfg ops h)). unread_for (ms_ns m) (ms_recipient m) x"
    using aw by (auto simp: awaits_def unread_for_def same_letter_def)
  ultimately show ?thesis
    using aw rows_affected_0 [of "unread_for (ms_ns m) (ms_recipient m)" "hu_messages (hub_run cfg ops h)"]
    by (auto simp: CountUnreadMessages_def awaits_def)
qed

section \<open>Leases hide messages\<close>

definition held :: "instant \<Rightarrow> string \<Rightarrow> string \<Rightarrow> hub \<Rightarrow> bool" where
  "held until owner i h \<longleftrightarrow> (\<forall>m \<in> set (hu_messages h). ms_id m = i \<longrightarrow>
     ms_acked_at m \<noteq> None \<or> ms_leased_until m = Some until \<and> ms_leased_by m = Some owner)"

text \<open>What can end a lease early or lease again: a lease read once it has run out, a release by its
  owner, and a new message under the same identifier.\<close>

fun breaks :: "instant \<Rightarrow> string \<Rightarrow> string \<Rightarrow> hub_op \<Rightarrow> bool" where
  "breaks until owner i (DoRead now ns agent opts) = (op_lease_seconds opts > 0 \<and> until \<le> now 1)"
| "breaks until owner i (DoReleaseLeases now ns agent ids who) = (who = owner \<and> i \<in> set ids)"
| "breaks until owner i (DoSend now mid inp) = (mid = i)"
| "breaks until owner i _ = False"

lemma held_part: "mailboxes h = mailboxes h' \<Longrightarrow> held until owner i h \<Longrightarrow> held until owner i h'"
  by (simp add: mailboxes_def held_def)

lemma held_update:
  assumes "held until owner i h"
    and "\<And>m. ms_id (f m) = ms_id m"
    and "\<And>m. m \<in> set (hu_messages h) \<Longrightarrow> ms_id m = i \<Longrightarrow> P m \<Longrightarrow> ms_acked_at (f m) \<noteq> None
      \<or> ms_acked_at (f m) = ms_acked_at m \<and> ms_leased_until (f m) = ms_leased_until m
        \<and> ms_leased_by (f m) = ms_leased_by m"
  shows "held until owner i (set_messages (update_where P f (hu_messages h)) h)"
  unfolding held_def set_messages_parts
proof (intro ballI impI)
  fix m assume m: "m \<in> set (update_where P f (hu_messages h))" "ms_id m = i"
  from m(1) obtain x where x: "x \<in> set (hu_messages h)" "m = (if P x then f x else x)"
    by (rule in_update_whereE)
  have i: "ms_id x = i" using m(2) x(2) assms(2) by (simp split: if_splits)
  have "ms_acked_at x \<noteq> None \<or> ms_leased_until x = Some until \<and> ms_leased_by x = Some owner"
    using assms(1) x(1) i unfolding held_def by blast
  then show "ms_acked_at m \<noteq> None \<or> ms_leased_until m = Some until \<and> ms_leased_by m = Some owner"
    using assms(3) [OF x(1) i] x(2) by (cases "P x") auto
qed

lemma select_messages_in:
  "m \<in> set (select_messages n P h) \<Longrightarrow> m \<in> set (hu_messages h) \<and> P m"
  using set_take_subset by (fastforce simp: select_messages_def)

lemma deliverable_read:
  assumes "read_where now ns agent opts m" and "op_id opts = []" and "op_box opts \<noteq> ''sent''"
  shows "deliverable now m \<and> ms_ns m = ns \<and> ms_recipient m = agent"
  using assms by (simp add: read_where_def)

lemma held_not_deliverable:
  assumes "held until owner i h" and "m \<in> set (hu_messages h)" and "ms_id m = i" and "now < until"
  shows "\<not> deliverable now m"
proof -
  have "ms_acked_at m \<noteq> None \<or> ms_leased_until m = Some until"
    using assms(1-3) unfolding held_def by blast
  then show ?thesis using assms(4) by (auto simp: deliverable_def)
qed

lemma hub_do_held:
  assumes "held until owner i h" and "\<not> breaks until owner i op"
  shows "held until owner i (hub_do cfg op h)"
proof (cases rule: hub_do_effect [of cfg op h])
  case quiet
  then show ?thesis using held_part assms(1) by metis
next
  case (stored now mid inp m')
  have "ms_id m' \<noteq> i" using stored(1,3) assms(2) by (simp add: new_message_def)
  then show ?thesis unfolding stored(2) using assms(1) by (simp add: held_def frame_simps)
next
  case (leased now ns agent opts ms)
  have now: "now 1 < until" using assms(2) leased(1,2) by simp
  have "i \<notin> ms_id ` set ms"
  proof
    assume "i \<in> ms_id ` set ms"
    then obtain x where "x \<in> set ms" and i: "ms_id x = i" by auto
    then have x: "x \<in> set (hu_messages h)" "read_where (now 1) ns agent opts x"
      using select_messages_in unfolding leased(5) by blast+
    show False
      using held_not_deliverable [OF assms(1) x(1) i now] deliverable_read [OF x(2) leased(3,4)] by blast
  qed
  then show ?thesis
    unfolding leased(6) by (intro held_update [OF assms(1)]) (simp_all add: lease_message_def)
next
  case (acked now ns agent ids owner')
  show ?thesis
    unfolding acked(2) by (intro held_update [OF assms(1)]) (simp_all add: ack_message_def)
next
  case (released now ns agent ids owner')
  have "\<not> release_where now ns agent ids owner' m" if m: "m \<in> set (hu_messages h)" "ms_id m = i" for m
  proof -
    have "ms_acked_at m \<noteq> None \<or> ms_leased_by m = Some owner"
      using assms(1) m unfolding held_def by blast
    then show ?thesis
      using m(2) assms(2) released(1) by (auto simp: release_where_def unread_for_def live_lease_def)
  qed
  then show ?thesis
    unfolding released(2) by (intro held_update [OF assms(1)]) simp_all
next
  case (swept now ns)
  show ?thesis unfolding swept(2) using assms(1) by (simp add: held_def frame_simps)
next
  case (moved P ns)
  show ?thesis unfolding moved(2) by (intro held_update [OF assms(1)]) simp_all
qed

lemma held_after_lease:
  assumes ok: "mail_ok h" and m: "m \<in> set ms"
    and ms: "ms = select_messages (read_limit (op_limit opts)) (read_where (now 1) ns agent opts) h"
    and opts: "op_id opts = []" "op_box opts \<noteq> ''sent''"
  shows "held until owner (ms_id m) (set_messages (update_where
           (\<lambda>m. ms_ns m = ns \<and> ms_recipient m = agent \<and> ms_id m \<in> ms_id ` set ms)
           (lease_message until owner) (hu_messages h)) h)"
  unfolding held_def set_messages_parts
proof (intro ballI impI)
  fix y assume y: "y \<in> set (update_where
      (\<lambda>m. ms_ns m = ns \<and> ms_recipient m = agent \<and> ms_id m \<in> ms_id ` set ms)
      (lease_message until owner) (hu_messages h))" and i: "ms_id y = ms_id m"
  from y obtain x where x: "x \<in> set (hu_messages h)"
    "y = (if ms_ns x = ns \<and> ms_recipient x = agent \<and> ms_id x \<in> ms_id ` set ms
          then lease_message until owner x else x)"
    by (rule in_update_whereE)
  have in_h: "m \<in> set (hu_messages h)" and rd: "read_where (now 1) ns agent opts m"
    using select_messages_in m unfolding ms by blast+
  have "ms_id x = ms_id m" using i x(2) by (simp add: lease_message_def split: if_splits)
  then have "x = m" using distinct_key_eq [of ms_id, OF _ x(1) in_h] ok by (simp add: mail_ok_def)
  then show "ms_acked_at y \<noteq> None \<or> ms_leased_until y = Some until \<and> ms_leased_by y = Some owner"
    using x(2) deliverable_read [OF rd opts] m by (simp add: lease_message_def)
qed

lemma read_ids_deliverable:
  assumes "fst (ReadMessagesWithOptions now ns agent opts h) = Inr ms" and "i \<in> ms_id ` set ms"
    and opts: "op_id opts = []" "op_box opts \<noteq> ''sent''"
  shows "\<exists>m \<in> set (hu_messages h). ms_id m = i \<and> (deliverable (now 0) m \<or> deliverable (now 1) m)"
proof (cases rule: ReadMessagesWithOptions_cases [of now ns agent opts h])
  case (refused e)
  then show ?thesis using assms(1) by simp
next
  case (plain ms')
  then have "i \<in> ms_id ` set ms'" using assms(1,2) by simp
  then obtain m where "m \<in> set ms'" "ms_id m = i" by auto
  then show ?thesis
    using select_messages_in deliverable_read [OF _ opts] unfolding plain(3) by blast
next
  case (leased ms')
  have "ms = map (lease_message (now 1 + op_lease_seconds opts * second) (op_leased_by opts)) ms'"
    using assms(1) unfolding leased(5) by simp
  then obtain m where "m \<in> set ms'" "ms_id m = i"
    using assms(2) by (auto simp: lease_message_def)
  then show ?thesis
    using select_messages_in deliverable_read [OF _ opts] unfolding leased(4) by blast
qed

text \<open>C7: a lease is exclusive.  A message handed out under a lease is not returned by any inbox read, with
  or without a lease, by anybody, before the lease runs out, whatever happens in between except a
  release by the lease's owner.\<close>

theorem lease_exclusive:
  assumes "mail_ok h" and "ReadMessagesWithOptions now ns agent opts h = (Inr ms, h1)"
    and "0 < op_lease_seconds opts" and "m \<in> set ms"
    and "until = now 1 + op_lease_seconds opts * second"
    and "\<not> list_ex (breaks until (op_leased_by opts) (ms_id m)) ops"
    and "op_id opts' = []" and "op_box opts' \<noteq> ''sent''" and "now' 0 < until" and "now' 1 < until"
    and "fst (ReadMessagesWithOptions now' ns' agent' opts' (hub_run cfg ops h1)) = Inr ms'"
  shows "ms_id m \<notin> ms_id ` set ms'"
proof -
  define owner where "owner = op_leased_by opts"
  have start: "held until owner (ms_id m) h1"
  proof (cases rule: ReadMessagesWithOptions_cases [of now ns agent opts h])
    case (leased out)
    then have "ms = map (lease_message until owner) out" and h1: "h1 = set_messages (update_where
        (\<lambda>m. ms_ns m = ns \<and> ms_recipient m = agent \<and> ms_id m \<in> ms_id ` set out)
        (lease_message until owner) (hu_messages h)) h"
      using assms(2,5) by (simp_all add: owner_def)
    then obtain x where x: "x \<in> set out" "ms_id x = ms_id m"
      using assms(4) by (auto simp: lease_message_def)
    show ?thesis
      using held_after_lease [where now = now, OF assms(1) x(1) leased(4) leased(2) leased(3)] x(2)
      unfolding h1 by simp
  qed (use assms(2,3) in simp_all)
  moreover have "held until owner (ms_id m) (hub_do cfg op s)"
    if "op \<in> set ops" "held until owner (ms_id m) s" for op s
    using that assms(6) hub_do_held by (simp add: list_ex_iff owner_def)
  ultimately have end_held: "held until owner (ms_id m) (hub_run cfg ops h1)"
    using hub_run_inv [where Inv = "held until owner (ms_id m)"] by blast
  show ?thesis
    using read_ids_deliverable [OF assms(11) _ assms(7,8), of "ms_id m"]
      held_not_deliverable [OF end_held] assms(9,10) by blast
qed

section \<open>Acknowledging, archiving and waiting\<close>

lemma rows_affected_update_split:
  assumes "\<And>m. P m \<Longrightarrow> Q m" and "\<And>m. \<not> Q (f m)"
  shows "rows_affected Q ms = rows_affected P ms + rows_affected Q (update_where P f ms)"
proof (induction ms)
  case Nil
  show ?case by (simp add: rows_affected_def update_where_def)
next
  case (Cons m ms)
  have "(if Q m then 1 else 0 :: nat) =
      (if P m then 1 else 0) + (if Q (if P m then f m else m) then 1 else 0)"
    using assms(1) [of m] assms(2) [of m] by simp
  then show ?case using Cons by (simp add: rows_affected_def update_where_def split: if_splits)
qed

text \<open>Acknowledging is idempotent and counts what it does.  A successful acknowledgement lowers the
  recipient's unread count by exactly the number it reports; repeating it, at any time, reports zero
  and changes nothing.\<close>

lemma ack_idempotent:
  assumes "AckMessages now ns agent ids h = (Inr n, h')"
  shows "AckMessages now' ns agent ids h' = (Inr 0, h')
    \<and> (\<exists>c \<ge> n. CountUnreadMessages ns agent h = Inr c \<and> CountUnreadMessages ns agent h' = Inr (c - n))"
proof -
  define W where "W = ack_where now ns agent ids []"
  have W: "W = (\<lambda>m. unread_for ns agent m \<and> ms_id m \<in> set ids)"
    unfolding W_def by (rule ext) (simp add: ack_where_def)
  have W': "ack_where now' ns agent ids [] = W"
    unfolding W by (rule ext) (simp add: ack_where_def)
  have checks: "first_error [checkInbox ns agent, checkIdent ''leased_by'' [] False, batch_ok ids,
      ids_ok ids] = Inr ()"
    using assms by (auto simp: AckMessages_def AckMessagesWithLease_def split: sum.splits)
  then have inbox: "checkInbox ns agent = Inr ()" by (simp add: first_error_Inr)
  have n: "n = rows_affected W (hu_messages h)"
    and h': "hu_messages h' = update_where W (ack_message now) (hu_messages h)"
    using assms checks by (auto simp: AckMessages_def AckMessagesWithLease_def W_def)
  have dead: "\<not> unread_for ns agent (ack_message now m)" for m
    by (simp add: unread_for_def)
  have none: "\<forall>m \<in> set (hu_messages h'). \<not> W m"
    unfolding h' using dead by (auto simp: W elim!: in_update_whereE split: if_splits)
  have again: "AckMessages now' ns agent ids h' = (Inr (rows_affected W (hu_messages h')),
      set_messages (update_where W (ack_message now') (hu_messages h')) h')"
    using checks by (simp add: AckMessages_def AckMessagesWithLease_def W' set_messages_def)
  have "AckMessages now' ns agent ids h' = (Inr 0, h')"
    using again none rows_affected_0 [of W] update_where_none [OF none]
    by (simp add: set_messages_def)
  moreover have "rows_affected (unread_for ns agent) (hu_messages h) =
      n + rows_affected (unread_for ns agent) (hu_messages h')"
    unfolding n h' by (rule rows_affected_update_split) (simp_all add: W dead)
  ultimately show ?thesis using inbox by (simp add: CountUnreadMessages_def)
qed

text \<open>Archiving the read mail of a namespace into an unused archive namespace and restoring it gives
  back exactly the store before, and both moves report the same number of messages.\<close>

lemma archive_roundtrip:
  assumes "mail_ok h" and "ArchiveReadMessages ns archive h = (Inr n, h1)"
    and "archive \<notin> ms_ns ` set (hu_messages h)"
  shows "RestoreArchivedMessages archive ns h1 = (Inr n, h)"
proof -
  define P where "P = (\<lambda>m :: message. ms_ns m = ns \<and> ms_acked_at m \<noteq> None)"
  define moved where "moved = update_where P (\<lambda>m. m\<lparr>ms_ns := archive\<rparr>) (hu_messages h)"
  have checks: "first_error [checkNamespace ns, checkNamespace archive] = Inr ()"
    using assms(2) by (auto simp: ArchiveReadMessages_def split: sum.splits)
  have n: "n = rows_affected P (hu_messages h)" and h1: "h1 = set_messages moved h"
    using assms(2) checks
    by (auto simp: ArchiveReadMessages_def move_messages_def P_def moved_def set_messages_def Let_def
        split: if_splits)
  define Q where "Q = (\<lambda>m :: message. ms_ns m = archive)"
  define g where "g = (\<lambda>m. if P m then m\<lparr>ms_ns := archive\<rparr> else m)"
  have moved_g: "moved = map g (hu_messages h)" by (simp add: moved_def update_where_def g_def)
  have g: "(if Q (g m) then (g m)\<lparr>ms_ns := ns\<rparr> else g m) = m" "Q (g m) = P m"
    if "m \<in> set (hu_messages h)" for m
  proof -
    have "ms_ns m \<noteq> archive" using assms(3) that by auto
    then show "(if Q (g m) then (g m)\<lparr>ms_ns := ns\<rparr> else g m) = m" "Q (g m) = P m"
      by (simp_all add: P_def Q_def g_def)
  qed
  have undo: "update_where Q (\<lambda>m. m\<lparr>ms_ns := ns\<rparr>) moved = hu_messages h"
    unfolding update_where_def moved_g map_map by (rule map_idI) (simp only: comp_apply g(1))
  have "filter (Q \<circ> g) (hu_messages h) = filter P (hu_messages h)"
    using g(2) by (intro filter_cong) simp_all
  then have count: "rows_affected Q moved = rows_affected P (hu_messages h)"
    by (simp add: rows_affected_def moved_g filter_map)
  have "keys_unique (hu_messages h)" using assms(1) by (simp add: mail_ok_def)
  then have "move_messages Q ns h1 = (Inr n, h)"
    using undo count n h1 by (simp add: move_messages_def set_messages_def Let_def)
  then show ?thesis
    using checks by (simp add: RestoreArchivedMessages_def Q_def)
qed

subsection \<open>Waiting\<close>

lemma MessageEventKey_inj:
  assumes "checkNamespace ns = Inr ()" and "checkNamespace ns' = Inr ()"
    and "MessageEventKey ns agent = MessageEventKey ns' agent'"
  shows "ns = ns' \<and> agent = agent'"
proof -
  have "CHR '':'' \<notin> set ns" "CHR '':'' \<notin> set ns'"
    using assms(1,2) by (auto simp: checkNamespace_def split: sum.splits if_splits)
  then have "split_byte (CHR '':'') (MessageEventKey ns agent) = ns # split_byte (CHR '':'') agent"
    "takeWhile (\<lambda>c. c \<noteq> CHR '':'') (MessageEventKey ns agent) = ns"
    "takeWhile (\<lambda>c. c \<noteq> CHR '':'') (MessageEventKey ns' agent') = ns'"
    by (auto simp: MessageEventKey_def split_byte_append takeWhile_append)
  then have "ns = ns'" using assms(3) by simp
  then show ?thesis using assms(3) by (simp add: MessageEventKey_def)
qed

text \<open>Signals after which the loop ends whatever the store holds.\<close>

definition ends :: "wake \<Rightarrow> bool" where
  "ends w \<longleftrightarrow> w = ContextDone \<or> w = DeadlinePassed"

definition wakes_for :: "string \<Rightarrow> string \<Rightarrow> wake \<Rightarrow> bool" where
  "wakes_for ns agent w \<longleftrightarrow> w = PollTick \<or> w = BusEvent MessageEventKind (MessageEventKey ns agent)"

lemma ReadMessages_inbox:
  assumes "checkInbox ns agent = Inr ()"
  shows "fst (ReadMessages now ns agent limit h) =
    Inr (select_messages (read_limit limit) (\<lambda>m. ms_ns m = ns \<and> ms_recipient m = agent \<and> deliverable (now 0) m) h)"
proof -
  have "read_validate ns agent (plain_read limit) = Inr ()"
    using assms by (simp add: read_validate_def plain_read_def checkIdent_def require_def)
  moreover have "read_where (now 0) ns agent (plain_read limit) =
      (\<lambda>m. ms_ns m = ns \<and> ms_recipient m = agent \<and> deliverable (now 0) m)"
    by (rule ext) (simp add: read_where_def plain_read_def)
  ultimately show ?thesis
    by (simp add: ReadMessages_def ReadMessagesWithOptions_def) (simp add: plain_read_def)
qed

lemma select_messages_some:
  assumes "m \<in> set (hu_messages h)" and "P m"
  shows "select_messages (read_limit n) P h \<noteq> []"
proof -
  have "0 < read_limit n" by (auto simp: read_limit_def MaxMessageBatch_def)
  moreover have "m \<in> set (sort_key ms_seq (filter P (hu_messages h)))" using assms by simp
  then have "sort_key ms_seq (filter P (hu_messages h)) \<noteq> []" by (metis empty_iff list.set(1))
  ultimately show ?thesis by (simp add: select_messages_def)
qed

lemma wait_loop_step:
  assumes "checkInbox ns agent = Inr ()" and "\<not> ends w"
  shows "(\<exists>ms. ms \<noteq> [] \<and> wait_loop ns agent limit ((w, now, h) # ws) = Some (WaitMessagesGot ms))
    \<or> wait_loop ns agent limit ((w, now, h) # ws) = wait_loop ns agent limit ws"
proof (cases w)
  case (BusEvent kind key)
  then show ?thesis
    using ReadMessages_inbox [OF assms(1), of now limit h] by (simp split: list.split)
qed (use assms(2) ReadMessages_inbox [OF assms(1), of now limit h] in
    \<open>simp_all add: ends_def split: list.split\<close>)

text \<open>A waiting reader is woken.  If, before its context or deadline ends the wait, the loop handles a
  poll tick or its inbox's message event while a deliverable message for it is in the store, the wait
  returns messages; an event for any other inbox neither ends the wait nor reads the store.\<close>

lemma WaitMessages_wakes:
  assumes "checkInbox ns agent = Inr ()" and "\<not> list_ex (\<lambda>(w, _, _). ends w) before"
    and "wakes_for ns agent w" and "m \<in> set (hu_messages h)" and "ms_ns m = ns"
    and "ms_recipient m = agent" and "deliverable (now 0) m"
  shows "(\<exists>ms. ms \<noteq> [] \<and> wait_loop ns agent limit (before @ (w, now, h) # rest) = Some (WaitMessagesGot ms))
    \<and> (checkNamespace ns' = Inr () \<and> (ns', agent') \<noteq> (ns, agent) \<longrightarrow>
       wait_loop ns agent limit ((BusEvent kind (MessageEventKey ns' agent'), now, h) # rest) =
       wait_loop ns agent limit rest)"
proof -
  define read where "read = select_messages (read_limit limit)
      (\<lambda>m. ms_ns m = ns \<and> ms_recipient m = agent \<and> deliverable (now 0) m) h"
  have "read \<noteq> []" unfolding read_def by (rule select_messages_some) (use assms(4-7) in auto)
  then have hit: "wait_loop ns agent limit ((w, now, h) # rest) = Some (WaitMessagesGot read)"
    using ReadMessages_inbox [OF assms(1), of now limit h] assms(3)
    by (auto simp: wakes_for_def read_def [symmetric] split: list.split)
  have "\<exists>ms. ms \<noteq> [] \<and> wait_loop ns agent limit (before @ (w, now, h) # rest) = Some (WaitMessagesGot ms)"
    using assms(2)
  proof (induction before)
    case Nil
    then show ?case using hit \<open>read \<noteq> []\<close> by simp
  next
    case (Cons x before)
    obtain w' now' h' where x: "x = (w', now', h')" by (cases x)
    then have "\<not> ends w'" using Cons.prems by simp
    from wait_loop_step [OF assms(1) this, of limit now' h' "before @ (w, now, h) # rest"]
    show ?case using Cons x by auto
  qed
  moreover have "MessageEventKey ns' agent' \<noteq> MessageEventKey ns agent"
    if "checkNamespace ns' = Inr ()" "(ns', agent') \<noteq> (ns, agent)"
  proof -
    have "checkNamespace ns = Inr ()"
      using assms(1) by (auto simp: checkInbox_def split: sum.splits)
    then show ?thesis using MessageEventKey_inj that by blast
  qed
  ultimately show ?thesis by auto
qed

section \<open>Expiry\<close>

lemma RemoveMember_listening [simp]:
  "Listening ns agent (snd (RemoveMember ns' agent' h)) = Listening ns agent h"
  using RemoveMember_parts(2) [of ns' agent' h] by (simp add: Listening_def streams_def)

lemma filter_at_member_length:
  assumes "distinct (map member_key ms)"
  shows "length (filter (\<lambda>m. \<not> at_member ns agent m) ms) +
    (if (ns, agent) \<in> member_key ` set ms then 1 else 0) = length ms"
  using assms
proof (induction ms)
  case Nil
  then show ?case by simp
next
  case (Cons m ms)
  have "at_member ns agent m \<longleftrightarrow> member_key m = (ns, agent)"
    by (simp add: at_member_def member_key_def)
  moreover have "filter (\<lambda>m. \<not> at_member ns agent m) ms = ms" if "(ns, agent) \<notin> member_key ` set ms"
    using that by (auto simp: filter_id_conv at_member_def member_key_def image_iff)
  ultimately show ?case using Cons by auto
qed

text \<open>The expiry loop removes the listed members that are not listening, and counts them.\<close>

definition expired :: "(string \<times> string) list \<Rightarrow> hub \<Rightarrow> member \<Rightarrow> bool" where
  "expired cs h m \<longleftrightarrow> member_key m \<in> set cs \<and> \<not> Listening (me_ns m) (me_agent m) h"

lemma expire_loop_members:
  assumes "distinct (map member_key (hu_members h))"
  shows "\<exists>k h'. expire_loop cs n h = (Inr (n + k), h')
    \<and> hu_members h' = filter (\<lambda>m. \<not> expired cs h m) (hu_members h)
    \<and> k + length (hu_members h') = length (hu_members h)"
  using assms
proof (induction cs n h rule: expire_loop.induct)
  case (1 n h)
  then show ?case by (simp add: expired_def)
next
  case (2 ns agent cs n h)
  show ?case
  proof (cases "Listening ns agent h")
    case True
    have "expired ((ns, agent) # cs) h = expired cs h"
      using True by (auto simp: expired_def member_key_def fun_eq_iff)
    then show ?thesis using 2 True by simp
  next
    case False
    define h1 where "h1 = snd (RemoveMember ns agent h)"
    define b where "b = is_member ns agent h"
    have mem: "hu_members h1 = filter (\<lambda>m. \<not> at_member ns agent m) (hu_members h)"
      by (simp add: h1_def RemoveMember_state)
    then have "distinct (map member_key (hu_members h1))"
      using 2(3) by (simp add: distinct_map_filter)
    then obtain k h' where h': "expire_loop cs (if b then Suc n else n) h1 =
        (Inr ((if b then Suc n else n) + k), h')"
      "hu_members h' = filter (\<lambda>m. \<not> expired cs h1 m) (hu_members h1)"
      "k + length (hu_members h') = length (hu_members h1)"
      using 2(2) [OF False RemoveMember_eq [symmetric] refl] unfolding h1_def b_def by blast
    have lst: "expired cs h1 = expired cs h"
      by (simp add: expired_def h1_def fun_eq_iff)
    have step: "expire_loop ((ns, agent) # cs) n h = expire_loop cs (if b then Suc n else n) h1"
      using False by (subst expire_loop.simps, subst RemoveMember_eq) (simp add: h1_def b_def)
    have "expired ((ns, agent) # cs) h m \<longleftrightarrow> at_member ns agent m \<or> expired cs h m" for m
      using False by (auto simp: expired_def member_key_def at_member_def)
    then have "hu_members h' = filter (\<lambda>m. \<not> expired ((ns, agent) # cs) h m) (hu_members h)"
      unfolding h'(2) lst mem filter_filter by (intro filter_cong) auto
    moreover have "length (hu_members h1) + (if b then 1 else 0) = length (hu_members h)"
      using filter_at_member_length [OF 2(3), of ns agent] unfolding mem b_def is_member_key by simp
    ultimately show ?thesis
      using h'(1,3) step by (intro exI [of _ "(if b then 1 else 0) + k"] exI [of _ h']) auto
  qed
qed

text \<open>Expiry removes exactly the members whose last sign of life is older than the limit and who hold
  no open stream, reports how many they were, and touches no message, claim, stream or region.\<close>

lemma ExpireMembers_exact:
  assumes "directory_ok h" and "0 < age"
  shows "\<exists>n h'. ExpireMembers now age h = (Inr n, h')
    \<and> hu_members h' = filter (\<lambda>m. last_sign m \<ge> now - age \<or> Listening (me_ns m) (me_agent m) h) (hu_members h)
    \<and> n + length (hu_members h') = length (hu_members h)
    \<and> mailboxes h' = mailboxes h \<and> hu_claims h' = hu_claims h \<and> streams h' = streams h"
proof -
  define cs where "cs = map member_key (filter (\<lambda>m. last_sign m < now - age) (hu_members h))"
  have keys: "distinct (map member_key (hu_members h))" using assms(1) by (simp add: directory_ok_def)
  have eq: "ExpireMembers now age h = expire_loop cs 0 h"
    using assms(2) by (simp add: ExpireMembers_def cs_def member_key_def [abs_def])
  obtain n h' where h': "expire_loop cs 0 h = (Inr n, h')"
    "hu_members h' = filter (\<lambda>m. \<not> expired cs h m) (hu_members h)"
    "n + length (hu_members h') = length (hu_members h)"
    using expire_loop_members [OF keys, of cs 0] by auto
  have "member_key m \<in> set cs \<longleftrightarrow> last_sign m < now - age" if "m \<in> set (hu_members h)" for m
    using distinct_key_eq [OF keys] that by (auto simp: cs_def)
  then have "hu_members h' =
      filter (\<lambda>m. last_sign m \<ge> now - age \<or> Listening (me_ns m) (me_agent m) h) (hu_members h)"
    unfolding h'(2) by (intro filter_cong) (auto simp: expired_def)
  moreover have "mailboxes h' = mailboxes h" "hu_claims h' = hu_claims h" "streams h' = streams h"
    using ExpireMembers_parts [of now age h] unfolding eq h'(1) by simp_all
  ultimately show ?thesis using eq h'(1,3) by auto
qed

section \<open>A concrete hub\<close>

definition demo_config :: mail_config where
  "demo_config = \<lparr>mc_cap = 2, mc_retention = 5, mc_policy = None\<rparr>"

definition demo_hub :: hub where
  "demo_hub = hub_run demo_config
     [DoRegister (\<lambda>_. 10) ''ns'' ''ann'' ''dev'', DoRegister (\<lambda>_. 11) ''ns'' ''bob'' ''dev'']
     (empty_hub SQLite)"

definition demo_send :: message_input where
  "demo_send = \<lparr>mi_ns = ''ns'', mi_sender = ''ann'', mi_recipient = ''bob'', mi_body = ''hi'',
     mi_task = [], mi_reply_to = [], mi_key = ''k''\<rparr>"

definition demo_message :: message where
  "demo_message = new_message 12 ''m1'' demo_send 1"

definition demo_mail :: hub where
  "demo_mail = push_message demo_message demo_hub"

lemma demo_hub_ok: "hub_ok demo_hub"
  unfolding demo_hub_def by (rule hub_run_ok [OF empty_hub_ok])

lemma demo_hub_parts:
  "hu_messages demo_hub = []" "hu_driver demo_hub = SQLite"
  "map member_key (hu_members demo_hub) = [(''ns'', ''ann''), (''ns'', ''bob'')]"
  by (simp_all add: demo_hub_def Register_def Ensure_def empty_hub_def is_member_def member_key_def)

lemma demo_members: "is_member ''ns'' ''ann'' demo_hub" "is_member ''ns'' ''bob'' demo_hub"
  unfolding is_member_key set_map [symmetric] demo_hub_parts by simp_all

lemma char_of_0: "char_of (0 :: nat) = CHR 0x00"
  by (simp add: char_of_def)

lemma demo_valid: "message_validate demo_send = Inr ()"
  by (simp add: message_validate_def demo_send_def plain_checks body_ok_def valid_utf8_graphic
      trim_space_plain MaxMessageBody_def require_def char_of_0)

lemma demo_sent: "SendMessage demo_config 12 ''m1'' demo_send demo_hub = (Inr demo_message, demo_mail)"
proof -
  have "policy_check (mc_policy demo_config) (mi_ns demo_send) (mi_body demo_send) = None"
    by (simp add: demo_config_def policy_check_def)
  moreover have "send_body demo_config 12 ''m1'' demo_send demo_hub = (Inr demo_message, demo_mail)"
    using demo_members
    by (simp add: send_body_def findIdempotent_def demo_hub_parts send_new_def demo_send_def
        rows_affected_def effective_cap_def demo_config_def insert_message_def next_seq_def
        key_taken_def demo_message_def demo_mail_def push_message_def)
  ultimately show ?thesis by (simp add: SendMessage_def demo_valid with_tx_def)
qed

lemma demo_mail_ok: "mail_ok demo_mail"
  using SendMessage_ok [of demo_hub demo_config 12 "''m1''" demo_send] demo_sent demo_hub_ok
  by (simp add: hub_ok_def)

lemma demo_mail_messages: "hu_messages demo_mail = [demo_message]"
  by (simp add: demo_mail_def frame_simps demo_hub_parts)

lemma demo_message_parts:
  "ms_id demo_message = ''m1''" "ms_ns demo_message = ''ns''" "ms_sender demo_message = ''ann''"
  "ms_recipient demo_message = ''bob''" "ms_acked_at demo_message = None" "ms_seq demo_message = 1"
  "ms_leased_until demo_message = None" "ms_key demo_message = Some ''k''"
  by (simp_all add: demo_message_def new_message_def demo_send_def)

lemma demo_inbox: "checkInbox ''ns'' ''bob'' = Inr ()"
  by (simp add: plain_checks)


theorem SendMessage_once_witness:
  "\<exists>m' s. same_letter demo_message m' \<and> s = hub_run demo_config [DoRemove ''ns'' ''ann''] demo_mail
     \<and> SendMessage demo_config 20 ''m2'' demo_send s = (Inr m', s)"
proof -
  have "mail_ok demo_hub" using demo_hub_ok by (simp add: hub_ok_def)
  moreover have "mi_key demo_send \<noteq> []" by (simp add: demo_send_def)
  moreover have "\<not> list_ex forgets [DoRemove ''ns'' ''ann'']" by simp
  ultimately show ?thesis
    using SendMessage_once [OF _ demo_sent, of "[DoRemove ''ns'' ''ann'']" 20 "''m2''"] by blast
qed

theorem no_message_lost_witness:
  "\<exists>n > 0. CountUnreadMessages ''ns'' ''bob'' (hub_run demo_config [DoSweep 1000 ''ns''] demo_mail) = Inr n"
proof -
  have "demo_message \<in> set (hu_messages demo_mail)" by (simp add: demo_mail_messages)
  moreover note demo_message_parts
  moreover have "\<not> list_ex (takes demo_message) [DoSweep 1000 ''ns'']" by simp
  ultimately show ?thesis
    using no_message_lost [OF demo_mail_ok, of demo_message "[DoSweep 1000 ''ns'']" demo_config] by simp
qed

definition demo_lease :: read_options where
  "demo_lease = \<lparr>op_limit = 0, op_box = [], op_id = [], op_lease_seconds = 30, op_leased_by = ''w1''\<rparr>"

definition demo_leased :: hub where
  "demo_leased = set_messages [lease_message (20 + 30 * second) ''w1'' demo_message] demo_mail"

lemma demo_lease_read:
  "ReadMessagesWithOptions (\<lambda>_. 20) ''ns'' ''bob'' demo_lease demo_mail =
     (Inr [lease_message (20 + 30 * second) ''w1'' demo_message], demo_leased)"
proof -
  have "read_validate ''ns'' ''bob'' demo_lease = Inr ()"
    by (simp add: read_validate_def demo_inbox demo_lease_def require_def plain_checks)
  moreover have "select_messages (read_limit (op_limit demo_lease)) (read_where 20 ''ns'' ''bob'' demo_lease)
      demo_mail = [demo_message]"
    by (simp add: select_messages_def demo_mail_messages read_where_def demo_lease_def deliverable_def
        demo_message_parts read_limit_def MaxMessageBatch_def)
  ultimately show ?thesis
    by (simp add: ReadMessagesWithOptions_def with_tx_def lease_body_def demo_leased_def set_messages_def
        demo_mail_messages update_where_def demo_message_parts) (simp add: demo_lease_def Let_def)
qed

theorem lease_exclusive_witness:
  "\<exists>ms. fst (ReadMessagesWithOptions (\<lambda>_. 40) ''ns'' ''bob'' (plain_read 0) demo_leased) = Inr ms
     \<and> ''m1'' \<notin> ms_id ` set ms"
proof -
  obtain ms where ms: "fst (ReadMessagesWithOptions (\<lambda>_. 40) ''ns'' ''bob'' (plain_read 0) demo_leased) = Inr ms"
    using ReadMessages_inbox [OF demo_inbox, of "\<lambda>_. 40" 0 demo_leased] by (simp add: ReadMessages_def)
  have "ms_id (lease_message (20 + 30 * second) ''w1'' demo_message) \<notin> ms_id ` set ms"
    by (rule lease_exclusive [OF demo_mail_ok demo_lease_read, where ops = "[]" and cfg = demo_config
        and ns' = "''ns''" and agent' = "''bob''" and opts' = "plain_read 0" and now' = "\<lambda>_. 40"])
      (simp_all only: demo_lease_def plain_read_def read_options.simps hub_run_Nil list_ex_iff list.set ball_simps bex_simps
        ms [unfolded plain_read_def], simp_all)
  then show ?thesis using ms by (auto simp: lease_message_def demo_message_parts)
qed

lemma demo_acked: "AckMessages 20 ''ns'' ''bob'' [''m1''] demo_mail =
    (Inr 1, set_messages [ack_message 20 demo_message] demo_mail)"
  by (simp add: AckMessages_def AckMessagesWithLease_def demo_inbox plain_checks batch_ok_def ids_ok_def
      require_def MaxMessageBatch_def rows_affected_def demo_mail_messages ack_where_def unread_for_def
      demo_message_parts update_where_def set_messages_def)

lemma ack_idempotent_witness:
  "\<exists>h'. AckMessages 20 ''ns'' ''bob'' [''m1''] demo_mail = (Inr 1, h')
     \<and> AckMessages 30 ''ns'' ''bob'' [''m1''] h' = (Inr 0, h')"
  using demo_acked ack_idempotent [OF demo_acked, of 30] by blast

lemma demo_archived: "ArchiveReadMessages ''ns'' ''old'' demo_mail = (Inr 0, demo_mail)"
proof -
  have "keys_unique [demo_message]" by (simp add: keys_unique_def)
  then show ?thesis
    by (simp add: ArchiveReadMessages_def plain_checks move_messages_def demo_mail_messages
        demo_message_parts update_where_def rows_affected_def Let_def)
qed

lemma archive_roundtrip_witness:
  "ArchiveReadMessages ''ns'' ''old'' demo_mail = (Inr 0, demo_mail)
     \<and> RestoreArchivedMessages ''old'' ''ns'' demo_mail = (Inr 0, demo_mail)"
  using demo_archived archive_roundtrip [OF demo_mail_ok demo_archived]
  by (simp add: demo_mail_messages demo_message_parts)

lemma WaitMessages_wakes_witness:
  "\<exists>ms. ms \<noteq> [] \<and> wait_loop ''ns'' ''bob'' 0 [(BusClosed, \<lambda>_. 14, demo_mail), (PollTick, \<lambda>_. 15, demo_mail)]
     = Some (WaitMessagesGot ms)"
proof -
  have no_end: "\<not> list_ex (\<lambda>(w, _, _). ends w) [(BusClosed, (\<lambda>_. 14) :: clock, demo_mail)]"
    by (simp add: ends_def)
  have wakes: "wakes_for ''ns'' ''bob'' PollTick" by (simp add: wakes_for_def)
  have stored: "demo_message \<in> set (hu_messages demo_mail)" by (simp add: demo_mail_messages)
  have "deliverable ((\<lambda>_. 15) 0) demo_message" by (simp add: demo_message_parts deliverable_def)
  from WaitMessages_wakes [OF demo_inbox no_end wakes stored demo_message_parts(2,4) this, of 0 "[]"]
  show ?thesis by simp
qed

lemma ExpireMembers_exact_witness:
  "\<exists>n h'. ExpireMembers 100 50 demo_hub = (Inr n, h') \<and> mailboxes h' = mailboxes demo_hub
     \<and> n + length (hu_members h') = 2"
proof -
  have "directory_ok demo_hub" using demo_hub_ok by (simp add: hub_ok_def)
  moreover have "length (hu_members demo_hub) = 2"
    using arg_cong [OF demo_hub_parts(3), of length] by simp
  ultimately show ?thesis using ExpireMembers_exact [of demo_hub 50 100] by auto
qed

end
