(* ===== verification/SpecModel.thy ===== *)
theory SpecModel
  imports Complex_Main Prelude
begin

text \<open>
  The package \<open>internal/spec\<close>: agent, skill and policy specifications, their validation
  (\<open>ParseAgent\<close>, \<open>ParseSkill\<close>, \<open>ParsePolicy\<close>), the loader and the cross-validation of a bundle.
  The YAML decoder is third-party code and a parameter of the parsers; reading the directories is
  I/O, so the loader works on the entries read.  Error messages are the constructors of
  \<open>spec_error\<close>, in the order the code collects them.
\<close>

section \<open>Autonomy and contracts\<close>

definition AutonomyObserve :: string where "AutonomyObserve = ''observe''"
definition AutonomyAdvise :: string where "AutonomyAdvise = ''advise''"
definition AutonomyPropose :: string where "AutonomyPropose = ''propose''"
definition AutonomyAuto :: string where "AutonomyAuto = ''auto''"

lemmas autonomy_defs = AutonomyObserve_def AutonomyAdvise_def AutonomyPropose_def AutonomyAuto_def

definition AutonomyLevel :: "string \<Rightarrow> int" where
  "AutonomyLevel a =
     (case map_of [(AutonomyObserve, 0), (AutonomyAdvise, 1), (AutonomyPropose, 2),
                   (AutonomyAuto, 3)] a of
        Some l \<Rightarrow> l | None \<Rightarrow> -1)"

lemma AutonomyLevel_cases:
  "AutonomyLevel a = (if a = AutonomyObserve then 0 else if a = AutonomyAdvise then 1
     else if a = AutonomyPropose then 2 else if a = AutonomyAuto then 3 else -1)"
  by (simp add: AutonomyLevel_def)

definition HandoffResultsOnly :: string where "HandoffResultsOnly = ''results_only''"
definition HandoffSummary :: string where "HandoffSummary = ''summary''"
definition HandoffFullTrace :: string where "HandoffFullTrace = ''full_trace''"

text \<open>The expression \<open>nameRE\<close>: non-empty words of lower-case letters and digits joined by single
  hyphens.\<close>

definition name_char :: "char \<Rightarrow> bool" where
  "name_char c \<longleftrightarrow> in_range 97 122 (byte c) \<or> in_range 48 57 (byte c)"

definition nameRE :: "string \<Rightarrow> bool" where
  "nameRE s \<longleftrightarrow> list_all (\<lambda>w. w \<noteq> [] \<and> list_all name_char w) (split_byte (CHR ''-'') s)"

section \<open>Specifications\<close>

record trigger =
  tr_id :: string
  tr_source :: string
  tr_kind :: string
  tr_labels :: "(string \<times> string) list"
  tr_severity :: "string list"
  tr_priority :: int

record budget_spec =
  bs_tokens :: int
  bs_tool_calls :: int
  bs_wall_ms :: int
  bs_subagents :: int
  bs_daily_usd :: rat

record disposition_spec =
  dp_skepticism :: int
  dp_literalism :: int
  dp_empathy :: int

record agent_spec =
  as_name :: string
  as_version :: string
  as_description :: string
  as_model_profile :: string
  as_triggers :: "trigger list"
  as_tools :: "string list"
  as_skills :: "string list"
  as_regions :: "string list"
  as_autonomy :: string
  as_budgets :: "budget_spec option"
  as_handoff :: string
  as_disabled :: bool
  as_disposition :: "disposition_spec option"
  as_prompt :: string
  as_source_path :: string

record skill_spec =
  ss_name :: string
  ss_description :: string
  ss_metadata :: "string \<Rightarrow> string option"
  ss_body :: string
  ss_dir :: string
  ss_source_path :: string

record action_class =
  ac_name :: string
  ac_min_autonomy :: string
  ac_patterns :: "string list"

record acl_rule =
  acl_prefix :: string
  acl_writers :: "string list"
  acl_read_only :: bool

record policy_spec =
  ps_name :: string
  ps_classes :: "action_class list"
  ps_acl :: "acl_rule list"
  ps_source_path :: string

datatype spec_error =
    MissingFrontmatter
  | UnterminatedFrontmatter
  | BadYaml
  | NameRequired
  | BadName string
  | NameNotDir string string
  | VersionRequired
  | DescriptionRequired
  | DescriptionTooLong
  | TriggerRequired
  | EmptyTrigger nat
  | BadAutonomy string
  | BadSkepticism int
  | BadLiteralism int
  | BadEmpathy int
  | FullTraceUnimplemented
  | BadContract string
  | NegativeBudget
  | EmptyPrompt
  | BadActionClass string
  | BadApproval string
  | ClassRequired
  | BadClassName nat string
  | DuplicateClass nat string
  | BadMinAutonomy nat string
  | PatternsRequired nat
  | BadAclPrefix nat string
  | WritersRequired nat
  | DuplicateAgent string
  | DuplicatePolicy string
  | ReadFailed string
  | MissingSkillFile string
  | SkillNotFound string string
  | ClassNotFound string string

text \<open>The errors of a sequence of checks, in order: those whose condition holds.\<close>

definition collect :: "(bool \<times> spec_error) list \<Rightarrow> spec_error list" where
  "collect checks = map snd (filter fst checks)"

lemma collect_Nil: "collect checks = [] \<longleftrightarrow> (\<forall>(b, e) \<in> set checks. \<not> b)"
  by (auto simp: collect_def filter_empty_conv)

section \<open>Front matter\<close>

fun crlf_to_lf :: "string \<Rightarrow> string" where
  "crlf_to_lf [] = []"
| "crlf_to_lf [c] = [c]"
| "crlf_to_lf (c # d # s) =
     (if byte c = 13 \<and> byte d = 10 then d # crlf_to_lf s else c # crlf_to_lf (d # s))"

definition newline :: string where "newline = [char_of (10 :: nat)]"

definition splitFrontmatter :: "string \<Rightarrow> spec_error + string \<times> string" where
  "splitFrontmatter raw =
     (let s = crlf_to_lf raw in
      if \<not> has_prefix s (''---'' @ newline) then Inl MissingFrontmatter
      else let rest = drop 4 s in
      case index_of rest (newline @ ''---'') of
        None \<Rightarrow> Inl UnterminatedFrontmatter
      | Some end \<Rightarrow>
          Inr (take end rest, trim_space (trim_prefix (drop (end + 1 + 3) rest) newline)))"

section \<open>Validation\<close>

text \<open>Strings and numbers are decoded by the YAML library: \<open>yaml\<close> gives the record with the fields
  the file sets, or nothing.\<close>

definition empty_trigger :: "trigger \<Rightarrow> bool" where
  "empty_trigger tr \<longleftrightarrow>
     tr_source tr = [] \<and> tr_kind tr = [] \<and> tr_labels tr = [] \<and> tr_severity tr = []"

definition trigger_checks :: "trigger list \<Rightarrow> (bool \<times> spec_error) list" where
  "trigger_checks trs = map (\<lambda>(i, tr). (empty_trigger tr, EmptyTrigger i)) (List.enumerate 0 trs)"

definition disposition_checks :: "disposition_spec option \<Rightarrow> (bool \<times> spec_error) list" where
  "disposition_checks d = (case d of None \<Rightarrow> []
     | Some d \<Rightarrow>
        [(dp_skepticism d < 0 \<or> dp_skepticism d > 5, BadSkepticism (dp_skepticism d)),
         (dp_literalism d < 0 \<or> dp_literalism d > 5, BadLiteralism (dp_literalism d)),
         (dp_empathy d < 0 \<or> dp_empathy d > 5, BadEmpathy (dp_empathy d))])"

definition budget_checks :: "budget_spec option \<Rightarrow> (bool \<times> spec_error) list" where
  "budget_checks b = (case b of None \<Rightarrow> []
     | Some b \<Rightarrow>
        [(bs_tokens b < 0 \<or> bs_tool_calls b < 0 \<or> bs_wall_ms b < 0 \<or> bs_subagents b < 0
            \<or> bs_daily_usd b < 0, NegativeBudget)])"

text \<open>The defaults \<open>ParseAgent\<close> fills in while it validates.\<close>

definition agent_defaults :: "agent_spec \<Rightarrow> agent_spec" where
  "agent_defaults a = a\<lparr>
     as_autonomy := (if as_autonomy a = [] then AutonomyAdvise else as_autonomy a),
     as_handoff := (if as_handoff a = [] then HandoffResultsOnly else as_handoff a)\<rparr>"

definition agent_checks :: "agent_spec \<Rightarrow> (bool \<times> spec_error) list" where
  "agent_checks a =
     [(as_name a = [], NameRequired),
      (as_name a \<noteq> [] \<and> \<not> nameRE (as_name a), BadName (as_name a)),
      (as_version a = [], VersionRequired),
      (as_description a = [], DescriptionRequired),
      (as_triggers a = [], TriggerRequired)]
     @ trigger_checks (as_triggers a)
     @ [(AutonomyLevel (as_autonomy (agent_defaults a)) < 0, BadAutonomy (as_autonomy a))]
     @ disposition_checks (as_disposition a)
     @ [(as_handoff a = HandoffFullTrace, FullTraceUnimplemented),
        (as_handoff a \<notin> {[], HandoffResultsOnly, HandoffSummary, HandoffFullTrace},
         BadContract (as_handoff a))]
     @ budget_checks (as_budgets a)
     @ [(as_prompt a = [], EmptyPrompt)]"

definition ParseAgent ::
  "(string \<Rightarrow> agent_spec option) \<Rightarrow> string \<Rightarrow> string \<Rightarrow> spec_error list + agent_spec" where
  "ParseAgent yaml path raw =
     (case splitFrontmatter raw of
        Inl e \<Rightarrow> Inl [e]
      | Inr (fm, body) \<Rightarrow>
          (case yaml fm of
             None \<Rightarrow> Inl [BadYaml]
           | Some a0 \<Rightarrow>
               let a = a0\<lparr>as_prompt := body, as_source_path := path\<rparr>;
                   errs = collect (agent_checks a)
               in if errs \<noteq> [] then Inl errs else Inr (agent_defaults a)))"

definition meta :: "string \<Rightarrow> skill_spec \<Rightarrow> string" where
  "meta k sk = (case ss_metadata sk k of None \<Rightarrow> [] | Some v \<Rightarrow> v)"

definition skill_checks :: "string \<Rightarrow> skill_spec \<Rightarrow> (bool \<times> spec_error) list" where
  "skill_checks dir sk =
     [(ss_name sk = [], NameRequired),
      (ss_name sk \<noteq> [] \<and> (length (ss_name sk) > 64 \<or> \<not> nameRE (ss_name sk)),
       BadName (ss_name sk)),
      (ss_name sk \<noteq> [] \<and> ss_name sk \<noteq> dir, NameNotDir (ss_name sk) dir),
      (ss_description sk = [], DescriptionRequired),
      (length (ss_description sk) > 1024, DescriptionTooLong),
      (meta ''action_class'' sk \<noteq> [] \<and> \<not> nameRE (meta ''action_class'' sk),
       BadActionClass (meta ''action_class'' sk)),
      (meta ''approval_required'' sk \<notin> {[], ''true'', ''false''},
       BadApproval (meta ''approval_required'' sk))]"

definition ParseSkill ::
  "(string \<Rightarrow> skill_spec option) \<Rightarrow> string \<Rightarrow> string \<Rightarrow> string \<Rightarrow> spec_error list + skill_spec" where
  "ParseSkill yaml path dir raw =
     (case splitFrontmatter raw of
        Inl e \<Rightarrow> Inl [e]
      | Inr (fm, body) \<Rightarrow>
          (case yaml fm of
             None \<Rightarrow> Inl [BadYaml]
           | Some s0 \<Rightarrow>
               let sk = s0\<lparr>ss_body := body, ss_dir := dir, ss_source_path := path\<rparr>;
                   errs = collect (skill_checks dir sk)
               in if errs \<noteq> [] then Inl errs else Inr sk))"

text \<open>The checks of one action class see the names of the classes before it (\<open>seen\<close>).\<close>

definition class_checks :: "nat \<Rightarrow> string set \<Rightarrow> action_class \<Rightarrow> (bool \<times> spec_error) list" where
  "class_checks i seen ac =
     [(ac_name ac = [] \<or> \<not> nameRE (ac_name ac), BadClassName i (ac_name ac)),
      (ac_name ac \<in> seen, DuplicateClass i (ac_name ac)),
      (AutonomyLevel (ac_min_autonomy ac) < 0, BadMinAutonomy i (ac_min_autonomy ac)),
      (ac_patterns ac = [], PatternsRequired i)]"

fun classes_checks :: "nat \<Rightarrow> string set \<Rightarrow> action_class list \<Rightarrow> (bool \<times> spec_error) list" where
  "classes_checks i seen [] = []"
| "classes_checks i seen (ac # acs) =
     class_checks i seen ac @ classes_checks (Suc i) (insert (ac_name ac) seen) acs"

definition acl_checks :: "acl_rule list \<Rightarrow> (bool \<times> spec_error) list" where
  "acl_checks rs = concat (map (\<lambda>(i, r).
     [(\<not> has_prefix (acl_prefix r) ''/'', BadAclPrefix i (acl_prefix r)),
      (\<not> acl_read_only r \<and> acl_writers r = [], WritersRequired i)]) (List.enumerate 0 rs))"

definition policy_checks :: "policy_spec \<Rightarrow> (bool \<times> spec_error) list" where
  "policy_checks p =
     [(ps_name p = [], NameRequired), (ps_classes p = [], ClassRequired)]
     @ classes_checks 0 {} (ps_classes p) @ acl_checks (ps_acl p)"

definition ParsePolicy ::
  "(string \<Rightarrow> policy_spec option) \<Rightarrow> string \<Rightarrow> string \<Rightarrow> spec_error list + policy_spec" where
  "ParsePolicy yaml path raw =
     (case yaml raw of
        None \<Rightarrow> Inl [BadYaml]
      | Some p0 \<Rightarrow>
          let p = p0\<lparr>ps_source_path := path\<rparr>; errs = collect (policy_checks p)
          in if errs \<noteq> [] then Inl errs else Inr p)"

section \<open>Loading\<close>

text \<open>A bundle maps names to specifications; the lists hold the entries in the order they were
  added, and every name occurs once.\<close>

record spec_bundle =
  bu_agents :: "(string \<times> agent_spec) list"
  bu_skills :: "(string \<times> skill_spec) list"
  bu_policies :: "(string \<times> policy_spec) list"

text \<open>One entry of a directory: its name, whether it is a directory, the joined path of the file to
  read, and what reading that file gives.\<close>

record dir_entry =
  de_name :: string
  de_is_dir :: bool
  de_path :: string
  de_raw :: "string option"

definition add_key :: "'k \<Rightarrow> 'v \<Rightarrow> ('k \<times> 'v) list \<Rightarrow> ('k \<times> 'v) list" where
  "add_key k v m = (if map_of m k = None then m @ [(k, v)]
     else map (\<lambda>(j, w). (j, if j = k then v else w)) m)"

fun load_agents ::
  "(string \<Rightarrow> agent_spec option) \<Rightarrow> dir_entry list \<Rightarrow> (string \<times> agent_spec) list
   \<Rightarrow> (string \<times> agent_spec) list \<times> spec_error list" where
  "load_agents yaml [] m = (m, [])"
| "load_agents yaml (e # es) m =
     (if de_is_dir e \<or> \<not> has_suffix (de_name e) ''.md'' then load_agents yaml es m
      else case de_raw e of
        None \<Rightarrow> apsnd (Cons (ReadFailed (de_path e))) (load_agents yaml es m)
      | Some raw \<Rightarrow>
          (case ParseAgent yaml (de_path e) raw of
             Inl errs \<Rightarrow> apsnd (append errs) (load_agents yaml es m)
           | Inr a \<Rightarrow>
               if map_of m (as_name a) \<noteq> None
               then apsnd (Cons (DuplicateAgent (as_name a))) (load_agents yaml es m)
               else load_agents yaml es (add_key (as_name a) a m)))"

fun load_skills ::
  "(string \<Rightarrow> skill_spec option) \<Rightarrow> dir_entry list \<Rightarrow> (string \<times> skill_spec) list
   \<Rightarrow> (string \<times> skill_spec) list \<times> spec_error list" where
  "load_skills yaml [] m = (m, [])"
| "load_skills yaml (e # es) m =
     (if \<not> de_is_dir e then load_skills yaml es m
      else case de_raw e of
        None \<Rightarrow> apsnd (Cons (MissingSkillFile (de_name e))) (load_skills yaml es m)
      | Some raw \<Rightarrow>
          (case ParseSkill yaml (de_path e) (de_name e) raw of
             Inl errs \<Rightarrow> apsnd (append errs) (load_skills yaml es m)
           | Inr sk \<Rightarrow> load_skills yaml es (add_key (ss_name sk) sk m)))"

fun load_policies ::
  "(string \<Rightarrow> policy_spec option) \<Rightarrow> dir_entry list \<Rightarrow> (string \<times> policy_spec) list
   \<Rightarrow> (string \<times> policy_spec) list \<times> spec_error list" where
  "load_policies yaml [] m = (m, [])"
| "load_policies yaml (e # es) m =
     (if de_is_dir e \<or> (\<not> has_suffix (de_name e) ''.yaml'' \<and> \<not> has_suffix (de_name e) ''.yml'')
      then load_policies yaml es m
      else case de_raw e of
        None \<Rightarrow> apsnd (Cons (ReadFailed (de_path e))) (load_policies yaml es m)
      | Some raw \<Rightarrow>
          (case ParsePolicy yaml (de_path e) raw of
             Inl errs \<Rightarrow> apsnd (append errs) (load_policies yaml es m)
           | Inr p \<Rightarrow>
               if map_of m (ps_name p) \<noteq> None
               then apsnd (Cons (DuplicatePolicy (ps_name p))) (load_policies yaml es m)
               else load_policies yaml es (add_key (ps_name p) p m)))"

definition crossValidate :: "spec_bundle \<Rightarrow> spec_error list" where
  "crossValidate b =
     concat (map (\<lambda>(n, a). map (SkillNotFound (as_source_path a))
       (filter (\<lambda>s. map_of (bu_skills b) s = None) (as_skills a))) (bu_agents b))
     @ (if bu_policies b = [] then []
        else let classes = concat (map (\<lambda>(n, p). map ac_name (ps_classes p)) (bu_policies b)) in
          concat (map (\<lambda>(n, sk). if meta ''action_class'' sk \<noteq> []
                \<and> meta ''action_class'' sk \<notin> set classes
              then [ClassNotFound (ss_source_path sk) (meta ''action_class'' sk)] else [])
            (bu_skills b)))"

text \<open>\<open>LoadDir\<close> on the three listings (an absent directory is an empty listing, another failure to
  list one is \<open>None\<close>).\<close>

definition listing_errors :: "string \<Rightarrow> dir_entry list option \<Rightarrow> spec_error list" where
  "listing_errors dir es = (case es of None \<Rightarrow> [ReadFailed dir] | Some _ \<Rightarrow> [])"

definition entries :: "dir_entry list option \<Rightarrow> dir_entry list" where
  "entries es = (case es of None \<Rightarrow> [] | Some xs \<Rightarrow> xs)"

definition LoadDir ::
  "(string \<Rightarrow> agent_spec option) \<Rightarrow> (string \<Rightarrow> skill_spec option) \<Rightarrow> (string \<Rightarrow> policy_spec option)
   \<Rightarrow> dir_entry list option \<Rightarrow> dir_entry list option \<Rightarrow> dir_entry list option
   \<Rightarrow> spec_bundle \<times> spec_error list" where
  "LoadDir yaml_a yaml_s yaml_p agents skills policies =
     (let (ags, e1) = load_agents yaml_a (entries agents) [];
          (sks, e2) = load_skills yaml_s (entries skills) [];
          (pols, e3) = load_policies yaml_p (entries policies) [];
          b = \<lparr>bu_agents = ags, bu_skills = sks, bu_policies = pols\<rparr>
      in (b, e1 @ listing_errors ''agents'' agents @ e2 @ listing_errors ''skills'' skills
             @ e3 @ listing_errors ''policies'' policies @ crossValidate b))"

section \<open>What validation guarantees\<close>

definition agent_ok :: "agent_spec \<Rightarrow> bool" where
  "agent_ok a \<longleftrightarrow>
     nameRE (as_name a) \<and> as_name a \<noteq> [] \<and> as_version a \<noteq> [] \<and> as_description a \<noteq> []
     \<and> as_triggers a \<noteq> [] \<and> list_all (\<lambda>tr. \<not> empty_trigger tr) (as_triggers a)
     \<and> 0 \<le> AutonomyLevel (as_autonomy a)
     \<and> as_handoff a \<in> {HandoffResultsOnly, HandoffSummary}
     \<and> (\<forall>b. as_budgets a = Some b \<longrightarrow> 0 \<le> bs_tokens b \<and> 0 \<le> bs_tool_calls b
          \<and> 0 \<le> bs_wall_ms b \<and> 0 \<le> bs_subagents b \<and> 0 \<le> bs_daily_usd b)
     \<and> as_prompt a \<noteq> []"

definition policy_ok :: "policy_spec \<Rightarrow> bool" where
  "policy_ok p \<longleftrightarrow>
     ps_name p \<noteq> [] \<and> ps_classes p \<noteq> [] \<and> distinct (map ac_name (ps_classes p))
     \<and> list_all (\<lambda>ac. 0 \<le> AutonomyLevel (ac_min_autonomy ac) \<and> ac_patterns ac \<noteq> []) (ps_classes p)
     \<and> list_all (\<lambda>r. has_prefix (acl_prefix r) ''/'' \<and> (acl_read_only r \<or> acl_writers r \<noteq> []))
         (ps_acl p)"

lemma ball_enumerate:
  "(\<forall>x \<in> set (List.enumerate n xs). P x) \<longleftrightarrow> (\<forall>i < length xs. P (n + i, xs ! i))"
proof (induction xs arbitrary: n)
  case Nil
  then show ?case by simp
next
  case (Cons a xs)
  then show ?case by (auto simp: less_Suc_eq_0_disj)
qed

lemma trigger_checks_ok:
  "(\<forall>(b, e) \<in> set (trigger_checks trs). \<not> b) \<longleftrightarrow> list_all (\<lambda>tr. \<not> empty_trigger tr) trs"
  by (simp add: trigger_checks_def list_all_length ball_enumerate)

lemma ParseAgent_ok: "ParseAgent yaml path raw = Inr a \<Longrightarrow> agent_ok a"
  using trigger_checks_ok
  by (auto simp: ParseAgent_def Let_def agent_checks_def collect_Nil agent_ok_def agent_defaults_def
      budget_checks_def ball_Un list_all_iff trigger_checks_def in_set_enumerate_eq
      split: sum.splits option.splits if_splits)

lemma classes_checks_ok:
  "(\<forall>(b, e) \<in> set (classes_checks i seen acs). \<not> b) \<Longrightarrow>
   distinct (map ac_name acs) \<and> ac_name ` set acs \<inter> seen = {}
   \<and> list_all (\<lambda>ac. 0 \<le> AutonomyLevel (ac_min_autonomy ac) \<and> ac_patterns ac \<noteq> []) acs"
  by (induction i seen acs rule: classes_checks.induct) (auto simp: class_checks_def ball_Un)

lemma acl_checks_ok:
  "(\<forall>(b, e) \<in> set (acl_checks rs). \<not> b) \<Longrightarrow>
   list_all (\<lambda>r. has_prefix (acl_prefix r) ''/'' \<and> (acl_read_only r \<or> acl_writers r \<noteq> [])) rs"
  by (simp add: acl_checks_def list_all_length ball_enumerate ball_Un) blast

lemma ParsePolicy_ok: "ParsePolicy yaml path raw = Inr p \<Longrightarrow> policy_ok p"
  using classes_checks_ok [of 0 "{}" "ps_classes p"] acl_checks_ok [of "ps_acl p"]
  by (auto simp: ParsePolicy_def Let_def policy_checks_def collect_Nil ball_Un policy_ok_def
      split: option.splits if_splits)

lemma add_key_fresh: "map_of m k = None \<Longrightarrow> add_key k v m = m @ [(k, v)]"
  by (simp add: add_key_def)

lemma map_of_None_fst: "map_of m k = None \<longleftrightarrow> k \<notin> fst ` set m"
  by (rule map_of_eq_None_iff)

definition agents_ok :: "(string \<times> agent_spec) list \<Rightarrow> bool" where
  "agents_ok m \<longleftrightarrow> distinct (map fst m) \<and> (\<forall>(n, a) \<in> set m. n = as_name a \<and> agent_ok a)"

definition policies_ok :: "(string \<times> policy_spec) list \<Rightarrow> bool" where
  "policies_ok m \<longleftrightarrow> distinct (map fst m) \<and> (\<forall>(n, p) \<in> set m. n = ps_name p \<and> policy_ok p)"

lemma load_agents_ok: "agents_ok m \<Longrightarrow> agents_ok (fst (load_agents yaml es m))"
  by (induction yaml es m rule: load_agents.induct)
    (auto simp: agents_ok_def add_key_fresh map_of_None_fst ParseAgent_ok
      split: option.splits sum.splits)

lemma load_policies_ok: "policies_ok m \<Longrightarrow> policies_ok (fst (load_policies yaml es m))"
  by (induction yaml es m rule: load_policies.induct)
    (auto simp: policies_ok_def add_key_fresh map_of_None_fst ParsePolicy_ok
      split: option.splits sum.splits)


definition demo_agent :: agent_spec where
  "demo_agent = \<lparr>as_name = ''sre'', as_version = ''1'', as_description = ''d'', as_model_profile = [],
     as_triggers = [\<lparr>tr_id = [], tr_source = ''alert'', tr_kind = [], tr_labels = [], tr_severity = [],
        tr_priority = 0\<rparr>],
     as_tools = [], as_skills = [], as_regions = [], as_autonomy = [], as_budgets = None,
     as_handoff = [], as_disabled = False, as_disposition = None, as_prompt = [],
     as_source_path = []\<rparr>"

definition demo_agent_file :: string where
  "demo_agent_file = ''---'' @ newline @ ''x'' @ newline @ ''---'' @ newline @ ''p''"

lemma demo_agent_parse:
  "ParseAgent (\<lambda>_. Some demo_agent) ''agents/sre.md'' demo_agent_file =
   Inr (agent_defaults (demo_agent\<lparr>as_prompt := ''p'', as_source_path := ''agents/sre.md''\<rparr>))"
  by code_simp


end
