(* ===== verification/GoPath.thy ===== *)
theory GoPath
  imports Prelude
begin

text \<open>
  \<open>path.Match\<close> of the Go standard library, which \<open>internal/policy\<close> uses for tool patterns, after the
  library's own structure (\<open>scanChunk\<close>, \<open>matchChunk\<close>, \<open>getEsc\<close>).  The caller drops the error, and a
  malformed pattern reports no match, so a failed chunk match and an error are both \<open>None\<close>.
\<close>

text \<open>\<open>getEsc\<close>: one possibly escaped character of a class; what follows is never empty.\<close>

definition get_esc :: "string \<Rightarrow> (nat \<times> string) option" where
  "get_esc chunk =
     (case chunk of
        [] \<Rightarrow> None
      | c # rest \<Rightarrow>
          if c = CHR ''-'' \<or> c = CHR '']'' then None
          else let s = (if byte c = 92 then rest else chunk) in
            (case fst (decode_rune s) of
               None \<Rightarrow> None
             | Some r \<Rightarrow>
                 let t = drop (snd (decode_rune s)) s in if t = [] then None else Some (r, t)))"

lemma get_esc_shorter: "get_esc chunk = Some (r, t) \<Longrightarrow> length t < length chunk"
proof -
  assume a: "get_esc chunk = Some (r, t)"
  obtain c rest where c: "chunk = c # rest" using a by (cases chunk) (auto simp: get_esc_def)
  let ?s = "if byte c = 92 then rest else chunk"
  have t: "t = drop (snd (decode_rune ?s)) ?s" "t \<noteq> []"
    using a by (auto simp: get_esc_def c Let_def split: if_splits option.splits)
  then have "?s \<noteq> []" by auto
  then have "1 \<le> snd (decode_rune ?s)" by (rule decode_rune_width)
  moreover have "length ?s \<le> length chunk" by (simp add: c)
  moreover have "length t = length ?s - snd (decode_rune ?s)" by (simp only: t(1) length_drop)
  moreover have "0 < length ?s" using \<open>?s \<noteq> []\<close> by blast
  ultimately show ?thesis by linarith
qed

lemma get_esc_not_Nil: "get_esc chunk = Some (r, t) \<Longrightarrow> t \<noteq> []"
  by (auto simp: get_esc_def Let_def split: list.splits if_splits option.splits)

text \<open>One range \<open>lo\<close> or \<open>lo-hi\<close> of a class.\<close>

definition class_range :: "string \<Rightarrow> (nat \<times> nat \<times> string) option" where
  "class_range chunk =
     (case get_esc chunk of
        None \<Rightarrow> None
      | Some (lo, c1) \<Rightarrow>
          if hd c1 = CHR ''-'' then
            (case get_esc (tl c1) of None \<Rightarrow> None | Some (hi, c2) \<Rightarrow> Some (lo, hi, c2))
          else Some (lo, lo, c1))"

lemma class_range_shorter: "class_range chunk = Some (lo, hi, t) \<Longrightarrow> length t < length chunk"
proof -
  assume a: "class_range chunk = Some (lo, hi, t)"
  obtain lo' c1 where e: "get_esc chunk = Some (lo', c1)"
    using a by (auto simp: class_range_def split: option.splits)
  have "length c1 < length chunk" "c1 \<noteq> []"
    using get_esc_shorter [OF e] get_esc_not_Nil [OF e] by auto
  moreover have "length t < length (tl c1)" if "get_esc (tl c1) = Some (hi', t)" for hi'
    using get_esc_shorter [OF that] .
  ultimately show ?thesis
    using a e by (fastforce simp: class_range_def split: option.splits if_splits)
qed

text \<open>The ranges of a class up to the closing bracket: whether the rune is in one of them.\<close>

function class_ranges :: "nat \<Rightarrow> nat \<Rightarrow> string \<Rightarrow> (bool \<times> string) option" where
  "class_ranges r n chunk =
     (if chunk \<noteq> [] \<and> hd chunk = CHR '']'' \<and> n > 0 then Some (False, tl chunk)
      else case class_range chunk of
        None \<Rightarrow> None
      | Some (lo, hi, t) \<Rightarrow>
          (case class_ranges r (Suc n) t of
             None \<Rightarrow> None
           | Some (m, rest) \<Rightarrow> Some (m \<or> (lo \<le> r \<and> r \<le> hi), rest)))"
  by pat_completeness auto
termination
  by (relation "measure (\<lambda>(r, n, chunk). length chunk)") (auto dest: class_range_shorter)

declare class_ranges.simps [simp del]

lemma class_ranges_shorter:
  "class_ranges r n chunk = Some (m, t) \<Longrightarrow> length t < length chunk"
proof (induction r n chunk arbitrary: m t rule: class_ranges.induct)
  case (1 r n chunk)
  show ?case
  proof (cases "chunk \<noteq> [] \<and> hd chunk = CHR '']'' \<and> n > 0")
    case True
    then show ?thesis using "1.prems" by (cases chunk) (auto simp: class_ranges.simps)
  next
    case False
    obtain lo hi u where u: "class_range chunk = Some (lo, hi, u)"
      using "1.prems" False by (auto simp: class_ranges.simps [of r n chunk] split: option.splits)
    then obtain m' where "class_ranges r (Suc n) u = Some (m', t)"
      using "1.prems" False
      by (auto simp: class_ranges.simps [of r n chunk] split: option.splits if_splits)
    then show ?thesis
      using "1.IH" [OF False u _ ] class_range_shorter [OF u] by fastforce
  qed
qed

text \<open>\<open>matchChunk\<close>: the rest of the text after a chunk without stars matched its beginning.  An
  ill-formed byte of the text is the replacement rune.\<close>

definition text_rune :: "string \<Rightarrow> nat" where
  "text_rune s = (case fst (decode_rune s) of None \<Rightarrow> 65533 | Some r \<Rightarrow> r)"

definition negated_class :: "string \<Rightarrow> bool" where
  "negated_class chunk \<longleftrightarrow> chunk \<noteq> [] \<and> byte (hd chunk) = 94"

function match_chunk :: "string \<Rightarrow> string \<Rightarrow> string option" where
  "match_chunk [] s = Some s"
| "match_chunk (c # chunk) s =
     (if s = [] then None
      else if c = CHR ''['' then
        (case class_ranges (text_rune s) 0 (if negated_class chunk then tl chunk else chunk) of
           None \<Rightarrow> None
         | Some (m, rest) \<Rightarrow>
             if m = negated_class chunk then None
             else match_chunk rest (drop (snd (decode_rune s)) s))
      else if c = CHR ''?'' then
        (if hd s = CHR ''/'' then None else match_chunk chunk (drop (snd (decode_rune s)) s))
      else if byte c = 92 then
        (case chunk of
           [] \<Rightarrow> None
         | d # rest \<Rightarrow> if d \<noteq> hd s then None else match_chunk rest (tl s))
      else if c \<noteq> hd s then None
      else match_chunk chunk (tl s))"
  by pat_completeness auto
termination
proof (relation "measure (length \<circ> fst)")
  fix c :: char and chunk s :: string and x and m :: bool and rest :: string
  assume "class_ranges (text_rune s) 0 (if negated_class chunk then tl chunk else chunk) = Some x"
    and "(m, rest) = x"
  then have "length rest < length (if negated_class chunk then tl chunk else chunk)"
    using class_ranges_shorter by blast
  also have "\<dots> \<le> length chunk" by simp
  finally show "((rest, drop (snd (decode_rune s)) s), c # chunk, s) \<in> measure (length \<circ> fst)"
    by simp
qed auto

declare match_chunk.simps(2) [simp del]

text \<open>\<open>scanChunk\<close>: whether a star comes first, the chunk up to the next star outside a class, and the
  rest of the pattern.\<close>

fun scan_to_star :: "bool \<Rightarrow> string \<Rightarrow> string \<times> string" where
  "scan_to_star inrange [] = ([], [])"
| "scan_to_star inrange [c] =
     (if c = CHR ''*'' \<and> \<not> inrange then ([], [c]) else ([c], []))"
| "scan_to_star inrange (c # d # s) =
     (if byte c = 92 then apfst (\<lambda>w. c # d # w) (scan_to_star inrange s)
      else if c = CHR ''*'' \<and> \<not> inrange then ([], c # d # s)
      else apfst (Cons c) (scan_to_star
        (if c = CHR ''['' then True else if c = CHR '']'' then False else inrange) (d # s)))"

definition scan_chunk :: "string \<Rightarrow> bool \<times> string \<times> string" where
  "scan_chunk p = (let q = dropWhile (\<lambda>c. c = CHR ''*'') p; (chunk, rest) = scan_to_star False q
     in (q \<noteq> p, chunk, rest))"

lemma apfst_eq: "apfst f p = (a, b) \<longleftrightarrow> (\<exists>c. p = (c, b) \<and> a = f c)"
  by (cases p) auto

lemma scan_to_star_split: "scan_to_star b s = (chunk, rest) \<Longrightarrow> s = chunk @ rest"
  by (induction b s arbitrary: chunk rest rule: scan_to_star.induct)
    (auto split: if_splits simp: apfst_eq)

lemma scan_to_star_progress:
  "scan_to_star b s = ([], rest) \<Longrightarrow> s = [] \<or> hd s = CHR ''*''"
  by (induction b s rule: scan_to_star.induct) (auto split: if_splits simp: apfst_eq)

lemma scan_chunk_shorter:
  assumes "scan_chunk p = (star, chunk, rest)" and "p \<noteq> []"
  shows "length rest < length p"
proof -
  define q where "q = dropWhile (\<lambda>c. c = CHR ''*'') p"
  have sc: "scan_to_star False q = (chunk, rest)" and star: "star \<longleftrightarrow> q \<noteq> p"
    using assms(1) by (auto simp: scan_chunk_def Let_def q_def split: prod.splits)
  have q: "q = chunk @ rest" by (rule scan_to_star_split [OF sc])
  have len: "length q \<le> length p" by (simp add: q_def length_dropWhile_le)
  show ?thesis
  proof (cases "chunk = []")
    case False
    then show ?thesis using q len by (cases chunk) auto
  next
    case True
    then have "q = [] \<or> hd q = CHR ''*''" using scan_to_star_progress sc by blast
    moreover have "q \<noteq> [] \<Longrightarrow> hd q \<noteq> CHR ''*''"
      unfolding q_def by (rule hd_dropWhile)
    ultimately have "q = []" by blast
    then show ?thesis using q assms(2) by simp
  qed
qed

text \<open>The texts a star may leave: it never skips a slash.\<close>

fun star_tails :: "string \<Rightarrow> string list" where
  "star_tails [] = []"
| "star_tails (c # s) = (if c = CHR ''/'' then [] else s # star_tails s)"

text \<open>The first way the chunk matches: at the start, or after a star at a later place; the last chunk
  must use up the text (at the start this is only so when nothing is left of it).\<close>

definition chunk_step :: "bool \<Rightarrow> string \<Rightarrow> bool \<Rightarrow> string \<Rightarrow> string option" where
  "chunk_step star chunk final name =
     (let good = (\<lambda>s. case match_chunk chunk s of None \<Rightarrow> False | Some t \<Rightarrow> t = [] \<or> \<not> final) in
      case find good (name # (if star then star_tails name else [])) of
        None \<Rightarrow> None | Some s \<Rightarrow> match_chunk chunk s)"

function match_path :: "string \<Rightarrow> string \<Rightarrow> bool" where
  "match_path pattern name =
     (if pattern = [] then name = []
      else case scan_chunk pattern of
        (star, chunk, rest) \<Rightarrow>
          if star \<and> chunk = [] then CHR ''/'' \<notin> set name
          else case chunk_step star chunk (rest = []) name of
            None \<Rightarrow> False
          | Some t \<Rightarrow> match_path rest t)"
  by pat_completeness auto
termination
  by (relation "measure (length \<circ> fst)") (auto dest: scan_chunk_shorter [OF sym])

declare match_path.simps [simp del]

end
