(* ===== verification/Policy.thy ===== *)
theory Policy
  imports SpecModel GoPath Db "HOL-Library.Multiset"
begin

text \<open>
  The package \<open>internal/policy\<close>: the autonomy ladder (\<open>policy.go\<close>) and the proposals table
  (\<open>proposals.go\<close>).  An engine is compiled from a bundle of specifications; a check classifies a tool
  by the first class with a matching pattern and compares autonomy levels.
\<close>

section \<open>Verdicts\<close>

datatype verdict = Allow | Propose | Deny

text \<open>The ladder of verdicts, from the most to the least permissive.\<close>

fun verdict_rank :: "verdict \<Rightarrow> nat" where
  "verdict_rank Allow = 0"
| "verdict_rank Propose = 1"
| "verdict_rank Deny = 2"

lemma verdict_rank_inj: "verdict_rank v = verdict_rank w \<Longrightarrow> v = w"
  by (cases v; cases w) auto

instantiation verdict :: linorder
begin

definition less_eq_verdict :: "verdict \<Rightarrow> verdict \<Rightarrow> bool" where
  "less_eq_verdict v w \<longleftrightarrow> verdict_rank v \<le> verdict_rank w"

definition less_verdict :: "verdict \<Rightarrow> verdict \<Rightarrow> bool" where
  "less_verdict v w \<longleftrightarrow> verdict_rank v < verdict_rank w"

instance
  by standard (auto simp: less_eq_verdict_def less_verdict_def intro: verdict_rank_inj)

end

fun Verdict_String :: "verdict \<Rightarrow> string" where
  "Verdict_String Allow = ''allow''"
| "Verdict_String Propose = ''propose''"
| "Verdict_String Deny = ''deny''"

record decision =
  dc_verdict :: verdict
  dc_class :: string
  dc_reason :: string

section \<open>Engines\<close>

record compiled_class =
  cc_name :: string
  cc_min_autonomy :: string
  cc_patterns :: "string list"

record engine =
  en_classes :: "compiled_class list"
  en_acl :: "acl_rule list"
  en_permissive :: bool

definition compile_class :: "action_class \<Rightarrow> compiled_class" where
  "compile_class ac = \<lparr>cc_name = ac_name ac, cc_min_autonomy = ac_min_autonomy ac,
     cc_patterns = ac_patterns ac\<rparr>"

text \<open>\<open>FromBundle\<close>: the policies in the order of their names.  \<open>sort.Slice\<close> on the access rules leaves
  the order of prefixes of the same length open; the model keeps them in place, and
  \<open>CheckMemoryWrite_longest\<close> below holds for every order it may leave them in.\<close>

definition FromBundle :: "spec_bundle \<Rightarrow> engine" where
  "FromBundle b =
     (let pols = map snd (sort_key fst (bu_policies b)) in
      \<lparr>en_classes = concat (map (\<lambda>p. map compile_class (ps_classes p)) pols),
       en_acl = sort_key (\<lambda>r. - int (length (acl_prefix r))) (concat (map ps_acl pols)),
       en_permissive = (bu_policies b = [])\<rparr>)"

fun check_write :: "acl_rule list \<Rightarrow> string \<Rightarrow> string \<Rightarrow> decision" where
  "check_write [] agent key =
     \<lparr>dc_verdict = Allow, dc_class = ''memory'', dc_reason = ''no acl rule''\<rparr>"
| "check_write (r # rs) agent key =
     (if \<not> has_prefix key (acl_prefix r) then check_write rs agent key
      else if acl_read_only r then
        \<lparr>dc_verdict = Deny, dc_class = ''memory'',
         dc_reason = ''prefix '' @ acl_prefix r @ '' is read-only reference data''\<rparr>
      else if \<exists>w \<in> set (acl_writers r). w = ''*'' \<or> w = agent then
        \<lparr>dc_verdict = Allow, dc_class = ''memory'', dc_reason = ''acl writer match''\<rparr>
      else
        \<lparr>dc_verdict = Deny, dc_class = ''memory'',
         dc_reason = ''agent '' @ agent @ '' not in writers for prefix '' @ acl_prefix r\<rparr>)"

definition CheckMemoryWrite :: "engine \<Rightarrow> string \<Rightarrow> string \<Rightarrow> decision" where
  "CheckMemoryWrite e agent key = check_write (en_acl e) agent key"

definition matchPattern :: "string \<Rightarrow> string \<Rightarrow> bool" where
  "matchPattern pattern tool \<longleftrightarrow>
     match_path pattern tool
     \<or> (case cut_suffix pattern ''*'' of None \<Rightarrow> False | Some pre \<Rightarrow> has_prefix tool pre)
     \<or> pattern = tool"

definition ClassFor :: "engine \<Rightarrow> string \<Rightarrow> compiled_class option" where
  "ClassFor e tool = find (\<lambda>c. \<exists>p \<in> set (cc_patterns c). matchPattern p tool) (en_classes e)"

definition Check :: "engine \<Rightarrow> string \<Rightarrow> string \<Rightarrow> decision" where
  "Check e agentAutonomy tool =
     (if en_permissive e then
        \<lparr>dc_verdict = Allow, dc_class = ''unpolicied'', dc_reason = ''no policies loaded''\<rparr>
      else case ClassFor e tool of
        None \<Rightarrow> \<lparr>dc_verdict = Propose, dc_class = ''unclassified'',
          dc_reason = ''tool matches no action class; conservative default is proposal''\<rparr>
      | Some c \<Rightarrow>
          let agentLvl = AutonomyLevel agentAutonomy; needLvl = AutonomyLevel (cc_min_autonomy c) in
          if agentLvl \<ge> needLvl then
            \<lparr>dc_verdict = Allow, dc_class = cc_name c, dc_reason = ''autonomy sufficient''\<rparr>
          else if needLvl = AutonomyLevel AutonomyAuto \<and> agentLvl \<ge> AutonomyLevel AutonomyPropose then
            \<lparr>dc_verdict = Propose, dc_class = cc_name c,
             dc_reason = ''action requires auto; agent may propose''\<rparr>
          else
            \<lparr>dc_verdict = Deny, dc_class = cc_name c,
             dc_reason = ''agent autonomy '' @ agentAutonomy @ '' below required ''
               @ cc_min_autonomy c\<rparr>)"

section \<open>Proposals\<close>

record proposal =
  pr_id :: string
  pr_task :: string
  pr_class :: string
  pr_target :: string
  pr_params :: string
  pr_status :: string
  pr_external_ref :: "string option"
  pr_created_at :: instant
  pr_updated_at :: instant

text \<open>The table, with the identifiers of the tasks its foreign key refers to.\<close>

record proposals =
  pt_tasks :: "string list"
  pt_rows :: "proposal list"

datatype proposal_error = UnknownProposalStatus string | ProposalNotFound string | CreateProposal

definition proposalStatuses :: "string list" where
  "proposalStatuses = [''proposed'', ''submitted'', ''approved'', ''rejected'', ''expired'']"

definition Create ::
  "clock \<Rightarrow> string \<Rightarrow> string \<Rightarrow> string \<Rightarrow> string \<Rightarrow> string
   \<Rightarrow> (proposals, proposal_error, proposal) op" where
  "Create now pid task cls target params s =
     (let pr = \<lparr>pr_id = pid, pr_task = task, pr_class = cls, pr_target = target,
          pr_params = (if params = [] then ''{}'' else params), pr_status = ''proposed'',
          pr_external_ref = None, pr_created_at = now 0, pr_updated_at = now 1\<rparr> in
      if task \<notin> set (pt_tasks s) \<or> pid \<in> pr_id ` set (pt_rows s) then (Inl CreateProposal, s)
      else (Inr pr, s\<lparr>pt_rows := pt_rows s @ [pr]\<rparr>))"

definition Get_proposal :: "string \<Rightarrow> proposals \<Rightarrow> proposal_error + proposal" where
  "Get_proposal pid s = (case find (\<lambda>p. pr_id p = pid) (pt_rows s) of
      None \<Rightarrow> Inl (ProposalNotFound pid) | Some p \<Rightarrow> Inr p)"

definition UpdateStatus ::
  "instant \<Rightarrow> string \<Rightarrow> string \<Rightarrow> string \<Rightarrow> (proposals, proposal_error, proposal) op" where
  "UpdateStatus now pid status ref s =
     (if status \<notin> set proposalStatuses then (Inl (UnknownProposalStatus status), s)
      else
        let P = (\<lambda>p. pr_id p = pid);
            f = (\<lambda>p. p\<lparr>pr_status := status,
                   pr_external_ref := (if ref = [] then pr_external_ref p else Some ref),
                   pr_updated_at := now\<rparr>);
            s' = s\<lparr>pt_rows := update_where P f (pt_rows s)\<rparr>
        in if rows_affected P (pt_rows s) = 0 then (Inl (ProposalNotFound pid), s')
           else (Get_proposal pid s', s'))"

definition proposal_limit :: "int \<Rightarrow> nat" where
  "proposal_limit limit = nat (if limit \<le> 0 \<or> limit > 200 then 100 else limit)"

definition ListByStatus :: "string \<Rightarrow> int \<Rightarrow> proposals \<Rightarrow> proposal_error + proposal list" where
  "ListByStatus status limit s =
     (if status \<notin> set proposalStatuses then Inl (UnknownProposalStatus status)
      else Inr (take (proposal_limit limit)
        (sort_key (\<lambda>p. - pr_created_at p) (filter (\<lambda>p. pr_status p = status) (pt_rows s)))))"

definition ListByTask :: "string \<Rightarrow> proposals \<Rightarrow> proposal list" where
  "ListByTask task s = sort_key pr_created_at (filter (\<lambda>p. pr_task p = task) (pt_rows s))"

definition stale :: "instant \<Rightarrow> proposal \<Rightarrow> bool" where
  "stale cutoff p \<longleftrightarrow> pr_status p \<in> {''proposed'', ''submitted''} \<and> pr_created_at p < cutoff"

definition ExpireStale :: "clock \<Rightarrow> duration \<Rightarrow> proposals \<Rightarrow> nat \<times> proposals" where
  "ExpireStale now maxAge s =
     (let P = stale (now 0 - maxAge) in
      (rows_affected P (pt_rows s),
       s\<lparr>pt_rows := update_where P (\<lambda>p. p\<lparr>pr_status := ''expired'', pr_updated_at := now 1\<rparr>)
           (pt_rows s)\<rparr>))"

section \<open>The ladder\<close>

lemma autonomy_level_order:
  "AutonomyLevel AutonomyAuto = 3" "AutonomyLevel AutonomyPropose = 2"
  by (simp_all add: AutonomyLevel_cases autonomy_defs)

lemma autonomy_level_le:
  "3 \<le> AutonomyLevel a \<longleftrightarrow> a = AutonomyAuto"
  "2 \<le> AutonomyLevel a \<longleftrightarrow> a = AutonomyAuto \<or> a = AutonomyPropose"
  by (simp_all add: AutonomyLevel_cases autonomy_defs)

lemma autonomy_distinct: "AutonomyPropose \<noteq> AutonomyAuto"
  by (simp add: autonomy_defs)


text \<open>Nothing runs above its class.  With policies loaded, a tool call is allowed exactly when the
  first class whose patterns match the tool asks for no more autonomy than the agent has; in
  particular, under policies that passed validation, a tool whose class requires \<open>auto\<close> is allowed to
  an \<open>auto\<close> agent only, becomes a proposal for a \<open>propose\<close> agent and is denied to every other, and a
  tool of no class becomes a proposal for everybody.\<close>

lemma Check_ladder:
  assumes "\<not> en_permissive e"
  shows "(dc_verdict (Check e a tool) = Allow \<longleftrightarrow>
           (\<exists>c. ClassFor e tool = Some c \<and> AutonomyLevel (cc_min_autonomy c) \<le> AutonomyLevel a))
    \<and> (\<forall>c. ClassFor e tool = Some c \<and> cc_min_autonomy c = AutonomyAuto \<longrightarrow>
         dc_verdict (Check e a tool) =
           (if a = AutonomyAuto then Allow else if a = AutonomyPropose then Propose else Deny))
    \<and> (ClassFor e tool = None \<longrightarrow> dc_verdict (Check e a tool) = Propose)"
proof (cases "ClassFor e tool")
  case None
  then show ?thesis using assms by (simp add: Check_def)
next
  case (Some c)
  then show ?thesis
    using assms autonomy_distinct
    by (auto simp: Check_def Let_def autonomy_level_order autonomy_level_le)
qed

lemma check_write_longest:
  assumes "r \<in> set rs" and "has_prefix key (acl_prefix r)"
    and "sorted (map (\<lambda>r. - int (length (acl_prefix r))) rs)"
    and "\<And>q. q \<in> set rs \<Longrightarrow> has_prefix key (acl_prefix q) \<Longrightarrow> q \<noteq> r \<Longrightarrow>
         length (acl_prefix q) < length (acl_prefix r)"
  shows "dc_verdict (check_write rs agent key) =
      (if \<not> acl_read_only r \<and> (''*'' \<in> set (acl_writers r) \<or> agent \<in> set (acl_writers r))
       then Allow else Deny)"
  using assms
proof (induction rs)
  case Nil
  then show ?case by simp
next
  case (Cons q rs)
  show ?case
  proof (cases "q = r")
    case True
    then show ?thesis using Cons.prems(2) by auto
  next
    case False
    then have "r \<in> set rs" using Cons.prems(1) by simp
    then have "length (acl_prefix r) \<le> length (acl_prefix q)"
      using Cons.prems(3) by auto
    then have "\<not> has_prefix key (acl_prefix q)"
      using Cons.prems(4) [of q] False by force
    then show ?thesis
      using Cons.IH \<open>r \<in> set rs\<close> Cons.prems by simp
  qed
qed

text \<open>Access rules.  A memory write is decided by the longest rule whose prefix the key has, in
  whatever order the policies list the rules and the sort leaves those of equal length: under a
  read-only rule it is denied, otherwise it is allowed exactly to the rule's writers.  A key under no
  rule is writable by anyone.\<close>

lemma CheckMemoryWrite_longest:
  assumes "mset rs = mset (en_acl (FromBundle b))"
    and "sorted (map (\<lambda>r. - int (length (acl_prefix r))) rs)"
  shows "(\<forall>r \<in> set rs. has_prefix key (acl_prefix r)
      \<and> (\<forall>q \<in> set rs. has_prefix key (acl_prefix q) \<longrightarrow> q = r
            \<or> length (acl_prefix q) < length (acl_prefix r)) \<longrightarrow>
        dc_verdict (CheckMemoryWrite (FromBundle b\<lparr>en_acl := rs\<rparr>) agent key) =
          (if \<not> acl_read_only r \<and> (''*'' \<in> set (acl_writers r) \<or> agent \<in> set (acl_writers r))
           then Allow else Deny))
    \<and> ((\<forall>r \<in> set (en_acl (FromBundle b)). \<not> has_prefix key (acl_prefix r)) \<longrightarrow>
        dc_verdict (CheckMemoryWrite (FromBundle b\<lparr>en_acl := rs\<rparr>) agent key) = Allow)"
proof -
  have free: "\<forall>r \<in> set rs. \<not> has_prefix key (acl_prefix r) \<Longrightarrow>
      dc_verdict (check_write rs agent key) = Allow"
    by (induction rs) auto
  have "set rs = set (en_acl (FromBundle b))"
    using assms(1) by (rule mset_eq_setD)
  then have none: "(\<forall>r \<in> set (en_acl (FromBundle b)). \<not> has_prefix key (acl_prefix r)) \<longrightarrow>
      dc_verdict (check_write rs agent key) = Allow"
    using free by blast
  have "dc_verdict (check_write rs agent key) =
      (if \<not> acl_read_only r \<and> (''*'' \<in> set (acl_writers r) \<or> agent \<in> set (acl_writers r))
       then Allow else Deny)"
    if "r \<in> set rs" "has_prefix key (acl_prefix r)
      \<and> (\<forall>q \<in> set rs. has_prefix key (acl_prefix q) \<longrightarrow> q = r
            \<or> length (acl_prefix q) < length (acl_prefix r))" for r
    using that by (intro check_write_longest [OF _ _ assms(2)]) auto
  with none show ?thesis
    by (simp add: CheckMemoryWrite_def)
qed

text \<open>Witnesses, on one policy whose only class reserves every \<open>shell\<close> tool for \<open>auto\<close> agents.\<close>

definition demo_policy :: policy_spec where
  "demo_policy = \<lparr>ps_name = ''p'',
     ps_classes = [\<lparr>ac_name = ''exec'', ac_min_autonomy = ''auto'', ac_patterns = [''shell*'']\<rparr>],
     ps_acl = [\<lparr>acl_prefix = ''/'', acl_writers = [''*''], acl_read_only = False\<rparr>,
               \<lparr>acl_prefix = ''/ref/'', acl_writers = [], acl_read_only = True\<rparr>],
     ps_source_path = []\<rparr>"

definition demo_engine :: engine where
  "demo_engine = FromBundle \<lparr>bu_agents = [], bu_skills = [], bu_policies = [(''p'', demo_policy)]\<rparr>"


lemma Check_ladder_witness:
  "dc_verdict (Check demo_engine ''propose'' ''shell.run'') = Propose"
proof -
  have c: "ClassFor demo_engine ''shell.run'' =
      Some \<lparr>cc_name = ''exec'', cc_min_autonomy = AutonomyAuto, cc_patterns = [''shell*'']\<rparr>"
    by code_simp
  have "\<not> en_permissive demo_engine" by code_simp
  from Check_ladder [OF this, of "''propose''" "''shell.run''"] c show ?thesis
    by (simp add: autonomy_defs)
qed

lemma CheckMemoryWrite_longest_witness:
  "dc_verdict (CheckMemoryWrite demo_engine ''sre'' ''/ref/x'') = Deny"
proof -
  let ?b = "\<lparr>bu_agents = [], bu_skills = [], bu_policies = [(''p'', demo_policy)]\<rparr>"
  have acl: "en_acl (FromBundle ?b) =
      [\<lparr>acl_prefix = ''/ref/'', acl_writers = [], acl_read_only = True\<rparr>,
       \<lparr>acl_prefix = ''/'', acl_writers = [''*''], acl_read_only = False\<rparr>]"
    by (simp add: FromBundle_def demo_policy_def)
  have "sorted (map (\<lambda>r. - int (length (acl_prefix r))) (en_acl (FromBundle ?b)))"
    by (simp add: acl)
  from CheckMemoryWrite_longest [OF refl this, of "''/ref/x''" "''sre''"] show ?thesis
    by (simp add: demo_engine_def has_prefix_def) (simp add: acl)
qed

end
