(* ===== verification/Registry.thy ===== *)
theory Registry
  imports SpecModel
begin

text \<open>
  The package \<open>internal/registry\<close>: the active snapshot of the specifications and the table
  \<open>agent_versions\<close>.  \<open>Load\<close> takes the result of \<open>LoadDir\<close>; the fingerprint of a specification (SHA-256
  of its JSON) is the parameter \<open>hash\<close>.  \<open>Watch\<close> is an event loop over file-system notifications that
  only calls \<open>Load\<close> and is not modelled.
\<close>

record version_row =
  vr_id :: int
  vr_name :: string
  vr_version :: string
  vr_hash :: string
  vr_source_path :: string
  vr_loaded_at :: instant

record spec_snapshot =
  sp_bundle :: spec_bundle
  sp_version :: int
  sp_ids :: "(string \<times> int) list"
  sp_loaded_at :: instant

record registry =
  rg_persistent :: bool
  rg_versions :: "version_row list"
  rg_current :: "spec_snapshot option"
  rg_seq :: int

definition Registry_Get :: "registry \<Rightarrow> string \<Rightarrow> (agent_spec \<times> int) option" where
  "Registry_Get r name =
     (case rg_current r of
        None \<Rightarrow> None
      | Some s \<Rightarrow>
          (case map_of (bu_agents (sp_bundle s)) name of
             None \<Rightarrow> None
           | Some a \<Rightarrow> Some (a, case map_of (sp_ids s) name of None \<Rightarrow> 0 | Some i \<Rightarrow> i)))"

definition same_version :: "string \<Rightarrow> string \<Rightarrow> version_row \<Rightarrow> bool" where
  "same_version name h v \<longleftrightarrow> vr_name v = name \<and> vr_hash v = h"

definition next_version_id :: "version_row list \<Rightarrow> int" where
  "next_version_id vs = foldr max (map vr_id vs) 0 + 1"

text \<open>\<open>persistAgentVersion\<close>: the newest row with this content, or a new row.  The clock is read for a
  new row only, so the clock left over is part of the result.\<close>

definition persistAgentVersion ::
  "(agent_spec \<Rightarrow> string) \<Rightarrow> agent_spec \<Rightarrow> clock \<times> version_row list
   \<Rightarrow> int \<times> clock \<times> version_row list" where
  "persistAgentVersion hash a st = (case st of (now, vs) \<Rightarrow>
     (case sort_key (\<lambda>v. - vr_loaded_at v) (filter (same_version (as_name a) (hash a)) vs) of
        v # _ \<Rightarrow> (vr_id v, now, vs)
      | [] \<Rightarrow>
          (next_version_id vs, clock_later 1 now,
           vs @ [\<lparr>vr_id = next_version_id vs, vr_name = as_name a, vr_version = as_version a,
                   vr_hash = hash a, vr_source_path = as_source_path a, vr_loaded_at = now 0\<rparr>])))"

fun persist_all ::
  "(agent_spec \<Rightarrow> string) \<Rightarrow> (string \<times> agent_spec) list \<Rightarrow> clock \<times> version_row list
   \<Rightarrow> (string \<times> int) list \<times> clock \<times> version_row list" where
  "persist_all hash [] st = ([], st)"
| "persist_all hash ((n, a) # ags) st =
     (case persistAgentVersion hash a st of (i, st') \<Rightarrow>
        (case persist_all hash ags st' of (ids, st'') \<Rightarrow> ((n, i) # ids, st'')))"

definition Load ::
  "(agent_spec \<Rightarrow> string) \<Rightarrow> clock \<Rightarrow> spec_bundle \<times> spec_error list
   \<Rightarrow> (registry, spec_error list, unit) op" where
  "Load hash now result r =
     (case result of (b, errs) \<Rightarrow>
        if errs \<noteq> [] then (Inl errs, r)
        else
          let (ids, now', vs) =
            (if rg_persistent r then persist_all hash (bu_agents b) (now, rg_versions r)
             else ([], now, rg_versions r))
          in (Inr (), r\<lparr>rg_versions := vs, rg_seq := rg_seq r + 1,
                rg_current := Some \<lparr>sp_bundle = b, sp_version = rg_seq r + 1, sp_ids = ids,
                  sp_loaded_at = now' 0\<rparr>\<rparr>))"

section \<open>Versions\<close>

definition has_version :: "string \<Rightarrow> string \<Rightarrow> version_row list \<Rightarrow> int \<Rightarrow> bool" where
  "has_version name h vs i \<longleftrightarrow> (\<exists>v \<in> set vs. vr_id v = i \<and> vr_name v = name \<and> vr_hash v = h)"

lemma persistAgentVersion_result:
  assumes "persistAgentVersion hash a (now, vs) = (i, now', vs')"
  shows "\<exists>new. vs' = vs @ new \<and> has_version (as_name a) (hash a) vs' i
    \<and> ((\<exists>v \<in> set vs. same_version (as_name a) (hash a) v) \<longrightarrow> new = [])"
proof (cases "sort_key (\<lambda>v. - vr_loaded_at v) (filter (same_version (as_name a) (hash a)) vs)")
  case Nil
  then have "filter (same_version (as_name a) (hash a)) vs = []"
    by (metis length_0_conv length_sort)
  then show ?thesis
    using assms Nil by (auto simp: persistAgentVersion_def has_version_def filter_empty_conv)
next
  case (Cons v rest)
  then have "v \<in> set (filter (same_version (as_name a) (hash a)) vs)"
    by (metis list.set_intros(1) set_sort)
  then show ?thesis
    using assms Cons by (auto simp: persistAgentVersion_def has_version_def same_version_def)
qed

lemma persist_all_result:
  assumes "persist_all hash ags (now, vs) = (ids, now', vs')"
  shows "\<exists>new. vs' = vs @ new \<and> map fst ids = map fst ags
    \<and> (\<forall>k < length ags. has_version (as_name (snd (ags ! k))) (hash (snd (ags ! k))) vs'
         (snd (ids ! k)))
    \<and> ((\<forall>(n, a) \<in> set ags. \<exists>v \<in> set vs. same_version (as_name a) (hash a) v) \<longrightarrow> new = [])"
  using assms
proof (induction ags arbitrary: now vs ids)
  case Nil
  then show ?case by auto
next
  case (Cons na ags)
  obtain n a where na: "na = (n, a)" by (cases na)
  obtain i now1 vs1 where p: "persistAgentVersion hash a (now, vs) = (i, now1, vs1)"
    by (metis surj_pair)
  obtain ids1 where q: "persist_all hash ags (now1, vs1) = (ids1, now', vs')" "ids = (n, i) # ids1"
    using Cons.prems na p by (auto split: prod.splits)
  obtain new1 where n1: "vs1 = vs @ new1" "has_version (as_name a) (hash a) vs1 i"
    "(\<exists>v \<in> set vs. same_version (as_name a) (hash a) v) \<longrightarrow> new1 = []"
    using persistAgentVersion_result [OF p] by blast
  obtain new2 where n2: "vs' = vs1 @ new2" "map fst ids1 = map fst ags"
    "\<forall>k < length ags. has_version (as_name (snd (ags ! k))) (hash (snd (ags ! k))) vs' (snd (ids1 ! k))"
    "(\<forall>(n, a) \<in> set ags. \<exists>v \<in> set vs1. same_version (as_name a) (hash a) v) \<longrightarrow> new2 = []"
    using Cons.IH [OF q(1)] by blast
  have "has_version (as_name a) (hash a) vs' i"
    using n1(2) n2(1) by (auto simp: has_version_def)
  then have "\<forall>k < length (na # ags). has_version (as_name (snd ((na # ags) ! k)))
      (hash (snd ((na # ags) ! k))) vs' (snd (ids ! k))"
    using n2(3) na q(2) by (auto simp: less_Suc_eq_0_disj)
  moreover have "(\<forall>(n, a) \<in> set (na # ags). \<exists>v \<in> set vs. same_version (as_name a) (hash a) v)
      \<longrightarrow> new1 @ new2 = []"
    using n1(1,3) n2(4) na by auto
  ultimately show ?case
    using n1(1) n2(1,2) na q(2) by (intro exI [of _ "new1 @ new2"]) auto
qed

text \<open>Validate before apply, and pinned versions.  A tree with validation errors leaves the registry
  untouched.  A valid tree becomes the active snapshot, with the next version number; on a persistent
  registry the version table only grows, every agent of the snapshot resolves to a row that carries its
  name and content hash, and an agent whose content is known adds no row.\<close>

lemma Load_versions:
  assumes "distinct (map fst (bu_agents b))" and "rg_persistent r"
  shows "(errs \<noteq> [] \<longrightarrow> Load hash now (b, errs) r = (Inl errs, r))
    \<and> (errs = [] \<longrightarrow> (\<exists>r' new. Load hash now (b, errs) r = (Inr (), r')
         \<and> map_option sp_bundle (rg_current r') = Some b \<and> rg_seq r' = rg_seq r + 1
         \<and> rg_versions r' = rg_versions r @ new
         \<and> ((\<forall>(n, a) \<in> set (bu_agents b). \<exists>v \<in> set (rg_versions r).
               vr_name v = as_name a \<and> vr_hash v = hash a) \<longrightarrow> new = [])
         \<and> (\<forall>(n, a) \<in> set (bu_agents b). \<exists>i. Registry_Get r' n = Some (a, i)
               \<and> (\<exists>v \<in> set (rg_versions r'). vr_id v = i \<and> vr_name v = as_name a
                    \<and> vr_hash v = hash a))))"
proof -
  obtain ids now' vs' where p: "persist_all hash (bu_agents b) (now, rg_versions r) = (ids, now', vs')"
    by (metis surj_pair)
  obtain new where n: "vs' = rg_versions r @ new" "map fst ids = map fst (bu_agents b)"
    "\<forall>k < length (bu_agents b). has_version (as_name (snd (bu_agents b ! k)))
       (hash (snd (bu_agents b ! k))) vs' (snd (ids ! k))"
    "(\<forall>(n, a) \<in> set (bu_agents b). \<exists>v \<in> set (rg_versions r).
       same_version (as_name a) (hash a) v) \<longrightarrow> new = []"
    using persist_all_result [OF p] by blast
  let ?r = "r\<lparr>rg_versions := vs', rg_seq := rg_seq r + 1,
      rg_current := Some \<lparr>sp_bundle = b, sp_version = rg_seq r + 1, sp_ids = ids,
        sp_loaded_at = now' 0\<rparr>\<rparr>"
  have get: "\<exists>i. Registry_Get ?r n = Some (a, i) \<and> has_version (as_name a) (hash a) vs' i"
    if mem: "(n, a) \<in> set (bu_agents b)" for n a
  proof -
    obtain k where k: "k < length (bu_agents b)" "bu_agents b ! k = (n, a)"
      using mem by (auto simp: in_set_conv_nth)
    have len: "length ids = length (bu_agents b)"
      using n(2) by (metis length_map)
    have "fst (ids ! k) = n"
      using k len n(2) by (metis fst_conv nth_map)
    then have "(n, snd (ids ! k)) \<in> set ids"
      using k(1) len by (metis nth_mem prod.collapse)
    then have "map_of ids n = Some (snd (ids ! k))"
      using assms(1) n(2) by (simp add: map_of_is_SomeI)
    moreover have "map_of (bu_agents b) n = Some a"
      using assms(1) mem by simp
    moreover have "has_version (as_name a) (hash a) vs' (snd (ids ! k))"
      using n(3) k by force
    ultimately show ?thesis by (simp add: Registry_Get_def)
  qed
  have load: "Load hash now (b, []) r = (Inr (), ?r)"
    using p assms(2) by (simp add: Load_def)
  show ?thesis
    using load get n(1,4) by (auto simp: Load_def has_version_def same_version_def)
qed

lemma Load_versions_witness:
  "\<exists>r'. Load (\<lambda>a. as_name a) (\<lambda>i. int i)
      (\<lparr>bu_agents = [(''sre'', demo_agent)], bu_skills = [], bu_policies = []\<rparr>, [])
      \<lparr>rg_persistent = True, rg_versions = [], rg_current = None, rg_seq = 0\<rparr> = (Inr (), r')
    \<and> Registry_Get r' ''sre'' \<noteq> None"
  using Load_versions [of "\<lparr>bu_agents = [(''sre'', demo_agent)], bu_skills = [], bu_policies = []\<rparr>"
      "\<lparr>rg_persistent = True, rg_versions = [], rg_current = None, rg_seq = 0\<rparr>" "[]"
      "\<lambda>a. as_name a" "\<lambda>i. int i"]
  by auto

end
