(* ===== verification/Topo.thy ===== *)
theory Topo
  imports Db
begin

text \<open>
  The package \<open>internal/topo\<close>: the service table, dependency edges, the breadth-first walk that ranks
  probable causes, the catalogue import and the enrichment of routing labels.
\<close>

section \<open>Services and edges\<close>

record service =
  sv_name :: string
  sv_namespace :: string
  sv_owner :: string
  sv_oncall :: string
  sv_tier :: int

record edge =
  ed_from :: string
  ed_to :: string
  ed_kind :: string

record topology =
  tp_services :: "service list"
  tp_edges :: "edge list"

datatype topo_error = EdgeKind string | CatalogParse

definition same_service :: "service \<Rightarrow> service \<Rightarrow> bool" where
  "same_service s t \<longleftrightarrow> sv_name s = sv_name t \<and> sv_namespace s = sv_namespace t"

text \<open>\<open>INSERT ... ON CONFLICT (name, namespace) DO UPDATE\<close>; the column \<open>updated_at\<close> is read by nobody
  and left out.\<close>

definition Upsert :: "service \<Rightarrow> topology \<Rightarrow> topology" where
  "Upsert s0 tp =
     (let s = (if sv_namespace s0 = [] then s0\<lparr>sv_namespace := ''default''\<rparr> else s0) in
      tp\<lparr>tp_services :=
        (if rows_affected (same_service s) (tp_services tp) = 0 then tp_services tp @ [s]
         else update_where (same_service s)
           (\<lambda>r. r\<lparr>sv_owner := sv_owner s, sv_oncall := sv_oncall s, sv_tier := sv_tier s\<rparr>)
           (tp_services tp))\<rparr>)"

definition AddEdge :: "string \<Rightarrow> string \<Rightarrow> string \<Rightarrow> (topology, topo_error, unit) op" where
  "AddEdge from to kind tp =
     (if kind \<noteq> ''declared'' \<and> kind \<noteq> ''observed'' then (Inl (EdgeKind kind), tp)
      else let e = \<lparr>ed_from = from, ed_to = to, ed_kind = kind\<rparr> in
        (Inr (), if e \<in> set (tp_edges tp) then tp else tp\<lparr>tp_edges := tp_edges tp @ [e]\<rparr>))"

definition Lookup :: "topology \<Rightarrow> string \<Rightarrow> service option" where
  "Lookup tp name =
     (case sort_key sv_namespace (filter (\<lambda>s. sv_name s = name) (tp_services tp)) of
        [] \<Rightarrow> None | s # _ \<Rightarrow> Some s)"

section \<open>The walk\<close>

text \<open>\<open>SELECT DISTINCT to_service\<close> for one service.\<close>

definition depends_on :: "topology \<Rightarrow> string \<Rightarrow> string list" where
  "depends_on tp svc = remdups (map ed_to (filter (\<lambda>e. ed_from e = svc) (tp_edges tp)))"

text \<open>The walk's variables \<open>seen\<close>, \<open>out\<close> and \<open>next\<close>.\<close>

type_synonym walk = "string list \<times> string list \<times> string list"

definition visit :: "walk \<Rightarrow> string \<Rightarrow> walk" where
  "visit w to = (case w of (seen, out, nxt) \<Rightarrow>
     if to \<in> set seen then (seen, out, nxt) else (to # seen, out @ [to], nxt @ [to]))"

definition visit_service :: "topology \<Rightarrow> walk \<Rightarrow> string \<Rightarrow> walk" where
  "visit_service tp w svc = foldl visit w (depends_on tp svc)"

fun walk_levels :: "topology \<Rightarrow> nat \<Rightarrow> string list \<Rightarrow> string list \<Rightarrow> string list \<Rightarrow> string list" where
  "walk_levels tp 0 seen out frontier = out"
| "walk_levels tp (Suc d) seen out frontier =
     (if frontier = [] then out
      else case foldl (visit_service tp) (seen, out, []) frontier of
        (seen', out', nxt) \<Rightarrow> walk_levels tp d seen' out' nxt)"

definition Upstream :: "topology \<Rightarrow> string \<Rightarrow> int \<Rightarrow> string list" where
  "Upstream tp name maxDepth =
     walk_levels tp (nat (if maxDepth \<le> 0 then 3 else maxDepth)) [name] [] [name]"

section \<open>Catalogue import\<close>

record backstage_doc =
  bd_kind :: string
  bd_name :: string
  bd_namespace :: string
  bd_annotations :: "string \<Rightarrow> string option"
  bd_owner :: string
  bd_depends_on :: "string list"
  bd_tier :: int

text \<open>\<open>dep[i+1:]\<close> after the last colon.\<close>

definition after_last_colon :: "string \<Rightarrow> string" where
  "after_last_colon dep = rev (takeWhile (\<lambda>c. c \<noteq> CHR '':'') (rev dep))"

text \<open>\<open>strings.Split(raw, sep)\<close> for a separator of several bytes.\<close>

function split_on :: "string \<Rightarrow> string \<Rightarrow> string list" where
  "split_on sep s =
     (case index_of s sep of
        None \<Rightarrow> [s]
      | Some i \<Rightarrow> if sep = [] then [s]
          else take i s # split_on sep (drop (i + length sep) s))"
  by pat_completeness auto
termination
proof (relation "measure (length \<circ> snd)")
  fix sep s i
  assume "index_of s sep = Some i" and "sep \<noteq> []"
  then have "i + length sep \<le> length s" and "0 < length sep"
    using index_of_bound by auto
  then have "length s - (i + length sep) < length s"
    by linarith
  then show "((sep, drop (i + length sep) s), sep, s) \<in> measure (length \<circ> snd)"
    by simp
qed simp

fun add_edges :: "string \<Rightarrow> string list \<Rightarrow> nat \<Rightarrow> (topology, topo_error, nat) op" where
  "add_edges name [] n tp = (Inr n, tp)"
| "add_edges name (dep # deps) n tp =
     (case AddEdge name (after_last_colon dep) ''declared'' tp of
        (Inl e, tp') \<Rightarrow> (Inl e, tp')
      | (Inr _, tp') \<Rightarrow> add_edges name deps (Suc n) tp')"

definition service_of :: "backstage_doc \<Rightarrow> service" where
  "service_of b = \<lparr>sv_name = bd_name b, sv_namespace = bd_namespace b, sv_owner = bd_owner b,
     sv_oncall = (case bd_annotations b ''punk.io/oncall'' of None \<Rightarrow> [] | Some v \<Rightarrow> v),
     sv_tier = (if bd_tier b = 0 then 3 else bd_tier b)\<rparr>"

text \<open>The loop over the documents: \<open>strings.EqualFold\<close> against \<open>Component\<close> is a comparison of the
  lower-cased kinds (no other rune folds to an ASCII letter of that word but the long s and the Kelvin
  sign, neither of which occurs in it).  The counts written so far accompany an error.\<close>

fun import_docs ::
  "(string \<Rightarrow> backstage_doc option) \<Rightarrow> string list \<Rightarrow> nat \<Rightarrow> nat
   \<Rightarrow> (topology, nat \<times> nat \<times> topo_error, nat \<times> nat) op" where
  "import_docs yaml [] services edges tp = (Inr (services, edges), tp)"
| "import_docs yaml (d # docs) services edges tp =
     (let doc = trim_space d in
      if doc = [] then import_docs yaml docs services edges tp
      else case yaml doc of
        None \<Rightarrow> (Inl (services, edges, CatalogParse), tp)
      | Some b \<Rightarrow>
          if to_lower (bd_kind b) \<noteq> ''component'' \<or> bd_name b = []
          then import_docs yaml docs services edges tp
          else (case add_edges (bd_name b) (bd_depends_on b) edges (Upsert (service_of b) tp) of
                  (Inl e, tp') \<Rightarrow> (Inl (Suc services, edges, e), tp')
                | (Inr edges', tp') \<Rightarrow> import_docs yaml docs (Suc services) edges' tp'))"

definition ImportBackstage ::
  "(string \<Rightarrow> backstage_doc option) \<Rightarrow> string
   \<Rightarrow> (topology, nat \<times> nat \<times> topo_error, nat \<times> nat) op" where
  "ImportBackstage yaml raw = import_docs yaml (split_on (char_of (10 :: nat) # ''---'') raw) 0 0"

section \<open>Enrichment\<close>

definition label :: "(string \<Rightarrow> string option) \<Rightarrow> string \<Rightarrow> string" where
  "label labels k = (case labels k of None \<Rightarrow> [] | Some v \<Rightarrow> v)"

definition int_str :: "int \<Rightarrow> string" where
  "int_str n = (if n < 0 then ''-'' @ nat_str (nat (- n)) else nat_str (nat n))"

definition Enrich ::
  "topology \<Rightarrow> (string \<Rightarrow> string option) \<Rightarrow> (string \<Rightarrow> string option) \<times> string list" where
  "Enrich tp labels =
     (let name = label labels ''service'' in
      if name = [] then (labels, [])
      else case Lookup tp name of
        None \<Rightarrow> (labels, [])
      | Some svc \<Rightarrow>
          let o1 = (if labels ''owner'' = None \<and> sv_owner svc \<noteq> []
                    then labels(''owner'' \<mapsto> sv_owner svc) else labels);
              o2 = (if o1 ''tier'' = None then o1(''tier'' \<mapsto> int_str (sv_tier svc)) else o1)
          in (o2, Upstream tp name 3))"

section \<open>The walk is ranked by distance\<close>

definition depends :: "topology \<Rightarrow> string \<Rightarrow> string \<Rightarrow> bool" where
  "depends tp x y \<longleftrightarrow> (\<exists>e \<in> set (tp_edges tp). ed_from e = x \<and> ed_to e = y)"

text \<open>\<open>y\<close> is reached from \<open>x\<close> by a chain of \<open>k\<close> dependencies and by no shorter one.\<close>

definition at_distance :: "topology \<Rightarrow> string \<Rightarrow> nat \<Rightarrow> string \<Rightarrow> bool" where
  "at_distance tp x k y \<longleftrightarrow> (depends tp ^^ k) x y \<and> (\<forall>j < k. \<not> (depends tp ^^ j) x y)"

lemma set_depends_on: "set (depends_on tp x) = {y. depends tp x y}"
  by (auto simp: depends_on_def depends_def)

lemma at_distance_0: "at_distance tp x 0 y \<longleftrightarrow> y = x"
  by (auto simp: at_distance_def)

lemma at_distance_Suc:
  "at_distance tp x (Suc k) y \<longleftrightarrow>
   (\<exists>z. at_distance tp x k z \<and> depends tp z y) \<and> (\<forall>j \<le> k. \<not> at_distance tp x j y)"
proof
  assume a: "at_distance tp x (Suc k) y"
  then obtain z where z: "(depends tp ^^ k) x z" "depends tp z y"
    by (auto simp: at_distance_def elim: relpowp_Suc_E)
  have "\<not> (depends tp ^^ j) x z" if "j < k" for j
    using a z(2) that relpowp_Suc_I [of j "depends tp" x z y] by (auto simp: at_distance_def)
  then show "(\<exists>z. at_distance tp x k z \<and> depends tp z y) \<and> (\<forall>j \<le> k. \<not> at_distance tp x j y)"
    using a z by (auto simp: at_distance_def)
next
  assume a: "(\<exists>z. at_distance tp x k z \<and> depends tp z y) \<and> (\<forall>j \<le> k. \<not> at_distance tp x j y)"
  then have "(depends tp ^^ Suc k) x y"
    using relpowp_Suc_I by (fastforce simp: at_distance_def)
  moreover have "\<not> (depends tp ^^ j) x y" if "j < Suc k" for j
    using that
  proof (induction j rule: less_induct)
    case (less j)
    then have "\<not> at_distance tp x j y" using a by auto
    then show ?case using less by (auto simp: at_distance_def)
  qed
  ultimately show "at_distance tp x (Suc k) y" by (simp add: at_distance_def)
qed

text \<open>What a fold of visits does: the new nodes go, in order and once, to \<open>out\<close> and \<open>next\<close>.\<close>

lemma visit_fold:
  assumes "foldl visit (seen, out, nxt) tos = (seen', out', nxt')"
  shows "\<exists>new. distinct new \<and> set new = set tos - set seen \<and> out' = out @ new \<and> nxt' = nxt @ new
    \<and> set seen' = set seen \<union> set new"
  using assms
proof (induction tos arbitrary: seen out nxt)
  case Nil
  then show ?case by auto
next
  case (Cons to tos)
  show ?case
  proof (cases "to \<in> set seen")
    case True
    then show ?thesis using Cons by (auto simp: visit_def)
  next
    case False
    then obtain new where "distinct new" "set new = set tos - set (to # seen)"
      "out' = (out @ [to]) @ new" "nxt' = (nxt @ [to]) @ new"
      "set seen' = set (to # seen) \<union> set new"
      using Cons.IH [of "to # seen" "out @ [to]" "nxt @ [to]"] Cons.prems by (auto simp: visit_def)
    then show ?thesis using False by (intro exI [of _ "to # new"]) auto
  qed
qed

lemma visit_service_fold:
  assumes "foldl (visit_service tp) (seen, out, nxt) svcs = (seen', out', nxt')"
  shows "\<exists>new. distinct new \<and> set new = {y. \<exists>x \<in> set svcs. depends tp x y} - set seen
    \<and> out' = out @ new \<and> nxt' = nxt @ new \<and> set seen' = set seen \<union> set new"
  using assms
proof (induction svcs arbitrary: seen out nxt)
  case Nil
  then show ?case by auto
next
  case (Cons s svcs)
  obtain seen1 out1 nxt1 where v: "visit_service tp (seen, out, nxt) s = (seen1, out1, nxt1)"
    by (metis surj_pair)
  then obtain new1 where n1: "distinct new1" "set new1 = set (depends_on tp s) - set seen"
    "out1 = out @ new1" "nxt1 = nxt @ new1" "set seen1 = set seen \<union> set new1"
    using visit_fold [of seen out nxt "depends_on tp s"] by (auto simp: visit_service_def)
  obtain new2 where n2: "distinct new2"
    "set new2 = {y. \<exists>x \<in> set svcs. depends tp x y} - set seen1"
    "out' = out1 @ new2" "nxt' = nxt1 @ new2" "set seen' = set seen1 \<union> set new2"
    using Cons.IH [of seen1 out1 nxt1] Cons.prems v by auto
  show ?case
    using n1 n2 by (intro exI [of _ "new1 @ new2"]) (auto simp: set_depends_on)
qed

lemma walk_levels_ranked:
  assumes "set frontier = {y. at_distance tp x k y}"
    and "set seen = {y. \<exists>j \<le> k. at_distance tp x j y}"
  shows "\<exists>levels. length levels = d \<and> walk_levels tp d seen out frontier = out @ concat levels
    \<and> (\<forall>i < d. distinct (levels ! i) \<and> set (levels ! i) = {y. at_distance tp x (k + i + 1) y})"
  using assms
proof (induction d arbitrary: seen out frontier k)
  case 0
  then show ?case by simp
next
  case (Suc d)
  obtain seen' out' nxt where f: "foldl (visit_service tp) (seen, out, []) frontier = (seen', out', nxt)"
    by (metis surj_pair)
  from visit_service_fold [OF this] obtain new where n: "distinct new"
    "set new = {y. \<exists>z \<in> set frontier. depends tp z y} - set seen"
    "out' = out @ new" "nxt = new" "set seen' = set seen \<union> set new"
    by auto
  have new: "set new = {y. at_distance tp x (k + 1) y}"
    using n(2) Suc.prems by (auto simp: at_distance_Suc)
  have "set seen' = {y. \<exists>j \<le> k + 1. at_distance tp x j y}"
    using n(5) new Suc.prems(2) by (auto simp: le_Suc_eq)
  with new obtain levels where l: "length levels = d"
    "walk_levels tp d seen' out' nxt = out' @ concat levels"
    "\<forall>i < d. distinct (levels ! i) \<and> set (levels ! i) = {y. at_distance tp x (k + 1 + i + 1) y}"
    using Suc.IH [of nxt "k + 1" seen' out'] n(4) by auto
  have "walk_levels tp (Suc d) seen out frontier = out @ concat (new # levels)"
  proof (cases "frontier = []")
    case True
    then have "nxt = []" "out' = out" using f by auto
    moreover have "walk_levels tp d seen' out [] = out" by (cases d) auto
    ultimately show ?thesis using True n l(2) by simp
  next
    case False
    then show ?thesis using f l(2) n(3) by simp
  qed
  moreover have "distinct ((new # levels) ! i)
      \<and> set ((new # levels) ! i) = {y. at_distance tp x (k + i + 1) y}" if "i < Suc d" for i
    using that l(3) n(1) new by (cases i) auto
  ultimately show ?case
    using l(1) by (intro exI [of _ "new # levels"]) auto
qed

text \<open>Probable causes are ranked by distance.  \<open>Upstream\<close> lists, without repetition and without the
  service itself, exactly the services it depends on through at most \<open>maxDepth\<close> edges (three when the
  depth is not positive), all those at distance one first, then those at distance two, and so on.\<close>

lemma Upstream_ranked:
  "\<exists>levels. Upstream tp name maxDepth = concat levels
    \<and> length levels = nat (if maxDepth \<le> 0 then 3 else maxDepth)
    \<and> (\<forall>i < length levels. distinct (levels ! i)
         \<and> set (levels ! i) = {y. at_distance tp name (i + 1) y})"
  using walk_levels_ranked [of "[name]" tp name 0 "[name]"
      "nat (if maxDepth \<le> 0 then 3 else maxDepth)" "[]"]
  by (auto simp: Upstream_def at_distance_0)

definition demo_topology :: topology where
  "demo_topology = \<lparr>tp_services = [], tp_edges =
     [\<lparr>ed_from = ''web'', ed_to = ''api'', ed_kind = ''declared''\<rparr>,
      \<lparr>ed_from = ''api'', ed_to = ''db'', ed_kind = ''declared''\<rparr>,
      \<lparr>ed_from = ''db'', ed_to = ''web'', ed_kind = ''declared''\<rparr>]\<rparr>"

lemma Upstream_ranked_witness:
  "Upstream demo_topology ''web'' 0 = [''api'', ''db'']
   \<and> (\<exists>levels. Upstream demo_topology ''web'' 0 = concat levels
        \<and> set (levels ! 1) = {y. at_distance demo_topology ''web'' 2 y})"
proof
  show "Upstream demo_topology ''web'' 0 = [''api'', ''db'']" by code_simp
  show "\<exists>levels. Upstream demo_topology ''web'' 0 = concat levels
      \<and> set (levels ! 1) = {y. at_distance demo_topology ''web'' 2 y}"
    using Upstream_ranked [of demo_topology "''web''" 0] by (auto simp: numeral_2_eq_2)
qed

end
