(* ===== verification/Ledger.thy ===== *)
theory Ledger
  imports Complex_Main Db
begin

text \<open>
  The package \<open>internal/task\<close>: the task state machine (\<open>task.go\<close>), the event-sourced ledger
  (\<open>ledger.go\<close>) and the budgets (\<open>budget.go\<close>).  The record \<open>ledger\<close> is the tables \<open>tasks\<close>,
  \<open>task_events\<close> and \<open>task_snapshots\<close> with the constraints of the schema, the identifiers of
  \<open>agent_versions\<close> that foreign keys refer to, and the calls of the \<open>Notify\<close> callback.
\<close>

section \<open>Statuses and transitions\<close>

definition StatusSubmitted :: string where "StatusSubmitted = ''submitted''"
definition StatusWorking :: string where "StatusWorking = ''working''"
definition StatusInputRequired :: string where "StatusInputRequired = ''input_required''"
definition StatusCompleted :: string where "StatusCompleted = ''completed''"
definition StatusFailed :: string where "StatusFailed = ''failed''"
definition StatusCanceled :: string where "StatusCanceled = ''canceled''"

lemmas status_defs = StatusSubmitted_def StatusWorking_def StatusInputRequired_def
  StatusCompleted_def StatusFailed_def StatusCanceled_def

text \<open>The map \<open>transitions\<close>: the statuses with the statuses each may move to.\<close>

definition transitions :: "(string \<times> string list) list" where
  "transitions =
    [(StatusSubmitted, [StatusWorking, StatusCanceled]),
     (StatusWorking, [StatusCompleted, StatusFailed, StatusInputRequired, StatusCanceled,
                      StatusSubmitted]),
     (StatusInputRequired, [StatusWorking, StatusCanceled]),
     (StatusCompleted, []),
     (StatusFailed, []),
     (StatusCanceled, [])]"

datatype ledger_error =
    TaskNotFound string
  | UnknownStatus string
  | BadTransition string string
  | BudgetExhausted string
  | UnknownBudget string
  | SkillRunConflict nat
  | NoExecutionID
  | NotWorking string
  | NoRows
  | TaskMissing
  | DedupFetch
  | ForeignKey string
  | UniqueViolation string
  | CheckViolation string

definition CheckTransition :: "string \<Rightarrow> string \<Rightarrow> ledger_error + unit" where
  "CheckTransition from to =
     (case map_of transitions from of
        None \<Rightarrow> Inl (UnknownStatus from)
      | Some allowed \<Rightarrow>
          (case map_of transitions to of
             None \<Rightarrow> Inl (UnknownStatus to)
           | Some _ \<Rightarrow> if to \<in> set allowed then Inr () else Inl (BadTransition from to)))"

section \<open>Rows\<close>

record budget =
  b_tokens :: int
  b_tool_calls :: int
  b_wall_ms :: int
  b_subagents :: int

record task =
  tk_id :: string
  tk_external_ref :: "string option"
  tk_source :: string
  tk_kind :: string
  tk_status :: string
  tk_agent :: string
  tk_agent_version :: "int option"
  tk_parent :: "string option"
  tk_contract :: string
  tk_labels :: "string \<Rightarrow> string option"
  tk_budget :: budget
  tk_spent_tokens :: int
  tk_spent_tool_calls :: int
  tk_started_at :: "instant option"
  tk_lease :: "instant option"
  tk_created_at :: instant
  tk_updated_at :: instant

record skill_run =
  sr_skill :: string
  sr_version :: string
  sr_namespace :: string
  sr_execution :: string
  sr_outcome :: string
  sr_score :: rat
  sr_error_type :: string
  sr_error_message :: string
  sr_summary :: string

text \<open>
  Payloads are stored as JSON text; the model keeps the value the text encodes, one constructor
  per struct the ledger writes.  \<open>PFields\<close> is a payload a caller hands to \<open>Append\<close> (a map of
  names to texts); \<open>PRouted\<close> is the router's decision.
\<close>

datatype payload =
    PSubmitted string string string
  | PStatusChange string string string
  | PBudget string int int
  | PSkillRun skill_run
  | PRouted string string string string "string list" rat "string list"
  | PFields "(string \<times> string) list"

record event =
  ev_task :: string
  ev_seq :: nat
  ev_type :: string
  ev_actor :: string
  ev_payload :: payload
  ev_created_at :: instant

definition EventSubmitted :: string where "EventSubmitted = ''submitted''"
definition EventRouted :: string where "EventRouted = ''routed''"
definition EventStatusChange :: string where "EventStatusChange = ''status_change''"
definition EventBudgetExhausted :: string where "EventBudgetExhausted = ''budget_exhausted''"
definition EventError :: string where "EventError = ''error''"
definition EventSkillRun :: string where "EventSkillRun = ''skill_run''"
definition EventIteration :: string where "EventIteration = ''iteration''"
definition EventToolCall :: string where "EventToolCall = ''tool_call''"
definition EventFinding :: string where "EventFinding = ''finding''"
definition EventProposal :: string where "EventProposal = ''proposal''"
definition EventHandoff :: string where "EventHandoff = ''handoff''"

lemmas event_defs = EventSubmitted_def EventRouted_def EventStatusChange_def
  EventBudgetExhausted_def EventError_def EventSkillRun_def EventIteration_def EventToolCall_def
  EventFinding_def EventProposal_def EventHandoff_def

record snapshot =
  sn_task :: string
  sn_seq :: nat
  sn_tool :: string
  sn_args :: string
  sn_result :: string
  sn_status :: string
  sn_created_at :: instant

record ledger =
  l_driver :: driver
  l_tasks :: "task list"
  l_events :: "event list"
  l_snapshots :: "snapshot list"
  l_versions :: "int list"
  l_notified :: "(string \<times> string) list"

definition notify :: "string \<Rightarrow> string \<Rightarrow> ledger \<Rightarrow> ledger" where
  "notify tid status l = l\<lparr>l_notified := l_notified l @ [(tid, status)]\<rparr>"

definition find_task :: "string \<Rightarrow> ledger \<Rightarrow> task option" where
  "find_task tid l = find (\<lambda>t. tk_id t = tid) (l_tasks l)"

text \<open>\<open>UPDATE tasks SET f WHERE P\<close>, and the same for one identifier.\<close>

definition update_rows :: "(task \<Rightarrow> bool) \<Rightarrow> (task \<Rightarrow> task) \<Rightarrow> ledger \<Rightarrow> ledger" where
  "update_rows P f l = l\<lparr>l_tasks := update_where P f (l_tasks l)\<rparr>"

definition update_task :: "string \<Rightarrow> (task \<Rightarrow> task) \<Rightarrow> ledger \<Rightarrow> ledger" where
  "update_task tid f l = update_rows (\<lambda>t. tk_id t = tid) f l"

definition events_of :: "string \<Rightarrow> ledger \<Rightarrow> event list" where
  "events_of tid l = filter (\<lambda>e. ev_task e = tid) (l_events l)"

section \<open>Appending events\<close>

text \<open>\<open>SELECT COALESCE(MAX(seq), 0) + 1\<close>; on Postgres the task row is locked first, so an unknown
  task is noticed here.\<close>

definition nextSeq :: "string \<Rightarrow> ledger \<Rightarrow> ledger_error + nat" where
  "nextSeq tid l =
     (if l_driver l = Postgres \<and> find_task tid l = None then Inl (TaskNotFound tid)
      else Inr (foldr max (map ev_seq (events_of tid l)) 0 + 1))"

text \<open>On SQLite an unknown task fails the foreign key of the inserted row.\<close>

definition appendTxSeq ::
  "instant \<Rightarrow> string \<Rightarrow> string \<Rightarrow> string \<Rightarrow> payload \<Rightarrow> (ledger, ledger_error, nat) op" where
  "appendTxSeq ts tid ty actor pl l =
     (case nextSeq tid l of
        Inl e \<Rightarrow> (Inl e, l)
      | Inr seq \<Rightarrow>
          if find_task tid l = None then (Inl (ForeignKey ''task_events.task_id''), l)
          else (Inr seq, l\<lparr>l_events := l_events l @
             [\<lparr>ev_task = tid, ev_seq = seq, ev_type = ty, ev_actor = actor, ev_payload = pl,
               ev_created_at = ts\<rparr>]\<rparr>))"

definition appendTx ::
  "instant \<Rightarrow> string \<Rightarrow> string \<Rightarrow> string \<Rightarrow> payload \<Rightarrow> (ledger, ledger_error, unit) op" where
  "appendTx ts tid ty actor pl l = (case appendTxSeq ts tid ty actor pl l of
      (Inl e, l') \<Rightarrow> (Inl e, l') | (Inr _, l') \<Rightarrow> (Inr (), l'))"

definition Append ::
  "instant \<Rightarrow> string \<Rightarrow> string \<Rightarrow> string \<Rightarrow> payload \<Rightarrow> (ledger, ledger_error, nat) op" where
  "Append ts tid ty actor pl = with_tx (appendTxSeq ts tid ty actor pl)"

definition AppendSkillRun ::
  "instant \<Rightarrow> string \<Rightarrow> string \<Rightarrow> skill_run \<Rightarrow> (ledger, ledger_error, nat) op" where
  "AppendSkillRun ts tid actor p = Append ts tid EventSkillRun actor (PSkillRun p)"

section \<open>Submitting\<close>

record submit_input =
  si_external_ref :: string
  si_source :: string
  si_kind :: string
  si_labels :: "string \<Rightarrow> string option"
  si_budget :: budget
  si_parent :: string
  si_contract :: string
  si_actor :: string

definition HandoffDefault :: string where "HandoffDefault = ''results_only''"

definition null_if_empty :: "string \<Rightarrow> string option" where
  "null_if_empty s = (if s = [] then None else Some s)"

definition open_status :: "string \<Rightarrow> bool" where
  "open_status s \<longleftrightarrow> s \<in> {StatusSubmitted, StatusWorking, StatusInputRequired}"

definition open_ref :: "string \<Rightarrow> task \<Rightarrow> bool" where
  "open_ref ref t \<longleftrightarrow> tk_external_ref t = Some ref \<and> open_status (tk_status t)"

text \<open>The partial unique index \<open>idx_tasks_open_ref\<close>, the primary key, the \<open>CHECK\<close> on the contract and
  the foreign key of the parent, in the order the engine is known to report any of them: a
  violation of uniqueness is the only one \<open>Submit\<close> distinguishes.\<close>

definition insert_task :: "task \<Rightarrow> (ledger, ledger_error, unit) op" where
  "insert_task t l =
     (if tk_contract t \<notin> {''results_only'', ''summary'', ''full_trace''}
        then (Inl (CheckViolation ''tasks.handoff_contract''), l)
      else if find_task (tk_id t) l \<noteq> None then (Inl (UniqueViolation ''tasks.id''), l)
      else if \<exists>u \<in> set (l_tasks l). \<exists>ref \<in> set_option (tk_external_ref t). open_ref ref u
        then (Inl (UniqueViolation ''tasks.external_ref''), l)
      else if (case tk_parent t of None \<Rightarrow> False | Some p \<Rightarrow> p \<noteq> tk_id t \<and> find_task p l = None)
        then (Inl (ForeignKey ''tasks.parent_task_id''), l)
      else (Inr (), l\<lparr>l_tasks := l_tasks l @ [t]\<rparr>))"

definition isUniqueViolation :: "ledger_error \<Rightarrow> bool" where
  "isUniqueViolation e = (case e of UniqueViolation _ \<Rightarrow> True | _ \<Rightarrow> False)"

definition findOpenByRef :: "string \<Rightarrow> ledger \<Rightarrow> task option" where
  "findOpenByRef ref l = find (open_ref ref) (l_tasks l)"

text \<open>The row \<open>Submit\<close> builds: \<open>tid\<close> is the random identifier; the clock is read for
  \<open>CreatedAt\<close>, for \<open>UpdatedAt\<close> and for the event.\<close>

definition new_task :: "clock \<Rightarrow> string \<Rightarrow> submit_input \<Rightarrow> task" where
  "new_task now tid inp =
     \<lparr>tk_id = tid, tk_external_ref = null_if_empty (si_external_ref inp),
      tk_source = si_source inp,
      tk_kind = (if si_kind inp = [] then ''investigate'' else si_kind inp),
      tk_status = StatusSubmitted, tk_agent = [], tk_agent_version = None,
      tk_parent = null_if_empty (si_parent inp),
      tk_contract = (if si_contract inp = [] then HandoffDefault else si_contract inp),
      tk_labels = si_labels inp, tk_budget = si_budget inp,
      tk_spent_tokens = 0, tk_spent_tool_calls = 0, tk_started_at = None, tk_lease = None,
      tk_created_at = now 0, tk_updated_at = now 1\<rparr>"

definition submit_body :: "clock \<Rightarrow> string \<Rightarrow> submit_input \<Rightarrow> (ledger, ledger_error, unit) op" where
  "submit_body now tid inp l =
     (case insert_task (new_task now tid inp) l of
        (Inl e, l') \<Rightarrow> (Inl e, l')
      | (Inr _, l') \<Rightarrow>
          appendTx (now 2) tid EventSubmitted (if si_actor inp = [] then ''system'' else si_actor inp)
            (PSubmitted (si_source inp) (si_external_ref inp) (tk_kind (new_task now tid inp))) l')"

definition Submit ::
  "clock \<Rightarrow> string \<Rightarrow> submit_input \<Rightarrow> (ledger, ledger_error, task \<times> bool) op" where
  "Submit now tid inp l =
     (case with_tx (submit_body now tid inp) l of
        (Inr _, l') \<Rightarrow> (Inr (new_task now tid inp, True), l')
      | (Inl e, l') \<Rightarrow>
          if \<not> isUniqueViolation e then (Inl e, l')
          else (case findOpenByRef (si_external_ref inp) l' of
                  None \<Rightarrow> (Inl DedupFetch, l')
                | Some t \<Rightarrow> (Inr (t, False), l')))"

section \<open>Skill runs\<close>

definition sameSkillRunExecution :: "skill_run \<Rightarrow> skill_run \<Rightarrow> bool" where
  "sameSkillRunExecution stored inp \<longleftrightarrow>
     \<not> (sr_execution stored = [] \<or> sr_execution stored \<noteq> sr_execution inp)
     \<and> (sr_namespace stored = [] \<or> sr_namespace inp = [] \<or> sr_namespace stored = sr_namespace inp)"

definition sameSkillRunContent :: "skill_run \<Rightarrow> skill_run \<Rightarrow> bool" where
  "sameSkillRunContent stored inp \<longleftrightarrow>
     sr_skill stored = sr_skill inp \<and> sr_version stored = sr_version inp
     \<and> sr_outcome stored = sr_outcome inp \<and> sr_score stored = sr_score inp
     \<and> sr_error_type stored = sr_error_type inp \<and> sr_error_message stored = sr_error_message inp
     \<and> sr_summary stored = sr_summary inp"

text \<open>The stored anchors of a task in the order of their sequence numbers; a payload of another
  shape has no comparable anchor.\<close>

definition skill_run_of :: "payload \<Rightarrow> skill_run option" where
  "skill_run_of pl = (case pl of PSkillRun p \<Rightarrow> Some p | _ \<Rightarrow> None)"

definition skill_anchors :: "string \<Rightarrow> ledger \<Rightarrow> (nat \<times> string \<times> skill_run) list" where
  "skill_anchors tid l =
     List.map_filter (\<lambda>e. map_option (\<lambda>p. (ev_seq e, ev_actor e, p)) (skill_run_of (ev_payload e)))
       (sort_key ev_seq (filter (\<lambda>e. ev_type e = EventSkillRun) (events_of tid l)))"

text \<open>The scan: the highest matching sequence number so far, or the conflict.\<close>

fun scan_anchors ::
  "string \<Rightarrow> skill_run \<Rightarrow> nat option \<Rightarrow> (nat \<times> string \<times> skill_run) list
   \<Rightarrow> ledger_error + nat option" where
  "scan_anchors actor p found [] = Inr found"
| "scan_anchors actor p found ((sq, a, q) # rest) =
     (if \<not> sameSkillRunExecution q p then scan_anchors actor p found rest
      else if a \<noteq> actor \<or> \<not> sameSkillRunContent q p then Inl (SkillRunConflict sq)
      else scan_anchors actor p
             (case found of None \<Rightarrow> Some sq | Some s \<Rightarrow> if sq > s then Some sq else Some s) rest)"

definition skill_once_body ::
  "instant \<Rightarrow> string \<Rightarrow> string \<Rightarrow> skill_run \<Rightarrow> (ledger, ledger_error, nat \<times> bool) op" where
  "skill_once_body ts tid actor p l =
     (if l_driver l = Postgres \<and> find_task tid l = None then (Inl (TaskNotFound tid), l)
      else case scan_anchors actor p None (skill_anchors tid l) of
        Inl e \<Rightarrow> (Inl e, l)
      | Inr (Some sq) \<Rightarrow> (Inr (sq, True), l)
      | Inr None \<Rightarrow>
          (case appendTxSeq ts tid EventSkillRun actor (PSkillRun p) l of
             (Inl e, l') \<Rightarrow> (Inl e, l')
           | (Inr sq, l') \<Rightarrow> (Inr (sq, False), l')))"

definition AppendSkillRunOnce ::
  "instant \<Rightarrow> string \<Rightarrow> string \<Rightarrow> skill_run \<Rightarrow> (ledger, ledger_error, nat \<times> bool) op" where
  "AppendSkillRunOnce ts tid actor p l =
     (if sr_execution p = [] then (Inl NoExecutionID, l)
      else with_tx (skill_once_body ts tid actor p) l)"

section \<open>Status changes\<close>

definition set_status_body ::
  "clock \<Rightarrow> string \<Rightarrow> string \<Rightarrow> string \<Rightarrow> string \<Rightarrow> (ledger, ledger_error, unit) op" where
  "set_status_body now tid to actor reason l =
     (case find_task tid l of
        None \<Rightarrow> (Inl (TaskNotFound tid), l)
      | Some t \<Rightarrow>
          (case CheckTransition (tk_status t) to of
             Inl e \<Rightarrow> (Inl e, l)
           | Inr _ \<Rightarrow>
               appendTx (now 1) tid EventStatusChange actor (PStatusChange (tk_status t) to reason)
                 (update_task tid (\<lambda>t. t\<lparr>tk_status := to, tk_updated_at := now 0\<rparr>) l)))"

text \<open>What \<open>SetStatus\<close> and \<open>Claim\<close> do after their transaction: notify on a nil error.\<close>

definition notify_ok :: "string \<Rightarrow> string \<Rightarrow> (ledger, ledger_error, unit) op \<Rightarrow> (ledger, ledger_error, unit) op" where
  "notify_ok tid to run l = (case run l of
      (Inr u, l') \<Rightarrow> (Inr u, notify tid to l') | (Inl e, l') \<Rightarrow> (Inl e, l'))"

definition SetStatus ::
  "clock \<Rightarrow> string \<Rightarrow> string \<Rightarrow> string \<Rightarrow> string \<Rightarrow> (ledger, ledger_error, unit) op" where
  "SetStatus now tid to actor reason =
     notify_ok tid to (with_tx (set_status_body now tid to actor reason))"

definition claim_body ::
  "clock \<Rightarrow> string \<Rightarrow> string \<Rightarrow> int \<Rightarrow> duration \<Rightarrow> (ledger, ledger_error, unit) op" where
  "claim_body now tid agent vid lease l =
     (case find_task tid l of
        None \<Rightarrow> (Inl NoRows, l)
      | Some t \<Rightarrow>
          (case CheckTransition (tk_status t) StatusWorking of
             Inl e \<Rightarrow> (Inl e, l)
           | Inr _ \<Rightarrow>
               if vid \<notin> set (l_versions l) then (Inl (ForeignKey ''tasks.agent_version_id''), l)
               else appendTx (now 1) tid EventStatusChange (''agent:'' @ agent)
                 (PStatusChange (tk_status t) StatusWorking ''claimed'')
                 (update_task tid
                   (\<lambda>t. t\<lparr>tk_status := StatusWorking, tk_agent := agent, tk_agent_version := Some vid,
                          tk_started_at := Some (now 0), tk_lease := Some (now 0 + lease),
                          tk_updated_at := now 0\<rparr>) l)))"

definition Claim ::
  "clock \<Rightarrow> string \<Rightarrow> string \<Rightarrow> int \<Rightarrow> duration \<Rightarrow> (ledger, ledger_error, unit) op" where
  "Claim now tid agent vid lease =
     notify_ok tid StatusWorking (with_tx (claim_body now tid agent vid lease))"

definition ExtendLease :: "clock \<Rightarrow> string \<Rightarrow> duration \<Rightarrow> (ledger, ledger_error, unit) op" where
  "ExtendLease now tid lease l =
     (let P = (\<lambda>t. tk_id t = tid \<and> tk_status t = StatusWorking);
          l' = update_rows P
                   (\<lambda>t. t\<lparr>tk_lease := Some (now 0 + lease), tk_updated_at := now 1\<rparr>) l
      in if rows_affected P (l_tasks l) = 0 then (Inl (NotWorking tid), l') else (Inr (), l'))"

definition Requeue ::
  "clock \<Rightarrow> string \<Rightarrow> string \<Rightarrow> string \<Rightarrow> (ledger, ledger_error, unit) op" where
  "Requeue now tid actor reason l =
     (case SetStatus now tid StatusWorking actor (''requeue: '' @ reason) l of
        (Inl e, l') \<Rightarrow> (Inl e, l')
      | (Inr _, l') \<Rightarrow>
          SetStatus (clock_later 2 now) tid StatusSubmitted actor (''requeue: '' @ reason) l')"

section \<open>Reaping\<close>

text \<open>A \<open>NULL\<close> lease compares as unknown and is not selected.\<close>

definition lease_expired :: "instant \<Rightarrow> task \<Rightarrow> bool" where
  "lease_expired ts t \<longleftrightarrow>
     tk_status t = StatusWorking \<and> (case tk_lease t of None \<Rightarrow> False | Some x \<Rightarrow> x < ts)"

definition expired_ids :: "instant \<Rightarrow> ledger \<Rightarrow> string list" where
  "expired_ids ts l = map tk_id (filter (lease_expired ts) (l_tasks l))"

definition reap_body :: "clock \<Rightarrow> string \<Rightarrow> (ledger, ledger_error, unit) op" where
  "reap_body now tid l =
     (case appendTx (now 0) tid EventError ''system''
             (PFields [(''error'', ''lease expired, requeued'')]) l of
        (Inl e, l1) \<Rightarrow> (Inl e, l1)
      | (Inr _, l1) \<Rightarrow>
          appendTx (now 2) tid EventStatusChange ''system''
            (PStatusChange StatusWorking StatusSubmitted ''lease expired'')
            (update_rows (\<lambda>t. tk_id t = tid \<and> tk_status t = StatusWorking)
                (\<lambda>t. t\<lparr>tk_status := StatusSubmitted, tk_lease := None, tk_updated_at := now 1\<rparr>)
                l1))"

definition reap_one :: "clock \<Rightarrow> string \<Rightarrow> (ledger, ledger_error, unit) op" where
  "reap_one now tid = notify_ok tid StatusSubmitted (with_tx (reap_body now tid))"

text \<open>The loop over the selected ids: on an error the number reaped so far is lost to the error.\<close>

fun reap_loop :: "clock \<Rightarrow> nat \<Rightarrow> string list \<Rightarrow> (ledger, nat \<times> ledger_error, nat) op" where
  "reap_loop now n [] l = (Inr n, l)"
| "reap_loop now n (i # ids) l =
     (case reap_one now i l of
        (Inl e, l') \<Rightarrow> (Inl (n, e), l')
      | (Inr _, l') \<Rightarrow> reap_loop (clock_later 3 now) (Suc n) ids l')"

definition ReapExpired :: "clock \<Rightarrow> (ledger, nat \<times> ledger_error, nat) op" where
  "ReapExpired now l = reap_loop (clock_later 1 now) 0 (expired_ids (now 0) l) l"

section \<open>Routing assignments and budgets\<close>

definition assign_body ::
  "clock \<Rightarrow> string \<Rightarrow> string \<Rightarrow> int \<Rightarrow> string \<Rightarrow> payload \<Rightarrow> (ledger, ledger_error, unit) op" where
  "assign_body now tid agent vid actor decision l =
     (if find_task tid l \<noteq> None \<and> vid \<notin> set (l_versions l)
        then (Inl (ForeignKey ''tasks.agent_version_id''), l)
      else appendTx (now 1) tid EventRouted actor decision
        (update_task tid (\<lambda>t. t\<lparr>tk_agent := agent, tk_agent_version := Some vid,
                              tk_updated_at := now 0\<rparr>) l))"

definition AssignAgent ::
  "clock \<Rightarrow> string \<Rightarrow> string \<Rightarrow> int \<Rightarrow> string \<Rightarrow> payload \<Rightarrow> (ledger, ledger_error, unit) op" where
  "AssignAgent now tid agent vid actor decision =
     with_tx (assign_body now tid agent vid actor decision)"

text \<open>The switch over the budget kind: the new counter, the limit, and the column it sets.\<close>

definition spend_kind :: "string \<Rightarrow> int \<Rightarrow> task \<Rightarrow> (int \<times> int \<times> (task \<Rightarrow> task)) option" where
  "spend_kind kind amount t =
     (if kind = ''tokens'' then
        Some (tk_spent_tokens t + amount, b_tokens (tk_budget t),
              (\<lambda>u. u\<lparr>tk_spent_tokens := tk_spent_tokens t + amount\<rparr>))
      else if kind = ''tool_calls'' then
        Some (tk_spent_tool_calls t + amount, b_tool_calls (tk_budget t),
              (\<lambda>u. u\<lparr>tk_spent_tool_calls := tk_spent_tool_calls t + amount\<rparr>))
      else None)"

text \<open>The transaction of \<open>spend\<close>; its value is the captured flag \<open>exhausted\<close>.\<close>

definition park_if_working ::
  "clock \<Rightarrow> string \<Rightarrow> string \<Rightarrow> string \<Rightarrow> (ledger, ledger_error, bool) op" where
  "park_if_working now tid kind status l =
     (if status = StatusWorking then
        (case appendTx (now 3) tid EventStatusChange ''system''
                (PStatusChange StatusWorking StatusInputRequired (''budget exhausted: '' @ kind))
                (update_task tid
                  (\<lambda>u. u\<lparr>tk_status := StatusInputRequired, tk_updated_at := now 2\<rparr>) l) of
           (Inl e, l') \<Rightarrow> (Inl e, l') | (Inr _, l') \<Rightarrow> (Inr True, l'))
      else (Inr True, l))"

definition spend_body ::
  "clock \<Rightarrow> string \<Rightarrow> string \<Rightarrow> int \<Rightarrow> (ledger, ledger_error, bool) op" where
  "spend_body now tid kind amount l =
     (case find_task tid l of
        None \<Rightarrow> (Inl (TaskNotFound tid), l)
      | Some t \<Rightarrow>
          (case spend_kind kind amount t of
             None \<Rightarrow> (Inl (UnknownBudget kind), l)
           | Some (newSpent, limit, setc) \<Rightarrow>
               let l1 = update_task tid (\<lambda>u. (setc u)\<lparr>tk_updated_at := now 0\<rparr>) l in
               if limit > 0 \<and> newSpent > limit then
                 (case appendTx (now 1) tid EventBudgetExhausted ''system''
                         (PBudget kind newSpent limit) l1 of
                    (Inl e, l2) \<Rightarrow> (Inl e, l2)
                  | (Inr _, l2) \<Rightarrow> park_if_working now tid kind (tk_status t) l2)
               else (Inr False, l1)))"

definition spend :: "clock \<Rightarrow> string \<Rightarrow> string \<Rightarrow> int \<Rightarrow> (ledger, ledger_error, unit) op" where
  "spend now tid kind amount l =
     (case with_tx (spend_body now tid kind amount) l of
        (Inl e, l') \<Rightarrow> (Inl e, l')
      | (Inr exhausted, l') \<Rightarrow>
          if exhausted then (Inl (BudgetExhausted kind), notify tid StatusInputRequired l')
          else (Inr (), l'))"

definition SpendTokens :: "clock \<Rightarrow> string \<Rightarrow> int \<Rightarrow> int \<Rightarrow> (ledger, ledger_error, unit) op" where
  "SpendTokens now tid prompt completion = spend now tid ''tokens'' (prompt + completion)"

definition SpendToolCall :: "clock \<Rightarrow> string \<Rightarrow> (ledger, ledger_error, unit) op" where
  "SpendToolCall now tid = spend now tid ''tool_calls'' 1"

section \<open>Snapshots and queries\<close>

definition Snapshot ::
  "instant \<Rightarrow> string \<Rightarrow> nat \<Rightarrow> string \<Rightarrow> string \<Rightarrow> string \<Rightarrow> string
   \<Rightarrow> (ledger, ledger_error, unit) op" where
  "Snapshot ts tid seq tool args result status l =
     (if \<exists>s \<in> set (l_snapshots l). sn_task s = tid \<and> sn_seq s = seq
        then (Inl (UniqueViolation ''task_snapshots''), l)
      else if find_task tid l = None then (Inl (ForeignKey ''task_snapshots.task_id''), l)
      else (Inr (), l\<lparr>l_snapshots := l_snapshots l @
        [\<lparr>sn_task = tid, sn_seq = seq, sn_tool = tool, sn_args = args, sn_result = result,
          sn_status = status, sn_created_at = ts\<rparr>]\<rparr>))"

definition Snapshots :: "string \<Rightarrow> ledger \<Rightarrow> snapshot list" where
  "Snapshots tid l = sort_key sn_seq (filter (\<lambda>s. sn_task s = tid) (l_snapshots l))"

definition Get :: "string \<Rightarrow> ledger \<Rightarrow> ledger_error + task \<times> event list" where
  "Get tid l = (case find_task tid l of
      None \<Rightarrow> Inl TaskMissing
    | Some t \<Rightarrow> Inr (t, sort_key ev_seq (events_of tid l)))"

definition newest_first :: "task list \<Rightarrow> task list" where
  "newest_first ts = sort_key (\<lambda>t. - tk_created_at t) ts"

definition FindLatestByRef :: "string \<Rightarrow> ledger \<Rightarrow> ledger_error + task" where
  "FindLatestByRef ref l =
     (case newest_first (filter (\<lambda>t. tk_external_ref t = Some ref) (l_tasks l)) of
        [] \<Rightarrow> Inl TaskMissing | t # _ \<Rightarrow> Inr t)"

definition CountChildren :: "string \<Rightarrow> ledger \<Rightarrow> nat" where
  "CountChildren parent l = rows_affected (\<lambda>t. tk_parent t = Some parent) (l_tasks l)"

definition List_tasks :: "string \<Rightarrow> int \<Rightarrow> ledger \<Rightarrow> ledger_error + task list" where
  "List_tasks status limit l =
     (let n = nat (if limit \<le> 0 \<or> limit > 500 then 100 else limit) in
      if status = [] then Inr (take n (newest_first (l_tasks l)))
      else if map_of transitions status = None then Inl (UnknownStatus status)
      else Inr (take n (newest_first (filter (\<lambda>t. tk_status t = status) (l_tasks l)))))"

end
