(* ===== verification/Ledger_Proofs.thy ===== *)
theory Ledger_Proofs
  imports Ledger
begin

text \<open>
  Correctness of the ledger: a step relation over its operations, the well-formedness of the
  tables, the agreement of the status column with the replayed event log, and the behaviour of
  each operation.
\<close>

section \<open>Numbered logs\<close>

text \<open>
  The contract of a log that numbers its entries per key: a successful append adds one entry under
  its key, numbered one past the largest number there, and leaves every other key alone; a failed
  append leaves the state alone.
\<close>

locale numbered_log =
  fixes entries :: "'s \<Rightarrow> 'k \<Rightarrow> 'e list"
    and num :: "'e \<Rightarrow> nat"
    and append :: "'k \<Rightarrow> 'x \<Rightarrow> ('s, 'err, nat) op"
  assumes append_ok: "append k x s = (Inr n, s') \<Longrightarrow>
      (\<exists>e. entries s' k = entries s k @ [e] \<and> num e = n) \<and>
      n = foldr max (map num (entries s k)) 0 + 1 \<and> (\<forall>j. j \<noteq> k \<longrightarrow> entries s' j = entries s j)"
    and append_err: "append k x s = (Inl e, s') \<Longrightarrow> s' = s"
begin

definition numbered :: "'s \<Rightarrow> bool" where
  "numbered s \<longleftrightarrow> (\<forall>k. map num (entries s k) = [1..<Suc (length (entries s k))])"

lemma foldr_max_upt: "foldr max [1..<Suc n] 0 = n"
proof -
  have gen: "foldr max [1..<Suc m] a = max m a" for m a
    by (induction m arbitrary: a) auto
  show ?thesis unfolding gen by simp
qed

lemma next_number:
  assumes "numbered s" and "append k x s = (Inr n, s')"
  shows "n = Suc (length (entries s k))"
  using assms append_ok [of k x s n s'] unfolding numbered_def
  by (simp only: foldr_max_upt) simp

lemma append_numbered:
  assumes "numbered s" and "append k x s = (r, s')"
  shows "numbered s'"
proof (cases r)
  case (Inl e)
  then show ?thesis using assms append_err by metis
next
  case (Inr n)
  have n: "n = Suc (length (entries s k))"
    using next_number assms Inr by blast
  obtain e where e: "entries s' k = entries s k @ [e]" "num e = n"
    and other: "\<And>j. j \<noteq> k \<Longrightarrow> entries s' j = entries s j"
    using append_ok assms Inr by blast
  show ?thesis
    unfolding numbered_def
  proof
    fix j
    show "map num (entries s' j) = [1..<Suc (length (entries s' j))]"
      using assms(1) e n other [of j] by (cases "j = k") (auto simp: numbered_def)
  qed
qed

lemma numbered_sorted:
  assumes "numbered s"
  shows "sorted (map num (entries s k))"
proof -
  have "map num (entries s k) = [1..<Suc (length (entries s k))]"
    using assms unfolding numbered_def by blast
  then show ?thesis by (metis sorted_upt)
qed

lemma numbered_sort_key: "numbered s \<Longrightarrow> sort_key num (entries s k) = entries s k"
  by (rule sort_key_id_if_sorted) (rule numbered_sorted)

lemma numbered_entry:
  assumes "numbered s" and "i < length (entries s k)"
  shows "num (entries s k ! i) = Suc i"
proof -
  have "map num (entries s k) ! i = [1..<Suc (length (entries s k))] ! i"
    using assms(1) unfolding numbered_def by metis
  also have "\<dots> = 1 + i"
    using assms(2) by (intro nth_upt) simp
  finally show ?thesis using assms(2) by simp
qed

end

section \<open>The tables under the primitive changes\<close>

lemma find_task_update [table_simps]:
  assumes "\<And>t. tk_id (f t) = tk_id t"
  shows "find_task i (update_task tid f l) =
    map_option (\<lambda>t. if tk_id t = tid then f t else t) (find_task i l)"
  unfolding find_task_def update_task_def update_rows_def using assms by (simp add: find_update_where)

lemma find_task_id: "find_task i l = Some t \<Longrightarrow> tk_id t = i \<and> t \<in> set (l_tasks l)"
  unfolding find_task_def by (auto dest: find_SomeD)

lemma update_rows_frame [frame_simps]:
  "l_events (update_rows P f l) = l_events l" "events_of i (update_rows P f l) = events_of i l"
  "l_tasks (update_rows P f l) = update_where P f (l_tasks l)"
  by (simp_all add: update_rows_def events_of_def)

lemma find_task_rows:
  assumes "\<And>t. tk_id (f t) = tk_id t"
  shows "find_task i (update_rows P f l) = map_option (\<lambda>t. if P t then f t else t) (find_task i l)"
  using assms by (simp add: find_task_def update_rows_def find_update_where)

lemma events_of_update [frame_simps]: "events_of i (update_task tid f l) = events_of i l"
  by (simp add: events_of_def update_task_def update_rows_def)

lemma l_events_update [frame_simps]: "l_events (update_task tid f l) = l_events l"
  by (simp add: update_task_def update_rows_def)

lemma update_task_frame [frame_simps]:
  "l_driver (update_task tid f l) = l_driver l"
  "l_versions (update_task tid f l) = l_versions l"
  "l_snapshots (update_task tid f l) = l_snapshots l"
  "l_notified (update_task tid f l) = l_notified l"
  by (simp_all add: update_task_def update_rows_def)

lemma notify_frame [frame_simps]:
  "l_tasks (notify i st l) = l_tasks l" "l_events (notify i st l) = l_events l"
  "find_task j (notify i st l) = find_task j l" "events_of j (notify i st l) = events_of j l"
  "l_versions (notify i st l) = l_versions l" "l_driver (notify i st l) = l_driver l"
  by (simp_all add: notify_def find_task_def events_of_def)

text \<open>The one successful outcome of an append.\<close>

definition new_event :: "instant \<Rightarrow> string \<Rightarrow> string \<Rightarrow> string \<Rightarrow> payload \<Rightarrow> ledger \<Rightarrow> event" where
  "new_event ts tid ty actor pl l =
     \<lparr>ev_task = tid, ev_seq = foldr max (map ev_seq (events_of tid l)) 0 + 1, ev_type = ty,
      ev_actor = actor, ev_payload = pl, ev_created_at = ts\<rparr>"

definition push :: "instant \<Rightarrow> string \<Rightarrow> string \<Rightarrow> string \<Rightarrow> payload \<Rightarrow> ledger \<Rightarrow> ledger" where
  "push ts tid ty actor pl l =
     l\<lparr>l_events := l_events l @ [new_event ts tid ty actor pl l]\<rparr>"

lemma push_frame [frame_simps]:
  "l_tasks (push ts tid ty actor pl l) = l_tasks l"
  "l_driver (push ts tid ty actor pl l) = l_driver l"
  "l_versions (push ts tid ty actor pl l) = l_versions l"
  "find_task i (push ts tid ty actor pl l) = find_task i l"
  by (simp_all add: push_def find_task_def)

lemma l_events_push: "l_events (push ts tid ty actor pl l) = l_events l @ [new_event ts tid ty actor pl l]"
  by (simp add: push_def)

lemma appendTxSeq_known:
  assumes "find_task tid l = Some t"
  shows "appendTxSeq ts tid ty actor pl l =
    (Inr (ev_seq (new_event ts tid ty actor pl l)),
     push ts tid ty actor pl l)"
  using assms by (simp add: appendTxSeq_def nextSeq_def new_event_def push_def)

lemma appendTxSeq_unknown:
  assumes "find_task tid l = None"
  shows "\<exists>e. appendTxSeq ts tid ty actor pl l = (Inl e, l)"
  using assms by (simp add: appendTxSeq_def nextSeq_def)

lemma appendTxSeq_Inl: "appendTxSeq ts tid ty actor pl l = (Inl e, l') \<Longrightarrow> l' = l"
  by (auto simp: appendTxSeq_def split: sum.splits if_splits)

lemma appendTx_known:
  assumes "find_task tid l = Some t"
  shows "appendTx ts tid ty actor pl l =
    (Inr (), push ts tid ty actor pl l)"
  using assms by (simp add: appendTx_def appendTxSeq_known)

lemma appendTx_unknown:
  assumes "find_task tid l = None"
  shows "\<exists>e. appendTx ts tid ty actor pl l = (Inl e, l)"
  using assms appendTxSeq_unknown [OF assms, of ts ty actor pl] by (auto simp: appendTx_def)

lemma new_event_simps [simp]:
  "ev_task (new_event ts tid ty actor pl l) = tid"
  "ev_type (new_event ts tid ty actor pl l) = ty"
  "ev_actor (new_event ts tid ty actor pl l) = actor"
  "ev_payload (new_event ts tid ty actor pl l) = pl"
  by (simp_all add: new_event_def)

lemma events_of_push [table_simps]:
  "events_of i (push ts tid ty actor pl l) =
   events_of i l @ (if tid = i then [new_event ts tid ty actor pl l] else [])"
  by (simp add: events_of_def l_events_push)

interpretation task_log: numbered_log "\<lambda>l tid. events_of tid l" ev_seq
  "\<lambda>tid (ts, ty, actor, pl). appendTxSeq ts tid ty actor pl"
proof unfold_locales
  fix k s s' n and x :: "instant \<times> string \<times> string \<times> payload"
  assume a: "(case x of (ts, ty, actor, pl) \<Rightarrow> appendTxSeq ts k ty actor pl) s = (Inr n, s')"
  obtain ts ty actor pl where x: "x = (ts, ty, actor, pl)" by (cases x)
  show "(\<exists>e. events_of k s' = events_of k s @ [e] \<and> ev_seq e = n) \<and>
      n = foldr max (map ev_seq (events_of k s)) 0 + 1 \<and>
      (\<forall>j. j \<noteq> k \<longrightarrow> events_of j s' = events_of j s)"
  proof (cases "find_task k s")
    case None
    then show ?thesis using a x appendTxSeq_unknown [OF None, of ts ty actor pl] by auto
  next
    case (Some t)
    then show ?thesis using a x
      by (auto simp: appendTxSeq_known [OF Some] table_simps new_event_def)
  qed
next
  fix k s s' e and x :: "instant \<times> string \<times> string \<times> payload"
  assume a: "(case x of (ts, ty, actor, pl) \<Rightarrow> appendTxSeq ts k ty actor pl) s = (Inl e, s')"
  then show "s' = s"
    by (cases x) (auto dest: appendTxSeq_Inl)
qed

lemma numbered_events:
  "l_events l' = l_events l \<Longrightarrow> task_log.numbered l' = task_log.numbered l"
  unfolding task_log.numbered_def by (simp add: events_of_def)

lemma numbered_empty: "l_events l = [] \<Longrightarrow> task_log.numbered l"
  unfolding task_log.numbered_def by (simp add: events_of_def)

section \<open>The state machine and the replayed log\<close>

text \<open>The statuses and event types are different texts; with these facts they need not be
  unfolded.\<close>

lemma status_distinct [simp]:
  "StatusSubmitted \<noteq> StatusWorking" "StatusSubmitted \<noteq> StatusInputRequired" "StatusSubmitted \<noteq> StatusCompleted" "StatusSubmitted \<noteq> StatusFailed" "StatusSubmitted \<noteq> StatusCanceled"
  "StatusWorking \<noteq> StatusSubmitted" "StatusWorking \<noteq> StatusInputRequired" "StatusWorking \<noteq> StatusCompleted" "StatusWorking \<noteq> StatusFailed" "StatusWorking \<noteq> StatusCanceled"
  "StatusInputRequired \<noteq> StatusSubmitted" "StatusInputRequired \<noteq> StatusWorking" "StatusInputRequired \<noteq> StatusCompleted" "StatusInputRequired \<noteq> StatusFailed" "StatusInputRequired \<noteq> StatusCanceled"
  "StatusCompleted \<noteq> StatusSubmitted" "StatusCompleted \<noteq> StatusWorking" "StatusCompleted \<noteq> StatusInputRequired" "StatusCompleted \<noteq> StatusFailed" "StatusCompleted \<noteq> StatusCanceled"
  "StatusFailed \<noteq> StatusSubmitted" "StatusFailed \<noteq> StatusWorking" "StatusFailed \<noteq> StatusInputRequired" "StatusFailed \<noteq> StatusCompleted" "StatusFailed \<noteq> StatusCanceled"
  "StatusCanceled \<noteq> StatusSubmitted" "StatusCanceled \<noteq> StatusWorking" "StatusCanceled \<noteq> StatusInputRequired" "StatusCanceled \<noteq> StatusCompleted" "StatusCanceled \<noteq> StatusFailed"
  by (simp_all add: status_defs)

lemma event_types_distinct [simp]:
  "EventError \<noteq> EventStatusChange" "EventSubmitted \<noteq> EventStatusChange"
  "EventBudgetExhausted \<noteq> EventStatusChange" "EventRouted \<noteq> EventStatusChange"
  "EventSkillRun \<noteq> EventStatusChange"
  by (simp_all add: event_defs)

lemma map_of_transitions:
  "map_of transitions s = Some xs \<longleftrightarrow> (s, xs) \<in> set transitions"
  by (rule map_of_eq_Some_iff) (simp add: transitions_def)

lemma CheckTransition_ok:
  "CheckTransition a b = Inr () \<longleftrightarrow>
   (\<exists>xs. map_of transitions a = Some xs \<and> b \<in> set xs \<and> map_of transitions b \<noteq> None)"
  by (auto simp: CheckTransition_def split: option.splits)

lemma CheckTransition_legal:
  "CheckTransition a b = Inr () \<longleftrightarrow>
   (a, b) \<in> {(StatusSubmitted, StatusWorking), (StatusSubmitted, StatusCanceled),
             (StatusWorking, StatusCompleted), (StatusWorking, StatusFailed),
             (StatusWorking, StatusInputRequired), (StatusWorking, StatusCanceled),
             (StatusWorking, StatusSubmitted),
             (StatusInputRequired, StatusWorking), (StatusInputRequired, StatusCanceled)}"
proof -
  have known: "map_of transitions b \<noteq> None"
    if "(a, xs) \<in> set transitions" "b \<in> set xs" for xs
    using that by (auto simp: transitions_def)
  have "CheckTransition a b = Inr () \<longleftrightarrow> (\<exists>xs. (a, xs) \<in> set transitions \<and> b \<in> set xs)"
    unfolding CheckTransition_ok map_of_transitions using known by blast
  then show ?thesis
    by (simp add: transitions_def ex_disj_distrib conj_disj_distribR disj_assoc) blast
qed

lemma CheckTransition_open: "CheckTransition a b = Inr () \<Longrightarrow> open_status a"
  by (auto simp: CheckTransition_legal open_status_def)

definition known_status :: "string \<Rightarrow> bool" where
  "known_status s \<longleftrightarrow> map_of transitions s \<noteq> None"

definition terminal :: "string \<Rightarrow> bool" where
  "terminal s \<longleftrightarrow> s \<in> {StatusCompleted, StatusFailed, StatusCanceled}"

lemma CheckTransition_known: "CheckTransition a b = Inr () \<Longrightarrow> known_status b"
  by (auto simp: CheckTransition_ok known_status_def)

lemma terminal_stuck: "terminal a \<Longrightarrow> CheckTransition a b \<noteq> Inr ()"
  by (auto simp: CheckTransition_legal terminal_def)

text \<open>Reading a log: the status it leads to, or \<open>None\<close> as soon as a status change is not a legal
  move from the status reached so far.\<close>

fun replay :: "string \<Rightarrow> event list \<Rightarrow> string option" where
  "replay s [] = Some s"
| "replay s (e # es) =
     (if ev_type e \<noteq> EventStatusChange then replay s es
      else case ev_payload e of
        PStatusChange a b r \<Rightarrow> if a = s \<and> CheckTransition a b = Inr () then replay b es else None
      | _ \<Rightarrow> None)"

lemma replay_append:
  "replay s (xs @ ys) = (case replay s xs of None \<Rightarrow> None | Some s' \<Rightarrow> replay s' ys)"
  by (induction xs arbitrary: s) (auto split: payload.splits)

definition logged :: "string \<Rightarrow> ledger \<Rightarrow> string option" where
  "logged tid l = replay StatusSubmitted (events_of tid l)"

definition agrees :: "string \<Rightarrow> ledger \<Rightarrow> bool" where
  "agrees tid l \<longleftrightarrow> (\<forall>t. find_task tid l = Some t \<longrightarrow> logged tid l = Some (tk_status t))"

definition open_count :: "string \<Rightarrow> ledger \<Rightarrow> nat" where
  "open_count ref l = rows_affected (open_ref ref) (l_tasks l)"

text \<open>The well-formed tables: primary keys, foreign keys, contiguous sequence numbers, known
  statuses, and one open task per external reference.\<close>

definition tables_wf :: "ledger \<Rightarrow> bool" where
  "tables_wf l \<longleftrightarrow>
     distinct (map tk_id (l_tasks l))
     \<and> (\<forall>e \<in> set (l_events l). find_task (ev_task e) l \<noteq> None)
     \<and> task_log.numbered l
     \<and> (\<forall>t \<in> set (l_tasks l). known_status (tk_status t))
     \<and> (\<forall>ref. open_count ref l \<le> 1)"

definition ledger_wf :: "ledger \<Rightarrow> bool" where
  "ledger_wf l \<longleftrightarrow> tables_wf l \<and> (\<forall>tid. agrees tid l)"

lemma tables_wfD:
  assumes "tables_wf l"
  shows "distinct (map tk_id (l_tasks l))" "task_log.numbered l"
    "e \<in> set (l_events l) \<Longrightarrow> find_task (ev_task e) l \<noteq> None"
    "t \<in> set (l_tasks l) \<Longrightarrow> known_status (tk_status t)" "open_count ref l \<le> 1"
  using assms by (auto simp: tables_wf_def)

lemma tables_wf_notify [frame_simps]: "tables_wf (notify i st l) = tables_wf l"
  by (simp add: tables_wf_def frame_simps open_count_def task_log.numbered_def)

lemma logged_frame [frame_simps]:
  "logged i (notify j st l) = logged i l" "logged i (update_task j f l) = logged i l"
  by (simp_all add: logged_def frame_simps)

lemma agrees_notify [frame_simps]: "agrees i (notify j st l) = agrees i l"
  by (simp add: agrees_def frame_simps)

lemma ledger_wf_notify [frame_simps]: "ledger_wf (notify i st l) = ledger_wf l"
  by (simp add: ledger_wf_def frame_simps)

subsection \<open>Appending\<close>

lemma appendTxSeq_ok:
  assumes "appendTxSeq ts tid ty actor pl l = (Inr n, l')"
  obtains t where "find_task tid l = Some t" "n = ev_seq (new_event ts tid ty actor pl l)"
    "l' = push ts tid ty actor pl l"
  using assms appendTxSeq_unknown [of tid l ts ty actor pl]
  by (cases "find_task tid l") (auto simp: appendTxSeq_known)

lemma appendTx_ok:
  assumes "appendTx ts tid ty actor pl l = (Inr u, l')"
  obtains t where "find_task tid l = Some t"
    "l' = push ts tid ty actor pl l"
  using assms appendTx_unknown [of tid l ts ty actor pl]
  by (cases "find_task tid l") (auto simp: appendTx_known)

lemma tables_wf_append [wf_intros]:
  assumes "tables_wf l" and "find_task tid l = Some t"
  shows "tables_wf (push ts tid ty actor pl l)"
proof -
  have "task_log.numbered (push ts tid ty actor pl l)"
    using task_log.append_numbered [of l tid "(ts, ty, actor, pl)"] tables_wfD(2) [OF assms(1)]
    by (simp add: appendTxSeq_known [OF assms(2)])
  then show ?thesis
    using assms by (auto simp: tables_wf_def frame_simps open_count_def l_events_push)
qed

lemma logged_push [table_simps]:
  "logged i (push ts tid ty actor pl l) =
   (if tid \<noteq> i then logged i l
    else case logged i l of None \<Rightarrow> None
      | Some s \<Rightarrow> replay s [new_event ts tid ty actor pl l])"
  by (cases "replay StatusSubmitted (events_of i l)")
    (simp_all add: logged_def events_of_push replay_append)

text \<open>An event that is no status change leaves the agreement as it was; a status change moves it.\<close>

lemma agrees_append_other [table_simps]:
  "ty \<noteq> EventStatusChange \<Longrightarrow>
   agrees i (push ts tid ty actor pl l) = agrees i l"
  by (auto simp: agrees_def table_simps frame_simps split: option.splits)

lemma agrees_move:
  assumes "agrees tid l" and "find_task tid l = Some t" and "CheckTransition (tk_status t) s = Inr ()"
    and "\<And>u. tk_id (f u) = tk_id u" and "\<And>u. tk_status (f u) = s"
  shows "agrees tid (push ts tid EventStatusChange actor (PStatusChange (tk_status t) s reason) (update_task tid f l))"
proof -
  have "logged tid (update_task tid f l) = Some (tk_status t)"
    using assms(1,2) by (simp add: agrees_def logged_frame)
  then have "logged tid (push ts tid EventStatusChange actor (PStatusChange (tk_status t) s reason)
      (update_task tid f l)) = Some s"
    using assms(3) by (simp add: logged_push)
  moreover have "tk_id t = tid" using assms(2) by (simp add: find_task_id)
  ultimately show ?thesis
    using assms(2,4,5) by (simp add: agrees_def find_task_update frame_simps)
qed

lemma agrees_elsewhere:
  assumes "agrees i l" and "i \<noteq> tid" and "\<And>u. tk_id (f u) = tk_id u"
  shows "agrees i (push ts tid ty actor pl (update_task tid f l))"
  using assms find_task_id [of i l]
  by (auto simp: agrees_def logged_push logged_frame find_task_update frame_simps)

subsection \<open>Updating a row\<close>

lemma update_task_where:
  assumes "\<And>t. tk_id (f t) = tk_id t"
  shows "map tk_id (l_tasks (update_task tid f l)) = map tk_id (l_tasks l)"
  using assms by (auto simp: update_task_def update_rows_def update_where_def)

lemma tables_wf_update:
  assumes wf: "tables_wf l"
    and id: "\<And>t. tk_id (f t) = tk_id t" and ref: "\<And>t. tk_external_ref (f t) = tk_external_ref t"
    and st: "\<And>t. find_task tid l = Some t \<Longrightarrow> known_status (tk_status (f t))
               \<and> (open_status (tk_status (f t)) \<longrightarrow> open_status (tk_status t))"
  shows "tables_wf (update_task tid f l)"
proof -
  have d: "distinct (map tk_id (l_tasks l))" by (rule tables_wfD(1) [OF wf])
  have row: "known_status (tk_status (f t))
      \<and> (open_status (tk_status (f t)) \<longrightarrow> open_status (tk_status t))"
    if "t \<in> set (l_tasks l)" "tk_id t = tid" for t
    using that st find_distinct_key [OF d] by (simp add: find_task_def)
  have count: "rows_affected (open_ref r) (update_where (\<lambda>t. tk_id t = tid) f ts)
      \<le> rows_affected (open_ref r) ts"
    if "set ts \<subseteq> set (l_tasks l)" for r ts
    using that
    by (induction ts) (auto simp: rows_affected_def update_where_def open_ref_def ref dest: row)
  have "open_count r (update_task tid f l) \<le> 1" for r
    using count [of "l_tasks l" r] tables_wfD(5) [OF wf, of r]
    by (simp add: open_count_def update_task_def update_rows_def)
  moreover have "\<forall>t \<in> set (l_tasks (update_task tid f l)). known_status (tk_status t)"
    using tables_wfD(4) [OF wf] row by (auto simp: update_task_def update_rows_def update_where_def)
  moreover have "\<forall>e \<in> set (l_events l). find_task (ev_task e) (update_task tid f l) \<noteq> None"
    using tables_wfD(3) [OF wf] id by (auto simp: find_task_update)
  moreover have "task_log.numbered (update_task tid f l)"
    using tables_wfD(2) [OF wf] by (simp add: task_log.numbered_def frame_simps)
  ultimately show ?thesis
    using d by (simp add: tables_wf_def frame_simps update_task_where id)
qed

lemma find_task_updated:
  assumes "find_task tid l = Some t" and "\<And>u. tk_id (f u) = tk_id u"
  shows "find_task tid (update_task tid f l) = Some (f t)"
  using assms find_task_id [OF assms(1)] by (simp add: find_task_update)

text \<open>The two shapes of change the operations are made of: a legal move with its event, and a change
  of other columns with an event that is no status change (or none).\<close>

lemma ledger_wf_move [wf_intros]:
  assumes "ledger_wf l" and "find_task tid l = Some t" and "CheckTransition (tk_status t) s = Inr ()"
    and "\<And>u. tk_id (f u) = tk_id u" and "\<And>u. tk_external_ref (f u) = tk_external_ref u"
    and "\<And>u. tk_status (f u) = s"
  shows "ledger_wf (push ts tid EventStatusChange actor (PStatusChange (tk_status t) s reason) (update_task tid f l))"
proof -
  have "tables_wf (update_task tid f l)"
    using assms CheckTransition_open CheckTransition_known
    by (intro tables_wf_update) (auto simp: ledger_wf_def)
  then have "tables_wf (push ts tid EventStatusChange actor (PStatusChange (tk_status t) s reason) (update_task tid f l))"
    using tables_wf_append find_task_updated [OF assms(2,4)] by blast
  moreover have "agrees i (push ts tid EventStatusChange actor (PStatusChange (tk_status t) s reason) (update_task tid f l))" for i
    using assms agrees_move [of tid l t s f] agrees_elsewhere [of i l tid f]
    by (cases "i = tid") (auto simp: ledger_wf_def frame_simps)
  ultimately show ?thesis by (simp add: ledger_wf_def)
qed

lemma ledger_wf_columns:
  assumes "ledger_wf l" and "\<And>u. tk_id (f u) = tk_id u"
    and "\<And>u. tk_external_ref (f u) = tk_external_ref u" and "\<And>u. tk_status (f u) = tk_status u"
  shows "ledger_wf (update_task tid f l)"
proof -
  have "tables_wf (update_task tid f l)"
    using assms by (intro tables_wf_update)
      (auto simp: ledger_wf_def dest: find_task_id tables_wfD(4))
  moreover have "agrees i (update_task tid f l)" for i
    using assms by (auto simp: ledger_wf_def agrees_def frame_simps find_task_update)
  ultimately show ?thesis by (simp add: ledger_wf_def)
qed

lemma ledger_wf_append:
  assumes "ledger_wf l" and "find_task tid l = Some t" and "ty \<noteq> EventStatusChange"
  shows "ledger_wf (push ts tid ty actor pl l)"
  using assms tables_wf_append by (simp add: ledger_wf_def agrees_append_other)

lemma appendTx_wf:
  "ledger_wf l \<Longrightarrow> ty \<noteq> EventStatusChange \<Longrightarrow> appendTx ts tid ty actor pl l = (Inr u, l') \<Longrightarrow>
   ledger_wf l'"
  by (auto elim!: appendTx_ok intro: ledger_wf_append)

lemma appendTxSeq_wf:
  "ledger_wf l \<Longrightarrow> ty \<noteq> EventStatusChange \<Longrightarrow> appendTxSeq ts tid ty actor pl l = (Inr n, l') \<Longrightarrow>
   ledger_wf l'"
  by (auto elim!: appendTxSeq_ok intro: ledger_wf_append)

lemma notify_ok_inv:
  assumes "\<And>l'. P (notify tid to l') = P l'" and "P (snd (run l))"
  shows "P (snd (notify_ok tid to run l))"
proof (cases "run l")
  case (Pair v l')
  then show ?thesis
    using assms(1) [of l'] assms(2) by (cases v) (simp_all add: notify_ok_def)
qed

section \<open>Every operation keeps the ledger well-formed\<close>

subsection \<open>Submitting\<close>

lemma insert_task_ok:
  assumes "insert_task t l = (Inr u, l')"
  shows "l' = l\<lparr>l_tasks := l_tasks l @ [t]\<rparr>" "find_task (tk_id t) l = None"
    "tk_external_ref t = Some ref \<Longrightarrow> \<forall>v \<in> set (l_tasks l). \<not> open_ref ref v"
  using assms by (auto simp: insert_task_def split: if_splits)

lemma insert_task_tables:
  assumes wf: "tables_wf l" and ins: "insert_task t l = (Inr u, l')"
    and st: "known_status (tk_status t)"
  shows "tables_wf l'"
proof -
  have l': "l' = l\<lparr>l_tasks := l_tasks l @ [t]\<rparr>" and fresh: "tk_id t \<notin> tk_id ` set (l_tasks l)"
    using insert_task_ok(1,2) [OF ins] by (simp_all add: find_task_def find_None_key)
  have find: "find_task i l' = (case find_task i l of None \<Rightarrow> if tk_id t = i then Some t else None
      | Some v \<Rightarrow> Some v)" for i
    by (cases "find_task i l") (simp_all add: l' find_task_def find_append)
  have "open_count r l' \<le> 1" for r
  proof (cases "open_ref r t")
    case True
    then have "open_count r l = 0"
      using insert_task_ok(3) [OF ins, of r]
      by (simp add: open_ref_def [of r t] open_count_def rows_affected_0)
    then show ?thesis by (simp add: l' open_count_def rows_affected_def)
  next
    case False
    then show ?thesis
      using tables_wfD(5) [OF wf, of r] by (simp add: l' open_count_def rows_affected_def)
  qed
  moreover have "\<forall>e \<in> set (l_events l'). find_task (ev_task e) l' \<noteq> None"
    using tables_wfD(3) [OF wf] unfolding find by (fastforce simp: l' split: option.splits)
  ultimately show ?thesis
    using wf fresh st numbered_events [of l' l]
    by (auto simp: tables_wf_def l')
qed

lemma no_events_of_unknown:
  assumes "tables_wf l" and "find_task tid l = None"
  shows "events_of tid l = []"
  using assms by (auto simp: tables_wf_def events_of_def filter_empty_conv)

lemma submit_body_wf:
  assumes wf: "ledger_wf l" and run: "submit_body now tid inp l = (Inr u, l')"
  shows "ledger_wf l'"
proof -
  let ?t = "new_task now tid inp"
  obtain l1 where ins: "insert_task ?t l = (Inr (), l1)"
    using run by (auto simp: submit_body_def split: prod.splits sum.splits)
  have l1: "l1 = l\<lparr>l_tasks := l_tasks l @ [?t]\<rparr>" and fresh: "find_task tid l = None"
    using insert_task_ok [OF ins] by (simp_all add: new_task_def)
  have tw: "tables_wf l" using wf by (simp add: ledger_wf_def)
  have "tables_wf l1"
    by (rule insert_task_tables [OF tw ins])
      (simp add: new_task_def known_status_def transitions_def)
  moreover have "agrees i l1" for i
    using wf no_events_of_unknown [OF tw fresh]
    by (auto simp: ledger_wf_def agrees_def logged_def l1 events_of_def find_task_def find_append
        new_task_def split: option.splits)
  ultimately have "ledger_wf l1" by (simp add: ledger_wf_def)
  then show ?thesis
    using run ins appendTx_wf [OF _ event_types_distinct(2)]
    by (simp add: submit_body_def)
qed

lemma Submit_wf: "ledger_wf l \<Longrightarrow> ledger_wf (snd (Submit now tid inp l))"
  using tx.keeps_inv [of ledger_wf l "submit_body now tid inp"] submit_body_wf
  by (fastforce simp: Submit_def split: prod.splits sum.splits option.splits)

subsection \<open>Moves\<close>

lemma set_status_body_wf:
  "ledger_wf l \<Longrightarrow> set_status_body now tid s actor reason l = (Inr u, l') \<Longrightarrow> ledger_wf l'"
  by (auto simp: set_status_body_def split: option.splits sum.splits elim!: appendTx_ok
      intro!: ledger_wf_move)

lemma SetStatus_wf: "ledger_wf l \<Longrightarrow> ledger_wf (snd (SetStatus now tid s actor reason l))"
  unfolding SetStatus_def
  by (rule notify_ok_inv, simp add: frame_simps, rule tx.keeps_inv)
    (auto intro: set_status_body_wf)

lemma claim_body_wf:
  "ledger_wf l \<Longrightarrow> claim_body now tid agent vid lease l = (Inr u, l') \<Longrightarrow> ledger_wf l'"
  by (auto simp: claim_body_def split: option.splits sum.splits if_splits elim!: appendTx_ok
      intro!: ledger_wf_move)

lemma Claim_wf: "ledger_wf l \<Longrightarrow> ledger_wf (snd (Claim now tid agent vid lease l))"
  unfolding Claim_def
  by (rule notify_ok_inv, simp add: frame_simps, rule tx.keeps_inv)
    (auto intro: claim_body_wf)

lemma Requeue_wf: "ledger_wf l \<Longrightarrow> ledger_wf (snd (Requeue now tid actor reason l))"
  by (auto simp: Requeue_def split: prod.splits sum.splits) (metis SetStatus_wf snd_conv)+

lemma update_working_as_task:
  assumes "distinct (map tk_id (l_tasks l))"
    and "find_task tid l = Some t" and "tk_status t = StatusWorking"
  shows "update_rows (\<lambda>t. tk_id t = tid \<and> tk_status t = StatusWorking) f l
    = update_task tid f l"
proof -
  have "r = t" if "r \<in> set (l_tasks l)" "tk_id r = tid" for r
    using that find_task_id [OF assms(2)] distinct_key_eq [OF assms(1), of r t] by simp
  then show ?thesis
    using assms(3) by (auto simp: update_task_def update_rows_def update_where_def intro!: ledger.fold_congs map_cong)
qed

lemma reap_body_wf:
  assumes wf: "ledger_wf l" and run: "reap_body now tid l = (Inr u, l')"
    and work: "find_task tid l = Some t" "tk_status t = StatusWorking"
  shows "ledger_wf l'"
proof -
  let ?l1 = "push (now 0) tid EventError ''system''
      (PFields [(''error'', ''lease expired, requeued'')]) l"
  have wf1: "ledger_wf ?l1"
    using wf work by (intro ledger_wf_append) simp_all
  have "find_task tid ?l1 = Some t" and "distinct (map tk_id (l_tasks ?l1))"
    using work wf1 by (auto simp: frame_simps ledger_wf_def tables_wf_def)
  note upd = update_working_as_task [OF this(2,1) work(2)]
  show ?thesis
    using run \<open>find_task tid ?l1 = Some t\<close> wf1 work upd
      ledger_wf_move [OF wf1 \<open>find_task tid ?l1 = Some t\<close>, of StatusSubmitted]
    by (auto simp: reap_body_def appendTx_known [OF work(1)] CheckTransition_legal elim!: appendTx_ok)
qed

lemma reap_one_wf:
  assumes "ledger_wf l" and "find_task tid l = Some t" "tk_status t = StatusWorking"
  shows "ledger_wf (snd (reap_one now tid l))"
  unfolding reap_one_def
  by (rule notify_ok_inv, simp add: frame_simps, rule tx.keeps_inv)
    (use assms in \<open>auto intro: reap_body_wf\<close>)

lemma find_task_where:
  assumes "\<And>t. tk_id (f t) = tk_id t" and "i \<noteq> tid"
  shows "find_task i (update_rows (\<lambda>t. tk_id t = tid \<and> Q t) f l) = find_task i l"
  using assms find_task_id [of i l] by (cases "find_task i l") (auto simp: find_task_rows)

lemma reap_body_elsewhere:
  "reap_body now tid l = (Inr u, l') \<Longrightarrow> i \<noteq> tid \<Longrightarrow> find_task i l' = find_task i l"
  by (auto simp: reap_body_def find_task_where frame_simps
      split: prod.splits sum.splits elim!: appendTx_ok)

lemma reap_one_elsewhere:
  assumes "i \<noteq> tid"
  shows "find_task i (snd (reap_one now tid l)) = find_task i l"
  unfolding reap_one_def
  by (rule notify_ok_inv, simp add: frame_simps, rule tx.keeps_inv)
    (use assms in \<open>auto dest: reap_body_elsewhere\<close>)

lemma reap_loop_wf:
  "ledger_wf l \<Longrightarrow> distinct ids \<Longrightarrow>
   (\<forall>i \<in> set ids. \<exists>t. find_task i l = Some t \<and> tk_status t = StatusWorking) \<Longrightarrow>
   ledger_wf (snd (reap_loop now n ids l))"
proof (induction ids arbitrary: l now n)
  case Nil
  then show ?case by simp
next
  case (Cons i ids)
  obtain t where "find_task i l = Some t" "tk_status t = StatusWorking"
    using Cons.prems(3) by auto
  then have wf': "ledger_wf (snd (reap_one now i l))"
    using Cons.prems(1) reap_one_wf by blast
  have "\<forall>j \<in> set ids. \<exists>t. find_task j (snd (reap_one now i l)) = Some t
      \<and> tk_status t = StatusWorking"
  proof
    fix j
    assume "j \<in> set ids"
    then have "j \<noteq> i" and "\<exists>t. find_task j l = Some t \<and> tk_status t = StatusWorking"
      using Cons.prems(2,3) by auto
    then show "\<exists>t. find_task j (snd (reap_one now i l)) = Some t \<and> tk_status t = StatusWorking"
      using reap_one_elsewhere by metis
  qed
  then show ?case
    using Cons.IH [OF wf'] Cons.prems(2) wf'
    by (auto split: prod.splits sum.splits)
qed

lemma ReapExpired_wf:
  assumes "ledger_wf l"
  shows "ledger_wf (snd (ReapExpired now l))"
proof -
  have d: "distinct (map tk_id (l_tasks l))"
    using assms by (simp add: ledger_wf_def tables_wf_def)
  have "distinct (expired_ids (now 0) l)"
    using d by (simp add: expired_ids_def distinct_map inj_on_def)
  moreover have "\<exists>t. find_task i l = Some t \<and> tk_status t = StatusWorking"
    if "i \<in> set (expired_ids (now 0) l)" for i
    using that find_distinct_key [OF d] by (fastforce simp: expired_ids_def lease_expired_def find_task_def)
  ultimately show ?thesis
    using reap_loop_wf [OF assms] by (simp add: ReapExpired_def)
qed

subsection \<open>Other columns\<close>

lemma Append_wf:
  assumes "ledger_wf l" and "ty \<noteq> EventStatusChange"
  shows "ledger_wf (snd (Append ts tid ty actor pl l))"
  unfolding Append_def by (rule tx.keeps_inv) (use assms in \<open>auto intro: appendTxSeq_wf\<close>)

lemma skill_once_body_wf:
  "ledger_wf l \<Longrightarrow> skill_once_body ts tid actor p l = (Inr v, l') \<Longrightarrow> ledger_wf l'"
  by (auto simp: skill_once_body_def split: if_splits sum.splits option.splits prod.splits
      intro: appendTxSeq_wf [OF _ event_types_distinct(5)])

lemma AppendSkillRunOnce_wf:
  "ledger_wf l \<Longrightarrow> ledger_wf (snd (AppendSkillRunOnce ts tid actor p l))"
  using tx.keeps_inv [of ledger_wf l "skill_once_body ts tid actor p"] skill_once_body_wf
  by (auto simp: AppendSkillRunOnce_def)

lemma ExtendLease_wf:
  assumes "ledger_wf l"
  shows "ledger_wf (snd (ExtendLease now tid lease l))"
proof -
  let ?f = "\<lambda>t. t\<lparr>tk_lease := Some (now 0 + lease), tk_updated_at := now 1\<rparr>"
  let ?P = "\<lambda>t. tk_id t = tid \<and> tk_status t = StatusWorking"
  let ?l = "update_rows ?P ?f l"
  have "?l = update_task tid (\<lambda>t. if tk_status t = StatusWorking then ?f t else t) l"
    by (auto simp: update_task_def update_rows_def update_where_def)
  moreover have "ledger_wf (update_task tid (\<lambda>t. if tk_status t = StatusWorking then ?f t else t) l)"
    by (rule ledger_wf_columns [OF assms]) auto
  ultimately show ?thesis
    by (simp add: ExtendLease_def Let_def)
qed

lemma AssignAgent_wf:
  "ledger_wf l \<Longrightarrow> ledger_wf (snd (AssignAgent now tid agent vid actor decision l))"
proof -
  assume wf: "ledger_wf l"
  have "ledger_wf (update_task tid (\<lambda>t. t\<lparr>tk_agent := agent, tk_agent_version := Some vid,
      tk_updated_at := now 0\<rparr>) l)"
    by (rule ledger_wf_columns [OF wf]) simp_all
  then show ?thesis
    unfolding AssignAgent_def
  proof (intro tx.keeps_inv [where Inv = ledger_wf, OF wf])
    fix a l'
    assume "assign_body now tid agent vid actor decision l = (Inr a, l')"
    then have "appendTx (now 1) tid EventRouted actor decision (update_task tid
        (\<lambda>t. t\<lparr>tk_agent := agent, tk_agent_version := Some vid, tk_updated_at := now 0\<rparr>) l) = (Inr a, l')"
      unfolding assign_body_def by (simp split: if_splits)
    then show "ledger_wf l'"
      by (rule appendTx_wf [OF \<open>ledger_wf (update_task tid _ l)\<close> event_types_distinct(4)])
  qed
qed

lemma spend_kind_cases:
  assumes "spend_kind kind amount t = Some (newSpent, limit, setc)"
  shows "tk_id (setc u) = tk_id u" "tk_external_ref (setc u) = tk_external_ref u"
    "tk_status (setc u) = tk_status u"
  using assms by (auto simp: spend_kind_def split: if_splits)

lemma park_wf:
  assumes "ledger_wf l" and "find_task tid l = Some t" and "tk_status t = status"
    and "park_if_working now tid kind status l = (Inr b, l')"
  shows "ledger_wf l'"
  using assms ledger_wf_move [OF assms(1,2), of StatusInputRequired]
  by (auto simp: park_if_working_def CheckTransition_legal split: if_splits prod.splits sum.splits
      elim!: appendTx_ok)

lemma spend_body_wf:
  assumes wf: "ledger_wf l" and run: "spend_body now tid kind amount l = (Inr b, l')"
  shows "ledger_wf l'"
proof -
  obtain t where t: "find_task tid l = Some t"
    using run by (auto simp: spend_body_def split: option.splits)
  obtain newSpent limit setc where k: "spend_kind kind amount t = Some (newSpent, limit, setc)"
    using run t by (auto simp: spend_body_def split: option.splits)
  note cols = spend_kind_cases [OF k]
  let ?f = "\<lambda>u. (setc u)\<lparr>tk_updated_at := now 0\<rparr>"
  let ?l1 = "update_task tid ?f l"
  have wf1: "ledger_wf ?l1" and t1: "find_task tid ?l1 = Some (?f t)"
    using wf t cols by (auto intro!: ledger_wf_columns find_task_updated)
  let ?l2 = "push (now 1) tid EventBudgetExhausted ''system'' (PBudget kind newSpent limit)
      ?l1"
  have wf2: "ledger_wf ?l2" and t2: "find_task tid ?l2 = Some (?f t)"
    using t1 ledger_wf_append [OF wf1 t1 event_types_distinct(3)] by (simp_all add: frame_simps)
  show ?thesis
    using run t k wf1 park_wf [OF wf2 t2, of "tk_status t" now kind b l']
    by (auto simp: spend_body_def Let_def appendTx_known [OF t1] cols split: if_splits)
qed

lemma spend_wf: "ledger_wf l \<Longrightarrow> ledger_wf (snd (spend now tid kind amount l))"
  using tx.keeps_inv [of ledger_wf l "spend_body now tid kind amount"] spend_body_wf
  by (fastforce simp: spend_def frame_simps split: prod.splits sum.splits)

lemma Snapshot_wf: "ledger_wf l \<Longrightarrow> ledger_wf (snd (Snapshot ts tid seq tool args result status l))"
proof -
  have "ledger_wf (l\<lparr>l_snapshots := ss\<rparr>) = ledger_wf l" for ss
    using numbered_events [of "l\<lparr>l_snapshots := ss\<rparr>" l]
    by (simp add: ledger_wf_def tables_wf_def agrees_def logged_def find_task_def events_of_def
        open_count_def)
  then show "ledger_wf l \<Longrightarrow> ?thesis" by (simp add: Snapshot_def)
qed

section \<open>Nothing is removed\<close>

definition extends :: "ledger \<Rightarrow> ledger \<Rightarrow> bool" where
  "extends l l' \<longleftrightarrow> (\<exists>es. l_events l' = l_events l @ es)
     \<and> (\<exists>ids. map tk_id (l_tasks l') = map tk_id (l_tasks l) @ ids)"

lemma extends_refl [intro]: "extends l l"
  by (simp add: extends_def)

lemma extends_trans: "extends a b \<Longrightarrow> extends b c \<Longrightarrow> extends a c"
  by (fastforce simp: extends_def)

lemma extends_notify [frame_simps]: "extends l (notify i st l') = extends l l'"
  by (simp add: extends_def frame_simps)

lemma extends_rows:
  "(\<And>t. tk_id (f t) = tk_id t) \<Longrightarrow> extends l l' \<Longrightarrow>
   extends l (update_rows P f l')"
  unfolding extends_def by (simp add: frame_simps map_update_where)

lemma extends_update:
  "(\<And>t. tk_id (f t) = tk_id t) \<Longrightarrow> extends l l' \<Longrightarrow> extends l (update_task tid f l')"
  unfolding update_task_def by (rule extends_rows)

lemma extends_appendTxSeq:
  "appendTxSeq ts tid ty actor pl l' = (r, l'') \<Longrightarrow> extends l l' \<Longrightarrow> extends l l''"
  by (auto simp: appendTxSeq_def extends_def split: sum.splits if_splits)

lemma extends_appendTx:
  "appendTx ts tid ty actor pl l' = (r, l'') \<Longrightarrow> extends l l' \<Longrightarrow> extends l l''"
  by (auto simp: appendTx_def split: prod.splits sum.splits intro: extends_appendTxSeq)

lemma extends_insert: "insert_task t l = (r, l') \<Longrightarrow> extends l l'"
  by (auto simp: insert_task_def extends_def split: if_splits)

lemmas extends_intros = extends_refl extends_update extends_rows extends_appendTx extends_appendTxSeq
  extends_insert

lemma extends_tx:
  assumes "\<And>a l'. fn l = (Inr a, l') \<Longrightarrow> extends l l'"
  shows "extends l (snd (with_tx fn l))"
  by (rule tx.keeps_inv) (use assms in auto)

lemma extends_notify_ok:
  "extends l (snd (run l)) \<Longrightarrow> extends l (snd (notify_ok tid to run l))"
  by (rule notify_ok_inv) (simp_all add: frame_simps)

lemma extends_submit_body: "submit_body now tid inp l = (Inr a, l') \<Longrightarrow> extends l l'"
  by (auto simp: submit_body_def split: prod.splits sum.splits
      dest: extends_insert elim!: extends_appendTx)

lemma extends_Submit: "extends l (snd (Submit now tid inp l))"
  using extends_tx [of "submit_body now tid inp" l] extends_submit_body
  by (fastforce simp: Submit_def split: prod.splits sum.splits option.splits)

lemma extends_SetStatus: "extends l (snd (SetStatus now tid s actor reason l))"
  unfolding SetStatus_def
  by (rule extends_notify_ok, rule extends_tx)
    (auto simp: set_status_body_def split: option.splits sum.splits
      elim!: extends_appendTx intro: extends_update)

lemma extends_Claim: "extends l (snd (Claim now tid agent vid lease l))"
  unfolding Claim_def
  by (rule extends_notify_ok, rule extends_tx)
    (auto simp: claim_body_def split: option.splits sum.splits if_splits
      elim!: extends_appendTx intro: extends_update)

lemma extends_Requeue: "extends l (snd (Requeue now tid actor reason l))"
proof -
  let ?r = "''requeue: '' @ reason"
  obtain v l1 where one: "SetStatus now tid StatusWorking actor ?r l = (v, l1)"
    by (cases "SetStatus now tid StatusWorking actor ?r l")
  have "extends l l1" using extends_SetStatus [of l now tid StatusWorking actor ?r] one by simp
  then show ?thesis
    unfolding Requeue_def one prod.case
    by (cases v) (auto intro: extends_trans extends_SetStatus)
qed

lemma extends_reap_body: "reap_body now tid l = (Inr a, l') \<Longrightarrow> extends l l'"
  by (auto simp: reap_body_def split: prod.splits sum.splits
      elim!: extends_appendTx intro: extends_rows)

lemma extends_reap_one: "extends l (snd (reap_one now tid l))"
  unfolding reap_one_def
  by (rule extends_notify_ok, rule extends_tx) (auto intro: extends_reap_body)

lemma extends_reap_loop: "extends l (snd (reap_loop now n ids l))"
proof (induction ids arbitrary: l now n)
  case Nil
  then show ?case by auto
next
  case (Cons i ids)
  obtain v l1 where one: "reap_one now i l = (v, l1)" by (cases "reap_one now i l")
  then have "extends l l1" using extends_reap_one [of l now i] by simp
  then show ?case
    using Cons.IH [of l1] one by (cases v) (auto intro: extends_trans)
qed

lemma extends_ExtendLease: "extends l (snd (ExtendLease now tid lease l))"
  by (simp add: ExtendLease_def Let_def extends_rows [OF _ extends_refl])

lemma extends_Append: "extends l (snd (Append ts tid ty actor pl l))"
  unfolding Append_def by (rule extends_tx) (auto elim!: extends_appendTxSeq)

lemma extends_skill_once: "extends l (snd (AppendSkillRunOnce ts tid actor p l))"
proof -
  have "extends l (snd (with_tx (skill_once_body ts tid actor p) l))"
    by (rule extends_tx) (auto simp: skill_once_body_def
        split: if_splits sum.splits option.splits prod.splits elim!: extends_appendTxSeq)
  then show ?thesis by (auto simp: AppendSkillRunOnce_def)
qed

lemma extends_AssignAgent: "extends l (snd (AssignAgent now tid agent vid actor decision l))"
  unfolding AssignAgent_def
  by (rule extends_tx) (auto simp: assign_body_def split: if_splits
      elim!: extends_appendTx intro: extends_update)

lemma extends_park: "park_if_working now tid kind st l' = (r, l'') \<Longrightarrow> extends l l' \<Longrightarrow> extends l l''"
  by (auto simp: park_if_working_def split: if_splits prod.splits sum.splits
      elim!: extends_appendTx intro: extends_update)

lemma extends_spend_body:
  assumes "spend_body now tid kind amount l = (Inr b, l')"
  shows "extends l l'"
proof -
  obtain t where t: "find_task tid l = Some t"
    using assms by (auto simp: spend_body_def split: option.splits)
  obtain newSpent limit setc where k: "spend_kind kind amount t = Some (newSpent, limit, setc)"
    using assms t by (auto simp: spend_body_def split: option.splits)
  have "extends l (update_task tid (\<lambda>u. (setc u)\<lparr>tk_updated_at := now 0\<rparr>) l)"
    by (rule extends_update) (auto simp: spend_kind_cases [OF k])
  then show ?thesis
    using assms t k
    by (auto simp: spend_body_def Let_def split: if_splits prod.splits sum.splits
        elim!: extends_park extends_appendTx)
qed

lemma extends_spend: "extends l (snd (spend now tid kind amount l))"
  using extends_tx [of "spend_body now tid kind amount" l] extends_spend_body
  by (fastforce simp: spend_def frame_simps split: prod.splits sum.splits)

lemma extends_Snapshot: "extends l (snd (Snapshot ts tid seq tool args result status l))"
  by (simp add: Snapshot_def extends_def)

section \<open>The ledger as a step relation\<close>

text \<open>One call of the API on the ledger.  \<open>Append\<close> is used for every event but status changes, which
  \<open>SetStatus\<close> and its relatives own.\<close>

inductive ledger_step :: "ledger \<Rightarrow> ledger \<Rightarrow> bool" where
  submit: "ledger_step l (snd (Submit now tid inp l))"
| append: "ty \<noteq> EventStatusChange \<Longrightarrow> ledger_step l (snd (Append ts tid ty actor pl l))"
| skill_once: "ledger_step l (snd (AppendSkillRunOnce ts tid actor p l))"
| set_status: "ledger_step l (snd (SetStatus now tid to actor reason l))"
| claim: "ledger_step l (snd (Claim now tid agent vid lease l))"
| extend_lease: "ledger_step l (snd (ExtendLease now tid lease l))"
| requeue: "ledger_step l (snd (Requeue now tid actor reason l))"
| reap: "ledger_step l (snd (ReapExpired now l))"
| assign: "ledger_step l (snd (AssignAgent now tid agent vid actor pl l))"
| spend_tokens: "ledger_step l (snd (SpendTokens now tid prompt completion l))"
| spend_tool_call: "ledger_step l (snd (SpendToolCall now tid l))"
| take_snapshot: "ledger_step l (snd (Snapshot ts tid seq tool args result status l))"

definition empty_ledger :: "driver \<Rightarrow> int list \<Rightarrow> ledger" where
  "empty_ledger d versions = \<lparr>l_driver = d, l_tasks = [], l_events = [], l_snapshots = [],
     l_versions = versions, l_notified = []\<rparr>"

inductive ledger_reach :: "ledger \<Rightarrow> bool" where
  start: "ledger_reach (empty_ledger d versions)"
| step: "ledger_reach l \<Longrightarrow> ledger_step l l' \<Longrightarrow> ledger_reach l'"

lemma ledger_step_wf: "ledger_step l l' \<Longrightarrow> ledger_wf l \<Longrightarrow> ledger_wf l'"
  by (induction rule: ledger_step.induct)
    (simp_all add: Submit_wf Append_wf AppendSkillRunOnce_wf SetStatus_wf Claim_wf ExtendLease_wf
      Requeue_wf ReapExpired_wf AssignAgent_wf SpendTokens_def SpendToolCall_def spend_wf
      Snapshot_wf)

lemma ledger_step_extends: "ledger_step l l' \<Longrightarrow> extends l l'"
  by (induction rule: ledger_step.induct)
    (simp_all add: extends_Submit extends_Append extends_skill_once extends_SetStatus extends_Claim
      extends_ExtendLease extends_Requeue ReapExpired_def extends_reap_loop extends_AssignAgent
      SpendTokens_def SpendToolCall_def extends_spend extends_Snapshot)

lemma ledger_reach_wf: "ledger_reach l \<Longrightarrow> ledger_wf l"
proof (induction rule: ledger_reach.induct)
  case (start d versions)
  then show ?case
    using numbered_empty [of "empty_ledger d versions"]
    by (simp add: empty_ledger_def ledger_wf_def tables_wf_def agrees_def find_task_def
        open_count_def rows_affected_def)
next
  case (step l l')
  then show ?case using ledger_step_wf by blast
qed

lemma ledger_steps_extends: "ledger_step\<^sup>*\<^sup>* l l' \<Longrightarrow> extends l l'"
  by (induction rule: rtranclp_induct) (auto intro: extends_trans ledger_step_extends)

lemma ledger_steps_wf: "ledger_step\<^sup>*\<^sup>* l l' \<Longrightarrow> ledger_wf l \<Longrightarrow> ledger_wf l'"
  by (induction rule: rtranclp_induct) (auto intro: ledger_step_wf)

lemma extends_events_of: "extends l l' \<Longrightarrow> \<exists>es. events_of tid l' = events_of tid l @ es"
  by (auto simp: extends_def events_of_def)

lemma extends_find: "extends l l' \<Longrightarrow> find_task tid l = Some t \<Longrightarrow> \<exists>t'. find_task tid l' = Some t'"
  using find_None_key [of tk_id tid "l_tasks l"] find_None_key [of tk_id tid "l_tasks l'"]
  unfolding extends_def find_task_def set_map [symmetric] by fastforce

section \<open>A concrete ledger\<close>

text \<open>Two tasks on SQLite: one claimed by an agent, one waiting.  The witnesses below evaluate on it.\<close>

definition demo_clock :: "nat \<Rightarrow> clock" where
  "demo_clock n = (\<lambda>i. int (n + i))"

definition demo_input :: "string \<Rightarrow> submit_input" where
  "demo_input ref = \<lparr>si_external_ref = ref, si_source = ''alert'', si_kind = [],
     si_labels = (\<lambda>_. None),
     si_budget = \<lparr>b_tokens = 100, b_tool_calls = 2, b_wall_ms = 0, b_subagents = 0\<rparr>,
     si_parent = [], si_contract = [], si_actor = []\<rparr>"

definition demo1 :: ledger where
  "demo1 = snd (Submit (demo_clock 0) ''t1'' (demo_input ''ref1'') (empty_ledger SQLite [7]))"

definition demo2 :: ledger where
  "demo2 = snd (Submit (demo_clock 10) ''t2'' (demo_input []) demo1)"

definition demo3 :: ledger where
  "demo3 = snd (Claim (demo_clock 20) ''t1'' ''sre'' 7 5 demo2)"

definition demo_row :: task where
  "demo_row = (new_task (demo_clock 0) ''t1'' (demo_input ''ref1''))
     \<lparr>tk_status := StatusWorking, tk_agent := ''sre'', tk_agent_version := Some 7,
      tk_started_at := Some 20, tk_lease := Some 25, tk_updated_at := 20\<rparr>"

lemma demo1_reach: "ledger_reach demo1"
  unfolding demo1_def by (rule ledger_reach.step [OF ledger_reach.start ledger_step.submit])

lemma demo2_reach: "ledger_reach demo2"
  unfolding demo2_def by (rule ledger_reach.step [OF demo1_reach ledger_step.submit])

lemma demo3_reach: "ledger_reach demo3"
  unfolding demo3_def by (rule ledger_reach.step [OF demo2_reach ledger_step.claim])

lemmas demo_defs = demo1_def demo2_def demo3_def demo_clock_def demo_input_def demo_row_def
  empty_ledger_def Submit_def submit_body_def new_task_def insert_task_def with_tx_def
  find_task_def appendTx_def appendTxSeq_def nextSeq_def events_of_def null_if_empty_def
  HandoffDefault_def open_ref_def open_status_def Claim_def claim_body_def notify_ok_def notify_def
  CheckTransition_def transitions_def update_task_def update_rows_def update_where_def status_defs event_defs

lemma demo3_task: "find_task ''t1'' demo3 = Some demo_row"
  by (simp add: demo_defs)

section \<open>The properties of the ledger\<close>



text \<open>Sequence numbers.  In every reachable ledger \<open>Get\<close> returns a task's whole history in the
  order it was appended, numbered 1, 2, 3, ... without gaps.\<close>

lemma ledger_history_numbered:
  assumes "ledger_reach l" and "Get tid l = Inr (t, evs)"
  shows "evs = events_of tid l \<and> map ev_seq evs = [1..<Suc (length evs)]"
proof -
  have n: "task_log.numbered l"
    using ledger_reach_wf [OF assms(1)] by (simp add: ledger_wf_def tables_wf_def)
  have "evs = sort_key ev_seq (events_of tid l)"
    using assms(2) by (auto simp: Get_def split: option.splits)
  then have "evs = events_of tid l"
    using task_log.numbered_sort_key [OF n] by simp
  then show ?thesis
    using n unfolding task_log.numbered_def by blast
qed

lemma ledger_history_numbered_witness:
  "\<exists>evs. Get ''t1'' demo3 = Inr (demo_row, evs) \<and> map ev_seq evs = [1..<Suc (length evs)]"
proof -
  obtain evs where "Get ''t1'' demo3 = Inr (demo_row, evs)"
    by (simp add: Get_def demo3_task)
  then show ?thesis
    using ledger_history_numbered [OF demo3_reach] by blast
qed

lemma replay_terminal:
  "terminal s \<Longrightarrow> replay s es = Some s' \<Longrightarrow>
   s' = s \<and> (\<forall>e \<in> set es. ev_type e \<noteq> EventStatusChange)"
  by (induction es) (auto split: if_splits payload.splits dest: terminal_stuck)

text \<open>Terminal statuses absorb.  Once a reachable ledger shows a task completed, failed or canceled,
  no sequence of API calls changes its status, removes it, or appends another status change to its
  log; the log itself only grows at its end.\<close>

lemma ledger_terminal_absorbing:
  assumes "ledger_reach l" and "find_task tid l = Some t"
    and "tk_status t \<in> {StatusCompleted, StatusFailed, StatusCanceled}"
    and "ledger_step\<^sup>*\<^sup>* l l'"
  shows "\<exists>t' es. find_task tid l' = Some t' \<and> tk_status t' = tk_status t
     \<and> events_of tid l' = events_of tid l @ es \<and> (\<forall>e \<in> set es. ev_type e \<noteq> EventStatusChange)"
proof -
  have wf: "ledger_wf l" by (rule ledger_reach_wf [OF assms(1)])
  have wf': "ledger_wf l'" by (rule ledger_steps_wf [OF assms(4) wf])
  have ext: "extends l l'" by (rule ledger_steps_extends [OF assms(4)])
  obtain t' where t': "find_task tid l' = Some t'"
    using extends_find [OF ext assms(2)] by blast
  obtain es where es: "events_of tid l' = events_of tid l @ es"
    using extends_events_of [OF ext] by blast
  have "replay StatusSubmitted (events_of tid l) = Some (tk_status t)"
    and "replay StatusSubmitted (events_of tid l') = Some (tk_status t')"
    using wf wf' assms(2) t' by (simp_all add: ledger_wf_def agrees_def logged_def)
  then have "replay (tk_status t) es = Some (tk_status t')"
    by (simp add: es replay_append)
  then show ?thesis
    using replay_terminal [of "tk_status t" es] assms(3) t' es by (simp add: terminal_def)
qed

definition demo4 :: ledger where
  "demo4 = snd (SetStatus (demo_clock 30) ''t1'' StatusCompleted ''agent:sre'' [] demo3)"

lemma demo4_reach: "ledger_reach demo4"
  unfolding demo4_def by (rule ledger_reach.step [OF demo3_reach ledger_step.set_status])

lemma demo4_task:
  "find_task ''t1'' demo4 = Some (demo_row\<lparr>tk_status := StatusCompleted, tk_updated_at := 30\<rparr>)"
  by (simp add: demo4_def SetStatus_def set_status_body_def demo_defs)

lemma ledger_terminal_absorbing_witness:
  "\<exists>t'. find_task ''t1'' (snd (Claim (demo_clock 40) ''t1'' ''x'' 7 5 demo4)) = Some t'
     \<and> tk_status t' = StatusCompleted"
  using ledger_terminal_absorbing [OF demo4_reach demo4_task, of
      "snd (Claim (demo_clock 40) ''t1'' ''x'' 7 5 demo4)"]
    ledger_step.claim [of demo4 "demo_clock 40" "''t1''" "''x''" 7 5]
  by auto

lemma findOpenByRef_None: "findOpenByRef ref l = None \<longleftrightarrow> open_count ref l = 0"
  by (simp add: findOpenByRef_def open_count_def rows_affected_0 find_None_iff Ball_def)

text \<open>Intake is deduplicated.  In a reachable ledger, a submission with an external reference, an
  admissible contract, an existing parent and a fresh identifier either returns the open task that
  already holds the reference and changes nothing, or creates exactly the requested task with its
  \<open>submitted\<close> event; in both cases exactly one open task holds the reference afterwards.\<close>

lemma ledger_submit_dedup:
  assumes "ledger_reach l" and "si_external_ref inp = ref" and "ref \<noteq> []"
    and "si_contract inp \<in> {[], ''results_only'', ''summary'', ''full_trace''}"
    and "si_parent inp = [] \<or> find_task (si_parent inp) l \<noteq> None"
    and "find_task tid l = None"
  shows "case findOpenByRef ref l of
      Some t \<Rightarrow> Submit now tid inp l = (Inr (t, False), l) \<and> open_count ref l = 1
    | None \<Rightarrow> \<exists>l'. Submit now tid inp l = (Inr (new_task now tid inp, True), l')
        \<and> open_count ref l' = 1 \<and> findOpenByRef ref l' = Some (new_task now tid inp)
        \<and> map ev_type (events_of tid l') = [EventSubmitted]"
proof (cases "findOpenByRef ref l")
  case (Some t)
  have tw: "tables_wf l" using ledger_reach_wf [OF assms(1)] by (simp add: ledger_wf_def)
  have "open_count ref l = 1"
    using Some tables_wfD(5) [OF tw, of ref] findOpenByRef_None [of ref l] by simp
  moreover have "\<exists>u \<in> set (l_tasks l). open_ref ref u"
    using Some by (auto simp: findOpenByRef_def dest: find_SomeD)
  ultimately show ?thesis
    using Some assms
    by (auto simp: Submit_def submit_body_def with_tx_def insert_task_def new_task_def
        null_if_empty_def isUniqueViolation_def HandoffDefault_def)
next
  case None
  have tw: "tables_wf l" using ledger_reach_wf [OF assms(1)] by (simp add: ledger_wf_def)
  let ?t = "new_task now tid inp"
  let ?l1 = "l\<lparr>l_tasks := l_tasks l @ [?t]\<rparr>"
  have none: "\<forall>u \<in> set (l_tasks l). \<not> open_ref ref u"
    using None by (simp add: findOpenByRef_def find_None_iff)
  have ins: "insert_task ?t l = (Inr (), ?l1)"
    using assms none
    by (auto simp: insert_task_def new_task_def null_if_empty_def HandoffDefault_def)
  have known: "find_task tid ?l1 = Some ?t"
    using assms(6) by (simp add: find_task_def find_append new_task_def)
  let ?actor = "if si_actor inp = [] then ''system'' else si_actor inp"
  let ?l2 = "push (now 2) tid EventSubmitted ?actor
    (PSubmitted (si_source inp) (si_external_ref inp) (tk_kind ?t))
      ?l1"
  have run: "submit_body now tid inp l = (Inr (), ?l2)"
    unfolding submit_body_def ins by (simp add: appendTx_known [OF known])
  have "open_ref ref ?t"
    using assms(2,3) by (simp add: new_task_def open_ref_def null_if_empty_def open_status_def)
  then have "open_count ref ?l2 = 1" and "findOpenByRef ref ?l2 = Some ?t"
    using none None
    by (simp_all add: open_count_def rows_affected_def findOpenByRef_def find_append frame_simps)
  moreover have "events_of tid l = []" by (rule no_events_of_unknown [OF tw assms(6)])
  then have "map ev_type (events_of tid ?l2) = [EventSubmitted]"
    by (simp add: events_of_push) (simp add: events_of_def)
  moreover have "Submit now tid inp l = (Inr (?t, True), ?l2)"
    by (simp add: Submit_def with_tx_def run)
  ultimately show ?thesis using None by auto
qed

lemma ledger_submit_dedup_witness:
  "Submit (demo_clock 50) ''t9'' (demo_input ''ref1'') demo3 = (Inr (demo_row, False), demo3)"
proof -
  have "findOpenByRef ''ref1'' demo3 = Some demo_row"
    by (simp add: findOpenByRef_def demo_defs)
  moreover have "find_task ''t9'' demo3 = None"
    by (simp add: demo_defs)
  ultimately show ?thesis
    using ledger_submit_dedup [OF demo3_reach, of "demo_input ''ref1''" "''ref1''" "''t9''"
        "demo_clock 50"]
    by (simp add: demo_input_def)
qed

text \<open>Budgets are enforced.  Spending tokens on a known task always records the spend.  When the
  task has a cap and the total passes it, the caller gets the typed refusal, a
  \<open>budget_exhausted\<close> event is logged and a working task is parked as \<open>input_required\<close>
  with the status change logged after it; otherwise the call succeeds and nothing else changes.\<close>

lemma ledger_spend_parks:
  assumes "find_task tid l = Some t"
  shows "\<exists>r l' t'. SpendTokens now tid p c l = (r, l') \<and> find_task tid l' = Some t'
     \<and> tk_spent_tokens t' = tk_spent_tokens t + p + c
     \<and> (if b_tokens (tk_budget t) > 0 \<and> tk_spent_tokens t + p + c > b_tokens (tk_budget t)
        then r = Inl (BudgetExhausted ''tokens'')
          \<and> tk_status t' = (if tk_status t = StatusWorking then StatusInputRequired else tk_status t)
          \<and> (\<exists>es. events_of tid l' = events_of tid l @ es \<and>
               map ev_type es = EventBudgetExhausted #
                 (if tk_status t = StatusWorking then [EventStatusChange] else []))
        else r = Inr () \<and> tk_status t' = tk_status t \<and> events_of tid l' = events_of tid l)"
proof -
  define n where "n = tk_spent_tokens t + (p + c)"
  define b where "b = b_tokens (tk_budget t)"
  define f where "f = (\<lambda>u :: task. u\<lparr>tk_spent_tokens := n, tk_updated_at := now 0\<rparr>)"
  define g where "g = (\<lambda>u :: task. u\<lparr>tk_status := StatusInputRequired, tk_updated_at := now 2\<rparr>)"
  define l1 where "l1 = update_task tid f l"
  define l2 where "l2 = push (now 1) tid EventBudgetExhausted ''system'' (PBudget ''tokens'' n b) l1"
  define l3 where "l3 = update_task tid g l2"
  have k: "spend_kind ''tokens'' (p + c) t = Some (n, b, \<lambda>u. u\<lparr>tk_spent_tokens := n\<rparr>)"
    by (simp add: spend_kind_def n_def b_def)
  have t1: "find_task tid l1 = Some (f t)"
    unfolding l1_def by (rule find_task_updated [OF assms]) (simp add: f_def)
  then have t2: "find_task tid l2 = Some (f t)" by (simp add: l2_def frame_simps)
  then have t3: "find_task tid l3 = Some (g (f t))"
    unfolding l3_def by (rule find_task_updated) (simp add: g_def)
  have ev: "events_of tid l1 = events_of tid l"
      "events_of tid l2 = events_of tid l @
        [new_event (now 1) tid EventBudgetExhausted ''system'' (PBudget ''tokens'' n b) l1]"
      "events_of tid l3 = events_of tid l2"
    by (simp_all add: l1_def l2_def l3_def frame_simps events_of_push)
  have body: "spend_body now tid ''tokens'' (p + c) l =
      (if b > 0 \<and> n > b then park_if_working now tid ''tokens'' (tk_status t) l2 else (Inr False, l1))"
    unfolding spend_body_def assms option.case k prod.case
    by (simp add: Let_def f_def [symmetric] l1_def [symmetric] appendTx_known [OF t1] l2_def)
  have park: "park_if_working now tid ''tokens'' (tk_status t) l2 =
      (Inr True, if tk_status t = StatusWorking
         then push (now 3) tid EventStatusChange ''system'' (PStatusChange StatusWorking
           StatusInputRequired (''budget exhausted: '' @ ''tokens'')) l3 else l2)"
    unfolding park_if_working_def g_def [symmetric] l3_def [symmetric] appendTx_known [OF t3]
    by simp
  show ?thesis
    using t1 t2 t3
    by (simp add: SpendTokens_def spend_def with_tx_def body park b_def [symmetric] frame_simps
        events_of_push ev f_def g_def n_def add.assoc)
qed

lemma ledger_spend_parks_witness:
  "fst (SpendTokens (demo_clock 30) ''t1'' 60 41 demo3) = Inl (BudgetExhausted ''tokens'')"
  using ledger_spend_parks [OF demo3_task, of "demo_clock 30" 60 41]
  by (auto simp: demo_row_def new_task_def demo_input_def)

lemma SetStatus_result:
  assumes "find_task tid l = Some t" and "CheckTransition (tk_status t) s = Inr ()"
  shows "\<exists>l' e. SetStatus now tid s actor reason l = (Inr (), l')
    \<and> find_task tid l' = Some (t\<lparr>tk_status := s, tk_updated_at := now 0\<rparr>)
    \<and> events_of tid l' = events_of tid l @ [e]
    \<and> ev_payload e = PStatusChange (tk_status t) s reason"
proof -
  let ?f = "\<lambda>u. u\<lparr>tk_status := s, tk_updated_at := now 0\<rparr>"
  have t1: "find_task tid (update_task tid ?f l) = Some (?f t)"
    by (rule find_task_updated [OF assms(1)]) simp
  then show ?thesis
    using assms
    by (simp add: SetStatus_def notify_ok_def with_tx_def set_status_body_def appendTx_known [OF t1]
        frame_simps events_of_push)
qed

lemma SetStatus_refused:
  "find_task tid l = Some t \<Longrightarrow> CheckTransition (tk_status t) s = Inl e \<Longrightarrow>
   SetStatus now tid s actor reason l = (Inl e, l)"
  by (simp add: SetStatus_def notify_ok_def with_tx_def set_status_body_def)

text \<open>Requeueing.  Requeue succeeds exactly on a task that waits (parked for input, or still
  submitted); it then leaves the task submitted with two logged moves through \<open>working\<close>.  On any
  other task it is refused and changes nothing.\<close>

lemma ledger_requeue:
  assumes "find_task tid l = Some t"
  shows "\<exists>r l' t'. Requeue now tid actor reason l = (r, l') \<and> find_task tid l' = Some t' \<and>
     (if tk_status t \<in> {StatusInputRequired, StatusSubmitted}
      then r = Inr () \<and> tk_status t' = StatusSubmitted \<and>
        (\<exists>e1 e2. events_of tid l' = events_of tid l @ [e1, e2]
          \<and> ev_payload e1 = PStatusChange (tk_status t) StatusWorking (''requeue: '' @ reason)
          \<and> ev_payload e2 = PStatusChange StatusWorking StatusSubmitted (''requeue: '' @ reason))
      else (\<exists>e. r = Inl e) \<and> l' = l)"
proof -
  have legal: "CheckTransition (tk_status t) StatusWorking = Inr () \<longleftrightarrow>
      tk_status t \<in> {StatusInputRequired, StatusSubmitted}"
    by (auto simp: CheckTransition_legal)
  show ?thesis
  proof (cases "tk_status t \<in> {StatusInputRequired, StatusSubmitted}")
    case True
    let ?r = "''requeue: '' @ reason"
    obtain l1 e1 where one: "SetStatus now tid StatusWorking actor ?r l = (Inr (), l1)"
      and t1: "find_task tid l1 = Some (t\<lparr>tk_status := StatusWorking, tk_updated_at := now 0\<rparr>)"
      and e1: "events_of tid l1 = events_of tid l @ [e1]"
        "ev_payload e1 = PStatusChange (tk_status t) StatusWorking ?r"
      using SetStatus_result [OF assms, of StatusWorking now actor ?r] True legal by blast
    obtain l2 e2 where two: "SetStatus (clock_later 2 now) tid StatusSubmitted actor ?r l1 = (Inr (), l2)"
      and t2: "find_task tid l2 = Some (t\<lparr>tk_status := StatusSubmitted,
        tk_updated_at := clock_later 2 now 0\<rparr>)"
      and e2: "events_of tid l2 = events_of tid l1 @ [e2]"
        "ev_payload e2 = PStatusChange StatusWorking StatusSubmitted ?r"
      using SetStatus_result [OF t1, of StatusSubmitted "clock_later 2 now" actor ?r]
      by (auto simp: CheckTransition_legal)
    have "Requeue now tid actor reason l = (Inr (), l2)"
      unfolding Requeue_def one prod.case sum.case by (rule two)
    then show ?thesis using True t2 e1 e2 by auto
  next
    case False
    then obtain e where "CheckTransition (tk_status t) StatusWorking = Inl e"
      using legal by (cases "CheckTransition (tk_status t) StatusWorking") auto
    then show ?thesis
      using False SetStatus_refused [OF assms] assms by (auto simp: Requeue_def)
  qed
qed

lemma ledger_requeue_witness:
  "snd (Requeue (demo_clock 30) ''t1'' ''op'' ''x'' demo3) = demo3"
  using ledger_requeue [OF demo3_task, of "demo_clock 30" "''op''" "''x''"]
  by (auto simp: demo_row_def)

lemma reap_body_result:
  assumes "find_task tid l = Some t" and "distinct (map tk_id (l_tasks l))"
  shows "\<exists>l' e1 e2. reap_body now tid l = (Inr (), l')
    \<and> find_task tid l' = Some (if tk_status t = StatusWorking
        then t\<lparr>tk_status := StatusSubmitted, tk_lease := None, tk_updated_at := now 1\<rparr> else t)
    \<and> events_of tid l' = events_of tid l @ [e1, e2] \<and> ev_type e1 = EventError
    \<and> ev_type e2 = EventStatusChange
    \<and> ev_payload e2 = PStatusChange StatusWorking StatusSubmitted ''lease expired''
    \<and> (\<forall>i. i \<noteq> tid \<longrightarrow> find_task i l' = find_task i l \<and> events_of i l' = events_of i l)"
proof -
  let ?l1 = "push (now 0) tid EventError ''system''
      (PFields [(''error'', ''lease expired, requeued'')]) l"
  let ?g = "\<lambda>t. t\<lparr>tk_status := StatusSubmitted, tk_lease := None, tk_updated_at := now 1\<rparr>"
  let ?l2 = "update_rows (\<lambda>t. tk_id t = tid \<and> tk_status t = StatusWorking) ?g ?l1"
  have id: "tk_id t = tid" using assms(1) by (simp add: find_task_id)
  have t2: "find_task tid ?l2 = Some (if tk_status t = StatusWorking then ?g t else t)"
    using assms(1) id by (simp add: find_task_rows frame_simps)
  have other: "find_task i ?l2 = find_task i l" if "i \<noteq> tid" for i
    using that by (simp add: find_task_where frame_simps)
  have run: "reap_body now tid l = (Inr (), push (now 2) tid EventStatusChange ''system''
        (PStatusChange StatusWorking StatusSubmitted ''lease expired'') ?l2)"
    unfolding reap_body_def appendTx_known [OF assms(1)] prod.case sum.case
    by (rule appendTx_known [OF t2])
  show ?thesis
    unfolding run using t2 other by (simp add: frame_simps events_of_push)
qed

text \<open>A stale reap makes the table and the log disagree.  \<open>ReapExpired\<close> selects the lapsed tasks
  outside the transactions that requeue them.  If a task leaves \<open>working\<close> in between, its
  transaction still succeeds: the guarded update matches no row, the status column stays, and a
  status change from working to submitted is logged all the same, so that the log no longer
  replays.\<close>

lemma ledger_reap_stale:
  assumes "ledger_reach l" and "find_task tid l = Some t" and "tk_status t \<noteq> StatusWorking"
  shows "\<exists>l'. reap_one now tid l = (Inr (), l') \<and> find_task tid l' = Some t
     \<and> replay StatusSubmitted (events_of tid l') = None"
proof -
  have wf: "ledger_wf l" by (rule ledger_reach_wf [OF assms(1)])
  then have d: "distinct (map tk_id (l_tasks l))" by (simp add: ledger_wf_def tables_wf_def)
  have "replay StatusSubmitted (events_of tid l) = Some (tk_status t)"
    using wf assms(2) by (simp add: ledger_wf_def agrees_def logged_def)
  then show ?thesis
    using reap_body_result [OF assms(2) d, of now] assms(3)
    by (auto simp: reap_one_def notify_ok_def with_tx_def frame_simps replay_append)
qed

lemma ledger_reap_stale_witness:
  "''t1'' \<in> set (expired_ids 26 demo3) \<and>
   (\<exists>l'. reap_one (demo_clock 40) ''t1'' demo4 = (Inr (), l')
     \<and> map_option tk_status (find_task ''t1'' l') = Some StatusCompleted
     \<and> replay StatusSubmitted (events_of ''t1'' l') = None)"
proof -
  have "''t1'' \<in> set (expired_ids 26 demo3)"
    by (simp add: expired_ids_def lease_expired_def demo_defs)
  then show ?thesis
    using ledger_reap_stale [OF demo4_reach demo4_task, of "demo_clock 40"]
    by auto
qed

text \<open>What reaping does to the tasks, given those it selected.\<close>

lemma reap_one_result:
  assumes "find_task tid l = Some t" and "distinct (map tk_id (l_tasks l))"
    and "tk_status t = StatusWorking"
  shows "\<exists>l' t'. reap_one now tid l = (Inr (), l') \<and> find_task tid l' = Some t'
    \<and> tk_status t' = StatusSubmitted \<and> tk_lease t' = None
    \<and> (\<forall>i. i \<noteq> tid \<longrightarrow> find_task i l' = find_task i l)
    \<and> distinct (map tk_id (l_tasks l'))"
proof -
  obtain l' where run: "reap_body now tid l = (Inr (), l')"
    and row: "find_task tid l' =
      Some (t\<lparr>tk_status := StatusSubmitted, tk_lease := None, tk_updated_at := now 1\<rparr>)"
    and other: "\<forall>i. i \<noteq> tid \<longrightarrow> find_task i l' = find_task i l"
    using reap_body_result [OF assms(1,2), of now] assms(3) by auto
  have ids: "map tk_id (l_tasks l') = map tk_id (l_tasks l)"
    using run by (auto simp: reap_body_def map_update_where frame_simps
        split: prod.splits sum.splits elim!: appendTx_ok)
  show ?thesis
    using row other assms(2) ids
    by (auto simp: reap_one_def notify_ok_def with_tx_def run frame_simps)
qed

lemma reap_loop_result:
  assumes "distinct ids" and "distinct (map tk_id (l_tasks l))"
    and "\<forall>i \<in> set ids. \<exists>t. find_task i l = Some t \<and> tk_status t = StatusWorking"
  shows "\<exists>l'. reap_loop now n ids l = (Inr (n + length ids), l')
    \<and> (\<forall>i \<in> set ids. \<exists>t'. find_task i l' = Some t' \<and> tk_status t' = StatusSubmitted
         \<and> tk_lease t' = None)
    \<and> (\<forall>i. i \<notin> set ids \<longrightarrow> find_task i l' = find_task i l)"
  using assms
proof (induction ids arbitrary: l now n)
  case Nil
  then show ?case by simp
next
  case (Cons i ids)
  obtain t where "find_task i l = Some t" "tk_status t = StatusWorking"
    using Cons.prems(3) by auto
  then obtain l1 t1 where one: "reap_one now i l = (Inr (), l1)" "find_task i l1 = Some t1"
      "tk_status t1 = StatusSubmitted" "tk_lease t1 = None"
    and other: "\<forall>j. j \<noteq> i \<longrightarrow> find_task j l1 = find_task j l"
    and d1: "distinct (map tk_id (l_tasks l1))"
    using reap_one_result [of i l t now] Cons.prems(2) by blast
  have "\<forall>j \<in> set ids. \<exists>t. find_task j l1 = Some t \<and> tk_status t = StatusWorking"
    using Cons.prems(1,3) other by fastforce
  then obtain l' where rest: "reap_loop (clock_later 3 now) (Suc n) ids l1 =
      (Inr (Suc n + length ids), l')"
    and in_ids: "\<forall>j \<in> set ids. \<exists>t'. find_task j l' = Some t' \<and> tk_status t' = StatusSubmitted
         \<and> tk_lease t' = None"
    and out: "\<forall>j. j \<notin> set ids \<longrightarrow> find_task j l' = find_task j l1"
    using Cons.IH [of l1 "clock_later 3 now" "Suc n"] Cons.prems(1) d1 by auto
  have "find_task i l' = Some t1"
    using out Cons.prems(1) one(2) by simp
  then show ?case
    using one rest in_ids out other by auto
qed

text \<open>The reaper.  Run without interference on a reachable ledger, \<open>ReapExpired\<close> never fails: it
  returns the number of working tasks whose lease has lapsed at its first clock reading, each of
  them is submitted again without a lease, and every other task is untouched.\<close>

lemma ledger_reap_expired:
  assumes "ledger_reach l"
  shows "\<exists>l'. ReapExpired now l = (Inr (length (filter (lease_expired (now 0)) (l_tasks l))), l')
    \<and> (\<forall>t \<in> set (l_tasks l). if lease_expired (now 0) t
         then \<exists>t'. find_task (tk_id t) l' = Some t' \<and> tk_status t' = StatusSubmitted
           \<and> tk_lease t' = None
         else find_task (tk_id t) l' = Some t)"
proof -
  have d: "distinct (map tk_id (l_tasks l))"
    using ledger_reach_wf [OF assms] by (simp add: ledger_wf_def tables_wf_def)
  have ids: "tk_id t \<in> set (expired_ids (now 0) l) \<longleftrightarrow> lease_expired (now 0) t"
    if "t \<in> set (l_tasks l)" for t
    using that distinct_key_eq [OF d] by (fastforce simp: expired_ids_def)
  have row: "find_task (tk_id t) l = Some t" if "t \<in> set (l_tasks l)" for t
    using that find_distinct_key [OF d] by (simp add: find_task_def)
  have "distinct (expired_ids (now 0) l)"
    using d by (simp add: expired_ids_def distinct_map inj_on_def)
  moreover have "\<forall>i \<in> set (expired_ids (now 0) l). \<exists>t. find_task i l = Some t
      \<and> tk_status t = StatusWorking"
    using row by (fastforce simp: expired_ids_def lease_expired_def)
  ultimately obtain l' where run: "reap_loop (clock_later 1 now) 0 (expired_ids (now 0) l) l =
      (Inr (0 + length (expired_ids (now 0) l)), l')"
    and "\<forall>i \<in> set (expired_ids (now 0) l). \<exists>t'. find_task i l' = Some t'
         \<and> tk_status t' = StatusSubmitted \<and> tk_lease t' = None"
    and "\<forall>i. i \<notin> set (expired_ids (now 0) l) \<longrightarrow> find_task i l' = find_task i l"
    using reap_loop_result [OF _ d, of "expired_ids (now 0) l" "clock_later 1 now" 0] by auto
  then show ?thesis
    using ids row by (auto simp: ReapExpired_def expired_ids_def)
qed

lemma ledger_reap_expired_witness:
  "fst (ReapExpired (demo_clock 26) demo3) = Inr 1"
proof -
  have "length (filter (lease_expired (demo_clock 26 0)) (l_tasks demo3)) = 1"
    by (simp add: lease_expired_def demo_defs)
  then show ?thesis
    using ledger_reap_expired [OF demo3_reach, of "demo_clock 26"] by auto
qed

subsection \<open>Skill runs\<close>

lemma scan_anchors_None:
  "scan_anchors actor p None xs = Inr None \<Longrightarrow> \<forall>(sq, a, q) \<in> set xs. \<not> sameSkillRunExecution q p"
proof -
  have some: "scan_anchors actor p (Some s) xs \<noteq> Inr None" for s xs
    by (induction actor p "Some s" xs arbitrary: s rule: scan_anchors.induct) auto
  show "scan_anchors actor p None xs = Inr None \<Longrightarrow>
      \<forall>(sq, a, q) \<in> set xs. \<not> sameSkillRunExecution q p"
    by (induction xs) (auto simp: some split: if_splits)
qed

lemma scan_anchors_skip:
  "\<forall>(sq, a, q) \<in> set xs. \<not> sameSkillRunExecution q p \<Longrightarrow>
   scan_anchors actor p found (xs @ ys) = scan_anchors actor p found ys"
  by (induction xs) auto

lemma scan_anchors_Some:
  "scan_anchors actor p found xs = Inr (Some n) \<Longrightarrow> found = None \<Longrightarrow>
   \<exists>(sq, a, q) \<in> set xs. sameSkillRunExecution q p \<and> a = actor \<and> sameSkillRunContent q p"
  by (induction actor p found xs rule: scan_anchors.induct) (auto split: if_splits)

lemma scan_anchors_conflict:
  "(sq, a, q) \<in> set xs \<Longrightarrow> sameSkillRunExecution q p \<Longrightarrow> a \<noteq> actor \<or> \<not> sameSkillRunContent q p \<Longrightarrow>
   \<exists>k. scan_anchors actor p found xs = Inl (SkillRunConflict k)"
  by (induction actor p found xs rule: scan_anchors.induct) auto

lemma map_filter_append: "List.map_filter f (xs @ ys) = List.map_filter f xs @ List.map_filter f ys"
  by (simp add: List.map_filter_def)

lemma map_filter_single:
  "List.map_filter f [x] = (case f x of None \<Rightarrow> [] | Some y \<Rightarrow> [y])"
  by (simp add: List.map_filter_def split: option.splits)

lemma skill_anchors_append:
  assumes "task_log.numbered l" and "find_task tid l = Some t"
  shows "skill_anchors tid (push ts tid EventSkillRun actor (PSkillRun p) l) =
    skill_anchors tid l @ [(ev_seq (new_event ts tid EventSkillRun actor (PSkillRun p) l), actor, p)]"
proof -
  have filt: "sort_key ev_seq (filter P (events_of tid s)) = filter P (events_of tid s)"
    if "task_log.numbered s" for P s
    using task_log.numbered_sorted [OF that, of tid]
    by (intro sort_key_id_if_sorted) (rule sorted_filter)
  have "task_log.numbered (push ts tid EventSkillRun actor (PSkillRun p) l)"
    using task_log.append_numbered [OF assms(1), of tid "(ts, EventSkillRun, actor, PSkillRun p)"]
    by (simp add: appendTxSeq_known [OF assms(2)])
  from filt [OF this, of "\<lambda>e. ev_type e = EventSkillRun"]
    filt [OF assms(1), of "\<lambda>e. ev_type e = EventSkillRun"]
  show ?thesis
    by (simp add: skill_anchors_def events_of_push map_filter_append map_filter_single
        skill_run_of_def)
qed

text \<open>A recorded run can be retried but not rewritten.\<close>

lemma skill_once_cases:
  assumes "AppendSkillRunOnce ts tid actor p l = (Inr (n, reused), l')" and "ledger_wf l"
  obtains (old) "reused" "l' = l" "scan_anchors actor p None (skill_anchors tid l) = Inr (Some n)"
    | (fresh) t where "\<not> reused" "find_task tid l = Some t"
      "\<forall>(sq, a, q) \<in> set (skill_anchors tid l). \<not> sameSkillRunExecution q p"
      "skill_anchors tid l' = skill_anchors tid l @ [(n, actor, p)]"
      "find_task tid l' = Some t"
proof -
  have n: "task_log.numbered l" using assms(2) by (simp add: ledger_wf_def tables_wf_def)
  have body: "skill_once_body ts tid actor p l = (Inr (n, reused), l')"
    using assms(1) by (auto simp: AppendSkillRunOnce_def with_tx_def split: if_splits prod.splits
        sum.splits)
  show thesis
  proof (cases "scan_anchors actor p None (skill_anchors tid l)")
    case (Inl e)
    then show thesis using body by (simp add: skill_once_body_def split: if_splits)
  next
    case (Inr found)
    show thesis
    proof (cases found)
      case (Some m)
      then show thesis using body Inr old by (auto simp: skill_once_body_def split: if_splits)
    next
      case None
      then have app: "appendTxSeq ts tid EventSkillRun actor (PSkillRun p) l = (Inr n, l')"
        and nr: "\<not> reused"
        using body Inr by (auto simp: skill_once_body_def split: if_splits prod.splits sum.splits)
      from app obtain t where t: "find_task tid l = Some t"
        "n = ev_seq (new_event ts tid EventSkillRun actor (PSkillRun p) l)"
        "l' = push ts tid EventSkillRun actor (PSkillRun p) l"
        by (rule appendTxSeq_ok)
      show thesis
        using nr t(1) scan_anchors_None [of actor p "skill_anchors tid l"] Inr None
          skill_anchors_append [OF n t(1), of ts actor p] t(2,3)
        by (intro fresh) (auto simp: frame_simps)
    qed
  qed
qed

text \<open>Skill runs are anchored once.  After a successful recording in a reachable ledger, a retry of
  the same execution by the same actor returns the same sequence number and changes nothing, and a
  retry of it, by anyone, that differs in the actor or in any outcome field is refused as a conflict
  and changes nothing.\<close>

lemma ledger_skill_once:
  assumes "ledger_reach l" and "AppendSkillRunOnce ts tid actor p l = (Inr (n, reused), l')"
  shows "AppendSkillRunOnce ts' tid actor p l' = (Inr (n, True), l')
    \<and> (sr_execution q = sr_execution p \<and> sr_namespace q = sr_namespace p
         \<and> (actor' \<noteq> actor \<or> \<not> sameSkillRunContent p q) \<longrightarrow>
       (\<exists>k. AppendSkillRunOnce ts' tid actor' q l' = (Inl (SkillRunConflict k), l')))"
proof -
  have wf: "ledger_wf l" by (rule ledger_reach_wf [OF assms(1)])
  have ex: "sr_execution p \<noteq> []"
    using assms(2) by (auto simp: AppendSkillRunOnce_def split: if_splits)
  have drv: "l_driver l' = Postgres \<longrightarrow> find_task tid l' \<noteq> None"
    using assms(2) ex
    by (auto simp: AppendSkillRunOnce_def with_tx_def skill_once_body_def frame_simps
        split: if_splits prod.splits sum.splits option.splits elim!: appendTxSeq_ok)
  have self: "sameSkillRunExecution p p" "sameSkillRunContent p p"
    using ex by (simp_all add: sameSkillRunExecution_def sameSkillRunContent_def)
  have "scan_anchors actor p None (skill_anchors tid l') = Inr (Some n) \<and>
      (\<exists>sq r. (sq, actor, r) \<in> set (skill_anchors tid l')
        \<and> sameSkillRunExecution r p \<and> sameSkillRunContent r p)"
    using assms(2) wf
  proof (cases rule: skill_once_cases)
    case old
    then show ?thesis using scan_anchors_Some [of actor p None "skill_anchors tid l" n] by auto
  next
    case (fresh t)
    then show ?thesis using self by (auto simp: scan_anchors_skip)
  qed
  then have scan: "scan_anchors actor p None (skill_anchors tid l') = Inr (Some n)"
    and anchor: "\<exists>sq r. (sq, actor, r) \<in> set (skill_anchors tid l')
      \<and> sameSkillRunExecution r p \<and> sameSkillRunContent r p"
    by simp_all
  have "AppendSkillRunOnce ts' tid actor p l' = (Inr (n, True), l')"
    using ex drv scan by (simp add: AppendSkillRunOnce_def with_tx_def skill_once_body_def)
  moreover have "\<exists>k. AppendSkillRunOnce ts' tid actor' q l' = (Inl (SkillRunConflict k), l')"
    if same: "sr_execution q = sr_execution p" "sr_namespace q = sr_namespace p"
      and differ: "actor' \<noteq> actor \<or> \<not> sameSkillRunContent p q"
  proof -
    obtain sq r where r: "(sq, actor, r) \<in> set (skill_anchors tid l')"
      "sameSkillRunExecution r p" "sameSkillRunContent r p"
      using anchor by blast
    have "sameSkillRunExecution r q" and "actor \<noteq> actor' \<or> \<not> sameSkillRunContent r q"
      using r same differ by (auto simp: sameSkillRunExecution_def sameSkillRunContent_def)
    then obtain k where "scan_anchors actor' q None (skill_anchors tid l') = Inl (SkillRunConflict k)"
      using scan_anchors_conflict r(1) by blast
    then show ?thesis
      using ex drv same by (auto simp: AppendSkillRunOnce_def with_tx_def skill_once_body_def)
  qed
  ultimately show ?thesis by blast
qed

definition demo_run :: skill_run where
  "demo_run = \<lparr>sr_skill = ''fix'', sr_version = ''1'', sr_namespace = ''ns'', sr_execution = ''x1'',
     sr_outcome = ''success'', sr_score = 1, sr_error_type = [], sr_error_message = [],
     sr_summary = ''ok''\<rparr>"

lemma ledger_skill_once_witness:
  "\<exists>n l'. AppendSkillRunOnce 30 ''t1'' ''a'' demo_run demo3 = (Inr (n, False), l')
     \<and> AppendSkillRunOnce 31 ''t1'' ''a'' demo_run l' = (Inr (n, True), l')
     \<and> (\<exists>k. AppendSkillRunOnce 32 ''t1'' ''b'' demo_run l' = (Inl (SkillRunConflict k), l'))"
proof -
  have "skill_anchors ''t1'' demo3 = []"
    by (simp add: skill_anchors_def demo_defs List.map_filter_def)
  then obtain n l' where run: "AppendSkillRunOnce 30 ''t1'' ''a'' demo_run demo3 = (Inr (n, False), l')"
    using demo3_task
    by (simp add: AppendSkillRunOnce_def skill_once_body_def with_tx_def appendTxSeq_known demo_run_def)
  show ?thesis
    using run ledger_skill_once [OF demo3_reach run, of 31 demo_run "''a''"]
      ledger_skill_once [OF demo3_reach run, of 32 demo_run "''b''"]
    by auto
qed

end
