(* ===== verification/Routing.thy ===== *)
theory Routing
  imports Registry Topo Ledger_Proofs "HOL-Library.Multiset"
begin

text \<open>
  The package \<open>internal/route\<close>: trigger matching, the choice among candidates, the routing decision row
  and the assignment on the ledger.  The tie breaker (a language model, \<open>LLMTie\<close> keeps only answers
  that name a candidate), the two random draws and the clock are parameters; probabilities are exact
  rationals where the code has floating point.
\<close>

section \<open>Triggers\<close>

definition source_matches :: "string \<Rightarrow> string \<Rightarrow> bool" where
  "source_matches pattern source \<longleftrightarrow>
     (case cut_suffix pattern ''*'' of
        Some p \<Rightarrow> has_prefix source p
      | None \<Rightarrow> source = pattern)"

definition matchTrigger :: "task \<Rightarrow> trigger \<Rightarrow> bool" where
  "matchTrigger t tr \<longleftrightarrow>
     (tr_source tr \<noteq> [] \<longrightarrow> source_matches (tr_source tr) (tk_source t))
     \<and> (tr_kind tr \<noteq> [] \<longrightarrow> tk_kind t = tr_kind tr)
     \<and> (\<forall>(k, v) \<in> set (tr_labels tr). label (tk_labels t) k = v)
     \<and> (tr_severity tr \<noteq> [] \<longrightarrow> label (tk_labels t) ''severity'' \<in> set (tr_severity tr))"

record candidate =
  ca_agent :: string
  ca_rule :: string
  ca_priority :: int

definition candidate_of :: "task \<Rightarrow> string \<times> agent_spec \<Rightarrow> candidate option" where
  "candidate_of t na = (case na of (name, a) \<Rightarrow>
     if as_disabled a then None
     else map_option
       (\<lambda>tr. \<lparr>ca_agent = name, ca_rule = tr_id tr, ca_priority = tr_priority tr\<rparr>)
       (find (matchTrigger t) (as_triggers a)))"

text \<open>The order of the candidates: higher priority first, then the smaller name.\<close>

definition candidate_key :: "candidate \<Rightarrow> int \<times> string" where
  "candidate_key c = (- ca_priority c, ca_agent c)"

definition candidates :: "task \<Rightarrow> (string \<times> agent_spec) list \<Rightarrow> candidate list" where
  "candidates t agents = sort_key candidate_key (List.map_filter (candidate_of t) agents)"

section \<open>The choice\<close>

record route_decision =
  rd_task :: string
  rd_chosen :: string
  rd_method :: string
  rd_rule :: string
  rd_candidates :: "string list"
  rd_propensity :: rat
  rd_upstream :: "string list"

type_synonym tie_breaker = "task \<Rightarrow> string list \<Rightarrow> string option"

text \<open>\<open>LLMTie.Pick\<close> on the model's answer (\<open>None\<close>: no client or a failed call).\<close>

definition LLMTie_Pick :: "string option \<Rightarrow> string list \<Rightarrow> string option" where
  "LLMTie_Pick reply cands =
     (case reply of
        None \<Rightarrow> None
      | Some content \<Rightarrow> find (\<lambda>n. to_lower (trim_space content) = n) cands)"

definition top_names :: "candidate list \<Rightarrow> string list" where
  "top_names cands = map ca_agent (filter (\<lambda>c. ca_priority c = ca_priority (hd cands)) cands)"

text \<open>The exploration among a tie of \<open>n\<close> agents: \<open>draw\<close> is \<open>Rand()\<close> and \<open>arm\<close> is \<open>RandIntn\<close>.\<close>

definition explore_index :: "rat \<Rightarrow> rat \<Rightarrow> (nat \<Rightarrow> nat) \<Rightarrow> nat \<Rightarrow> nat" where
  "explore_index eps draw arm n = (if eps > 0 \<and> draw < eps then arm n else 0)"

definition explore_propensity :: "rat \<Rightarrow> nat \<Rightarrow> nat \<Rightarrow> rat" where
  "explore_propensity eps n idx =
     (if idx = 0 then 1 - eps + eps / of_nat n else eps / of_nat n)"

definition decide ::
  "tie_breaker option \<Rightarrow> string \<Rightarrow> rat \<Rightarrow> rat \<Rightarrow> (nat \<Rightarrow> nat) \<Rightarrow> string list \<Rightarrow> task
   \<Rightarrow> candidate list \<Rightarrow> route_decision" where
  "decide tie fallback eps draw arm upstream t cands =
     (let d = \<lparr>rd_task = tk_id t, rd_chosen = [], rd_method = [], rd_rule = [],
            rd_candidates = map ca_agent cands, rd_propensity = 1, rd_upstream = upstream\<rparr> in
      case cands of
        [] \<Rightarrow> d\<lparr>rd_method := ''fallback'', rd_chosen := fallback\<rparr>
      | c # rest \<Rightarrow>
          if rest = [] \<or> ca_priority c > ca_priority (hd rest)
          then d\<lparr>rd_method := ''rule'', rd_chosen := ca_agent c, rd_rule := ca_rule c\<rparr>
          else
            let top = top_names cands;
                picked = (case tie of None \<Rightarrow> None | Some f \<Rightarrow> f t top);
                idx = explore_index eps draw arm (length top);
                explored = d\<lparr>rd_propensity := explore_propensity eps (length top) idx,
                  rd_method := (if idx = 0 then ''rule'' else ''explore''),
                  rd_rule := (if idx = 0 then ca_rule c else []), rd_chosen := top ! idx\<rparr>
            in (case picked of
                  Some p \<Rightarrow> if p \<noteq> [] then d\<lparr>rd_method := ''llm'', rd_chosen := p\<rparr> else explored
                | None \<Rightarrow> explored))"

section \<open>Routing a task\<close>

record routing_row =
  rr_task :: string
  rr_inputs :: "string \<times> string \<times> (string \<Rightarrow> string option) \<times> string list"
  rr_candidates :: "string list"
  rr_chosen :: string
  rr_method :: string
  rr_rule :: "string option"
  rr_propensity :: rat
  rr_created_at :: instant

record router =
  ro_registry :: registry
  ro_ledger :: ledger
  ro_rows :: "routing_row list"
  ro_topo :: "topology option"
  ro_fallback :: string
  ro_epsilon :: rat
  ro_tie :: "tie_breaker option"

datatype route_error =
    NoSnapshot
  | RecordRefused
  | RouteLedger ledger_error
  | NotInSnapshot string

definition record_decision ::
  "instant \<Rightarrow> task \<Rightarrow> route_decision \<Rightarrow> (router, route_error, unit) op" where
  "record_decision now t d r =
     (if find_task (tk_id t) (ro_ledger r) = None
         \<or> rd_method d \<notin> {''rule'', ''llm'', ''explore'', ''fallback''}
      then (Inl RecordRefused, r)
      else (Inr (), r\<lparr>ro_rows := ro_rows r @
        [\<lparr>rr_task = tk_id t, rr_inputs = (tk_source t, tk_kind t, tk_labels t, rd_upstream d),
          rr_candidates = rd_candidates d, rr_chosen = rd_chosen d, rr_method = rd_method d,
          rr_rule = null_if_empty (rd_rule d), rr_propensity = rd_propensity d,
          rr_created_at = now\<rparr>]\<rparr>))"

text \<open>A call on the router's ledger.\<close>

definition on_ledger :: "(ledger, ledger_error, 'a) op \<Rightarrow> (router, route_error, 'a) op" where
  "on_ledger f r = (case f (ro_ledger r) of
      (Inl e, l) \<Rightarrow> (Inl (RouteLedger e), r\<lparr>ro_ledger := l\<rparr>)
    | (Inr a, l) \<Rightarrow> (Inr a, r\<lparr>ro_ledger := l\<rparr>))"

definition park_unrouted :: "clock \<Rightarrow> string \<Rightarrow> (router, route_error, unit) op" where
  "park_unrouted now tid r =
     (case on_ledger (SetStatus now tid StatusWorking ''router'' ''routing'') r of
        (Inl e, r') \<Rightarrow> (Inl e, r')
      | (Inr _, r') \<Rightarrow>
          on_ledger (SetStatus (clock_later 2 now) tid StatusInputRequired ''router''
            ''no matching agent and no fallback'') r')"

definition decision_payload :: "route_decision \<Rightarrow> payload" where
  "decision_payload d = PRouted (rd_task d) (rd_chosen d) (rd_method d) (rd_rule d)
     (rd_candidates d) (rd_propensity d) (rd_upstream d)"

definition enriched :: "router \<Rightarrow> task \<Rightarrow> task \<times> string list" where
  "enriched r t = (case ro_topo r of None \<Rightarrow> (t, [])
     | Some tp \<Rightarrow> (case Enrich tp (tk_labels t) of (ls, up) \<Rightarrow> (t\<lparr>tk_labels := ls\<rparr>, up)))"

definition Route ::
  "rat \<Rightarrow> (nat \<Rightarrow> nat) \<Rightarrow> instant \<Rightarrow> clock \<Rightarrow> task \<Rightarrow> (router, route_error, route_decision) op" where
  "Route draw arm now lnow t0 r =
     (case rg_current (ro_registry r) of
        None \<Rightarrow> (Inl NoSnapshot, r)
      | Some snap \<Rightarrow>
          let (t, upstream) = enriched r t0;
              cands = candidates t (bu_agents (sp_bundle snap));
              d = decide (ro_tie r) (ro_fallback r) (ro_epsilon r) draw arm upstream t cands
          in (case record_decision now t d r of
                (Inl e, r') \<Rightarrow> (Inl e, r')
              | (Inr _, r1) \<Rightarrow>
                  if rd_chosen d = [] then
                    (case park_unrouted lnow (tk_id t) r1 of
                       (Inl e, r') \<Rightarrow> (Inl e, r') | (Inr _, r') \<Rightarrow> (Inr d, r'))
                  else (case Registry_Get (ro_registry r) (rd_chosen d) of
                    None \<Rightarrow> (Inl (NotInSnapshot (rd_chosen d)), r1)
                  | Some (_, verID) \<Rightarrow>
                      (case on_ledger (AssignAgent lnow (tk_id t) (rd_chosen d) verID ''router''
                              (decision_payload d)) r1 of
                         (Inl e, r') \<Rightarrow> (Inl e, r') | (Inr _, r') \<Rightarrow> (Inr d, r')))))"

section \<open>The choice does not depend on the iteration order\<close>

lemma map_filter_mset:
  "mset xs = mset ys \<Longrightarrow> mset (List.map_filter f xs) = mset (List.map_filter f ys)"
proof -
  have "mset (List.map_filter f zs) = image_mset (the \<circ> f) (filter_mset (\<lambda>x. f x \<noteq> None) (mset zs))"
    for zs
    by (simp add: List.map_filter_def)
  then show "mset xs = mset ys \<Longrightarrow> ?thesis" by simp
qed

lemma candidate_of_agent: "candidate_of t na = Some c \<Longrightarrow> ca_agent c = fst na"
  by (auto simp: candidate_of_def split: prod.splits if_splits)

lemma candidates_inj:
  assumes "distinct (map fst agents)"
  shows "inj_on candidate_key (set (List.map_filter (candidate_of t) agents))"
proof (rule inj_onI)
  fix c d
  assume "c \<in> set (List.map_filter (candidate_of t) agents)"
    and "d \<in> set (List.map_filter (candidate_of t) agents)"
    and key: "candidate_key c = candidate_key d"
  then obtain x y where "x \<in> set agents" "candidate_of t x = Some c"
    "y \<in> set agents" "candidate_of t y = Some d"
    by (auto simp: List.map_filter_def)
  moreover from this key have "fst x = fst y"
    using candidate_of_agent [of t x c] candidate_of_agent [of t y d]
    by (simp add: candidate_key_def)
  ultimately show "c = d"
    using assms by (metis distinct_key_eq option.inject)
qed

text \<open>Routing is deterministic up to its declared inputs.  The bundle's agents are a Go map, iterated
  in random order; in whatever order they come, the sorted candidates, and with them the decision for
  given tie breaker, draws and labels, are the same.\<close>

lemma candidates_order_free:
  assumes "distinct (map fst agents)" and "mset agents = mset agents'"
  shows "candidates t agents = candidates t agents'"
proof -
  have m: "mset (List.map_filter (candidate_of t) agents) =
      mset (List.map_filter (candidate_of t) agents')"
    by (rule map_filter_mset [OF assms(2)])
  show ?thesis
    unfolding candidates_def
    by (rule sort_key_inj_key_eq) (use m candidates_inj [OF assms(1)] in simp_all)
qed

lemma candidates_sorted: "sorted (map candidate_key (candidates t agents))"
  by (simp add: candidates_def)

lemma set_candidates:
  "c \<in> set (candidates t agents) \<longleftrightarrow> (\<exists>na \<in> set agents. candidate_of t na = Some c)"
proof
  assume "c \<in> set (candidates t agents)"
  then show "\<exists>na \<in> set agents. candidate_of t na = Some c"
    by (auto simp: candidates_def List.map_filter_def)
next
  assume "\<exists>na \<in> set agents. candidate_of t na = Some c"
  then obtain na where "na \<in> set agents" "candidate_of t na = Some c" ..
  then show "c \<in> set (candidates t agents)"
    by (force simp: candidates_def List.map_filter_def)
qed

lemma candidate_key_le:
  "candidate_key c \<le> candidate_key d \<longleftrightarrow>
   ca_priority c > ca_priority d \<or> (ca_priority c = ca_priority d \<and> ca_agent c \<le> ca_agent d)"
  by (auto simp: candidate_key_def less_eq_prod_def)

text \<open>The deterministic choice.  With no tie breaker and no exploration, and at least one enabled
  agent with a matching trigger, the chosen agent is an enabled, matching agent of the highest
  priority, and among those of that priority the one with the least name; it is chosen with
  probability one.  With no such agent the fallback is chosen.\<close>

lemma decide_deterministic:
  shows "(candidates t agents = [] \<longrightarrow>
       rd_chosen (decide None fb 0 draw arm up t (candidates t agents)) = fb)
    \<and> (candidates t agents \<noteq> [] \<longrightarrow> (\<exists>c na. na \<in> set agents \<and> candidate_of t na = Some c
         \<and> rd_chosen (decide None fb 0 draw arm up t (candidates t agents)) = ca_agent c
         \<and> rd_propensity (decide None fb 0 draw arm up t (candidates t agents)) = 1
         \<and> (\<forall>na' c'. na' \<in> set agents \<and> candidate_of t na' = Some c' \<longrightarrow>
              ca_priority c' < ca_priority c
              \<or> (ca_priority c' = ca_priority c \<and> ca_agent c \<le> ca_agent c'))))"
proof (cases "candidates t agents")
  case Nil
  then show ?thesis by (simp add: decide_def)
next
  case (Cons c rest)
  have "\<forall>d \<in> set rest. candidate_key c \<le> candidate_key d"
    using candidates_sorted [of t agents] Cons by simp
  then have least: "\<forall>d \<in> set (candidates t agents). candidate_key c \<le> candidate_key d"
    using Cons by simp
  have "c \<in> set (candidates t agents)" using Cons by simp
  then obtain na where na: "na \<in> set agents" "candidate_of t na = Some c"
    by (auto simp: set_candidates)
  have "rd_chosen (decide None fb 0 draw arm up t (candidates t agents)) = ca_agent c
      \<and> rd_propensity (decide None fb 0 draw arm up t (candidates t agents)) = 1"
    by (simp add: Cons decide_def Let_def explore_index_def explore_propensity_def top_names_def)
  moreover have "\<forall>na' c'. na' \<in> set agents \<and> candidate_of t na' = Some c' \<longrightarrow>
      ca_priority c' < ca_priority c \<or> (ca_priority c' = ca_priority c \<and> ca_agent c \<le> ca_agent c')"
    using least by (auto simp: set_candidates candidate_key_le)
  ultimately have found: "\<exists>c na. na \<in> set agents \<and> candidate_of t na = Some c
         \<and> rd_chosen (decide None fb 0 draw arm up t (candidates t agents)) = ca_agent c
         \<and> rd_propensity (decide None fb 0 draw arm up t (candidates t agents)) = 1
         \<and> (\<forall>na' c'. na' \<in> set agents \<and> candidate_of t na' = Some c' \<longrightarrow>
              ca_priority c' < ca_priority c
              \<or> (ca_priority c' = ca_priority c \<and> ca_agent c \<le> ca_agent c'))"
    using na by blast
  show ?thesis
  proof (intro conjI impI)
    assume "candidates t agents = []"
    then show "rd_chosen (decide None fb 0 draw arm up t (candidates t agents)) = fb"
      using Cons by simp
  qed (rule found)
qed

text \<open>Witnesses: two agents with the same trigger and priority.\<close>

definition demo_agents :: "(string \<times> agent_spec) list" where
  "demo_agents = [(''web'', demo_agent), (''db'', demo_agent)]"

lemma demo_row_matches:
  "candidate_of demo_row (n, demo_agent) = Some \<lparr>ca_agent = n, ca_rule = [], ca_priority = 0\<rparr>"
  by (simp add: candidate_of_def demo_agent_def matchTrigger_def demo_row_def new_task_def
      demo_input_def source_matches_def cut_suffix_def has_suffix_def)

lemma candidates_order_free_witness:
  "candidates demo_row demo_agents = candidates demo_row (rev demo_agents)"
  by (rule candidates_order_free) (simp_all add: demo_agents_def)

lemma decide_deterministic_witness:
  "rd_chosen (decide None [] 0 0 (\<lambda>n. 0) [] demo_row (candidates demo_row demo_agents)) = ''db''"
proof -
  have "\<lparr>ca_agent = ''db'', ca_rule = [], ca_priority = 0\<rparr> \<in> set (candidates demo_row demo_agents)"
    unfolding set_candidates by (simp add: demo_agents_def demo_row_matches)
  then have "candidates demo_row demo_agents \<noteq> []" by auto
  then obtain c na where c: "na \<in> set demo_agents" "candidate_of demo_row na = Some c"
    "rd_chosen (decide None [] 0 0 (\<lambda>n. 0) [] demo_row (candidates demo_row demo_agents)) = ca_agent c"
    "\<forall>na' c'. na' \<in> set demo_agents \<and> candidate_of demo_row na' = Some c' \<longrightarrow>
       ca_priority c' < ca_priority c \<or> (ca_priority c' = ca_priority c \<and> ca_agent c \<le> ca_agent c')"
    using decide_deterministic [of demo_row demo_agents "[]" 0 "\<lambda>n. 0" "[]"] by blast
  have "(''db'', demo_agent) \<in> set demo_agents" by (simp add: demo_agents_def)
  then have "ca_priority c > 0 \<or> (ca_priority c = 0 \<and> ca_agent c \<le> ''db'')"
    using c(4) demo_row_matches [of "''db''"] by fastforce
  moreover have "\<not> ''web'' \<le> ''db''" by code_simp
  moreover have "ca_priority c = 0" "ca_agent c \<in> {''web'', ''db''}"
    using c(1,2) by (auto simp: demo_agents_def demo_row_matches)
  ultimately show ?thesis
    using c(3) by auto
qed

definition arm_probability :: "rat \<Rightarrow> nat \<Rightarrow> nat \<Rightarrow> rat" where
  "arm_probability eps n i = (1 - eps) * (if i = 0 then 1 else 0) + eps * (1 / of_nat n)"

text \<open>Honest propensities.  Among \<open>n\<close> tied agents, the greedy one is taken when the first draw is not
  below \<open>eps\<close> and otherwise an arm is drawn uniformly.  The probability the code logs for an arm is the
  probability of drawing it, and the logged probabilities of the arms add up to one.\<close>

lemma explore_honest:
  assumes "0 < n"
  shows "(\<forall>i < n. explore_propensity eps n i = arm_probability eps n i)
    \<and> (\<Sum>i < n. explore_propensity eps n i) = 1"
proof -
  have eq: "explore_propensity eps n i = arm_probability eps n i" for i
    by (simp add: explore_propensity_def arm_probability_def)
  have "(\<Sum>i < n. arm_probability eps n i) = (1 - eps) + of_nat n * (eps * (1 / of_nat n))"
    using assms by (simp add: arm_probability_def sum.distrib sum_distrib_left [symmetric])
  then show ?thesis using assms by (simp add: eq)
qed

lemma explore_honest_witness:
  "(\<Sum>i < (3 :: nat). explore_propensity (1 / 4) 3 i) = 1"
proof -
  have "0 < (3 :: nat)" by simp
  from explore_honest [OF this, of "1 / 4"] show ?thesis by blast
qed

text \<open>Unroutable tasks are parked.  With a snapshot loaded, when no agent matches a submitted task and
  there is no fallback, routing succeeds, records a \<open>fallback\<close> decision with nobody chosen, and leaves
  the task waiting for input with both moves in its log.\<close>

lemma Route_parks:
  assumes "rg_current (ro_registry r) = Some snap" and "ro_topo r = None" and "ro_fallback r = []"
    and "find_task (tk_id t) (ro_ledger r) = Some row" and "tk_status row = StatusSubmitted"
    and "\<forall>na \<in> set (bu_agents (sp_bundle snap)). candidate_of t na = None"
  shows "\<exists>d r' row'. Route draw arm now lnow t r = (Inr d, r') \<and> rd_method d = ''fallback''
    \<and> rd_chosen d = [] \<and> find_task (tk_id t) (ro_ledger r') = Some row'
    \<and> tk_status row' = StatusInputRequired
    \<and> (\<exists>x. ro_rows r' = ro_rows r @ [x] \<and> rr_method x = ''fallback'' \<and> rr_chosen x = [])
    \<and> (\<exists>e1 e2. events_of (tk_id t) (ro_ledger r') = events_of (tk_id t) (ro_ledger r) @ [e1, e2]
         \<and> ev_payload e1 = PStatusChange StatusSubmitted StatusWorking ''routing''
         \<and> ev_payload e2 = PStatusChange StatusWorking StatusInputRequired
             ''no matching agent and no fallback'')"
proof -
  have none: "candidates t (bu_agents (sp_bundle snap)) = []"
    using assms(6) by (auto simp: candidates_def List.map_filter_def filter_empty_conv)
  define d where "d = decide (ro_tie r) (ro_fallback r) (ro_epsilon r) draw arm [] t []"
  have d: "rd_method d = ''fallback''" "rd_chosen d = []"
    using assms(3) by (simp_all add: d_def decide_def)
  obtain r1 x where rec: "record_decision now t d r = (Inr (), r1)" "ro_ledger r1 = ro_ledger r"
    "ro_rows r1 = ro_rows r @ [x]" "rr_method x = ''fallback''" "rr_chosen x = []"
    using assms(4) d by (simp add: record_decision_def)
  obtain l1 e1 where one:
    "SetStatus lnow (tk_id t) StatusWorking ''router'' ''routing'' (ro_ledger r) = (Inr (), l1)"
    "find_task (tk_id t) l1 = Some (row\<lparr>tk_status := StatusWorking, tk_updated_at := lnow 0\<rparr>)"
    "events_of (tk_id t) l1 = events_of (tk_id t) (ro_ledger r) @ [e1]"
    "ev_payload e1 = PStatusChange StatusSubmitted StatusWorking ''routing''"
    using SetStatus_result [OF assms(4), of StatusWorking lnow "''router''" "''routing''"] assms(5)
    by (auto simp: CheckTransition_legal)
  let ?now = "clock_later 2 lnow" and ?why = "''no matching agent and no fallback''"
  obtain l2 e2 where two:
    "SetStatus ?now (tk_id t) StatusInputRequired ''router'' ?why l1 = (Inr (), l2)"
    "find_task (tk_id t) l2 =
       Some (row\<lparr>tk_status := StatusInputRequired, tk_updated_at := ?now 0\<rparr>)"
    "events_of (tk_id t) l2 = events_of (tk_id t) l1 @ [e2]"
    "ev_payload e2 = PStatusChange StatusWorking StatusInputRequired ?why"
    using SetStatus_result [OF one(2), of StatusInputRequired ?now "''router''" ?why]
    by (auto simp: CheckTransition_legal)
  have "park_unrouted lnow (tk_id t) r1 = (Inr (), r1\<lparr>ro_ledger := l2\<rparr>)"
    by (simp add: park_unrouted_def on_ledger_def rec(2) one(1) two(1))
  then have "Route draw arm now lnow t r = (Inr d, r1\<lparr>ro_ledger := l2\<rparr>)"
    using rec(1) d
    by (simp add: Route_def assms(1,2) enriched_def none d_def [symmetric] Let_def)
  then show ?thesis
    using d rec two one by auto
qed

definition demo_router :: router where
  "demo_router = \<lparr>
     ro_registry = \<lparr>rg_persistent = False, rg_versions = [],
       rg_current = Some \<lparr>sp_bundle = \<lparr>bu_agents = [], bu_skills = [], bu_policies = []\<rparr>,
         sp_version = 1, sp_ids = [], sp_loaded_at = 0\<rparr>, rg_seq = 1\<rparr>,
     ro_ledger = demo1, ro_rows = [], ro_topo = None, ro_fallback = [], ro_epsilon = 0,
     ro_tie = None\<rparr>"

lemma Route_parks_witness:
  "\<exists>d r' row'. Route 0 (\<lambda>n. 0) 5 (demo_clock 6)
      (new_task (demo_clock 0) ''t1'' (demo_input ''ref1'')) demo_router = (Inr d, r')
    \<and> find_task ''t1'' (ro_ledger r') = Some row' \<and> tk_status row' = StatusInputRequired"
proof -
  let ?t = "new_task (demo_clock 0) ''t1'' (demo_input ''ref1'')"
  have id: "tk_id ?t = ''t1''" by (simp add: new_task_def)
  have "find_task (tk_id ?t) (ro_ledger demo_router) = Some ?t"
    unfolding demo_router_def by (simp add: demo_defs)
  from Route_parks [OF _ _ _ this, of _ 0 "\<lambda>n. 0" 5 "demo_clock 6"] show ?thesis
    unfolding id by (fastforce simp: demo_router_def new_task_def)
qed

end
