(* ===== verification/Facts.thy ===== *)
theory Facts
  imports Complex_Main Db "HOL-Library.Multiset"
begin

text \<open>
  The fact store of \<open>internal/memory\<close>: revisions and tombstones (\<open>memory.go\<close>), the write-time scrub
  (\<open>defense.go\<close>), the outbox rows that ride a write (\<open>outbox.go\<close>) and import and export
  (\<open>export.go\<close>).  A namespace is identified by its name.  SHA-256 over the content, the embedder and the
  regular expressions are parameters; ranking weights, floating point in the code, are exact rationals
  here.  Rows that do not decode, and the advisory staleness flag on generated facts, are left out.
\<close>

section \<open>The store\<close>

datatype json =
    JNull
  | JBool bool
  | JNum rat
  | JStr string
  | JArr "json list"
  | JObj "(string \<times> json) list"

type_synonym attrs = "(string \<times> json) list"

record fact =
  fa_id :: string
  fa_ns :: string
  fa_key :: string
  fa_action :: string
  fa_body :: string
  fa_attrs :: attrs
  fa_author :: string
  fa_created :: instant
  fa_writer :: string
  fa_task :: "string option"
  fa_source :: string
  fa_confidence :: rat
  fa_valid :: "instant option"
  fa_invalid :: "instant option"
  fa_expires :: "instant option"
  fa_embedding :: "string option"
  fa_hash :: string
  fa_importance :: rat
  fa_access :: nat
  fa_feedback :: rat
  fa_reinforcements :: nat

record outbox_row =
  ob_id :: nat
  ob_kind :: string
  ob_key :: string
  ob_payload :: "(string \<times> string) list"
  ob_created :: instant
  ob_delivered :: "instant option"

record memory =
  mm_driver :: driver
  mm_namespaces :: "string list"
  mm_facts :: "fact list"
  mm_outbox :: "outbox_row list"
  mm_next_outbox :: nat

datatype memory_error =
    BadKey string
  | EmptyNamespace
  | NamespaceColon string
  | Sensitive "string list"
  | StaleTarget string
  | DuplicateFact string
  | FactNotFound string string
  | UnknownNamespace string
  | BadLine nat

text \<open>A redaction pattern: its label, the secret of its first match, and the replacement of all its
  matches by a marker.\<close>

record redaction =
  rd_label :: string
  rd_secret :: "string \<Rightarrow> string option"
  rd_replace :: "string \<Rightarrow> string \<Rightarrow> string"

record mem_env =
  en_hash :: "string \<Rightarrow> string \<Rightarrow> attrs \<Rightarrow> string"
  en_embed :: "string \<Rightarrow> string \<Rightarrow> string option"
  en_redactions :: "redaction list"
  en_defense :: string
  en_policies :: "(string \<times> string) list"

record write_input =
  wi_ns :: string
  wi_key :: string
  wi_body :: string
  wi_attrs :: attrs
  wi_author :: string
  wi_writer :: string
  wi_task :: string
  wi_source :: string
  wi_confidence :: rat
  wi_expires :: "instant option"
  wi_importance :: rat

section \<open>Keys\<close>

definition ValidateKey :: "string \<Rightarrow> memory_error + unit" where
  "ValidateKey key =
     (if \<not> has_prefix key ''/'' \<or> length key < 2 then Inl (BadKey key)
      else if contains_sub key ''//'' \<or> has_suffix key ''/'' then Inl (BadKey key)
      else Inr ())"

text \<open>\<open>LIKE ... ESCAPE '\'\<close>.  SQLite folds the case of ASCII letters, Postgres does not.  The one-character
  wildcard is only ever written escaped here.\<close>

fun like :: "(char \<Rightarrow> char) \<Rightarrow> string \<Rightarrow> string \<Rightarrow> bool" where
  "like fold_case [] s = (s = [])"
| "like fold_case (p # ps) s =
     (if p = CHR ''%'' then like fold_case ps s \<or> (case s of [] \<Rightarrow> False | _ # t \<Rightarrow> like fold_case (p # ps) t)
      else if p = CHR ''_'' then (case s of [] \<Rightarrow> False | _ # t \<Rightarrow> like fold_case ps t)
      else if p = CHR 0x5C then
        (case ps of [] \<Rightarrow> False
         | q # qs \<Rightarrow> (case s of [] \<Rightarrow> False | c # t \<Rightarrow> fold_case c = fold_case q \<and> like fold_case qs t))
      else (case s of [] \<Rightarrow> False | c # t \<Rightarrow> fold_case c = fold_case p \<and> like fold_case ps t))"

definition like_fold :: "driver \<Rightarrow> char \<Rightarrow> char" where
  "like_fold d = (case d of SQLite \<Rightarrow> lower_char | Postgres \<Rightarrow> id)"

definition likePrefix :: "string \<Rightarrow> string" where
  "likePrefix p =
     concat (map (\<lambda>c. if c \<in> {CHR 0x5C, CHR ''%'', CHR ''_''} then [CHR 0x5C, c] else [c]) p) @ ''%''"

definition key_like :: "memory \<Rightarrow> string \<Rightarrow> string \<Rightarrow> bool" where
  "key_like m prefix key \<longleftrightarrow> like (like_fold (mm_driver m)) (likePrefix prefix) key"

text \<open>\<open>prefixUpper\<close> walks from the last byte to the first.\<close>

fun bump_last :: "string \<Rightarrow> string option" where
  "bump_last [] = None"
| "bump_last (c # rev_rest) =
     (if byte c < 255 then Some (rev rev_rest @ [char_of (byte c + 1)]) else bump_last rev_rest)"

definition prefixUpper :: "string \<Rightarrow> string option" where
  "prefixUpper p = bump_last (rev p)"

section \<open>Scrubbing\<close>

definition ellipsis :: string where "ellipsis = map char_of [226, 128, 166 :: nat]"

definition Fingerprint :: "string \<Rightarrow> string" where
  "Fingerprint raw =
     (if length raw < 12 then ''[redacted]''
      else take 4 raw @ ellipsis @ drop (length raw - 4) raw)"

fun scrub_loop :: "redaction list \<Rightarrow> string \<Rightarrow> string \<times> string list \<times> string list" where
  "scrub_loop [] body = (body, [], [])"
| "scrub_loop (r # rs) body =
     (case rd_secret r body of
        None \<Rightarrow> scrub_loop rs body
      | Some secret \<Rightarrow>
          (case scrub_loop rs (rd_replace r (''[REDACTED:'' @ rd_label r @ '']'') body) of
             (b, ls, fs) \<Rightarrow> (b, rd_label r # ls, Fingerprint secret # fs)))"

definition ScrubAudited :: "mem_env \<Rightarrow> string \<Rightarrow> string \<times> string list \<times> string list" where
  "ScrubAudited env body = scrub_loop (en_redactions env) body"

definition Scrub :: "mem_env \<Rightarrow> string \<Rightarrow> string \<times> string list" where
  "Scrub env body = (case ScrubAudited env body of (b, ls, _) \<Rightarrow> (b, ls))"

definition SetDefense :: "string \<Rightarrow> mem_env \<Rightarrow> mem_env" where
  "SetDefense mode env = env\<lparr>en_defense := mode\<rparr>"

definition SetDefensePolicy :: "string \<Rightarrow> string \<Rightarrow> mem_env \<Rightarrow> mem_env" where
  "SetDefensePolicy ns mode env =
     env\<lparr>en_policies := (ns, mode) # filter (\<lambda>(n, _). n \<noteq> ns) (en_policies env)\<rparr>"

definition defenseMode :: "mem_env \<Rightarrow> string \<Rightarrow> string" where
  "defenseMode env ns = (case map_of (en_policies env) ns of Some mode \<Rightarrow> mode | None \<Rightarrow> en_defense env)"

section \<open>Namespaces, revisions and the outbox\<close>

definition ensureNamespace :: "string \<Rightarrow> (memory, memory_error, unit) op" where
  "ensureNamespace ns m =
     (if ns = [] then (Inl EmptyNamespace, m)
      else if CHR '':'' \<in> set ns then (Inl (NamespaceColon ns), m)
      else (Inr (), m\<lparr>mm_namespaces :=
        (if ns \<in> set (mm_namespaces m) then mm_namespaces m else mm_namespaces m @ [ns])\<rparr>))"

definition of_key :: "string \<Rightarrow> string \<Rightarrow> fact \<Rightarrow> bool" where
  "of_key ns key f \<longleftrightarrow> fa_ns f = ns \<and> fa_key f = key"

text \<open>\<open>ORDER BY created_at DESC, id DESC LIMIT 1\<close>.\<close>

definition newest :: "fact list \<Rightarrow> fact option" where
  "newest fs = (case rev (sort_key fa_created (sort_key fa_id fs)) of [] \<Rightarrow> None | f # _ \<Rightarrow> Some f)"

definition latest_revision :: "string \<Rightarrow> string \<Rightarrow> memory \<Rightarrow> fact option" where
  "latest_revision ns key m = newest (filter (of_key ns key) (mm_facts m))"

definition liveAction :: "string \<Rightarrow> string \<Rightarrow> memory \<Rightarrow> string" where
  "liveAction ns key m =
     (case latest_revision ns key m of
        None \<Rightarrow> ''add''
      | Some f \<Rightarrow> if fa_action f = ''tombstone'' then ''add'' else ''update'')"

definition open_of_key :: "string \<Rightarrow> string \<Rightarrow> fact \<Rightarrow> bool" where
  "open_of_key ns key f \<longleftrightarrow> of_key ns key f \<and> fa_invalid f = None"

definition live_head :: "string \<Rightarrow> string \<Rightarrow> memory \<Rightarrow> fact option" where
  "live_head ns key m = newest (filter (open_of_key ns key) (mm_facts m))"

definition liveHeadIDTx :: "string \<Rightarrow> string \<Rightarrow> memory \<Rightarrow> string" where
  "liveHeadIDTx ns key m = (case live_head ns key m of None \<Rightarrow> [] | Some f \<Rightarrow> fa_id f)"

definition entityPlanHead :: "instant \<Rightarrow> string \<Rightarrow> string \<Rightarrow> memory \<Rightarrow> (fact \<times> bool) option" where
  "entityPlanHead now ns key m =
     (case live_head ns key m of
        None \<Rightarrow> None
      | Some f \<Rightarrow> Some (f, fa_action f \<noteq> ''tombstone''
          \<and> (case fa_expires f of None \<Rightarrow> True | Some e \<Rightarrow> e > now)))"

definition outboxTx :: "instant \<Rightarrow> string \<Rightarrow> string \<Rightarrow> (string \<times> string) list \<Rightarrow> memory \<Rightarrow> memory" where
  "outboxTx now kind key payload m =
     m\<lparr>mm_outbox := mm_outbox m @ [\<lparr>ob_id = mm_next_outbox m, ob_kind = kind, ob_key = key,
         ob_payload = payload, ob_created = now, ob_delivered = None\<rparr>],
       mm_next_outbox := Suc (mm_next_outbox m)\<rparr>"

definition bus_key :: "string \<Rightarrow> string \<Rightarrow> string" where
  "bus_key ns key = ns @ CHR '':'' # key"

definition preserveEntityAttrs :: "attrs \<Rightarrow> attrs \<Rightarrow> attrs" where
  "preserveEntityAttrs prior derived =
     derived @ filter (\<lambda>(k, _). k \<notin> fst ` set derived) prior"

definition entityMergeLineageAttrs :: "string list" where
  "entityMergeLineageAttrs = [''merges'', ''merge_base'', ''merged_into'', ''merge_id'']"

definition carryEntityMergeLineage :: "attrs \<Rightarrow> fact \<Rightarrow> attrs" where
  "carryEntityMergeLineage ats cur =
     preserveEntityAttrs ats (filter (\<lambda>(k, _). k \<in> set entityMergeLineageAttrs) (fa_attrs cur))"

section \<open>Writing\<close>

record write_plan =
  pl_in :: write_input
  pl_fact :: fact
  pl_hash :: string
  pl_labels :: "string list"
  pl_prints :: "string list"
  pl_expect_prev :: string
  pl_expect_absent :: bool

definition clamp01 :: "rat \<Rightarrow> rat" where
  "clamp01 x = (if x < 0 then 0 else if x > 1 then 1 else x)"

definition audit_payload :: "string \<Rightarrow> string \<Rightarrow> string list \<Rightarrow> string list \<Rightarrow> (string \<times> string) list" where
  "audit_payload ns key labels prints =
     [(''namespace'', ns), (''key'', key), (''labels'', join_with '','' labels),
      (''fingerprints'', join_with '','' prints)]"

definition planned_fact :: "mem_env \<Rightarrow> instant \<Rightarrow> string \<Rightarrow> write_input \<Rightarrow> fact" where
  "planned_fact env now fid inp =
     \<lparr>fa_id = fid, fa_ns = wi_ns inp, fa_key = wi_key inp, fa_action = [], fa_body = wi_body inp,
      fa_attrs = wi_attrs inp, fa_author = wi_author inp, fa_created = now,
      fa_writer = wi_writer inp, fa_task = (if wi_task inp = [] then None else Some (wi_task inp)),
      fa_source = wi_source inp, fa_confidence = wi_confidence inp, fa_valid = Some now,
      fa_invalid = None, fa_expires = wi_expires inp,
      fa_embedding = en_embed env (wi_key inp) (wi_body inp),
      fa_hash = en_hash env (wi_key inp) (wi_body inp) (wi_attrs inp),
      fa_importance = wi_importance inp, fa_access = 0, fa_feedback = 1 / 2,
      fa_reinforcements = 0\<rparr>"

text \<open>The scrub of \<open>writePrepare\<close>: the body to store with what was found in it, or the labels a blocked
  write is refused with.\<close>

definition defend :: "mem_env \<Rightarrow> string \<Rightarrow> string \<Rightarrow> (string list \<times> string list) + (string \<times> string list \<times> string list)" where
  "defend env ns body =
     (let mode = defenseMode env ns in
      if mode = ''redact'' then Inr (ScrubAudited env body)
      else if mode = ''block'' then
        (case ScrubAudited env body of
           (_, labels, prints) \<Rightarrow> if labels \<noteq> [] then Inl (labels, prints) else Inr (body, [], []))
      else Inr (body, [], []))"

definition writePrepare :: "mem_env \<Rightarrow> instant \<Rightarrow> string \<Rightarrow> write_input \<Rightarrow> (memory, memory_error, write_plan) op" where
  "writePrepare env now fid inp m =
     (case ValidateKey (wi_key inp) of
        Inl e \<Rightarrow> (Inl e, m)
      | Inr _ \<Rightarrow>
          (case defend env (wi_ns inp) (wi_body inp) of
             Inl (labels, prints) \<Rightarrow>
               (Inl (Sensitive labels), outboxTx now ''defense'' (bus_key (wi_ns inp) (wi_key inp))
                  (audit_payload (wi_ns inp) (wi_key inp) labels prints) m)
           | Inr (body, labels, prints) \<Rightarrow>
               (let inp' = inp\<lparr>wi_body := body, wi_importance := clamp01 (wi_importance inp)\<rparr>;
                    f = planned_fact env now fid inp'
                in (Inr \<lparr>pl_in = inp', pl_fact = f, pl_hash = fa_hash f, pl_labels = labels,
                       pl_prints = prints, pl_expect_prev = [], pl_expect_absent = False\<rparr>, m))))"

definition invalidate :: "instant \<Rightarrow> (fact \<Rightarrow> bool) \<Rightarrow> memory \<Rightarrow> memory" where
  "invalidate now P m =
     m\<lparr>mm_facts := update_where P (\<lambda>f. f\<lparr>fa_invalid := Some now\<rparr>) (mm_facts m)\<rparr>"

definition append_fact :: "fact \<Rightarrow> memory \<Rightarrow> memory" where
  "append_fact f m = m\<lparr>mm_facts := mm_facts m @ [f]\<rparr>"

definition reinforce :: "string \<Rightarrow> memory \<Rightarrow> memory" where
  "reinforce fid m =
     m\<lparr>mm_facts := update_where (\<lambda>f. fa_id f = fid)
        (\<lambda>f. f\<lparr>fa_reinforcements := fa_reinforcements f + 1\<rparr>) (mm_facts m)\<rparr>"

text \<open>The rows a plan's transaction closes: the pinned predecessor, or every open revision of the key.\<close>

definition closes :: "write_plan \<Rightarrow> fact \<Rightarrow> bool" where
  "closes p f \<longleftrightarrow> open_of_key (wi_ns (pl_in p)) (wi_key (pl_in p)) f
     \<and> (pl_expect_prev p \<noteq> [] \<longrightarrow> fa_id f = pl_expect_prev p)"

definition state_attr :: "attrs \<Rightarrow> (string \<times> string) list" where
  "state_attr ats = (case map_of ats ''state'' of
      Some (JStr st) \<Rightarrow> if st \<noteq> [] then [(''state'', st)] else []
    | _ \<Rightarrow> [])"

definition write_events :: "instant \<Rightarrow> write_plan \<Rightarrow> string \<Rightarrow> bool \<Rightarrow> memory \<Rightarrow> memory" where
  "write_events now p action outbox m =
     (let inp = pl_in p; key = bus_key (wi_ns inp) (wi_key inp);
          m1 = (if outbox then outboxTx now ''memory'' key
                 ([(''namespace'', wi_ns inp), (''key'', wi_key inp), (''action'', action),
                   (''writer'', wi_writer inp)] @ state_attr (wi_attrs inp)) m
                else m)
      in if pl_labels p \<noteq> [] then outboxTx now ''defense'' key
           (audit_payload (wi_ns inp) (wi_key inp) (pl_labels p) (pl_prints p)) m1
         else m1)"

text \<open>\<open>writeTx\<close>, after the duplicate check: the baseline checks, the predecessor's window, the revision
  and the events.\<close>

definition write_revision :: "instant \<Rightarrow> write_plan \<Rightarrow> bool \<Rightarrow> (memory, memory_error, bool \<times> fact) op" where
  "write_revision now p outbox m =
     (let ns = wi_ns (pl_in p); key = wi_key (pl_in p);
          action = liveAction ns key m;
          f = (pl_fact p)\<lparr>fa_action := action\<rparr>
      in if pl_expect_absent p \<and> liveHeadIDTx ns key m \<noteq> [] then (Inl (StaleTarget key), m)
         else if pl_expect_prev p \<noteq> [] \<and> rows_affected (closes p) (mm_facts m) \<noteq> 1
           then (Inl (StaleTarget key), m)
         else if fa_id f \<in> fa_id ` set (mm_facts m) then (Inl (DuplicateFact (fa_id f)), m)
         else (Inr (False, f),
           write_events now p action outbox
             (append_fact f (invalidate (fa_created f) (closes p) m))))"

definition writeTx :: "instant \<Rightarrow> write_plan \<Rightarrow> bool \<Rightarrow> (memory, memory_error, bool \<times> fact) op" where
  "writeTx now p outbox m =
     (let ns = wi_ns (pl_in p); key = wi_key (pl_in p) in
      case ensureNamespace ns m of
        (Inl e, m1) \<Rightarrow> (Inl e, m1)
      | (Inr _, m1) \<Rightarrow>
          (case latest_revision ns key m1 of
             Some f \<Rightarrow>
               if fa_hash f = pl_hash p \<and> fa_action f \<noteq> ''tombstone''
               then (Inr (True, pl_fact p), reinforce (fa_id f) m1)
               else write_revision now p outbox m1
           | None \<Rightarrow> write_revision now p outbox m1))"

section \<open>Reading\<close>

definition unexpired :: "instant \<Rightarrow> fact \<Rightarrow> bool" where
  "unexpired now f \<longleftrightarrow> (case fa_expires f of None \<Rightarrow> True | Some e \<Rightarrow> e > now)"

text \<open>The join of the latest-revision queries: a row is kept when no revision of its key, among those
  the inner query saw, is newer.\<close>

definition is_latest :: "fact list \<Rightarrow> fact \<Rightarrow> bool" where
  "is_latest fs f \<longleftrightarrow> (\<forall>x \<in> set fs. of_key (fa_ns f) (fa_key f) x \<longrightarrow> fa_created x \<le> fa_created f)"

definition latest_live :: "instant \<Rightarrow> string \<Rightarrow> (string \<Rightarrow> bool) \<Rightarrow> memory \<Rightarrow> fact list" where
  "latest_live now ns P m =
     sort_key fa_key (filter (\<lambda>f. fa_ns f = ns \<and> P (fa_key f) \<and> is_latest (mm_facts m) f
       \<and> fa_action f \<noteq> ''tombstone'' \<and> unexpired now f) (mm_facts m))"

definition recallPrefix :: "instant \<Rightarrow> string \<Rightarrow> string \<Rightarrow> nat \<Rightarrow> memory \<Rightarrow> fact list" where
  "recallPrefix now ns prefix limit m =
     (if ns \<notin> set (mm_namespaces m) then []
      else take limit (latest_live now ns (key_like m prefix) m))"

definition page_limit :: "int \<Rightarrow> nat" where
  "page_limit limit = (if limit \<le> 0 \<or> limit > 1000 then 1000 else nat limit)"

definition Recall :: "instant \<Rightarrow> string \<Rightarrow> string \<Rightarrow> int \<Rightarrow> memory \<Rightarrow> fact list" where
  "Recall now ns prefix limit m = recallPrefix now ns prefix (page_limit limit) m"

definition recallPrefixRange :: "instant \<Rightarrow> string \<Rightarrow> string \<Rightarrow> nat \<Rightarrow> memory \<Rightarrow> fact list" where
  "recallPrefixRange now ns prefix limit m =
     (case prefixUpper prefix of
        Some hi \<Rightarrow>
          if mm_driver m = SQLite then
            (if ns \<notin> set (mm_namespaces m) then []
             else take limit (latest_live now ns
               (\<lambda>k. prefix \<le> k \<and> k < hi \<and> key_like m prefix k) m))
          else recallPrefix now ns prefix limit m
      | None \<Rightarrow> recallPrefix now ns prefix limit m)"

definition queryLiveByKeys :: "instant \<Rightarrow> string \<Rightarrow> string list \<Rightarrow> memory \<Rightarrow> fact list" where
  "queryLiveByKeys now ns ks m =
     (if ks = [] \<or> ns \<notin> set (mm_namespaces m) then [] else latest_live now ns (\<lambda>k. k \<in> set ks) m)"

definition valid_during :: "instant \<Rightarrow> fact \<Rightarrow> bool" where
  "valid_during t f \<longleftrightarrow>
     (case fa_valid f of None \<Rightarrow> fa_created f \<le> t | Some v \<Rightarrow> v \<le> t)
     \<and> (case fa_invalid f of None \<Rightarrow> True | Some i \<Rightarrow> i > t)"

definition RecallAsOf :: "string \<Rightarrow> string \<Rightarrow> instant \<Rightarrow> int \<Rightarrow> memory \<Rightarrow> fact list" where
  "RecallAsOf ns prefix t limit m =
     (if ns \<notin> set (mm_namespaces m) then []
      else take (page_limit limit) (sort_key fa_key
        (filter (\<lambda>f. fa_ns f = ns \<and> key_like m prefix (fa_key f) \<and> fa_action f \<noteq> ''tombstone''
          \<and> valid_during t f) (mm_facts m))))"

definition ListKeys :: "string \<Rightarrow> string \<Rightarrow> memory \<Rightarrow> string list" where
  "ListKeys ns prefix m =
     (if ns \<notin> set (mm_namespaces m) then []
      else map fa_key (sort_key fa_key (filter (\<lambda>f. fa_ns f = ns \<and> key_like m prefix (fa_key f)
        \<and> is_latest (mm_facts m) f \<and> fa_action f \<noteq> ''tombstone'') (mm_facts m))))"

section \<open>The operations\<close>

definition write_fact :: "mem_env \<Rightarrow> clock \<Rightarrow> string \<Rightarrow> write_input \<Rightarrow> bool \<Rightarrow> (memory, memory_error, fact) op" where
  "write_fact env now fid inp outbox m =
     (case writePrepare env (now 0) fid inp m of
        (Inl e, m1) \<Rightarrow> (Inl e, m1)
      | (Inr p, m1) \<Rightarrow>
          (case with_tx (writeTx (now 1) p outbox) m1 of
             (Inl e, m2) \<Rightarrow> (Inl e, m2)
           | (Inr (deduped, f), m2) \<Rightarrow>
               if deduped then
                 (case Recall (now 2) (wi_ns (pl_in p)) (wi_key (pl_in p)) 1 m2 of
                    [g] \<Rightarrow> (Inr g, m2) | _ \<Rightarrow> (Inr f, m2))
               else (Inr f, m2)))"

definition Write :: "mem_env \<Rightarrow> clock \<Rightarrow> string \<Rightarrow> write_input \<Rightarrow> (memory, memory_error, fact) op" where
  "Write env now fid inp = write_fact env now fid inp True"

definition writeNoOutbox :: "mem_env \<Rightarrow> clock \<Rightarrow> string \<Rightarrow> write_input \<Rightarrow> (memory, memory_error, fact) op" where
  "writeNoOutbox env now fid inp = write_fact env now fid inp False"

definition Remember ::
  "mem_env \<Rightarrow> clock \<Rightarrow> string \<Rightarrow> string \<Rightarrow> string \<Rightarrow> string \<Rightarrow> attrs \<Rightarrow> string
   \<Rightarrow> (memory, memory_error, fact) op" where
  "Remember env now fid ns key body ats author = Write env now fid
     \<lparr>wi_ns = ns, wi_key = key, wi_body = body, wi_attrs = ats, wi_author = author,
      wi_writer = author, wi_task = [], wi_source = [], wi_confidence = 0, wi_expires = None,
      wi_importance = 0\<rparr>"

definition tombstone :: "string \<Rightarrow> instant \<Rightarrow> string \<Rightarrow> string \<Rightarrow> string \<Rightarrow> fact" where
  "tombstone fid now ns key author =
     \<lparr>fa_id = fid, fa_ns = ns, fa_key = key, fa_action = ''tombstone'', fa_body = [], fa_attrs = [],
      fa_author = author, fa_created = now, fa_writer = author, fa_task = None, fa_source = [],
      fa_confidence = 0, fa_valid = Some now, fa_invalid = None, fa_expires = None,
      fa_embedding = None, fa_hash = [], fa_importance = 0, fa_access = 0, fa_feedback = 1 / 2,
      fa_reinforcements = 0\<rparr>"

definition forget_body :: "clock \<Rightarrow> string \<Rightarrow> string \<Rightarrow> string \<Rightarrow> string \<Rightarrow> (memory, memory_error, unit) op" where
  "forget_body now fid ns key author m =
     (case ensureNamespace ns m of
        (Inl e, m1) \<Rightarrow> (Inl e, m1)
      | (Inr _, m1) \<Rightarrow>
          if liveAction ns key m1 = ''add'' then (Inl (FactNotFound ns key), m1)
          else if fid \<in> fa_id ` set (mm_facts m1) then (Inl (DuplicateFact fid), m1)
          else (Inr (), outboxTx (now 1) ''memory'' (bus_key ns key)
            [(''namespace'', ns), (''key'', key), (''action'', ''tombstone''), (''writer'', author)]
            (append_fact (tombstone fid (now 0) ns key author)
              (invalidate (now 0) (open_of_key ns key) m1))))"

definition Forget :: "clock \<Rightarrow> string \<Rightarrow> string \<Rightarrow> string \<Rightarrow> string \<Rightarrow> (memory, memory_error, unit) op" where
  "Forget now fid ns key author m =
     (case ValidateKey key of
        Inl e \<Rightarrow> (Inl e, m)
      | Inr _ \<Rightarrow> with_tx (forget_body now fid ns key author) m)"

definition TouchAccess :: "string list \<Rightarrow> memory \<Rightarrow> memory" where
  "TouchAccess ids m =
     m\<lparr>mm_facts := update_where (\<lambda>f. fa_id f \<in> set ids) (\<lambda>f. f\<lparr>fa_access := fa_access f + 1\<rparr>)
        (mm_facts m)\<rparr>"

definition feedbackAlpha :: rat where "feedbackAlpha = 3 / 10"

definition RecordFeedback :: "string \<Rightarrow> string list \<Rightarrow> rat \<Rightarrow> memory \<Rightarrow> memory" where
  "RecordFeedback ns ids rating m =
     (if ids = [] \<or> ns \<notin> set (mm_namespaces m) then m
      else m\<lparr>mm_facts := update_where (\<lambda>f. fa_id f \<in> set ids \<and> fa_ns f = ns)
        (\<lambda>f. f\<lparr>fa_feedback := max 0 (min 1
           (fa_feedback f + feedbackAlpha * (clamp01 rating - fa_feedback f)))\<rparr>) (mm_facts m)\<rparr>)"

text \<open>The three deletes of \<open>SweepRetention\<close>, in order.\<close>

definition superseded :: "fact list \<Rightarrow> fact \<Rightarrow> bool" where
  "superseded fs f \<longleftrightarrow> (\<exists>x \<in> set fs. of_key (fa_ns f) (fa_key f) x \<and> fa_created x > fa_created f)"

definition sweep_facts :: "instant \<Rightarrow> instant \<Rightarrow> fact list \<Rightarrow> fact list" where
  "sweep_facts cutoff now fs =
     (let fs1 = filter (\<lambda>f. \<not> (fa_created f < cutoff \<and> superseded fs f)) fs;
          fs2 = filter (\<lambda>f. \<not> (fa_action f = ''tombstone'' \<and> fa_created f < cutoff
                  \<and> \<not> superseded fs1 f)) fs1
      in filter (\<lambda>f. \<not> (case fa_expires f of None \<Rightarrow> False | Some e \<Rightarrow> e < now)) fs2)"

definition SweepRetention :: "clock \<Rightarrow> duration \<Rightarrow> memory \<Rightarrow> nat \<times> memory" where
  "SweepRetention now retention m =
     (if retention \<le> 0 then (0, m)
      else let fs = sweep_facts (now 0 - retention) (now 1) (mm_facts m) in
        (length (mm_facts m) - length fs, m\<lparr>mm_facts := fs\<rparr>))"

section \<open>Export and import\<close>

record export_record =
  ex_id :: string
  ex_key :: string
  ex_action :: string
  ex_body :: string
  ex_attrs :: attrs
  ex_author :: string
  ex_created :: "instant option"

definition export_of :: "fact \<Rightarrow> export_record" where
  "export_of f = \<lparr>ex_id = fa_id f, ex_key = fa_key f, ex_action = fa_action f, ex_body = fa_body f,
     ex_attrs = fa_attrs f, ex_author = fa_author f, ex_created = Some (fa_created f)\<rparr>"

definition ExportJSONL :: "string \<Rightarrow> memory \<Rightarrow> memory_error + export_record list" where
  "ExportJSONL ns m =
     (if ns \<notin> set (mm_namespaces m) then Inl (UnknownNamespace ns)
      else Inr (map export_of (sort_key fa_created (sort_key fa_id
        (filter (\<lambda>f. fa_ns f = ns) (mm_facts m))))))"

text \<open>A line of the stream, decoded: blank, not JSON, or a record, whose time may not parse.\<close>

datatype import_line = BlankLine | NotJson | Line export_record

definition imported_fact :: "string \<Rightarrow> string \<Rightarrow> instant \<Rightarrow> export_record \<Rightarrow> fact" where
  "imported_fact ns body created r =
     \<lparr>fa_id = ex_id r, fa_ns = ns, fa_key = ex_key r, fa_action = ex_action r, fa_body = body,
      fa_attrs = ex_attrs r, fa_author = ex_author r, fa_created = created, fa_writer = [],
      fa_task = None, fa_source = [], fa_confidence = 0, fa_valid = None, fa_invalid = None,
      fa_expires = None, fa_embedding = None, fa_hash = [], fa_importance = 0, fa_access = 0,
      fa_feedback = 1 / 2, fa_reinforcements = 0\<rparr>"

text \<open>The mode here is the store's global one.\<close>

fun import_loop ::
  "mem_env \<Rightarrow> string \<Rightarrow> import_line list \<Rightarrow> nat \<Rightarrow> nat \<times> nat \<times> nat \<Rightarrow> (memory, memory_error, nat \<times> nat \<times> nat) op" where
  "import_loop env ns [] line counts m = (Inr counts, m)"
| "import_loop env ns (l # ls) line (imported, skipped, blocked) m =
     (case l of
        BlankLine \<Rightarrow> import_loop env ns ls (Suc line) (imported, skipped, blocked) m
      | NotJson \<Rightarrow> (Inl (BadLine line), m)
      | Line r \<Rightarrow>
          if ex_id r = [] \<or> ex_key r = [] then (Inl (BadLine line), m)
          else if ex_action r \<notin> {''add'', ''update'', ''tombstone''} then (Inl (BadLine line), m)
          else case ex_created r of
            None \<Rightarrow> (Inl (BadLine line), m)
          | Some created \<Rightarrow>
              if en_defense env = ''block'' \<and> snd (Scrub env (ex_body r)) \<noteq> []
              then import_loop env ns ls (Suc line) (imported, skipped, Suc blocked) m
              else
                let body = (if en_defense env = ''redact'' then fst (Scrub env (ex_body r)) else ex_body r) in
                if ex_id r \<in> fa_id ` set (mm_facts m)
                then import_loop env ns ls (Suc line) (imported, Suc skipped, blocked) m
                else import_loop env ns ls (Suc line) (Suc imported, skipped, blocked)
                  (append_fact (imported_fact ns body created r) m))"

definition import_body ::
  "mem_env \<Rightarrow> string \<Rightarrow> import_line list \<Rightarrow> (memory, memory_error, nat \<times> nat \<times> nat) op" where
  "import_body env ns ls m =
     (case ensureNamespace ns m of
        (Inl e, m1) \<Rightarrow> (Inl e, m1)
      | (Inr _, m1) \<Rightarrow> import_loop env ns ls 1 (0, 0, 0) m1)"

definition ImportJSONL ::
  "mem_env \<Rightarrow> string \<Rightarrow> import_line list \<Rightarrow> (memory, memory_error, nat \<times> nat \<times> nat) op" where
  "ImportJSONL env ns ls = with_tx (import_body env ns ls)"

end
