(* ===== verification/Facts_Proofs.thy ===== *)
theory Facts_Proofs
  imports Facts
begin

text \<open>
  What holds of the fact store: prefix queries find exactly the keys under the prefix, a write is read
  back, the past does not change, and three ways in which a fact is lost, comes back or escapes the
  scrub.
\<close>

section \<open>Prefix queries\<close>

lemma like_star: "like f ''%'' s"
  by (induction s) auto

lemma like_escaped:
  "like f (concat (map (\<lambda>c. if c \<in> {CHR 0x5C, CHR ''%'', CHR ''_''} then [CHR 0x5C, c] else [c]) p) @ pat) s
   \<longleftrightarrow> length p \<le> length s \<and> map f (take (length p) s) = map f p \<and> like f pat (drop (length p) s)"
proof (induction p arbitrary: s)
  case Nil
  then show ?case by simp
next
  case (Cons c p)
  show ?case
  proof (cases s)
    case Nil
    then show ?thesis by auto
  next
    case (Cons d t)
    then show ?thesis using Cons.IH [of t] by auto
  qed
qed

text \<open>The pattern of a prefix matches exactly the keys that begin with it, up to the driver's case
  folding.\<close>

lemma key_like_iff:
  "key_like m prefix key \<longleftrightarrow> length prefix \<le> length key
     \<and> map (like_fold (mm_driver m)) (take (length prefix) key) = map (like_fold (mm_driver m)) prefix"
  unfolding key_like_def likePrefix_def like_escaped by (simp only: like_star simp_thms)

lemma key_like_prefix: "has_prefix key prefix \<Longrightarrow> key_like m prefix key"
  by (auto simp: key_like_iff has_prefix_append)

lemma key_like_postgres: "mm_driver m = Postgres \<Longrightarrow> key_like m prefix key \<longleftrightarrow> has_prefix key prefix"
  using has_prefix_length [of key prefix] by (auto simp: key_like_iff has_prefix_def like_fold_def)

lemma byte_bound: "byte c < 256"
  by (cases c) (simp add: byte_def of_char_def horner_sum_simps split: bool.split)

lemma char_of_byte [simp]: "char_of (byte c) = c"
  by (simp add: byte_def)

text \<open>The upper bound: the prefix up to its last byte below 255, that byte incremented.\<close>

lemma prefixUpper_Some:
  assumes "prefixUpper p = Some hi"
  shows "\<exists>q c r. p = q @ c # r \<and> (\<forall>x \<in> set r. byte x = 255) \<and> byte c < 255 \<and> hi = q @ [char_of (byte c + 1)]"
proof -
  have "bump_last s = Some hi \<Longrightarrow>
      \<exists>q c r. rev s = q @ c # r \<and> (\<forall>x \<in> set r. byte x = 255) \<and> byte c < 255 \<and> hi = q @ [char_of (byte c + 1)]" for s
  proof (induction s)
    case Nil
    then show ?case by simp
  next
    case (Cons c s)
    show ?case
    proof (cases "byte c < 255")
      case True
      then show ?thesis using Cons.prems by (intro exI [of _ "rev s"] exI [of _ c] exI [of _ "[]"]) auto
    next
      case False
      then have "byte c = 255" using byte_bound [of c] by simp
      moreover obtain q d r where "rev s = q @ d # r" "\<forall>x \<in> set r. byte x = 255" "byte d < 255"
        "hi = q @ [char_of (byte d + 1)]"
        using Cons False by auto
      ultimately show ?thesis
        by (intro exI [of _ q] exI [of _ d] exI [of _ "r @ [c]"]) auto
    qed
  qed
  from this [of "rev p"] assms show ?thesis by (simp add: prefixUpper_def)
qed


lemma char_eq_iff: "(c :: char) = d \<longleftrightarrow> byte c = byte d"
  by (metis char_of_byte)

lemma ff_prefix: "\<forall>x \<in> set r. byte x = 255 \<Longrightarrow> r \<le> u \<longleftrightarrow> has_prefix u r"
proof (induction r arbitrary: u)
  case Nil
  then show ?case by simp
next
  case (Cons x r)
  note IH = Cons.IH and prem = Cons.prems
  show ?case
  proof (cases u)
    case Nil
    then show ?thesis by (simp add: has_prefix_def)
  next
    case (Cons a t)
    have "\<not> x < a" using prem byte_bound [of a] by (simp add: char_less_iff)
    then show ?thesis using IH [of t] prem \<open>u = a # t\<close> by (auto simp: has_prefix_def)
  qed
qed

text \<open>The two bounds on a key say exactly that it begins with the prefix.\<close>

lemma prefix_range:
  assumes "prefixUpper p = Some hi"
  shows "p \<le> k \<and> k < hi \<longleftrightarrow> has_prefix k p"
proof -
  obtain q c r where parts: "p = q @ c # r" "\<forall>x \<in> set r. byte x = 255" "byte c < 255"
    "hi = q @ [char_of (byte c + 1)]"
    using prefixUpper_Some [OF assms] by blast
  have next_byte: "byte (char_of (byte c + 1)) = byte c + 1"
    using parts(3) by (simp add: byte_char_of)
  have "q @ c # r \<le> k \<and> k < q @ [char_of (byte c + 1)] \<longleftrightarrow> has_prefix k (q @ c # r)"
  proof (induction q arbitrary: k)
    case Nil
    show ?case
    proof (cases k)
      case Nil
      then show ?thesis by (simp add: has_prefix_def)
    next
      case (Cons a t)
      have "c < a \<and> a < char_of (byte c + 1) \<longleftrightarrow> False"
        using next_byte by (simp add: char_less_iff)
      moreover have "c < char_of (byte c + 1)" using next_byte by (simp add: char_less_iff)
      ultimately show ?thesis
        using Cons ff_prefix [OF parts(2), of t] by (auto simp: has_prefix_def)
    qed
  next
    case (Cons x q)
    show ?case
    proof (cases k)
      case Nil
      then show ?thesis by (simp add: has_prefix_def)
    next
      case (Cons y t)
      then show ?thesis using Cons.IH [of t] by (auto simp: has_prefix_def)
    qed
  qed
  with parts show ?thesis by simp
qed


lemma prefixUpper_None_sqlite: "prefix = [] \<Longrightarrow> key_like m prefix = (\<lambda>k. True)"
  by (auto simp: key_like_iff)

lemma recall_prefix:
  assumes "mm_driver m = Postgres \<or> prefix = [] \<or> prefixUpper prefix \<noteq> None"
  shows "recallPrefixRange now ns prefix limit m =
      (if ns \<in> set (mm_namespaces m) then take limit (latest_live now ns (\<lambda>k. has_prefix k prefix) m) else [])
    \<and> recallPrefix now ns prefix limit m =
      (if ns \<in> set (mm_namespaces m)
       then take limit (latest_live now ns
         (\<lambda>k. has_prefix (map (like_fold (mm_driver m)) k) (map (like_fold (mm_driver m)) prefix)) m)
       else [])"
proof -
  have folded: "key_like m prefix =
      (\<lambda>k. has_prefix (map (like_fold (mm_driver m)) k) (map (like_fold (mm_driver m)) prefix))"
    by (rule ext) (auto simp: key_like_iff has_prefix_def take_map dest: arg_cong [of _ _ length])
  have ranged: "(\<lambda>k. prefix \<le> k \<and> k < hi \<and> key_like m prefix k) = (\<lambda>k. has_prefix k prefix)"
    if "prefixUpper prefix = Some hi" for hi
    using prefix_range [OF that] key_like_prefix by blast
  have postgres: "key_like m prefix = (\<lambda>k. has_prefix k prefix)" if "mm_driver m = Postgres"
    using key_like_postgres [OF that] by blast
  have empty: "prefixUpper [] = None" by (simp add: prefixUpper_def)
  have "recallPrefixRange now ns prefix limit m =
      (if ns \<in> set (mm_namespaces m) then take limit (latest_live now ns (\<lambda>k. has_prefix k prefix) m) else [])"
    using assms ranged postgres empty
    by (cases "mm_driver m")
      (auto simp: recallPrefixRange_def recallPrefix_def prefixUpper_None_sqlite split: option.split)
  moreover have "recallPrefix now ns prefix limit m = (if ns \<in> set (mm_namespaces m)
      then take limit (latest_live now ns
        (\<lambda>k. has_prefix (map (like_fold (mm_driver m)) k) (map (like_fold (mm_driver m)) prefix)) m)
      else [])"
    by (simp add: recallPrefix_def folded)
  ultimately show ?thesis by blast
qed


definition demo_fact :: "string \<Rightarrow> string \<Rightarrow> instant \<Rightarrow> fact" where
  "demo_fact fid key stamp =
     \<lparr>fa_id = fid, fa_ns = ''p'', fa_key = key, fa_action = ''add'', fa_body = ''b'', fa_attrs = [],
      fa_author = ''a'', fa_created = stamp, fa_writer = ''a'', fa_task = None, fa_source = [],
      fa_confidence = 0, fa_valid = Some stamp, fa_invalid = None, fa_expires = None,
      fa_embedding = None, fa_hash = ''h'', fa_importance = 0, fa_access = 0, fa_feedback = 1 / 2,
      fa_reinforcements = 0\<rparr>"

definition demo_memory :: "fact list \<Rightarrow> memory" where
  "demo_memory fs = \<lparr>mm_driver = SQLite, mm_namespaces = [''p''], mm_facts = fs, mm_outbox = [],
     mm_next_outbox = 1\<rparr>"


section \<open>What the operations do to the rows\<close>

datatype mem_op =
    WriteOp mem_env clock string write_input bool
  | ForgetOp clock string string string string
  | TouchOp "string list"
  | FeedbackOp string "string list" rat

fun mem_do :: "mem_op \<Rightarrow> memory \<Rightarrow> memory" where
  "mem_do (WriteOp env now fid inp outbox) m = snd (write_fact env now fid inp outbox m)"
| "mem_do (ForgetOp now fid ns key author) m = snd (Forget now fid ns key author m)"
| "mem_do (TouchOp ids) m = TouchAccess ids m"
| "mem_do (FeedbackOp ns ids rating) m = RecordFeedback ns ids rating m"

definition mem_run :: "mem_op list \<Rightarrow> memory \<Rightarrow> memory" where
  "mem_run ops m = fold mem_do ops m"

fun op_time :: "mem_op \<Rightarrow> instant option" where
  "op_time (WriteOp env now fid inp outbox) = Some (now 0)"
| "op_time (ForgetOp now fid ns key author) = Some (now 0)"
| "op_time (TouchOp ids) = None"
| "op_time (FeedbackOp ns ids rating) = None"

text \<open>The part of a revision that is fixed when it is recorded.\<close>

definition as_recorded :: "fact \<Rightarrow> fact" where
  "as_recorded f = f\<lparr>fa_invalid := None, fa_access := 0, fa_feedback := 0, fa_reinforcements := 0\<rparr>"

definition counters_only :: "(fact \<Rightarrow> fact) \<Rightarrow> bool" where
  "counters_only u \<longleftrightarrow> (\<forall>f. as_recorded (u f) = as_recorded f \<and> fa_invalid (u f) = fa_invalid f)"

definition new_revision :: "instant \<Rightarrow> string \<Rightarrow> string \<Rightarrow> memory \<Rightarrow> fact \<Rightarrow> bool" where
  "new_revision now ns key m f \<longleftrightarrow> of_key ns key f \<and> fa_created f = now \<and> fa_valid f = Some now
     \<and> fa_invalid f = None \<and> fa_id f \<notin> fa_id ` set (mm_facts m) \<and> ValidateKey key = Inr ()"

text \<open>The three kinds of step: nothing but namespaces and outbox rows, the counters of some revisions, or a new revision
  that closes the open ones of its key.\<close>

inductive mem_step :: "instant \<Rightarrow> memory \<Rightarrow> memory \<Rightarrow> bool" for now m m' where
  quiet: "mm_facts m' = mm_facts m \<Longrightarrow> set (mm_namespaces m) \<subseteq> set (mm_namespaces m') \<Longrightarrow>
    mm_driver m' = mm_driver m \<Longrightarrow> mem_step now m m'"
| counted: "mm_facts m' = update_where P u (mm_facts m) \<Longrightarrow> counters_only u \<Longrightarrow>
    set (mm_namespaces m) \<subseteq> set (mm_namespaces m') \<Longrightarrow> mm_driver m' = mm_driver m \<Longrightarrow> mem_step now m m'"
| recorded: "new_revision now ns key m f \<Longrightarrow>
    mm_facts m' = update_where (open_of_key ns key) (\<lambda>g. g\<lparr>fa_invalid := Some now\<rparr>) (mm_facts m) @ [f] \<Longrightarrow>
    set (mm_namespaces m') = insert ns (set (mm_namespaces m)) \<Longrightarrow> mm_driver m' = mm_driver m \<Longrightarrow> mem_step now m m'"

lemma ensureNamespace_cases:
  obtains (refused) e where "ensureNamespace ns m = (Inl e, m)"
  | (known) m1 where "ensureNamespace ns m = (Inr (), m1)" "mm_facts m1 = mm_facts m"
      "mm_driver m1 = mm_driver m" "set (mm_namespaces m1) = insert ns (set (mm_namespaces m))"
proof (cases "ns = [] \<or> CHR '':'' \<in> set ns")
  case True
  then show ?thesis
    using refused [of "if ns = [] then EmptyNamespace else NamespaceColon ns"]
    by (auto simp: ensureNamespace_def)
next
  case False
  then show ?thesis
    by (intro known [of "snd (ensureNamespace ns m)"]) (auto simp: ensureNamespace_def)
qed

lemma write_events_state [simp]:
  "mm_facts (write_events now p action outbox m) = mm_facts m"
  "mm_namespaces (write_events now p action outbox m) = mm_namespaces m"
  "mm_driver (write_events now p action outbox m) = mm_driver m"
  by (simp_all add: write_events_def outboxTx_def Let_def)


definition plain_plan :: "mem_env \<Rightarrow> instant \<Rightarrow> string \<Rightarrow> write_input \<Rightarrow> write_plan \<Rightarrow> bool" where
  "plain_plan env now fid inp p \<longleftrightarrow>
     ValidateKey (wi_key inp) = Inr ()
     \<and> (\<exists>labels prints. defend env (wi_ns inp) (wi_body inp) = Inr (wi_body (pl_in p), labels, prints))
     \<and> wi_ns (pl_in p) = wi_ns inp \<and> wi_key (pl_in p) = wi_key inp \<and> wi_attrs (pl_in p) = wi_attrs inp
     \<and> wi_expires (pl_in p) = wi_expires inp
     \<and> pl_fact p = planned_fact env now fid (pl_in p) \<and> pl_hash p = fa_hash (pl_fact p)
     \<and> pl_expect_prev p = [] \<and> \<not> pl_expect_absent p"

lemma writePrepare_cases:
  obtains (refused) e where "fst (writePrepare env now fid inp m) = Inl e"
      "mm_facts (snd (writePrepare env now fid inp m)) = mm_facts m"
      "mm_namespaces (snd (writePrepare env now fid inp m)) = mm_namespaces m"
      "mm_driver (snd (writePrepare env now fid inp m)) = mm_driver m"
  | (planned) p where "writePrepare env now fid inp m = (Inr p, m)" "plain_plan env now fid inp p"
proof (cases "fst (writePrepare env now fid inp m)")
  case (Inl e)
  then show ?thesis
    by (intro refused) (auto simp: writePrepare_def outboxTx_def Let_def split: sum.splits)
next
  case (Inr p)
  then show ?thesis
    by (intro planned [of p])
      (auto simp: writePrepare_def plain_plan_def Let_def split: sum.splits if_splits)
qed

lemma planned_fact_simps [simp]:
  "fa_id (planned_fact env now fid inp) = fid"
  "fa_ns (planned_fact env now fid inp) = wi_ns inp"
  "fa_key (planned_fact env now fid inp) = wi_key inp"
  "fa_body (planned_fact env now fid inp) = wi_body inp"
  "fa_attrs (planned_fact env now fid inp) = wi_attrs inp"
  "fa_created (planned_fact env now fid inp) = now"
  "fa_valid (planned_fact env now fid inp) = Some now"
  "fa_invalid (planned_fact env now fid inp) = None"
  "fa_expires (planned_fact env now fid inp) = wi_expires inp"
  "fa_hash (planned_fact env now fid inp) = en_hash env (wi_key inp) (wi_body inp) (wi_attrs inp)"
  by (simp_all add: planned_fact_def)

lemma liveAction_live: "liveAction ns key m \<in> {''add'', ''update''}"
  by (auto simp: liveAction_def split: option.split)

text \<open>A write that is recorded, and one that only corroborates the newest revision.\<close>

definition recorded_write :: "mem_env \<Rightarrow> instant \<Rightarrow> string \<Rightarrow> write_plan \<Rightarrow> memory \<Rightarrow> memory \<Rightarrow> fact \<Rightarrow> bool" where
  "recorded_write env now fid p m m' f \<longleftrightarrow>
     (let ns = wi_ns (pl_in p); key = wi_key (pl_in p) in
      f = (planned_fact env now fid (pl_in p))\<lparr>fa_action := liveAction ns key m\<rparr>
      \<and> fid \<notin> fa_id ` set (mm_facts m)
      \<and> mm_facts m' = update_where (open_of_key ns key) (\<lambda>g. g\<lparr>fa_invalid := Some now\<rparr>) (mm_facts m) @ [f])"

definition duplicate_of :: "write_plan \<Rightarrow> memory \<Rightarrow> fact \<Rightarrow> bool" where
  "duplicate_of p m g \<longleftrightarrow> latest_revision (wi_ns (pl_in p)) (wi_key (pl_in p)) m = Some g
     \<and> fa_hash g = pl_hash p \<and> fa_action g \<noteq> ''tombstone''"

lemma closes_plain: "pl_expect_prev p = [] \<Longrightarrow> closes p = open_of_key (wi_ns (pl_in p)) (wi_key (pl_in p))"
  by (auto simp: closes_def)

lemma latest_revision_cong: "mm_facts m = mm_facts m' \<Longrightarrow> latest_revision ns key m = latest_revision ns key m'"
  by (simp add: latest_revision_def)

lemma liveAction_cong: "mm_facts m = mm_facts m' \<Longrightarrow> liveAction ns key m = liveAction ns key m'"
  using latest_revision_cong [of m m' ns key] by (simp add: liveAction_def)

lemma write_revision_plain:
  assumes "plain_plan env now fid inp p" and "write_revision now1 p outbox m = (Inr (d, f), m')"
  shows "\<not> d \<and> recorded_write env now fid p m m' f \<and> mm_driver m' = mm_driver m
    \<and> mm_namespaces m' = mm_namespaces m"
  using assms
  by (auto simp: write_revision_def plain_plan_def recorded_write_def closes_plain append_fact_def
      invalidate_def Let_def split: if_splits)

lemma writeTx_plain:
  assumes plan: "plain_plan env now fid inp p" and run: "writeTx now1 p outbox m = (Inr (d, f), m')"
  shows "mm_driver m' = mm_driver m \<and> set (mm_namespaces m') = insert (wi_ns inp) (set (mm_namespaces m))
    \<and> (if d then f = pl_fact p \<and> (\<exists>g. duplicate_of p m g \<and>
             mm_facts m' = update_where (\<lambda>x. fa_id x = fa_id g)
               (\<lambda>x. x\<lparr>fa_reinforcements := fa_reinforcements x + 1\<rparr>) (mm_facts m))
       else recorded_write env now fid p m m' f \<and> \<not> (\<exists>g. duplicate_of p m g))"
proof (cases rule: ensureNamespace_cases [of "wi_ns inp" m])
  case (refused e)
  then show ?thesis using plan run by (simp add: writeTx_def plain_plan_def)
next
  case (known m1)
  have ns: "wi_ns (pl_in p) = wi_ns inp" using plan by (simp add: plain_plan_def)
  have latest: "latest_revision (wi_ns inp) key m1 = latest_revision (wi_ns inp) key m" for key
    using known(2) by (rule latest_revision_cong)
  have recorded: "recorded_write env now fid p m1 m' f \<longleftrightarrow> recorded_write env now fid p m m' f"
    using known(2) liveAction_cong [OF known(2)] by (simp add: recorded_write_def Let_def)
  have revised: ?thesis
    if "write_revision now1 p outbox m1 = (Inr (d, f), m')" "\<not> (\<exists>g. duplicate_of p m g)"
    using write_revision_plain [OF plan that(1)] known recorded that(2) by simp
  show ?thesis
  proof (cases "\<exists>g. duplicate_of p m g")
    case True
    then obtain g where g: "duplicate_of p m g" by blast
    then have "(d, f) = (True, pl_fact p) \<and> m' = reinforce (fa_id g) m1"
      using run known(1) latest ns by (auto simp: writeTx_def duplicate_of_def)
    then show ?thesis using g known by (auto simp: reinforce_def)
  next
    case False
    then have "write_revision now1 p outbox m1 = (Inr (d, f), m')"
      using run known(1) latest ns
      by (auto simp: writeTx_def duplicate_of_def split: option.splits if_splits)
    then show ?thesis using False by (rule revised)
  qed
qed

lemma mem_step_refl: "mem_step now m m"
  by (rule quiet) auto

lemma counters_simps:
  "counters_only (\<lambda>x. x\<lparr>fa_reinforcements := fa_reinforcements x + 1\<rparr>)"
  "counters_only (\<lambda>x. x\<lparr>fa_access := fa_access x + 1\<rparr>)"
  "counters_only (\<lambda>x. x\<lparr>fa_feedback := h x\<rparr>)"
  by (simp_all add: counters_only_def as_recorded_def)

lemma recorded_write_revision:
  assumes "plain_plan env now fid inp p" "recorded_write env now fid p m m' f"
  shows "new_revision now (wi_ns inp) (wi_key inp) m f"
  using assms by (auto simp: recorded_write_def new_revision_def plain_plan_def of_key_def Let_def)

lemma write_step: "mem_step (now 0) m (snd (write_fact env now fid inp outbox m))"
proof (cases rule: writePrepare_cases [of env "now 0" fid inp m])
  case (refused e)
  then show ?thesis
    by (cases "writePrepare env (now 0) fid inp m") (auto simp: write_fact_def intro: quiet)
next
  case (planned p)
  show ?thesis
  proof (cases rule: with_tx_cases [of "writeTx (now 1) p outbox" m])
    case (commit a m')
    obtain d f where a: "a = (d, f)" by (cases a)
    have after: "snd (write_fact env now fid inp outbox m) = m'"
      using planned commit a by (auto simp: write_fact_def split: list.splits)
    note tx = writeTx_plain [OF planned(2) commit(1) [unfolded a]]
    have ns: "wi_ns (pl_in p) = wi_ns inp" "wi_key (pl_in p) = wi_key inp"
      using planned by (auto simp: plain_plan_def)
    show ?thesis
    proof (cases d)
      case True
      then show ?thesis unfolding after using tx by (auto intro: counted [OF _ counters_simps(1)])
    next
      case False
      then have rec: "recorded_write env (now 0) fid p m m' f" using tx by simp
      show ?thesis unfolding after
        by (rule recorded [OF recorded_write_revision [OF planned(2) rec]])
          (use rec tx ns in \<open>auto simp: recorded_write_def Let_def\<close>)
    qed
  next
    case (rollback e m')
    then have "snd (write_fact env now fid inp outbox m) = m" using planned by (simp add: write_fact_def)
    then show ?thesis by (simp add: mem_step_refl)
  qed
qed

lemma Forget_cases:
  obtains (refused) e where "Forget now fid ns key author m = (Inl e, m)"
  | (deleted) m' where "Forget now fid ns key author m = (Inr (), m')"
      "new_revision (now 0) ns key m (tombstone fid (now 0) ns key author)"
      "mm_facts m' = update_where (open_of_key ns key) (\<lambda>g. g\<lparr>fa_invalid := Some (now 0)\<rparr>) (mm_facts m)
         @ [tombstone fid (now 0) ns key author]"
      "set (mm_namespaces m') = insert ns (set (mm_namespaces m))" "mm_driver m' = mm_driver m"
proof (cases "ValidateKey key")
  case (Inl e)
  then show ?thesis using refused by (simp add: Forget_def)
next
  case (Inr u)
  show ?thesis
  proof (cases rule: with_tx_cases [of "forget_body now fid ns key author" m])
    case (commit a m')
    have run: "Forget now fid ns key author m = (Inr (), m')" using Inr commit by (simp add: Forget_def)
    show ?thesis
    proof (cases rule: ensureNamespace_cases [of ns m])
      case (refused e)
      then show ?thesis using commit by (simp add: forget_body_def)
    next
      case (known m1)
      then have m': "fid \<notin> fa_id ` set (mm_facts m)"
        "mm_facts m' = update_where (open_of_key ns key) (\<lambda>g. g\<lparr>fa_invalid := Some (now 0)\<rparr>) (mm_facts m)
           @ [tombstone fid (now 0) ns key author]"
        "set (mm_namespaces m') = insert ns (set (mm_namespaces m))" "mm_driver m' = mm_driver m"
        using commit by (auto simp: forget_body_def outboxTx_def append_fact_def invalidate_def split: if_splits)
      have "new_revision (now 0) ns key m (tombstone fid (now 0) ns key author)"
        using m' Inr by (simp add: new_revision_def tombstone_def of_key_def)
      then show ?thesis using run m' by (intro deleted)
    qed
  next
    case (rollback e m')
    then show ?thesis using Inr refused by (simp add: Forget_def)
  qed
qed

lemma forget_step: "mem_step (now 0) m (snd (Forget now fid ns key author m))"
proof (cases rule: Forget_cases [of now fid ns key author m])
  case (refused e)
  then show ?thesis by (simp add: mem_step_refl)
next
  case (deleted m')
  show ?thesis unfolding deleted(1) snd_conv by (rule recorded [OF deleted(2-5)])
qed

text \<open>Every operation is a step, at its own time.\<close>

lemma mem_do_step: "mem_step (the (op_time op)) m (mem_do op m)"
proof (cases op)
  case (WriteOp env now fid inp outbox)
  then show ?thesis by (simp add: write_step)
next
  case (ForgetOp now fid ns key author)
  then show ?thesis by (simp add: forget_step)
next
  case (TouchOp ids)
  then show ?thesis by (auto simp: TouchAccess_def intro!: counted [OF _ counters_simps(2)])
next
  case (FeedbackOp ns ids rating)
  then show ?thesis
    by (auto simp: RecordFeedback_def mem_step_refl intro!: counted [OF _ counters_simps(3)])
qed

lemma mem_run_Cons [simp]: "mem_run (op # ops) m = mem_run ops (mem_do op m)"
  and mem_run_Nil [simp]: "mem_run [] m = m"
  by (simp_all add: mem_run_def)

lemma mem_run_inv:
  assumes "\<And>op m. op \<in> set ops \<Longrightarrow> Inv m \<Longrightarrow> Inv (mem_do op m)" and "Inv m"
  shows "Inv (mem_run ops m)"
  using assms by (induction ops arbitrary: m) auto

section \<open>The invariant\<close>

definition memory_ok :: "memory \<Rightarrow> bool" where
  "memory_ok m \<longleftrightarrow> distinct (map fa_id (mm_facts m))
     \<and> set (map fa_ns (mm_facts m)) \<subseteq> set (mm_namespaces m)
     \<and> list_all (\<lambda>k. ValidateKey k = Inr ()) (map fa_key (mm_facts m))
     \<and> (\<forall>ns key. rows_affected (open_of_key ns key) (mm_facts m) \<le> 1)"

lemma counters_only_fields:
  assumes "counters_only u"
  shows "fa_id (u f) = fa_id f" "fa_ns (u f) = fa_ns f" "fa_key (u f) = fa_key f"
    "fa_valid (u f) = fa_valid f" "fa_invalid (u f) = fa_invalid f" "fa_created (u f) = fa_created f"
proof -
  have "as_recorded (u f) = as_recorded f" "fa_invalid (u f) = fa_invalid f"
    using assms by (simp_all add: counters_only_def)
  then show "fa_id (u f) = fa_id f" "fa_ns (u f) = fa_ns f" "fa_key (u f) = fa_key f"
    "fa_valid (u f) = fa_valid f" "fa_invalid (u f) = fa_invalid f" "fa_created (u f) = fa_created f"
    by (cases f; cases "u f"; simp add: as_recorded_def)+
qed

lemma rows_affected_simps:
  "rows_affected Q (xs @ ys) = rows_affected Q xs + rows_affected Q ys"
  "rows_affected Q [x] = (if Q x then 1 else 0)"
  by (simp_all add: rows_affected_def)

lemma rows_affected_update:
  assumes "\<And>f. P f \<Longrightarrow> Q (u f) = R f" "\<And>f. \<not> P f \<Longrightarrow> Q f = R f"
  shows "rows_affected Q (update_where P u fs) = rows_affected R fs"
  using assms by (induction fs) (auto simp: rows_affected_def update_where_Nil update_where_Cons)

lemma rows_affected_close:
  "rows_affected (open_of_key ns key)
     (update_where (open_of_key ns' key') (\<lambda>g. g\<lparr>fa_invalid := Some now\<rparr>) fs)
   = (if ns = ns' \<and> key = key' then 0 else rows_affected (open_of_key ns key) fs)"
proof -
  have "rows_affected (open_of_key ns key)
      (update_where (open_of_key ns' key') (\<lambda>g. g\<lparr>fa_invalid := Some now\<rparr>) fs)
    = rows_affected (\<lambda>f. \<not> (ns = ns' \<and> key = key') \<and> open_of_key ns key f) fs"
    by (rule rows_affected_update) (auto simp: open_of_key_def of_key_def)
  then show ?thesis by (simp add: rows_affected_def)
qed

lemma rows_affected_counters:
  "counters_only u \<Longrightarrow>
   rows_affected (open_of_key ns key) (update_where P u fs) = rows_affected (open_of_key ns key) fs"
  by (rule rows_affected_update) (auto simp: open_of_key_def of_key_def counters_only_fields)

lemma mem_step_ok: "mem_step now m m' \<Longrightarrow> memory_ok m \<Longrightarrow> memory_ok m'"
proof (induction rule: mem_step.induct)
  case quiet
  then show ?case by (auto simp: memory_ok_def)
next
  case (counted P u)
  have same: "map g (mm_facts m') = map g (mm_facts m)" if "\<And>f. g (u f) = g f" for g :: "fact \<Rightarrow> string"
    using counted(1) that by (simp add: map_update_where)
  have fields: "map fa_id (mm_facts m') = map fa_id (mm_facts m)"
    "map fa_ns (mm_facts m') = map fa_ns (mm_facts m)" "map fa_key (mm_facts m') = map fa_key (mm_facts m)"
    by (intro same counters_only_fields counted(2))+
  have rows: "rows_affected (open_of_key ns key) (mm_facts m') = rows_affected (open_of_key ns key) (mm_facts m)"
    for ns key using counted(1,2) by (simp add: rows_affected_counters)
  show ?case
    using counted(3,5) unfolding memory_ok_def fields rows by blast
next
  case (recorded ns key f)
  let ?fs = "update_where (open_of_key ns key) (\<lambda>g. g\<lparr>fa_invalid := Some now\<rparr>) (mm_facts m)"
  have fields: "map fa_id (mm_facts m') = map fa_id (mm_facts m) @ [fa_id f]"
    "map fa_ns (mm_facts m') = map fa_ns (mm_facts m) @ [ns]"
    "map fa_key (mm_facts m') = map fa_key (mm_facts m) @ [key]"
    using recorded(1,2) by (simp_all add: map_update_where new_revision_def of_key_def)
  have "rows_affected (open_of_key ns' key') (mm_facts m') \<le> 1" for ns' key'
    using recorded by (auto simp: rows_affected_simps rows_affected_close memory_ok_def new_revision_def
        open_of_key_def of_key_def)
  then show ?case
    using recorded(1,3,5) unfolding memory_ok_def fields by (auto simp: new_revision_def)
qed

lemma mem_step_length:
  assumes "mem_step now m m'"
  shows "length (mm_facts m') \<le> Suc (length (mm_facts m))"
  using assms by (induction rule: mem_step.induct) auto

lemma mem_run_ok: "memory_ok m \<Longrightarrow> memory_ok (mem_run ops m)"
  by (rule mem_run_inv) (blast intro: mem_step_ok [OF mem_do_step])+

definition empty_memory :: "driver \<Rightarrow> memory" where
  "empty_memory d = \<lparr>mm_driver = d, mm_namespaces = [], mm_facts = [], mm_outbox = [], mm_next_outbox = 1\<rparr>"

text \<open>The fact store stays consistent.  After any sequence of writes, deletions, access counts and
  feedback from an empty store, revision identifiers are unique, every revision belongs to a known
  namespace and has a valid key, and a key has at most one revision whose validity window is open.\<close>

lemma memory_consistent: "memory_ok (mem_run ops (empty_memory d))"
  by (rule mem_run_ok) (simp add: memory_ok_def empty_memory_def rows_affected_def)

section \<open>The past\<close>

definition past_view :: "instant \<Rightarrow> fact list \<Rightarrow> fact list" where
  "past_view t fs = map as_recorded (filter (valid_during t) fs)"

lemma valid_during_counters: "counters_only u \<Longrightarrow> valid_during t (u f) = valid_during t f"
  by (auto simp: valid_during_def counters_only_fields split: option.split)

lemma valid_during_simps [simp]:
  "valid_during t (f\<lparr>fa_access := n\<rparr>) = valid_during t f"
  "valid_during t (f\<lparr>fa_feedback := r\<rparr>) = valid_during t f"
  "fa_invalid f = None \<Longrightarrow> t < now \<Longrightarrow> valid_during t (f\<lparr>fa_invalid := Some now\<rparr>) = valid_during t f"
  by (auto simp: valid_during_def split: option.split)

lemma past_view_update:
  assumes "\<And>f. P f \<Longrightarrow> as_recorded (u f) = as_recorded f" "\<And>f. P f \<Longrightarrow> valid_during t (u f) = valid_during t f"
  shows "past_view t (update_where P u fs) = past_view t fs"
  using assms by (induction fs) (auto simp: past_view_def update_where_Nil update_where_Cons)

lemma mem_step_past:
  assumes "mem_step now m m'" and "t < now"
  shows "past_view t (mm_facts m') = past_view t (mm_facts m)"
  using assms
proof (induction rule: mem_step.induct)
  case quiet
  then show ?case by simp
next
  case (counted P u)
  then show ?case
    using past_view_update [of P u] valid_during_counters [of u] by (simp add: counters_only_def)
next
  case (recorded ns key f)
  then have late: "t < now" "\<not> valid_during t f" by (auto simp: new_revision_def valid_during_def)
  have "past_view t (update_where (open_of_key ns key) (\<lambda>g. g\<lparr>fa_invalid := Some now\<rparr>) (mm_facts m))
      = past_view t (mm_facts m)"
    by (rule past_view_update) (use late in \<open>auto simp: as_recorded_def open_of_key_def\<close>)
  then show ?case using recorded late by (simp add: past_view_def)
qed

lemma past_view_append: "past_view t (xs @ ys) = past_view t xs @ past_view t ys"
  by (simp add: past_view_def)

lemma mem_do_past:
  assumes "case op_time op of None \<Rightarrow> True | Some now \<Rightarrow> t < now"
  shows "past_view t (mm_facts (mem_do op m)) = past_view t (mm_facts m)"
proof (cases "op_time op")
  case None
  then show ?thesis
    by (cases op)
      (auto simp: TouchAccess_def RecordFeedback_def as_recorded_def
        intro!: past_view_update)
next
  case (Some now)
  then show ?thesis using mem_step_past [OF mem_do_step [of op m], of t] assms by simp
qed

lemma map_sort_key: "(\<And>x. k (h x) = k x) \<Longrightarrow> map h (sort_key k xs) = sort_key k (map h xs)"
proof (induction xs)
  case (Cons x xs)
  have "map h (insort_key k x ys) = insort_key k (h x) (map h ys)" for ys
    using Cons.prems by (induction ys) auto
  then show ?case using Cons by simp
qed simp

lemma as_recorded_simps [simp]:
  "fa_key (as_recorded f) = fa_key f" "fa_ns (as_recorded f) = fa_ns f"
  "fa_action (as_recorded f) = fa_action f" "fa_id (as_recorded f) = fa_id f"
  by (simp_all add: as_recorded_def)

lemma RecallAsOf_past:
  "map as_recorded (RecallAsOf ns prefix t limit m) =
    (if ns \<notin> set (mm_namespaces m) then []
     else take (page_limit limit) (sort_key fa_key
       (filter (\<lambda>f. fa_ns f = ns \<and> key_like m prefix (fa_key f) \<and> fa_action f \<noteq> ''tombstone'')
         (past_view t (mm_facts m)))))"
proof -
  have "filter (\<lambda>f. fa_ns f = ns \<and> key_like m prefix (fa_key f) \<and> fa_action f \<noteq> ''tombstone'')
      (past_view t fs) =
    map as_recorded (filter (\<lambda>f. fa_ns f = ns \<and> key_like m prefix (fa_key f) \<and> fa_action f \<noteq> ''tombstone''
      \<and> valid_during t f) fs)" for fs
    by (induction fs) (auto simp: past_view_def)
  then show ?thesis by (simp add: RecallAsOf_def map_sort_key flip: take_map)
qed

lemma mem_step_frame:
  assumes "mem_step now m m'"
  shows "mm_driver m' = mm_driver m \<and> set (mm_namespaces m) \<subseteq> set (mm_namespaces m')"
  using assms by (induction rule: mem_step.induct) auto

lemma past_view_ns:
  assumes "memory_ok m" "ns \<notin> set (mm_namespaces m)"
  shows "filter (\<lambda>f. fa_ns f = ns \<and> Q f) (past_view t (mm_facts m)) = []"
  using assms by (fastforce simp: memory_ok_def past_view_def filter_empty_conv)



section \<open>The live facts\<close>

text \<open>The key-value map a reader sees at time \<open>later\<close>.\<close>

definition live_fact :: "instant \<Rightarrow> string \<Rightarrow> memory \<Rightarrow> string \<Rightarrow> fact option" where
  "live_fact later ns m key =
     (case queryLiveByKeys later ns [key] m of [] \<Rightarrow> None | f # _ \<Rightarrow> Some f)"

definition live_body :: "instant \<Rightarrow> string \<Rightarrow> memory \<Rightarrow> string \<Rightarrow> string option" where
  "live_body later ns m key = map_option fa_body (live_fact later ns m key)"

text \<open>Revisions of one key have different times.\<close>

definition stamps_ok :: "fact list \<Rightarrow> bool" where
  "stamps_ok fs \<longleftrightarrow> distinct (map fa_id fs)
     \<and> (\<forall>f \<in> set fs. \<forall>g \<in> set fs.
          of_key (fa_ns f) (fa_key f) g \<longrightarrow> fa_created f = fa_created g \<longrightarrow> fa_id f = fa_id g)"

definition is_live :: "instant \<Rightarrow> string \<Rightarrow> string \<Rightarrow> fact list \<Rightarrow> fact \<Rightarrow> bool" where
  "is_live later ns key fs f \<longleftrightarrow> f \<in> set fs \<and> of_key ns key f \<and> is_latest fs f
     \<and> fa_action f \<noteq> ''tombstone'' \<and> unexpired later f"

lemma filter_unique: "distinct xs \<Longrightarrow> x \<in> set xs \<Longrightarrow> (\<And>y. y \<in> set xs \<Longrightarrow> P y \<longleftrightarrow> y = x) \<Longrightarrow> filter P xs = [x]"
proof (induction xs)
  case (Cons a xs)
  show ?case
  proof (cases "a = x")
    case True
    then have "filter P xs = []" using Cons.prems by (auto simp: filter_empty_conv)
    then show ?thesis using True Cons.prems by simp
  next
    case False
    then show ?thesis using Cons by simp
  qed
qed simp

lemma is_latest_unique:
  "stamps_ok fs \<Longrightarrow> f \<in> set fs \<Longrightarrow> g \<in> set fs \<Longrightarrow> of_key ns key f \<Longrightarrow> of_key ns key g \<Longrightarrow>
   is_latest fs f \<Longrightarrow> is_latest fs g \<Longrightarrow> f = g"
  unfolding stamps_ok_def is_latest_def of_key_def by (metis distinct_key_eq order_antisym)

lemma is_live_unique:
  "stamps_ok (mm_facts m) \<Longrightarrow> is_live later ns key (mm_facts m) f \<Longrightarrow> is_live later ns key (mm_facts m) g \<Longrightarrow> f = g"
  using is_latest_unique unfolding is_live_def by blast

lemma queryLiveByKeys_filter:
  "queryLiveByKeys later ns [key] m = (if ns \<in> set (mm_namespaces m)
     then sort_key fa_key (filter (is_live later ns key (mm_facts m)) (mm_facts m)) else [])"
  by (auto simp: queryLiveByKeys_def latest_live_def is_live_def of_key_def intro!: arg_cong [of _ _ "sort_key fa_key"]
      filter_cong)

lemma queryLiveByKeys_live:
  assumes "stamps_ok (mm_facts m)" "is_live later ns key (mm_facts m) f" "ns \<in> set (mm_namespaces m)"
  shows "queryLiveByKeys later ns [key] m = [f]"
proof -
  have "filter (is_live later ns key (mm_facts m)) (mm_facts m) = [f]"
    by (rule filter_unique)
      (use assms is_live_unique [OF assms(1)] in \<open>auto simp: stamps_ok_def is_live_def distinct_map\<close>)
  then show ?thesis using assms(3) by (simp add: queryLiveByKeys_filter)
qed

lemma queryLiveByKeys_dead:
  "\<forall>f. \<not> is_live later ns key (mm_facts m) f \<Longrightarrow> queryLiveByKeys later ns [key] m = []"
  by (simp add: queryLiveByKeys_filter)

lemma live_fact_iff:
  assumes "stamps_ok (mm_facts m)"
  shows "live_fact later ns m key = Some f \<longleftrightarrow> ns \<in> set (mm_namespaces m) \<and> is_live later ns key (mm_facts m) f"
proof (cases "\<exists>g. ns \<in> set (mm_namespaces m) \<and> is_live later ns key (mm_facts m) g")
  case True
  then obtain g where g: "ns \<in> set (mm_namespaces m)" "is_live later ns key (mm_facts m) g" by blast
  then have "live_fact later ns m key = Some g"
    using queryLiveByKeys_live [OF assms g(2,1)] by (simp add: live_fact_def)
  then show ?thesis using g is_live_unique [OF assms g(2)] by (metis option.inject)
next
  case False
  then have "queryLiveByKeys later ns [key] m = []" by (simp add: queryLiveByKeys_filter)
  then show ?thesis using False by (simp add: live_fact_def)
qed

lemma newest_Some:
  assumes "newest (filter P fs) = Some f"
  shows "f \<in> set fs \<and> P f \<and> (\<forall>x \<in> set fs. P x \<longrightarrow> fa_created x \<le> fa_created f)"
proof -
  let ?s = "sort_key fa_created (sort_key fa_id (filter P fs))"
  from assms obtain gs where rev: "rev ?s = f # gs" by (auto simp: newest_def split: list.splits)
  then have s: "?s = rev gs @ [f]" by (simp add: rev_swap)
  have "sorted (map fa_created ?s)" by simp
  then have "\<forall>x \<in> set ?s. fa_created x \<le> fa_created f" unfolding s by (auto simp: sorted_append)
  moreover have "f \<in> set ?s" by (simp add: s del: set_sort)
  ultimately show ?thesis by simp
qed

lemma newest_None: "newest (filter P fs) = None \<longleftrightarrow> (\<forall>x \<in> set fs. \<not> P x)"
proof -
  have "rev (sort_key fa_created (sort_key fa_id (filter P fs))) = [] \<longleftrightarrow> filter P fs = []"
    by (metis length_0_conv length_rev length_sort)
  then show ?thesis by (auto simp: newest_def filter_empty_conv split: list.split)
qed

lemma latest_revision_Some:
  "latest_revision ns key m = Some f \<Longrightarrow> f \<in> set (mm_facts m) \<and> of_key ns key f \<and> is_latest (mm_facts m) f"
  unfolding latest_revision_def is_latest_def by (auto dest!: newest_Some simp: of_key_def)

lemma is_latest_key:
  "of_key ns key f \<Longrightarrow> is_latest fs f \<longleftrightarrow> (\<forall>x \<in> set fs. of_key ns key x \<longrightarrow> fa_created x \<le> fa_created f)"
  by (simp add: is_latest_def of_key_def)


text \<open>What a reader sees depends on the recorded parts only.\<close>

definition shape :: "memory \<Rightarrow> fact list" where
  "shape m = map as_recorded (mm_facts m)"

lemma as_recorded_more [simp]:
  "fa_created (as_recorded f) = fa_created f" "fa_body (as_recorded f) = fa_body f"
  "fa_expires (as_recorded f) = fa_expires f" "fa_hash (as_recorded f) = fa_hash f"
  by (simp_all add: as_recorded_def)

lemma stamps_ok_shape: "stamps_ok (shape m) \<longleftrightarrow> stamps_ok (mm_facts m)"
  by (simp add: stamps_ok_def shape_def of_key_def comp_def)

lemma is_live_shape:
  "f \<in> set (mm_facts m) \<Longrightarrow> is_live later ns key (shape m) (as_recorded f) \<longleftrightarrow> is_live later ns key (mm_facts m) f"
  by (auto simp: is_live_def shape_def is_latest_def of_key_def unexpired_def)

lemma live_body_shape:
  assumes "stamps_ok (shape m)"
  shows "live_body later ns m key = Some b \<longleftrightarrow>
    ns \<in> set (mm_namespaces m) \<and> (\<exists>f. is_live later ns key (shape m) f \<and> fa_body f = b)"
proof -
  have stamps: "stamps_ok (mm_facts m)" using assms by (simp add: stamps_ok_shape)
  have "(\<exists>f. is_live later ns key (shape m) f \<and> fa_body f = b) \<longleftrightarrow>
      (\<exists>f. is_live later ns key (mm_facts m) f \<and> fa_body f = b)"
  proof
    assume "\<exists>f. is_live later ns key (shape m) f \<and> fa_body f = b"
    then obtain f where f: "is_live later ns key (shape m) f" "fa_body f = b" by blast
    then obtain g where "g \<in> set (mm_facts m)" "f = as_recorded g" by (auto simp: is_live_def shape_def)
    then show "\<exists>f. is_live later ns key (mm_facts m) f \<and> fa_body f = b"
      using f by (intro exI [of _ g]) (simp add: is_live_shape)
  next
    assume "\<exists>f. is_live later ns key (mm_facts m) f \<and> fa_body f = b"
    then obtain f where f: "is_live later ns key (mm_facts m) f" "fa_body f = b" by blast
    then have "f \<in> set (mm_facts m)" by (simp add: is_live_def)
    then show "\<exists>f. is_live later ns key (shape m) f \<and> fa_body f = b"
      using f by (intro exI [of _ "as_recorded f"]) (simp add: is_live_shape)
  qed
  then show ?thesis
    by (auto simp: live_body_def live_fact_iff [OF stamps])
qed

text \<open>A new newest revision of one key: it alone decides what is read at its key, and no other key changes.\<close>

lemma stamps_ok_append:
  assumes "stamps_ok fs" "fa_id f \<notin> fa_id ` set fs"
    and "\<forall>x \<in> set fs. of_key (fa_ns f) (fa_key f) x \<longrightarrow> fa_created x < fa_created f"
  shows "stamps_ok (fs @ [f])"
proof -
  have "fa_id x = fa_id y" if "x \<in> set (fs @ [f])" "y \<in> set (fs @ [f])" "of_key (fa_ns x) (fa_key x) y"
    "fa_created x = fa_created y" for x y
  proof (cases "x = f \<or> y = f")
    case True
    then show ?thesis using that assms(3) by (auto simp: of_key_def)
  next
    case False
    then show ?thesis using that assms(1) by (simp add: stamps_ok_def)
  qed
  moreover have "distinct (map fa_id (fs @ [f]))" using assms(1,2) by (simp add: stamps_ok_def)
  ultimately show ?thesis unfolding stamps_ok_def by blast
qed

lemma is_live_append:
  assumes "\<forall>x \<in> set fs. of_key (fa_ns f) (fa_key f) x \<longrightarrow> fa_created x < fa_created f"
  shows "is_live later ns key (fs @ [f]) x \<longleftrightarrow>
    (if of_key ns key f then x = f \<and> fa_action f \<noteq> ''tombstone'' \<and> unexpired later f
     else is_live later ns key fs x)"
proof (cases "of_key ns key f")
  case True
  then have "\<not> is_latest (fs @ [f]) x" if "x \<in> set fs" "of_key ns key x" for x
    using assms that is_latest_key [of ns key x] by (fastforce simp: of_key_def)
  moreover have "is_latest (fs @ [f]) f" using assms by (auto simp: is_latest_def)
  ultimately show ?thesis using True by (auto simp: is_live_def)
next
  case False
  then have "is_latest (fs @ [f]) x \<longleftrightarrow> is_latest fs x" if "of_key ns key x" for x
    using that by (auto simp: is_latest_def of_key_def)
  then show ?thesis using False by (auto simp: is_live_def)
qed


lemma shape_update:
  "(\<And>f. as_recorded (u f) = as_recorded f) \<Longrightarrow> map as_recorded (update_where P u fs) = map as_recorded fs"
  by (simp add: map_update_where)

lemma recorded_shape:
  "mm_facts m' = update_where P (\<lambda>g. g\<lparr>fa_invalid := Some now\<rparr>) (mm_facts m) @ [f] \<Longrightarrow>
   shape m' = shape m @ [as_recorded f]"
  by (simp add: shape_def shape_update as_recorded_def)

lemma option_eqI: "(\<And>b. x = Some b \<longleftrightarrow> y = Some b) \<Longrightarrow> x = y"
  by (metis not_None_eq)

text \<open>A recorded revision as an update of the map.\<close>

lemma recorded_live_body:
  assumes ok: "memory_ok m" "stamps_ok (mm_facts m)"
    and clock: "\<forall>g \<in> set (mm_facts m). fa_created g < now"
    and rev: "new_revision now ns key m f"
    and facts: "mm_facts m' = update_where P (\<lambda>g. g\<lparr>fa_invalid := Some now\<rparr>) (mm_facts m) @ [f]"
    and spaces: "set (mm_namespaces m') = insert ns (set (mm_namespaces m))"
  shows "stamps_ok (mm_facts m')
    \<and> live_body later ns' m' = (if ns' = ns then (live_body later ns' m)(key :=
         (if fa_action f \<noteq> ''tombstone'' \<and> unexpired later f then Some (fa_body f) else None))
       else live_body later ns' m)"
proof -
  have shape: "shape m' = shape m @ [as_recorded f]" by (rule recorded_shape [OF facts])
  have newer: "\<forall>x \<in> set (shape m). of_key (fa_ns (as_recorded f)) (fa_key (as_recorded f)) x
      \<longrightarrow> fa_created x < fa_created (as_recorded f)"
    using clock rev by (auto simp: shape_def new_revision_def)
  have stamps: "stamps_ok (shape m)" using ok by (simp add: stamps_ok_shape)
  have fresh: "fa_id (as_recorded f) \<notin> fa_id ` set (shape m)"
    using rev by (auto simp: shape_def new_revision_def)
  have stamps': "stamps_ok (shape m')"
    unfolding shape by (rule stamps_ok_append [OF stamps fresh newer])
  have f: "of_key ns' k (as_recorded f) \<longleftrightarrow> ns' = ns \<and> k = key" for ns' k
    using rev by (auto simp: new_revision_def of_key_def)
  have known: "ns \<in> set (mm_namespaces m)" if "is_live later ns k (shape m) x" for k x
    using that ok(1) by (auto simp: is_live_def shape_def memory_ok_def of_key_def)
  have "live_body later ns' m' k = ((if ns' = ns then (live_body later ns' m)(key :=
         (if fa_action f \<noteq> ''tombstone'' \<and> unexpired later f then Some (fa_body f) else None))
       else live_body later ns' m)) k" for k
  proof (rule option_eqI)
    fix b
    show "live_body later ns' m' k = Some b \<longleftrightarrow> ((if ns' = ns then (live_body later ns' m)(key :=
         (if fa_action f \<noteq> ''tombstone'' \<and> unexpired later f then Some (fa_body f) else None))
       else live_body later ns' m)) k = Some b"
      using known
      by (auto simp: live_body_shape [OF stamps] live_body_shape [OF stamps'] shape is_live_append [OF newer]
          f spaces unexpired_def)
  qed
  then show ?thesis using stamps' by (auto simp: stamps_ok_shape)
qed


lemma counted_live_body:
  assumes "stamps_ok (mm_facts m)" "counters_only u" "mm_facts m' = update_where P u (mm_facts m)"
    and "memory_ok m" "set (mm_namespaces m) \<subseteq> set (mm_namespaces m')"
  shows "stamps_ok (mm_facts m') \<and> live_body later ns' m' = live_body later ns' m"
proof -
  have shape: "shape m' = shape m"
    using assms(2,3) by (simp add: shape_def shape_update counters_only_def)
  then have stamps: "stamps_ok (shape m)" "stamps_ok (shape m')" using assms(1) by (simp_all add: stamps_ok_shape)
  have known: "ns' \<in> set (mm_namespaces m)" if "is_live later ns' k (shape m) x" for k x
    using that assms(4) by (auto simp: is_live_def shape_def memory_ok_def of_key_def)
  have "live_body later ns' m' k = live_body later ns' m k" for k
    using known assms(5)
    by (intro option_eqI) (auto simp: live_body_shape [OF stamps(1)] live_body_shape [OF stamps(2)] shape)
  then show ?thesis using stamps by (auto simp: stamps_ok_shape)
qed

lemma write_fact_success:
  assumes "write_fact env now fid inp outbox m = (Inr f, m')"
  obtains p d g where "plain_plan env (now 0) fid inp p" "writeTx (now 1) p outbox m = (Inr (d, g), m')"
proof (cases rule: writePrepare_cases [of env "now 0" fid inp m])
  case (refused e)
  then show ?thesis
    using assms by (cases "writePrepare env (now 0) fid inp m") (simp add: write_fact_def)
next
  case (planned p)
  show ?thesis
  proof (cases rule: with_tx_cases [of "writeTx (now 1) p outbox" m])
    case (commit a s)
    moreover from this have "s = m'" using assms planned
      by (auto simp: write_fact_def split: prod.splits if_splits list.splits)
    ultimately show ?thesis using planned by (cases a) (auto intro: that)
  next
    case (rollback e s)
    then show ?thesis using assms planned by (simp add: write_fact_def)
  qed
qed

lemma Write_live_body:
  assumes ok: "memory_ok m" "stamps_ok (mm_facts m)"
    and clock: "\<forall>g \<in> set (mm_facts m). fa_created g < now 0"
    and scrubbed: "defend env (wi_ns inp) (wi_body inp) = Inr (b, labels, prints)"
    and expiry: "\<forall>e. wi_expires inp = Some e \<longrightarrow> later < e"
    and duplicate: "\<forall>g. latest_revision (wi_ns inp) (wi_key inp) m = Some g \<longrightarrow>
      fa_action g \<noteq> ''tombstone'' \<longrightarrow> fa_hash g = en_hash env (wi_key inp) b (wi_attrs inp) \<longrightarrow>
      fa_body g = b \<and> unexpired later g"
    and run_write: "write_fact env now fid inp outbox m = (Inr f, m')"
  shows "stamps_ok (mm_facts m') \<and> live_body later ns m' =
      (if ns = wi_ns inp then (live_body later ns m)(wi_key inp \<mapsto> b) else live_body later ns m)"
proof -
  obtain p d g where plan: "plain_plan env (now 0) fid inp p"
    and run: "writeTx (now 1) p outbox m = (Inr (d, g), m')" using run_write by (rule write_fact_success)
  note tx = writeTx_plain [OF plan run]
  have p: "wi_ns (pl_in p) = wi_ns inp" "wi_key (pl_in p) = wi_key inp" "wi_body (pl_in p) = b"
    "wi_attrs (pl_in p) = wi_attrs inp" "wi_expires (pl_in p) = wi_expires inp"
    "pl_hash p = en_hash env (wi_key inp) b (wi_attrs inp)"
    using plan scrubbed by (auto simp: plain_plan_def)
  show ?thesis
  proof (cases d)
    case False
    then have rec: "recorded_write env (now 0) fid p m m' g" using tx by simp
    have g: "fa_action g \<noteq> ''tombstone''" "fa_body g = b" "unexpired later g"
      using rec p expiry liveAction_live [of "wi_ns inp" "wi_key inp" m]
      by (auto simp: recorded_write_def Let_def unexpired_def split: option.split)
    have facts: "mm_facts m' = update_where (open_of_key (wi_ns inp) (wi_key inp))
        (\<lambda>g. g\<lparr>fa_invalid := Some (now 0)\<rparr>) (mm_facts m) @ [g]"
      using rec p by (simp add: recorded_write_def Let_def)
    show ?thesis
      using recorded_live_body [OF ok clock recorded_write_revision [OF plan rec] facts, of later ns] tx g
      by simp
  next
    case True
    then obtain h where h: "duplicate_of p m h"
      and facts: "mm_facts m' = update_where (\<lambda>x. fa_id x = fa_id h)
        (\<lambda>x. x\<lparr>fa_reinforcements := fa_reinforcements x + 1\<rparr>) (mm_facts m)" using tx by auto
    have h': "fa_body h = b" "is_live later (wi_ns inp) (wi_key inp) (mm_facts m) h"
      using h duplicate p latest_revision_Some [of "wi_ns inp" "wi_key inp" m h]
      by (auto simp: duplicate_of_def is_live_def)
    then have "wi_ns inp \<in> set (mm_namespaces m)" using ok(1) by (auto simp: is_live_def memory_ok_def of_key_def)
    then have "live_body later (wi_ns inp) m (wi_key inp) = Some b"
      using h' live_fact_iff [OF ok(2)] by (auto simp: live_body_def)
    then have "(live_body later (wi_ns inp) m)(wi_key inp \<mapsto> b) = live_body later (wi_ns inp) m"
      by (simp add: fun_upd_idem)
    then show ?thesis
      using counted_live_body [OF ok(2) counters_simps(1) facts ok(1)] tx by auto
  qed
qed

lemma Forget_live_body:
  assumes ok: "memory_ok m" "stamps_ok (mm_facts m)"
    and clock: "\<forall>g \<in> set (mm_facts m). fa_created g < now 0"
    and run: "Forget now fid ns key author m = (Inr (), m')"
  shows "stamps_ok (mm_facts m') \<and> live_body later ns' m' =
      (if ns' = ns then (live_body later ns' m)(key := None) else live_body later ns' m)"
proof (cases rule: Forget_cases [of now fid ns key author m])
  case (refused e)
  then show ?thesis using run by simp
next
  case (deleted s)
  then have "s = m'" using run by simp
  then show ?thesis
    using recorded_live_body [OF ok clock deleted(2,3,4), of later ns'] by (simp add: tombstone_def)
qed

text \<open>C1: the fact store implements a map from keys to bodies in every namespace.  A successful write is
  the update of that map at its key with the body the scrub left, provided the input does not expire
  and a duplicate it meets is the same content, unexpired; a successful deletion removes the key.  No other
  key and no other namespace changes, and revisions keep distinct times.\<close>

theorem fact_store_refines_map:
  assumes ok: "memory_ok m" "stamps_ok (mm_facts m)"
    and clock: "\<forall>g \<in> set (mm_facts m). fa_created g < now 0"
    and scrubbed: "defend env (wi_ns inp) (wi_body inp) = Inr (b, labels, prints)"
    and expiry: "\<forall>e. wi_expires inp = Some e \<longrightarrow> later < e"
    and duplicate: "\<forall>g. latest_revision (wi_ns inp) (wi_key inp) m = Some g \<longrightarrow>
      fa_action g \<noteq> ''tombstone'' \<longrightarrow> fa_hash g = en_hash env (wi_key inp) b (wi_attrs inp) \<longrightarrow>
      fa_body g = b \<and> unexpired later g"
  shows "(write_fact env now fid inp outbox m = (Inr f, m') \<longrightarrow>
      stamps_ok (mm_facts m')
      \<and> live_body later (wi_ns inp) m' = (live_body later (wi_ns inp) m)(wi_key inp \<mapsto> b)
      \<and> (\<forall>ns. ns \<noteq> wi_ns inp \<longrightarrow> live_body later ns m' = live_body later ns m))
    \<and> (Forget now fid ns key author m = (Inr (), m') \<longrightarrow>
      stamps_ok (mm_facts m')
      \<and> live_body later ns m' = (live_body later ns m)(key := None)
      \<and> (\<forall>ns'. ns' \<noteq> ns \<longrightarrow> live_body later ns' m' = live_body later ns' m))"
  using Write_live_body [where now = now, OF ok clock scrubbed expiry duplicate, of fid outbox f m']
    Forget_live_body [where now = now, OF ok clock, of fid ns key author m']
  by auto

definition demo_env :: mem_env where
  "demo_env = \<lparr>en_hash = (\<lambda>key body ats. key @ body), en_embed = (\<lambda>key body. None), en_redactions = [],
     en_defense = ''off'', en_policies = []\<rparr>"

definition demo_input :: "string \<Rightarrow> string \<Rightarrow> write_input" where
  "demo_input key body = \<lparr>wi_ns = ''p'', wi_key = key, wi_body = body, wi_attrs = [], wi_author = ''a'',
     wi_writer = ''a'', wi_task = [], wi_source = [], wi_confidence = 0, wi_expires = None, wi_importance = 0\<rparr>"

lemmas demo_store = demo_memory_def demo_fact_def demo_env_def demo_input_def memory_ok_def stamps_ok_def
  rows_affected_def open_of_key_def of_key_def ValidateKey_def has_prefix_def has_suffix_def contains_sub_def

theorem fact_store_refines_map_witness:
  "live_body 9 ''p'' (snd (write_fact demo_env (\<lambda>_. 7) ''2'' (demo_input ''/ab'' ''new'') True
      (demo_memory [demo_fact ''1'' ''/ab'' 1]))) ''/ab'' = Some ''new''"
proof -
  let ?m = "demo_memory [demo_fact ''1'' ''/ab'' 1]"
  obtain f m' where run: "write_fact demo_env (\<lambda>_. 7) ''2'' (demo_input ''/ab'' ''new'') True ?m = (Inr f, m')"
    by (simp add: demo_store write_fact_def writePrepare_def defend_def defenseMode_def Let_def planned_fact_def
        writeTx_def with_tx_def ensureNamespace_def latest_revision_def newest_def write_revision_def
        liveAction_def)
  have "live_body 9 ''p'' m' ''/ab'' = Some ''new''"
    using fact_store_refines_map [of ?m "\<lambda>_. 7" demo_env "demo_input ''/ab'' ''new''" "''new''" "[]" "[]" 9
        "''2''" True f m' "''q''" "''/z''" "''a''"] run
    by (simp add: demo_store defend_def defenseMode_def latest_revision_def newest_def)
  then show ?thesis by (simp add: run)
qed

section \<open>Facts that are lost or come back\<close>

text \<open>C37: rewriting expired content does not bring it back.  When the newest revision of a key holds the
  same content and has expired, a write of that content reports success, whatever new expiry it asks for, and leaves the key
  without a live fact.\<close>

theorem Write_expired_lost:
  assumes ok: "memory_ok m" "stamps_ok (mm_facts m)"
    and g: "latest_revision (wi_ns inp) (wi_key inp) m = Some g" "fa_action g \<noteq> ''tombstone''"
      "fa_expires g = Some e" "e \<le> later"
      "fa_hash g = en_hash env (wi_key inp) b (wi_attrs inp)"
    and input: "ValidateKey (wi_key inp) = Inr ()" "wi_ns inp \<noteq> []" "CHR '':'' \<notin> set (wi_ns inp)"
      "defend env (wi_ns inp) (wi_body inp) = Inr (b, labels, prints)"
  shows "\<exists>f m'. write_fact env now fid inp outbox m = (Inr f, m')
    \<and> live_fact later (wi_ns inp) m' (wi_key inp) = None"
proof (cases rule: writePrepare_cases [of env "now 0" fid inp m])
  case (refused x)
  then show ?thesis using input by (simp add: writePrepare_def Let_def)
next
  case (planned p)
  have p: "wi_ns (pl_in p) = wi_ns inp" "wi_key (pl_in p) = wi_key inp" "wi_body (pl_in p) = b"
    "wi_attrs (pl_in p) = wi_attrs inp" "pl_hash p = en_hash env (wi_key inp) b (wi_attrs inp)"
    using planned(2) input by (auto simp: plain_plan_def)
  obtain m1 where m1: "ensureNamespace (wi_ns inp) m = (Inr (), m1)" "mm_facts m1 = mm_facts m"
    using input by (cases rule: ensureNamespace_cases [of "wi_ns inp" m]) (auto simp: ensureNamespace_def)
  have tx: "writeTx (now 1) p outbox m = (Inr (True, pl_fact p), reinforce (fa_id g) m1)"
    using m1 p g latest_revision_cong [OF m1(2)] by (simp add: writeTx_def)
  let ?m' = "reinforce (fa_id g) m1"
  have "\<exists>f. write_fact env now fid inp outbox m = (Inr f, ?m')"
    using planned(1) tx by (auto simp: write_fact_def with_tx_def split: list.split)
  moreover have facts: "mm_facts ?m' = update_where (\<lambda>x. fa_id x = fa_id g)
      (\<lambda>x. x\<lparr>fa_reinforcements := fa_reinforcements x + 1\<rparr>) (mm_facts m)"
    using m1 by (simp add: reinforce_def)
  have shape: "shape ?m' = shape m"
    unfolding shape_def facts by (rule shape_update) (simp add: as_recorded_def)
  have stamps: "stamps_ok (mm_facts ?m')" using ok by (metis shape stamps_ok_shape)
  have latest: "is_latest (shape m) (as_recorded g)" "as_recorded g \<in> set (shape m)" "of_key (wi_ns inp) (wi_key inp) g"
    using latest_revision_Some [OF g(1)] by (auto simp: shape_def is_latest_def of_key_def)
  have "\<not> is_live later (wi_ns inp) (wi_key inp) (shape m) x" for x
  proof
    assume x: "is_live later (wi_ns inp) (wi_key inp) (shape m) x"
    have "x = as_recorded g"
      by (rule is_latest_unique [OF ok(2) [folded stamps_ok_shape]])
        (use x latest in \<open>auto simp: is_live_def of_key_def\<close>)
    then show False using x g by (simp add: is_live_def unexpired_def)
  qed
  then have "live_body later (wi_ns inp) ?m' (wi_key inp) \<noteq> Some y" for y
    using live_body_shape [OF stamps [folded stamps_ok_shape], of later "wi_ns inp" "wi_key inp" y]
    unfolding shape by blast
  then have "live_body later (wi_ns inp) ?m' (wi_key inp) = None" by (meson not_None_eq)
  then have "live_fact later (wi_ns inp) ?m' (wi_key inp) = None" by (simp add: live_body_def)
  ultimately show ?thesis by blast
qed


theorem Write_expired_lost_witness:
  "\<exists>f m'. write_fact demo_env (\<lambda>_. 7) ''2'' (demo_input ''/ab'' ''new'') True
     (demo_memory [(demo_fact ''1'' ''/ab'' 1)\<lparr>fa_body := ''new'', fa_hash := ''/abnew'', fa_expires := Some 5\<rparr>])
     = (Inr f, m') \<and> live_fact 7 ''p'' m' ''/ab'' = None"
  using Write_expired_lost [of "demo_memory [(demo_fact ''1'' ''/ab'' 1)\<lparr>fa_body := ''new'',
      fa_hash := ''/abnew'', fa_expires := Some 5\<rparr>]" "demo_input ''/ab'' ''new''"
      "(demo_fact ''1'' ''/ab'' 1)\<lparr>fa_body := ''new'', fa_hash := ''/abnew'', fa_expires := Some 5\<rparr>"
      5 7 demo_env "''new''" "[]" "[]" "\<lambda>_. 7" "''2''" True]
  by (simp add: demo_store defend_def defenseMode_def latest_revision_def newest_def)

text \<open>The sweep.\<close>

lemma superseded_iff: "superseded fs f \<longleftrightarrow> \<not> is_latest fs f"
  by (auto simp: superseded_def is_latest_def not_le)

lemma sweep_facts_subset: "set (sweep_facts cutoff now fs) \<subseteq> set fs"
  by (auto simp: sweep_facts_def Let_def)

lemma is_latest_subset: "is_latest fs f \<Longrightarrow> set gs \<subseteq> set fs \<Longrightarrow> is_latest gs f"
  by (auto simp: is_latest_def)

lemma distinct_map_filter_key: "distinct (map k xs) \<Longrightarrow> distinct (map k (filter P xs))"
  by (simp add: distinct_map inj_on_def)

lemma stamps_ok_sweep: "stamps_ok fs \<Longrightarrow> stamps_ok (sweep_facts cutoff now fs)"
  unfolding stamps_ok_def sweep_facts_def Let_def by (auto intro!: distinct_map_filter_key)

lemma sweep_facts_mem:
  "f \<in> set (sweep_facts cutoff now fs) \<longleftrightarrow> f \<in> set fs \<and> \<not> (fa_created f < cutoff \<and> \<not> is_latest fs f)
     \<and> \<not> (fa_action f = ''tombstone'' \<and> fa_created f < cutoff)
     \<and> (case fa_expires f of None \<Rightarrow> True | Some e \<Rightarrow> now \<le> e)" (is "?l \<longleftrightarrow> ?r")
proof -
  let ?kept = "filter (\<lambda>f. \<not> (fa_created f < cutoff \<and> superseded fs f)) fs"
  have "\<not> superseded ?kept f" if "f \<in> set ?kept" "fa_created f < cutoff"
    using that by (auto simp: superseded_def)
  then show ?thesis
    by (auto simp: sweep_facts_def Let_def superseded_iff [of fs] split: option.split)
qed

lemma sweep_keeps_live:
  assumes "is_live later ns key fs f" "now \<le> later"
  shows "is_live later ns key (sweep_facts cutoff now fs) f"
  using assms is_latest_subset [OF _ sweep_facts_subset]
  by (auto simp: is_live_def sweep_facts_mem unexpired_def split: option.splits)

text \<open>The retention sweep never removes what can still be read.  A fact that is live at any time after the sweep is
  the live fact of its key in the swept store.\<close>

lemma SweepRetention_keeps_live:
  assumes "stamps_ok (mm_facts m)" "now 1 \<le> later" "live_fact later ns m key = Some f"
  shows "live_fact later ns (snd (SweepRetention now retention m)) key = Some f"
  using assms sweep_keeps_live [of later ns key "mm_facts m" f "now 1" "now 0 - retention"]
  by (auto simp: SweepRetention_def Let_def live_fact_iff stamps_ok_sweep)

lemma SweepRetention_keeps_live_witness:
  "live_fact 9 ''p'' (snd (SweepRetention (\<lambda>_. 8) 2 (demo_memory [demo_fact ''1'' ''/ab'' 1]))) ''/ab''
   = Some (demo_fact ''1'' ''/ab'' 1)"
  by (rule SweepRetention_keeps_live)
    (simp_all add: demo_store live_fact_def queryLiveByKeys_def latest_live_def is_latest_def unexpired_def)

text \<open>C38: the sweep can bring a superseded body back.  When the newest revision of a key has expired the
  key has no live fact; the sweep deletes that revision alone, and the one before it, still within the
  retention, is read again.\<close>

theorem sweep_resurrects:
  assumes stamps: "stamps_ok (mm_facts m)" and ns: "ns \<in> set (mm_namespaces m)"
    and h: "h \<in> set (mm_facts m)" "of_key ns key h" "is_latest (mm_facts m) h" "fa_expires h = Some e"
      "e < now 1"
    and g: "g \<in> set (mm_facts m)" "of_key ns key g" "fa_created g < fa_created h"
      "\<forall>x \<in> set (mm_facts m). of_key ns key x \<longrightarrow> x \<noteq> h \<longrightarrow> fa_created x \<le> fa_created g"
      "fa_action g \<noteq> ''tombstone''" "unexpired later g"
      "now 0 - retention \<le> fa_created g"
    and times: "now 1 \<le> later" "0 < retention"
  shows "live_fact later ns m key = None
    \<and> live_fact later ns (snd (SweepRetention now retention m)) key = Some g"
proof -
  have "\<not> is_live later ns key (mm_facts m) x" for x
    using is_latest_unique [OF stamps _ h(1) _ h(2) _ h(3)] h(4,5) times
    by (auto simp: is_live_def unexpired_def)
  then have dead: "live_fact later ns m key = None"
    using live_fact_iff [OF stamps] by (meson not_None_eq)
  let ?fs = "sweep_facts (now 0 - retention) (now 1) (mm_facts m)"
  have "h \<notin> set ?fs" using h by (simp add: sweep_facts_mem)
  then have "is_latest ?fs g"
    using g(2,4) sweep_facts_subset [of "now 0 - retention" "now 1" "mm_facts m"]
    by (auto simp: is_latest_key)
  moreover have "g \<in> set ?fs"
    using g times by (auto simp: sweep_facts_mem unexpired_def split: option.splits)
  ultimately have "is_live later ns key ?fs g" using g by (simp add: is_live_def)
  then show ?thesis
    using dead ns times stamps_ok_sweep [OF stamps]
    by (simp add: SweepRetention_def Let_def live_fact_iff)
qed

theorem sweep_resurrects_witness:
  "live_fact 9 ''p'' (snd (SweepRetention (\<lambda>_. 8) 100
      (demo_memory [demo_fact ''1'' ''/ab'' 1, (demo_fact ''2'' ''/ab'' 3)\<lparr>fa_expires := Some 5\<rparr>]))) ''/ab''
   = Some (demo_fact ''1'' ''/ab'' 1)"
  using sweep_resurrects [of "demo_memory [demo_fact ''1'' ''/ab'' 1,
      (demo_fact ''2'' ''/ab'' 3)\<lparr>fa_expires := Some 5\<rparr>]" "''p''"
      "(demo_fact ''2'' ''/ab'' 3)\<lparr>fa_expires := Some 5\<rparr>" "''/ab''" 5 "\<lambda>_. 8" "demo_fact ''1'' ''/ab'' 1" 9 100]
  by (simp add: demo_store is_latest_def unexpired_def)


section \<open>Stores without expiry\<close>

text \<open>A store whose facts do not expire, carry the hash of their content and are older than \<open>T\<close>: writes and
  deletions stay in it and act as map updates.\<close>

definition plain_facts :: "mem_env \<Rightarrow> instant \<Rightarrow> fact list \<Rightarrow> bool" where
  "plain_facts env T fs \<longleftrightarrow> (\<forall>f \<in> set fs. fa_created f < T \<and> fa_expires f = None
     \<and> (fa_action f \<noteq> ''tombstone'' \<longrightarrow> fa_hash f = en_hash env (fa_key f) (fa_body f) (fa_attrs f)))"

definition store_ok :: "mem_env \<Rightarrow> instant \<Rightarrow> memory \<Rightarrow> bool" where
  "store_ok env T m \<longleftrightarrow> memory_ok m \<and> stamps_ok (mm_facts m) \<and> plain_facts env T (mm_facts m)"

definition collision_free :: "mem_env \<Rightarrow> bool" where
  "collision_free env \<longleftrightarrow>
     (\<forall>k b a b' a'. en_hash env k b a = en_hash env k b' a' \<longrightarrow> b = b')"

lemma as_recorded_attrs [simp]: "fa_attrs (as_recorded f) = fa_attrs f"
  by (simp add: as_recorded_def)

lemma plain_facts_shape: "plain_facts env T (shape m) \<longleftrightarrow> plain_facts env T (mm_facts m)"
  by (simp add: plain_facts_def shape_def)

lemma plain_facts_mono: "plain_facts env T fs \<Longrightarrow> T \<le> T' \<Longrightarrow> plain_facts env T' fs"
  by (force simp: plain_facts_def)

lemma store_ok_mono: "store_ok env T m \<Longrightarrow> T \<le> T' \<Longrightarrow> store_ok env T' m"
  by (auto simp: store_ok_def intro: plain_facts_mono)

lemma plain_unexpired: "plain_facts env T fs \<Longrightarrow> f \<in> set fs \<Longrightarrow> unexpired later f"
  by (simp add: plain_facts_def unexpired_def)

lemma Write_put:
  assumes ok: "store_ok env (now 0) m" and col: "collision_free env"
    and scrubbed: "defend env (wi_ns inp) (wi_body inp) = Inr (b, labels, prints)"
    and expiry: "wi_expires inp = None" and later_T: "now 0 < T"
    and run: "write_fact env now fid inp outbox m = (Inr f, m')"
  shows "store_ok env T m' \<and> live_body later ns m' =
      (if ns = wi_ns inp then (live_body later ns m)(wi_key inp \<mapsto> b) else live_body later ns m)"
proof -
  have m: "memory_ok m" "stamps_ok (mm_facts m)" "\<forall>g \<in> set (mm_facts m). fa_created g < now 0"
    and plain: "plain_facts env (now 0) (mm_facts m)"
    using ok by (auto simp: store_ok_def plain_facts_def)
  have dup: "\<forall>g. latest_revision (wi_ns inp) (wi_key inp) m = Some g \<longrightarrow> fa_action g \<noteq> ''tombstone'' \<longrightarrow>
      fa_hash g = en_hash env (wi_key inp) b (wi_attrs inp) \<longrightarrow> fa_body g = b \<and> unexpired later g"
    using latest_revision_Some [of "wi_ns inp" "wi_key inp" m] plain col
    unfolding plain_facts_def collision_free_def of_key_def unexpired_def by (metis option.simps(4))
  have exp: "\<forall>e. wi_expires inp = Some e \<longrightarrow> later < e" using expiry by simp
  obtain p d g where plan: "plain_plan env (now 0) fid inp p"
    and tx: "writeTx (now 1) p outbox m = (Inr (d, g), m')" using run by (rule write_fact_success)
  have "plain_facts env T (shape m')"
  proof (cases d)
    case True
    then have "shape m' = shape m"
      using writeTx_plain [OF plan tx] by (auto simp: shape_def shape_update as_recorded_def)
    then show ?thesis
      using plain_facts_mono [OF plain, of T] later_T by (simp add: plain_facts_shape)
  next
    case False
    then have rec: "recorded_write env (now 0) fid p m m' g" using writeTx_plain [OF plan tx] by simp
    then have "shape m' = shape m @ [as_recorded g]"
      by (auto simp: recorded_write_def Let_def intro: recorded_shape)
    moreover have "plain_facts env T [as_recorded g]"
      using rec plan later_T expiry by (auto simp: recorded_write_def Let_def plain_facts_def plain_plan_def)
    ultimately show ?thesis
      using plain_facts_mono [OF plain, of T, folded plain_facts_shape] later_T
      by (auto simp: plain_facts_def)
  qed
  moreover have "memory_ok m'"
    using mem_step_ok [OF write_step [of now m env fid inp outbox] m(1)] run by simp
  ultimately show ?thesis
    using Write_live_body [where now = now, OF m scrubbed exp dup run, of ns]
    by (simp add: store_ok_def plain_facts_shape)
qed

lemma Forget_delete:
  assumes ok: "store_ok env (now 0) m" and later_T: "now 0 < T"
    and run: "Forget now fid ns key author m = (Inr (), m')"
  shows "store_ok env T m' \<and> live_body later ns' m' =
      (if ns' = ns then (live_body later ns' m)(key := None) else live_body later ns' m)"
proof -
  have m: "memory_ok m" "stamps_ok (mm_facts m)" "\<forall>g \<in> set (mm_facts m). fa_created g < now 0"
    and plain: "plain_facts env (now 0) (mm_facts m)"
    using ok by (auto simp: store_ok_def plain_facts_def)
  have "plain_facts env T (shape m')"
  proof (cases rule: Forget_cases [of now fid ns key author m])
    case (refused e)
    then show ?thesis using run by simp
  next
    case (deleted s)
    then have "shape m' = shape m @ [as_recorded (tombstone fid (now 0) ns key author)]"
      using run recorded_shape by simp
    moreover have "plain_facts env T [as_recorded (tombstone fid (now 0) ns key author)]"
      using later_T by (simp add: plain_facts_def tombstone_def)
    ultimately show ?thesis
      using plain_facts_mono [OF plain, of T, folded plain_facts_shape] later_T
      by (auto simp: plain_facts_def)
  qed
  moreover have "memory_ok m'"
    using mem_step_ok [OF forget_step [of now m fid ns key author] m(1)] run by simp
  ultimately show ?thesis
    using Forget_live_body [where now = now, OF m run, of later ns'] by (simp add: store_ok_def plain_facts_shape)
qed


text \<open>When writes and deletions succeed.\<close>

definition name_ok :: "string \<Rightarrow> bool" where
  "name_ok ns \<longleftrightarrow> ns \<noteq> [] \<and> CHR '':'' \<notin> set ns"

lemma ensureNamespace_ok:
  assumes "name_ok ns"
  obtains m1 where "ensureNamespace ns m = (Inr (), m1)" "mm_facts m1 = mm_facts m"
  using assms by (cases rule: ensureNamespace_cases [of ns m]) (auto simp: ensureNamespace_def name_ok_def)

lemma Write_succeeds:
  assumes "ValidateKey (wi_key inp) = Inr ()" "defend env (wi_ns inp) (wi_body inp) = Inr (b, labels, prints)"
    and "name_ok (wi_ns inp)" "fid \<notin> fa_id ` set (mm_facts m)"
  shows "\<exists>f m'. write_fact env now fid inp outbox m = (Inr f, m')"
proof -
  let ?inp = "inp\<lparr>wi_body := b, wi_importance := clamp01 (wi_importance inp)\<rparr>"
  obtain p where p: "writePrepare env (now 0) fid inp m = (Inr p, m)" "pl_expect_prev p = []" "\<not> pl_expect_absent p"
    "wi_ns (pl_in p) = wi_ns inp" "fa_id (pl_fact p) = fid"
    using assms(1,2) by (simp add: writePrepare_def Let_def)
  obtain m1 where m1: "ensureNamespace (wi_ns inp) m = (Inr (), m1)" "mm_facts m1 = mm_facts m"
    using ensureNamespace_ok [OF assms(3)] by blast
  have "\<exists>r s. write_revision (now 1) p outbox m1 = (Inr r, s)"
    using p m1 assms(4) by (auto simp: write_revision_def Let_def)
  then have "\<exists>r s. writeTx (now 1) p outbox m = (Inr r, s)"
    using p m1 by (auto simp: writeTx_def split: option.split)
  then show ?thesis
    using p(1) by (auto simp: write_fact_def with_tx_def split: list.split)
qed

lemma write_ids:
  "fa_id ` set (mm_facts (snd (write_fact env now fid inp outbox m))) \<subseteq> insert fid (fa_id ` set (mm_facts m))"
proof (cases rule: writePrepare_cases [of env "now 0" fid inp m])
  case (refused e)
  then show ?thesis by (cases "writePrepare env (now 0) fid inp m") (auto simp: write_fact_def)
next
  case (planned p)
  show ?thesis
  proof (cases rule: with_tx_cases [of "writeTx (now 1) p outbox" m])
    case (commit a s)
    obtain d g where a: "a = (d, g)" by (cases a)
    have "set (map fa_id (mm_facts s)) \<subseteq> insert fid (set (map fa_id (mm_facts m)))"
      using writeTx_plain [OF planned(2) commit(1) [unfolded a]]
      by (cases d) (auto simp: recorded_write_def Let_def map_update_where simp del: set_map)
    moreover have "snd (write_fact env now fid inp outbox m) = s"
      using planned(1) commit a by (auto simp: write_fact_def split: list.splits)
    ultimately show ?thesis by simp
  next
    case (rollback e s)
    then show ?thesis using planned(1) by (auto simp: write_fact_def)
  qed
qed

lemma live_body_liveAction:
  assumes "stamps_ok (mm_facts m)" "live_body later ns m key = Some b"
  shows "liveAction ns key m = ''update''"
proof -
  obtain f where f: "is_live later ns key (mm_facts m) f"
    using assms by (auto simp: live_body_def live_fact_iff)
  then obtain g where g: "latest_revision ns key m = Some g"
    using newest_None [of "of_key ns key" "mm_facts m"] by (auto simp: latest_revision_def is_live_def)
  have "g = f"
    by (rule is_latest_unique [OF assms(1)])
      (use f latest_revision_Some [OF g] in \<open>auto simp: is_live_def of_key_def\<close>)
  then show ?thesis using g f by (simp add: liveAction_def is_live_def)
qed

lemma Forget_succeeds:
  assumes "ValidateKey key = Inr ()" "name_ok ns" "fid \<notin> fa_id ` set (mm_facts m)"
    and "stamps_ok (mm_facts m)" "live_body later ns m key = Some b"
  shows "\<exists>m'. Forget now fid ns key author m = (Inr (), m')"
proof -
  obtain m1 where m1: "ensureNamespace ns m = (Inr (), m1)" "mm_facts m1 = mm_facts m"
    using ensureNamespace_ok [OF assms(2)] by blast
  have "liveAction ns key m1 = ''update''"
    using live_body_liveAction [OF assms(4,5)] liveAction_cong [OF m1(2)] by simp
  then show ?thesis
    using assms(1,3) m1 by (simp add: Forget_def with_tx_def forget_body_def)
qed

end
