(* ===== verification/Document.thy ===== *)
theory Document
  imports Facts_Proofs "HOL-Library.AList"
begin

text \<open>
  Documents as facts, \<open>internal/memory/document.go\<close>: a text is cut into paragraphs, an oversize paragraph
  at the best break near the end of each window, and the pieces are stored under numbered keys, of which
  a later version rewrites only those that changed.
\<close>

section \<open>Cutting\<close>

definition DefaultChunkMaxChars :: nat where "DefaultChunkMaxChars = 4000"

definition SetChunkMaxChars :: "int \<Rightarrow> int" where
  "SetChunkMaxChars n = (if n \<le> 0 then int DefaultChunkMaxChars else n)"

definition chunkMax :: "int \<Rightarrow> nat" where
  "chunkMax configured = (if configured \<le> 0 then DefaultChunkMaxChars else nat configured)"

definition breakScore :: "string \<Rightarrow> nat \<Rightarrow> nat" where
  "breakScore p i =
     (let c = p ! i; nxt = (if i + 1 < length p then p ! (i + 1) else CHR '' '') in
      if c = CHR 0x0A then 3
      else if c \<in> {CHR ''.'', CHR ''!'', CHR ''?''} \<and> nxt \<in> {CHR '' '', CHR 0x0A} then 4
      else if c \<in> {CHR '';'', CHR '':''} \<and> nxt = CHR '' '' then 2
      else if c = CHR '' '' then 1
      else 0)"

text \<open>The scan keeps the latest position of the best score; \<open>None\<close> is the \<open>-1\<close> of the code.\<close>

definition best_break :: "string \<Rightarrow> nat \<Rightarrow> nat option" where
  "best_break p mx =
     fst (fold (\<lambda>i (best, score). if breakScore p i \<ge> score \<and> breakScore p i > 0
                  then (Some i, breakScore p i) else (best, score))
            [mx * 7 div 10 ..< mx] (None, 0))"

text \<open>From a position back to the first byte of its rune.\<close>

fun rune_start :: "string \<Rightarrow> nat \<Rightarrow> nat" where
  "rune_start p 0 = 0"
| "rune_start p (Suc n) = (if is_cont (p ! Suc n) then rune_start p n else Suc n)"

definition cut_at :: "string \<Rightarrow> nat \<Rightarrow> nat" where
  "cut_at p mx =
     (case best_break p mx of
        Some i \<Rightarrow> i + 1
      | None \<Rightarrow> if rune_start p mx = 0 then mx else rune_start p mx)"

text \<open>The loop of \<open>splitOversize\<close> need not end when the bound is zero: the result is then \<open>None\<close>.\<close>

partial_function (option) splitOversize :: "nat \<Rightarrow> string \<Rightarrow> string list option" where
  "splitOversize mx p =
     (if length p \<le> mx then Some (if p = [] then [] else [p])
      else
        (let cut = cut_at p mx; piece = trim_space (take cut p) in
         Option.bind (splitOversize mx (trim_space (drop cut p)))
           (\<lambda>out. Some (if piece = [] then out else piece # out))))"

function split_sub :: "string \<Rightarrow> string \<Rightarrow> string list" where
  "split_sub sep s =
     (if sep = [] then [s]
      else case index_of s sep of
        None \<Rightarrow> [s]
      | Some i \<Rightarrow> take i s # split_sub sep (drop (i + length sep) s))"
  by pat_completeness auto
termination
proof (relation "measure (length \<circ> snd)")
  show "wf (measure (length \<circ> snd))" by simp
next
  fix sep s :: string and i
  assume "sep \<noteq> []" "index_of s sep = Some i"
  then have "0 < length sep" "length sep \<le> length (drop i s)" "i \<le> length s"
    using index_of_Some [of s sep i] has_prefix_length [of "drop i s" sep] by auto
  then have "length s - (i + length sep) < length s" by (simp; linarith)
  then show "((sep, drop (i + length sep) s), (sep, s)) \<in> measure (length \<circ> snd)" by simp
qed

declare split_sub.simps [simp del]

fun chunk_paras :: "nat \<Rightarrow> string list \<Rightarrow> string list option" where
  "chunk_paras mx [] = Some []"
| "chunk_paras mx (q # qs) =
     (let p = trim_space q in
      Option.bind (if p = [] then Some [] else if length p \<le> mx then Some [p] else splitOversize mx p)
        (\<lambda>cs. map_option (\<lambda>ds. cs @ ds) (chunk_paras mx qs)))"

definition chunkText :: "string \<Rightarrow> nat \<Rightarrow> string list option" where
  "chunkText txt mx = chunk_paras mx (split_sub [CHR 0x0A, CHR 0x0A] txt)"

section \<open>Nothing is lost in cutting\<close>

definition blank :: "string \<Rightarrow> bool" where
  "blank s \<longleftrightarrow> (\<exists>es. set es \<subseteq> set space_encodings \<and> s = concat es)"

lemma blank_Nil [simp]: "blank []"
  unfolding blank_def by (rule exI [of _ "[]"]) simp

lemma blank_append: "blank s \<Longrightarrow> blank t \<Longrightarrow> blank (s @ t)"
  unfolding blank_def by (metis Un_subset_iff concat_append set_append)

text \<open>A text as pieces in order with nothing but white space around them.\<close>

inductive weave :: "string \<Rightarrow> string list \<Rightarrow> bool" where
  blanks: "blank w \<Longrightarrow> weave w []"
| piece: "blank w \<Longrightarrow> weave s ps \<Longrightarrow> weave (w @ p @ s) (p # ps)"

lemma weave_blank: "weave s ps \<Longrightarrow> blank w \<Longrightarrow> weave (w @ s) ps"
proof (induction rule: weave.induct)
  case (blanks v)
  then show ?case by (auto intro: weave.blanks blank_append)
next
  case (piece v s ps p)
  then show ?case using weave.piece [of "w @ v" s ps p] by (simp add: blank_append)
qed

lemma weave_append: "weave s ps \<Longrightarrow> weave t qs \<Longrightarrow> weave (s @ t) (ps @ qs)"
proof (induction rule: weave.induct)
  case (blanks v)
  then show ?case by (simp add: weave_blank)
next
  case (piece v s ps p)
  then show ?case using weave.piece [of v "s @ t" "ps @ qs" p] by simp
qed

lemma weave_single: "blank a \<Longrightarrow> blank b \<Longrightarrow> weave (a @ p @ b) [p]"
  by (intro weave.piece weave.blanks)

lemma strip_encodings_split:
  "\<exists>es. set es \<subseteq> set encs \<and> s = concat es @ strip_encodings encs s"
proof (induction encs s rule: strip_encodings.induct)
  case (1 encs s)
  show ?case
  proof (cases "starts_space encs s")
    case None
    then show ?thesis
      by (intro exI [of _ "[]"]) (simp add: strip_encodings.simps [of encs s])
  next
    case (Some e)
    then have e: "e \<in> set encs" "s = e @ drop (length e) s"
      by (auto simp: starts_space_def find_Some_iff has_prefix_append dest: nth_mem)
    obtain es where es: "set es \<subseteq> set encs"
      "drop (length e) s = concat es @ strip_encodings encs (drop (length e) s)"
      using "1.IH" [OF Some] by blast
    have "strip_encodings encs s = strip_encodings encs (drop (length e) s)"
      using Some by (simp add: strip_encodings.simps [of encs s])
    then show ?thesis
      using e es by (intro exI [of _ "e # es"]) (metis append_assoc concat.simps(2) insert_subset list.simps(15))
  qed
qed

lemma trim_space_split: "\<exists>a b. blank a \<and> blank b \<and> s = a @ trim_space s @ b"
proof -
  obtain es where es: "set es \<subseteq> set space_encodings" "s = concat es @ trim_left_space s"
    unfolding trim_left_space_def using strip_encodings_split [of space_encodings s] by blast
  let ?t = "trim_left_space s"
  obtain fs where fs: "set fs \<subseteq> set (map rev space_encodings)"
    "rev ?t = concat fs @ strip_encodings (map rev space_encodings) (rev ?t)"
    using strip_encodings_split by blast
  have "?t = rev (rev ?t)" by simp
  also have "\<dots> = trim_space s @ concat (map rev (rev fs))"
    by (subst fs(2)) (simp add: trim_space_def trim_right_space_def rev_concat rev_map)
  finally have "?t = trim_space s @ concat (map rev (rev fs))" .
  moreover have "set (map rev (rev fs)) \<subseteq> set space_encodings" using fs(1) by auto
  then have "blank (concat (map rev (rev fs)))" unfolding blank_def by blast
  moreover have "blank (concat es)" using es(1) by (auto simp: blank_def)
  ultimately show ?thesis using es(2) by metis
qed

lemma weave_trim: "weave (trim_space s) ps \<Longrightarrow> weave s ps"
  using trim_space_split [of s] weave_blank weave_append [of _ ps _ "[]"] weave.blanks
  by (metis append_Nil2)


lemma best_break_range: "best_break p mx = Some i \<Longrightarrow> i < mx"
proof -
  have "fst (fold (\<lambda>i (best, score). if breakScore p i \<ge> score \<and> breakScore p i > 0
            then (Some i, breakScore p i) else (best, score)) ks (b, sc)) = Some i
      \<Longrightarrow> i \<in> set ks \<or> b = Some i" for ks b sc
    by (induction ks arbitrary: b sc) (auto split: if_splits)
  then show "best_break p mx = Some i \<Longrightarrow> i < mx" unfolding best_break_def by fastforce
qed

lemma rune_start_le: "rune_start p n \<le> n"
  by (induction n) auto

lemma cut_at_range: "0 < mx \<Longrightarrow> 0 < cut_at p mx \<and> cut_at p mx \<le> mx"
  using best_break_range [of p mx] rune_start_le [of p mx]
  by (auto simp: cut_at_def split: option.split)

definition pieces_ok :: "nat \<Rightarrow> string list \<Rightarrow> bool" where
  "pieces_ok mx ps \<longleftrightarrow> (\<forall>q \<in> set ps. q \<noteq> [] \<and> length q \<le> mx)"

lemma splitOversize_ok:
  assumes "0 < mx"
  shows "\<exists>ps. splitOversize mx p = Some ps \<and> pieces_ok mx ps \<and> weave p ps"
proof (induction p rule: length_induct)
  case (1 p)
  show ?case
  proof (cases "length p \<le> mx")
    case True
    then show ?thesis
      using weave_single [of "[]" "[]" p] weave.blanks [of "[]"]
      by (subst splitOversize.simps) (simp add: pieces_ok_def)
  next
    case False
    let ?cut = "cut_at p mx"
    let ?rest = "trim_space (drop ?cut p)" and ?piece = "trim_space (take ?cut p)"
    have cut: "0 < ?cut" "?cut \<le> mx" using cut_at_range [OF assms] by auto
    have "length ?rest < length p"
      using trim_space_length [of "drop ?cut p"] cut False by simp
    then obtain out where out: "splitOversize mx ?rest = Some out" "pieces_ok mx out" "weave ?rest out"
      using "1.IH" by blast
    have "length ?piece \<le> mx"
      using trim_space_length [of "take ?cut p"] cut by simp
    moreover have "weave (take ?cut p) (if ?piece = [] then [] else [?piece])"
      by (rule weave_trim) (use weave_single [of "[]" "[]" ?piece] weave.blanks [of "[]"] in auto)
    then have "weave (take ?cut p @ drop ?cut p) ((if ?piece = [] then [] else [?piece]) @ out)"
      by (rule weave_append) (rule weave_trim [OF out(3)])
    ultimately show ?thesis
      using out False by (subst splitOversize.simps) (auto simp: Let_def pieces_ok_def split: if_splits)
  qed
qed

text \<open>What splitting on a separator gives, joined by the separator, is the text.\<close>

lemma weave_split:
  "blank sep \<Longrightarrow> list_all2 weave (split_sub sep s) pss \<Longrightarrow> weave s (concat pss)"
proof (induction sep s arbitrary: pss rule: split_sub.induct)
  case (1 sep s)
  show ?case
  proof (cases "sep = [] \<or> index_of s sep = None")
    case True
    then have "split_sub sep s = [s]" by (subst split_sub.simps) auto
    then show ?thesis using "1.prems" by (auto simp: list_all2_Cons1)
  next
    case False
    then obtain i where i: "sep \<noteq> []" "index_of s sep = Some i" by blast
    then obtain ps qss where pss: "pss = ps # qss" "weave (take i s) ps"
      "list_all2 weave (split_sub sep (drop (i + length sep) s)) qss"
      using "1.prems" by (auto simp: split_sub.simps [of sep s] list_all2_Cons1)
    have rest: "weave (drop (i + length sep) s) (concat qss)" by (rule "1.IH" [OF i "1.prems"(1) pss(3)])
    have "has_prefix (drop i s) sep" using index_of_Some [OF i(2)] by simp
    then have "drop i s = sep @ drop (i + length sep) s"
      by (metis add.commute append_take_drop_id drop_drop has_prefix_def)
    then have whole: "take i s @ sep @ drop (i + length sep) s = s" by (metis append_take_drop_id)
    have "weave (take i s @ sep @ drop (i + length sep) s) (concat pss)"
      using weave_append [OF pss(2) weave_blank [OF rest "1.prems"(1)]] by (simp add: pss(1))
    then show ?thesis unfolding whole .
  qed
qed

lemma chunk_paras_ok:
  assumes "0 < mx"
  shows "\<exists>pss. chunk_paras mx qs = Some (concat pss) \<and> pieces_ok mx (concat pss) \<and> list_all2 weave qs pss"
proof (induction qs)
  case Nil
  show ?case by (intro exI [of _ "[]"]) (simp add: pieces_ok_def)
next
  case (Cons q qs)
  then obtain pss where pss: "chunk_paras mx qs = Some (concat pss)" "pieces_ok mx (concat pss)" "list_all2 weave qs pss"
    by blast
  let ?p = "trim_space q"
  obtain ps where "(if ?p = [] then Some [] else if length ?p \<le> mx then Some [?p] else splitOversize mx ?p) = Some ps"
    "pieces_ok mx ps" "weave ?p ps"
    using splitOversize_ok [OF assms, of ?p] weave_single [of "[]" "[]" ?p] weave.blanks [of "[]"]
    by (cases "?p = []"; cases "length ?p \<le> mx") (auto simp: pieces_ok_def)
  then show ?case
    using pss by (intro exI [of _ "ps # pss"]) (auto simp: Let_def pieces_ok_def intro: weave_trim)
qed

lemma newline_blank: "blank [CHR 0x0A, CHR 0x0A]"
proof -
  have "char_of (10 :: nat) = CHR 0x0A"
    using char_of_byte [of "CHR 0x0A"] by (simp add: byte_def)
  then have "[CHR 0x0A] \<in> set space_encodings" by (simp add: space_encodings_def)
  then show ?thesis
    unfolding blank_def by (intro exI [of _ "[[CHR 0x0A], [CHR 0x0A]]"]) simp
qed

lemma chunkText_ok:
  "0 < mx \<Longrightarrow> \<exists>chunks. chunkText txt mx = Some chunks \<and> pieces_ok mx chunks \<and> weave txt chunks"
  using chunk_paras_ok [of mx "split_sub [CHR 0x0A, CHR 0x0A] txt"] weave_split [OF newline_blank]
  unfolding chunkText_def by blast

text \<open>C10: cutting a document ends, keeps to the bound and loses nothing.  For every positive bound the
  chunks exist, each is non-empty and within the bound, and the text is the chunks in order with nothing
  but white space between and around them.\<close>

theorem chunkText_complete:
  assumes "0 < mx"
  shows "\<exists>chunks. chunkText txt mx = Some chunks \<and> pieces_ok mx chunks \<and> weave txt chunks"
  using chunkText_ok [OF assms] .

theorem chunkText_complete_witness:
  "\<exists>chunks. chunkText ''one two. three'' (chunkMax 5) = Some chunks \<and> pieces_ok 5 chunks
     \<and> weave ''one two. three'' chunks"
  using chunkText_complete [of "chunkMax 5" "''one two. three''"] by (simp add: chunkMax_def)

section \<open>Writing a document\<close>

text \<open>The counts of written, unchanged, removed and blocked chunks.\<close>

type_synonym doc_counts = "nat \<times> nat \<times> nat \<times> nat"

definition chunk_key :: "string \<Rightarrow> nat \<Rightarrow> string" where
  "chunk_key prefix i = prefix @ ''/chunk-'' @ pad_nat 4 (i + 1)"

definition chunk_input :: "string \<Rightarrow> string \<Rightarrow> string \<Rightarrow> string \<Rightarrow> string \<Rightarrow> write_input" where
  "chunk_input ns prefix writer key body =
     \<lparr>wi_ns = ns, wi_key = key, wi_body = body, wi_attrs = [], wi_author = writer, wi_writer = writer,
      wi_task = [], wi_source = ''document:'' @ prefix, wi_confidence = 0, wi_expires = None,
      wi_importance = 0\<rparr>"

definition body_at :: "(string \<times> string) list \<Rightarrow> string \<Rightarrow> string" where
  "body_at byKey key = (case map_of byKey key of None \<Rightarrow> [] | Some b \<Rightarrow> b)"

text \<open>One chunk after another; \<open>tick\<close> and \<open>fids\<close> give each operation its clock and its fact identifier.\<close>

fun doc_loop ::
  "mem_env \<Rightarrow> (nat \<Rightarrow> clock) \<Rightarrow> (nat \<Rightarrow> string) \<Rightarrow> string \<Rightarrow> string \<Rightarrow> string \<Rightarrow> nat \<Rightarrow> string list
   \<Rightarrow> (string \<times> string) list \<Rightarrow> doc_counts
   \<Rightarrow> (memory, memory_error \<times> doc_counts, (string \<times> string) list \<times> doc_counts) op" where
  "doc_loop env tick fids ns prefix writer i [] byKey counts m = (Inr (byKey, counts), m)"
| "doc_loop env tick fids ns prefix writer i (chunk # chunks) byKey (written, unchanged, removed, blocked) m =
     (let key = chunk_key prefix i;
          byKey' = AList.delete key byKey;
          body = (if en_defense env = ''redact'' then fst (Scrub env chunk) else chunk)
      in if en_defense env = ''block'' \<and> snd (Scrub env chunk) \<noteq> []
         then doc_loop env tick fids ns prefix writer (Suc i) chunks byKey' (written, unchanged, removed, Suc blocked) m
         else if body_at byKey key = body
         then doc_loop env tick fids ns prefix writer (Suc i) chunks byKey' (written, Suc unchanged, removed, blocked) m
         else case Write env (tick (Suc i)) (fids (Suc i)) (chunk_input ns prefix writer key body) m of
             (Inl e, m1) \<Rightarrow> (Inl (e, (written, unchanged, removed, blocked)), m1)
           | (Inr _, m1) \<Rightarrow>
               doc_loop env tick fids ns prefix writer (Suc i) chunks byKey' (Suc written, unchanged, removed, blocked) m1)"

fun forget_loop ::
  "(nat \<Rightarrow> clock) \<Rightarrow> (nat \<Rightarrow> string) \<Rightarrow> string \<Rightarrow> string \<Rightarrow> nat \<Rightarrow> string list \<Rightarrow> doc_counts
   \<Rightarrow> (memory, memory_error \<times> doc_counts, doc_counts) op" where
  "forget_loop tick fids ns writer i [] counts m = (Inr counts, m)"
| "forget_loop tick fids ns writer i (key # rest) (written, unchanged, removed, blocked) m =
     (case Forget (tick (Suc i)) (fids (Suc i)) ns key writer m of
        (Inl e, m1) \<Rightarrow> (Inl (e, (written, unchanged, removed, blocked)), m1)
      | (Inr _, m1) \<Rightarrow> forget_loop tick fids ns writer (Suc i) rest (written, unchanged, Suc removed, blocked) m1)"

definition by_key :: "fact list \<Rightarrow> (string \<times> string) list" where
  "by_key existing = fold (\<lambda>f. AList.update (fa_key f) (fa_body f)) existing []"

definition write_chunks ::
  "mem_env \<Rightarrow> (nat \<Rightarrow> clock) \<Rightarrow> (nat \<Rightarrow> string) \<Rightarrow> (string list \<Rightarrow> string list) \<Rightarrow> string \<Rightarrow> string \<Rightarrow> string
   \<Rightarrow> string list \<Rightarrow> (memory, memory_error \<times> doc_counts, doc_counts) op" where
  "write_chunks env tick fids order ns prefix writer chunks m =
     (case doc_loop env tick fids ns prefix writer 0 chunks
             (by_key (Recall (tick 0 0) ns (prefix @ ''/chunk-'') 1000 m)) (0, 0, 0, 0) m of
        (Inl e, m1) \<Rightarrow> (Inl e, m1)
      | (Inr (byKey, counts), m1) \<Rightarrow>
          forget_loop tick fids ns writer (length chunks) (order (map fst byKey)) counts m1)"

text \<open>\<open>None\<close> when the cutting does not return.  \<open>order\<close> is the order in which the map iteration visits
  the left-over keys.\<close>

definition WriteDocument ::
  "mem_env \<Rightarrow> (nat \<Rightarrow> clock) \<Rightarrow> (nat \<Rightarrow> string) \<Rightarrow> (string list \<Rightarrow> string list) \<Rightarrow> int \<Rightarrow> string \<Rightarrow> string \<Rightarrow> string
   \<Rightarrow> string \<Rightarrow> memory \<Rightarrow> (((memory_error \<times> doc_counts) + doc_counts) \<times> memory) option" where
  "WriteDocument env tick fids order configured ns prefix txt writer m =
     (case ValidateKey prefix of
        Inl e \<Rightarrow> Some (Inl (e, (0, 0, 0, 0)), m)
      | Inr _ \<Rightarrow> map_option (\<lambda>chunks. write_chunks env tick fids order ns prefix writer chunks m)
          (chunkText txt (chunkMax configured)))"

section \<open>What a document write leaves\<close>

fun put_chunks :: "string \<Rightarrow> nat \<Rightarrow> string list \<Rightarrow> (string \<Rightarrow> string option) \<Rightarrow> string \<Rightarrow> string option" where
  "put_chunks prefix i [] f = f"
| "put_chunks prefix i (c # chunks) f = put_chunks prefix (Suc i) chunks (f(chunk_key prefix i \<mapsto> c))"

lemma chunk_key_inject [simp]: "chunk_key prefix i = chunk_key prefix j \<longleftrightarrow> i = j"
  by (simp add: chunk_key_def)

lemma put_chunks_before: "j < i \<Longrightarrow> put_chunks prefix i chunks f (chunk_key prefix j) = f (chunk_key prefix j)"
  by (induction chunks arbitrary: i f) auto

lemma put_chunks_key:
  "j < length chunks \<Longrightarrow> put_chunks prefix i chunks f (chunk_key prefix (i + j)) = Some (chunks ! j)"
proof (induction chunks arbitrary: i j f)
  case (Cons c chunks)
  then show ?case
    by (cases j) (simp_all add: put_chunks_before, metis add_Suc)
qed simp

lemma put_chunks_other:
  "(\<And>j. j < length chunks \<Longrightarrow> key \<noteq> chunk_key prefix (i + j)) \<Longrightarrow> put_chunks prefix i chunks f key = f key"
proof (induction chunks arbitrary: i f)
  case (Cons c chunks)
  have "key \<noteq> chunk_key prefix i" using Cons.prems [of 0] by simp
  moreover have "key \<noteq> chunk_key prefix (Suc i + j)" if "j < length chunks" for j
    using Cons.prems [of "Suc j"] that by simp
  ultimately show ?case by (simp add: Cons.IH)
qed simp

text \<open>The left-over keys: those read that are not the key of a chunk.\<close>

definition chunk_keys :: "string \<Rightarrow> nat \<Rightarrow> nat \<Rightarrow> string set" where
  "chunk_keys prefix i n = (\<lambda>j. chunk_key prefix (i + j)) ` {..<n}"

lemma chunk_keys_Suc: "chunk_keys prefix i (Suc n) = insert (chunk_key prefix i) (chunk_keys prefix (Suc i) n)"
  unfolding chunk_keys_def lessThan_Suc_eq_insert_0 by (auto simp: image_iff)

lemma delete_keys_set: "fst ` set (AList.delete k al) = fst ` set al - {k}"
  by (metis AList.delete_keys set_map set_removeAll)

text \<open>A write of the loop, unscrubbed.\<close>

lemma chunk_write:
  assumes "store_ok env (now 0) m" "collision_free env" "defenseMode env ns \<notin> {''redact'', ''block''}"
    and "now 0 < T" "Write env now fid (chunk_input ns prefix writer key chunk) m = (Inr f, m')"
  shows "store_ok env T m' \<and> live_body later ns m' = (live_body later ns m)(key \<mapsto> chunk)
    \<and> (\<forall>ns'. ns' \<noteq> ns \<longrightarrow> live_body later ns' m' = live_body later ns' m)"
proof -
  have "defend env (wi_ns (chunk_input ns prefix writer key chunk)) (wi_body (chunk_input ns prefix writer key chunk))
      = Inr (chunk, [], [])"
    using assms(3) by (simp add: chunk_input_def defend_def)
  note put = Write_put [where now = now, OF assms(1,2) this _ assms(4) assms(5) [unfolded Write_def]]
  show ?thesis using put [of later ns] put [of later] by (simp add: chunk_input_def)
qed

text \<open>The setting: no scrub, clocks that advance from operation to operation, a collision-free hash.\<close>

definition doc_setting :: "mem_env \<Rightarrow> (nat \<Rightarrow> clock) \<Rightarrow> string \<Rightarrow> bool" where
  "doc_setting env tick ns \<longleftrightarrow> collision_free env \<and> (\<forall>k. tick k 0 < tick (Suc k) 0)
     \<and> defenseMode env ns \<notin> {''redact'', ''block''} \<and> en_defense env \<notin> {''redact'', ''block''}"

lemma doc_settingD:
  assumes "doc_setting env tick ns"
  shows "collision_free env" "tick k 0 < tick (Suc k) 0" "defenseMode env ns \<notin> {''redact'', ''block''}"
    "en_defense env \<noteq> ''redact''" "en_defense env \<noteq> ''block''"
  using assms by (auto simp: doc_setting_def)

lemma doc_loop_effect:
  assumes setting: "doc_setting env tick ns"
    and "store_ok env (tick (Suc i) 0) m" "[] \<notin> set chunks"
    and "\<forall>k b. map_of byKey k = Some b \<longrightarrow> live_body later ns m k = Some b"
    and "doc_loop env tick fids ns prefix writer i chunks byKey counts m = (Inr (byKey', counts'), m')"
  shows "store_ok env (tick (Suc (i + length chunks)) 0) m'
    \<and> live_body later ns m' = put_chunks prefix i chunks (live_body later ns m)
    \<and> (\<forall>ns'. ns' \<noteq> ns \<longrightarrow> live_body later ns' m' = live_body later ns' m)
    \<and> fst ` set byKey' = fst ` set byKey - chunk_keys prefix i (length chunks)"
  using assms(2-)
proof (induction chunks arbitrary: i byKey counts m)
  case Nil
  then show ?case by (simp add: chunk_keys_def)
next
  case (Cons chunk chunks)
  obtain w u r b where counts: "counts = (w, u, r, b)" by (cases counts)
  let ?key = "chunk_key prefix i"
  let ?byKey = "AList.delete ?key byKey"
  have keys: "fst ` set byKey - chunk_keys prefix i (length (chunk # chunks))
      = fst ` set ?byKey - chunk_keys prefix (Suc i) (length chunks)"
    by (auto simp: delete_keys_set chunk_keys_Suc)
  have agree: "live_body later ns m k = Some b \<and> k \<noteq> ?key" if "map_of ?byKey k = Some b" for k b
    using that Cons.prems(3) by (cases "k = ?key") (simp_all add: delete_conv)
  show ?case
  proof (cases "body_at byKey ?key = chunk")
    case True
    then have "map_of byKey ?key = Some chunk"
      using Cons.prems(2) by (auto simp: body_at_def split: option.splits)
    then have same: "(live_body later ns m)(?key \<mapsto> chunk) = live_body later ns m"
      using Cons.prems(3) by (simp add: fun_upd_idem)
    have ok: "store_ok env (tick (Suc (Suc i)) 0) m"
      using store_ok_mono [OF Cons.prems(1)] doc_settingD(2) [OF setting, of "Suc i"] by simp
    have run: "doc_loop env tick fids ns prefix writer (Suc i) chunks ?byKey (w, Suc u, r, b) m
        = (Inr (byKey', counts'), m')"
      using Cons.prems(4) doc_settingD(4,5) [OF setting] True by (simp add: Let_def counts)
    show ?thesis
      using Cons.IH [OF ok _ _ run] Cons.prems(2) agree same keys by simp
  next
    case False
    then obtain f m1 where wr: "Write env (tick (Suc i)) (fids (Suc i)) (chunk_input ns prefix writer ?key chunk) m = (Inr f, m1)"
      and run: "doc_loop env tick fids ns prefix writer (Suc i) chunks ?byKey (Suc w, u, r, b) m1
        = (Inr (byKey', counts'), m')"
      using Cons.prems(4) doc_settingD(4,5) [OF setting] by (auto simp: Let_def counts split: prod.splits sum.splits)
    note put = chunk_write [where now = "tick (Suc i)", OF Cons.prems(1)
        doc_settingD(1,3,2) [OF setting] wr, of later]
    have "\<forall>k b. map_of ?byKey k = Some b \<longrightarrow> live_body later ns m1 k = Some b"
      using put agree by simp
    then have "store_ok env (tick (Suc (Suc i + length chunks)) 0) m'
      \<and> live_body later ns m' = put_chunks prefix (Suc i) chunks (live_body later ns m1)
      \<and> (\<forall>ns'. ns' \<noteq> ns \<longrightarrow> live_body later ns' m' = live_body later ns' m1)
      \<and> fst ` set byKey' = fst ` set ?byKey - chunk_keys prefix (Suc i) (length chunks)"
      using put Cons.prems(2) by (intro Cons.IH [OF _ _ _ run]) simp_all
    then show ?thesis unfolding keys using put by simp
  qed
qed

lemma forget_loop_effect:
  assumes advance: "\<forall>k. tick k 0 < tick (Suc k) 0"
    and "store_ok env (tick (Suc i) 0) m"
    and "forget_loop tick fids ns writer i ks counts m = (Inr counts', m')"
  shows "live_body later ns m' = (\<lambda>k. if k \<in> set ks then None else live_body later ns m k)
    \<and> (\<forall>ns'. ns' \<noteq> ns \<longrightarrow> live_body later ns' m' = live_body later ns' m)"
  using assms(2-)
proof (induction ks arbitrary: i counts m)
  case Nil
  then show ?case by simp
next
  case (Cons key ks)
  obtain w u r b where counts: "counts = (w, u, r, b)" by (cases counts)
  then obtain m1 where del: "Forget (tick (Suc i)) (fids (Suc i)) ns key writer m = (Inr (), m1)"
    and run: "forget_loop tick fids ns writer (Suc i) ks (w, u, Suc r, b) m1 = (Inr counts', m')"
    using Cons.prems(2) by (auto split: prod.splits sum.splits)
  note one = Forget_delete [where now = "tick (Suc i)", OF Cons.prems(1) advance [THEN spec] del]
  have "store_ok env (tick (Suc (Suc i)) 0) m1" using one by blast
  then show ?case
    using Cons.IH [OF _ run] one [of later ns] one [of later] by auto
qed

lemma by_key_keys:
  "fst ` set (fold (\<lambda>f. AList.update (fa_key f) (fa_body f)) fs al) = fst ` set al \<union> fa_key ` set fs"
  by (induction fs arbitrary: al) (auto simp: dom_update)

lemma by_key_Some:
  "map_of (fold (\<lambda>f. AList.update (fa_key f) (fa_body f)) fs al) k = Some b \<Longrightarrow>
   map_of al k = Some b \<or> (\<exists>f \<in> set fs. fa_key f = k \<and> fa_body f = b)"
  by (induction fs arbitrary: al) (force simp: update_conv split: if_splits)+

lemma Recall_live:
  assumes "store_ok env T m" "f \<in> set (Recall now ns prefix limit m)"
  shows "live_body later ns m (fa_key f) = Some (fa_body f)"
proof -
  have "f \<in> set (latest_live now ns (key_like m prefix) m)" "ns \<in> set (mm_namespaces m)"
    using assms(2) by (auto simp: Recall_def recallPrefix_def dest: in_set_takeD split: if_splits)
  then have "f \<in> set (mm_facts m)" "fa_ns f = ns" "is_latest (mm_facts m) f" "fa_action f \<noteq> ''tombstone''"
    by (auto simp: latest_live_def)
  moreover have "stamps_ok (mm_facts m)" "unexpired later f"
    using assms(1) \<open>f \<in> set (mm_facts m)\<close> by (auto simp: store_ok_def intro: plain_unexpired)
  ultimately show ?thesis
    using \<open>ns \<in> set (mm_namespaces m)\<close> live_fact_iff [of m later ns "fa_key f" f]
    by (simp add: live_body_def is_live_def of_key_def)
qed

lemma WriteDocument_effect_all:
  assumes setting: "doc_setting env tick ns" and ok: "store_ok env (tick 1 0) m"
    and order: "\<And>ks. set (order ks) = set ks"
    and run: "WriteDocument env tick fids order configured ns prefix txt writer m = Some (Inr counts, m')"
  shows "\<exists>chunks. chunkText txt (chunkMax configured) = Some chunks
    \<and> (\<forall>i < length chunks. live_body later ns m' (chunk_key prefix i) = Some (chunks ! i))
    \<and> (\<forall>key. key \<notin> chunk_keys prefix 0 (length chunks) \<longrightarrow> live_body later ns m' key =
         (if key \<in> fa_key ` set (Recall (tick 0 0) ns (prefix @ ''/chunk-'') 1000 m) then None
          else live_body later ns m key))
    \<and> (\<forall>ns'. ns' \<noteq> ns \<longrightarrow> live_body later ns' m' = live_body later ns' m)"
proof -
  let ?ex = "Recall (tick 0 0) ns (prefix @ ''/chunk-'') 1000 m"
  have advance: "\<forall>k. tick k 0 < tick (Suc k) 0" using setting by (simp add: doc_setting_def)
  have "0 < chunkMax configured" by (simp add: chunkMax_def DefaultChunkMaxChars_def)
  note cutting = chunkText_ok [OF this, of "txt"]
  obtain chunks
    where chunks: "chunkText txt (chunkMax configured) = Some chunks" "[] \<notin> set chunks"
    using cutting by (auto simp: pieces_ok_def)
  have "write_chunks env tick fids order ns prefix writer chunks m = (Inr counts, m')"
    using run chunks by (auto simp: WriteDocument_def split: sum.splits)
  then obtain byKey c1 m1 where loop: "doc_loop env tick fids ns prefix writer 0 chunks (by_key ?ex) (0, 0, 0, 0) m
        = (Inr (byKey, c1), m1)"
    and rest: "forget_loop tick fids ns writer (length chunks) (order (map fst byKey)) c1 m1 = (Inr counts, m')"
    by (auto simp: write_chunks_def split: prod.splits sum.splits)
  have agree: "live_body later ns m k = Some b" if mapped: "map_of (by_key ?ex) k = Some b" for k b
  proof -
    obtain f where "f \<in> set ?ex" "fa_key f = k" "fa_body f = b"
      using by_key_Some [OF mapped [unfolded by_key_def]] by auto
    then show ?thesis using Recall_live [OF ok] by blast
  qed
  have first: "store_ok env (tick (Suc (length chunks)) 0) m1"
    "live_body later ns m1 = put_chunks prefix 0 chunks (live_body later ns m)"
    "\<forall>ns'. ns' \<noteq> ns \<longrightarrow> live_body later ns' m1 = live_body later ns' m"
    "set (map fst byKey) = fa_key ` set ?ex - chunk_keys prefix 0 (length chunks)"
    using doc_loop_effect [where i = 0, OF setting _ chunks(2) _ loop, of later] ok agree
    by (simp_all add: by_key_def by_key_keys)
  note second = forget_loop_effect [OF advance first(1) rest, of later, unfolded order first(4)]
  have "live_body later ns m' (chunk_key prefix i) = Some (chunks ! i)" if "i < length chunks" for i
  proof -
    have "chunk_key prefix i \<in> chunk_keys prefix 0 (length chunks)" using that by (auto simp: chunk_keys_def)
    then show ?thesis
      using second first(2) put_chunks_key [OF that, of prefix 0 "live_body later ns m"] by simp
  qed
  moreover have "live_body later ns m' key = (if key \<in> fa_key ` set ?ex then None else live_body later ns m key)"
    if "key \<notin> chunk_keys prefix 0 (length chunks)" for key
  proof -
    have "key \<noteq> chunk_key prefix (0 + j)" if "j < length chunks" for j
      using that \<open>key \<notin> _\<close> by (auto simp: chunk_keys_def)
    then show ?thesis using second first(2) put_chunks_other [of chunks key prefix 0] that by simp
  qed
  ultimately show ?thesis using chunks(1) first(3) second by simp
qed

lemma WriteDocument_kept:
  assumes "doc_setting env tick ns" "store_ok env (tick 1 0) m" "\<And>ks. set (order ks) = set ks"
    and "WriteDocument env tick fids order configured ns prefix txt writer m = Some (Inr counts, m')"
  shows "\<exists>n. \<forall>key. key \<notin> chunk_keys prefix 0 n \<longrightarrow> live_body later ns m' key =
      (if key \<in> fa_key ` set (Recall (tick 0 0) ns (prefix @ ''/chunk-'') 1000 m) then None
       else live_body later ns m key)"
  using WriteDocument_effect_all [OF assms, of later] by blast

text \<open>C11: what a document write leaves.  When it succeeds, the key of the i-th chunk reads the i-th chunk,
  every other key that the listing under the prefix returned reads nothing, and all other keys and
  namespaces read what they read before.\<close>

theorem WriteDocument_effect:
  assumes setting: "doc_setting env tick ns" and ok: "store_ok env (tick 1 0) m"
    and order: "\<And>ks. set (order ks) = set ks"
    and run: "WriteDocument env tick fids order configured ns prefix txt writer m = Some (Inr counts, m')"
  shows "\<exists>chunks. chunkText txt (chunkMax configured) = Some chunks
    \<and> (\<forall>i < length chunks. live_body later ns m' (chunk_key prefix i) = Some (chunks ! i))
    \<and> (\<forall>key. key \<notin> chunk_keys prefix 0 (length chunks) \<longrightarrow> live_body later ns m' key =
         (if key \<in> fa_key ` set (Recall (tick 0 0) ns (prefix @ ''/chunk-'') 1000 m) then None
          else live_body later ns m key))
    \<and> (\<forall>ns'. ns' \<noteq> ns \<longrightarrow> live_body later ns' m' = live_body later ns' m)"
  by (rule WriteDocument_effect_all [OF assms])

text \<open>A document write can delete another document.  On SQLite the listing ignores the case of
  letters, so a chunk of a document whose prefix differs only in case is taken for a left-over of this one and
  deleted.\<close>

lemma WriteDocument_case_clash:
  assumes setting: "doc_setting env tick ns" and ok: "store_ok env (tick 1 0) m"
    and order: "\<And>ks. set (order ks) = set ks"
    and run: "WriteDocument env tick fids order configured ns prefix txt writer m = Some (Inr counts, m')"
    and driver: "mm_driver m = SQLite"
    and small: "ns \<in> set (mm_namespaces m)" "length (mm_facts m) \<le> 1000"
    and other: "other \<noteq> prefix" "map lower_char other = map lower_char prefix"
    and f: "is_live (tick 0 0) ns (chunk_key other i) (mm_facts m) f"
  shows "live_body later ns m (chunk_key other i) = Some (fa_body f)
    \<and> live_body later ns m' (chunk_key other i) = None"
proof -
  have len: "length other = length prefix" using other(2) by (rule map_eq_imp_length_eq)
  have "key_like m (prefix @ ''/chunk-'') (chunk_key other i)"
    using driver len other(2)
    by (simp add: key_like_iff like_fold_def chunk_key_def)
  then have mem: "f \<in> set (latest_live (tick 0 0) ns (key_like m (prefix @ ''/chunk-'')) m)"
    using f by (auto simp: latest_live_def is_live_def of_key_def)
  have "length (latest_live (tick 0 0) ns (key_like m (prefix @ ''/chunk-'')) m) \<le> 1000"
    using small(2) by (simp add: latest_live_def order_trans [OF length_filter_le])
  then have listed: "f \<in> set (Recall (tick 0 0) ns (prefix @ ''/chunk-'') 1000 m)"
    using mem small(1) by (simp add: Recall_def recallPrefix_def page_limit_def)
  have key: "fa_key f = chunk_key other i" using f by (simp add: is_live_def of_key_def)
  have "chunk_key other i \<notin> chunk_keys prefix 0 n" for n
    using other(1) len by (auto simp: chunk_keys_def chunk_key_def)
  then have "live_body later ns m' (chunk_key other i) = None"
    using WriteDocument_kept [OF setting ok order run, of later] listed key by (metis imageI)
  then show ?thesis using Recall_live [OF ok listed, of later] key by simp
qed

definition demo_tick :: "nat \<Rightarrow> clock" where "demo_tick k j = 10 + int k"

definition demo_chunk :: "string \<Rightarrow> string \<Rightarrow> fact" where
  "demo_chunk fid key = (demo_fact fid key 1)\<lparr>fa_hash := key @ ''b''\<rparr>"

lemma demo_doc_setting: "doc_setting demo_env demo_tick ''p''"
  by (simp add: doc_setting_def collision_free_def demo_env_def demo_tick_def defenseMode_def)

definition demo_docs :: memory where
  "demo_docs = demo_memory [demo_chunk ''1'' ''/D/chunk-0001'']"

lemma demo_docs_ok: "store_ok demo_env (demo_tick 1 0) demo_docs"
  by (simp add: store_ok_def plain_facts_def demo_docs_def demo_chunk_def demo_tick_def demo_store)

lemma demo_trim: "trim_space ''new'' = ''new''"
  by (rule trim_space_plain) (simp add: graphic_def in_range_def byte_def)

lemma demo_cut: "chunkText ''new'' (chunkMax 0) = Some [''new'']"
  by (simp add: chunkText_def split_sub.simps demo_trim chunkMax_def DefaultChunkMaxChars_def has_prefix_def)

lemma demo_key: "chunk_key ''/d'' 0 = ''/d/chunk-0001''" "chunk_key ''/D'' 0 = ''/D/chunk-0001''"
  by code_simp+

lemma demo_listing: "Recall (demo_tick 0 0) ''p'' ''/d/chunk-'' 1000 demo_docs = [demo_chunk ''1'' ''/D/chunk-0001'']"
proof -
  have "char_of (100 :: nat) = CHR ''d''" by code_simp
  then show ?thesis
    by (simp add: Recall_def recallPrefix_def latest_live_def demo_docs_def demo_chunk_def demo_tick_def demo_store
        key_like_iff like_fold_def lower_char_def in_range_def byte_def is_latest_def unexpired_def page_limit_def)
qed

definition demo_fids :: "nat \<Rightarrow> string" where "demo_fids k = replicate (k + 1) CHR ''9''"

lemma demo_run:
  "\<exists>counts m'. WriteDocument demo_env demo_tick demo_fids id 0 ''p'' ''/d'' ''new'' ''w'' demo_docs
     = Some (Inr counts, m')"
proof -
  let ?inp = "chunk_input ''p'' ''/d'' ''w'' ''/d/chunk-0001'' ''new''"
  have ids: "fa_id ` set (mm_facts demo_docs) = {''1''}" by (simp add: demo_docs_def demo_chunk_def demo_store)
  have keys: "ValidateKey ''/d'' = Inr ()" "ValidateKey ''/d/chunk-0001'' = Inr ()" "ValidateKey ''/D/chunk-0001'' = Inr ()"
    "name_ok ''p''"
    by (simp_all add: ValidateKey_def has_prefix_def has_suffix_def contains_sub_def name_ok_def)
  obtain f m1 where wr: "Write demo_env (demo_tick (Suc 0)) (demo_fids (Suc 0)) ?inp demo_docs = (Inr f, m1)"
  proof -
    have "\<exists>f m'. write_fact demo_env (demo_tick (Suc 0)) (demo_fids (Suc 0)) ?inp True demo_docs = (Inr f, m')"
      by (rule Write_succeeds [where b = "''new''" and labels = "[]" and prints = "[]"])
        (use keys ids in \<open>simp_all add: chunk_input_def defend_def defenseMode_def demo_env_def demo_fids_def\<close>)
    then show ?thesis using that by (auto simp: Write_def)
  qed
  have put: "store_ok demo_env (demo_tick 2 0) m1"
    "live_body 9 ''p'' m1 = (live_body 9 ''p'' demo_docs)(''/d/chunk-0001'' \<mapsto> ''new'')"
    using chunk_write [where now = "demo_tick (Suc 0)" and T = "demo_tick 2 0", OF _ _ _ _ wr, of 9]
      demo_docs_ok doc_settingD [OF demo_doc_setting] by (auto simp: demo_tick_def)
  have "live_body 9 ''p'' demo_docs ''/D/chunk-0001'' = Some ''b''"
    using Recall_live [OF demo_docs_ok, of "demo_chunk ''1'' ''/D/chunk-0001''" "demo_tick 0 0" "''p''" "''/d/chunk-''" 1000 9]
    by (simp add: demo_listing) (simp add: demo_chunk_def demo_store)
  then have "live_body 9 ''p'' m1 ''/D/chunk-0001'' = Some ''b''" using put(2) by simp
  moreover have "demo_fids (Suc (Suc 0)) \<notin> fa_id ` set (mm_facts m1)"
    using write_ids [of demo_env "demo_tick (Suc 0)" "demo_fids (Suc 0)" ?inp True demo_docs] wr ids
    by (auto simp: Write_def demo_fids_def)
  ultimately obtain m2 where "Forget (demo_tick (Suc (Suc 0))) (demo_fids (Suc (Suc 0))) ''p'' ''/D/chunk-0001'' ''w'' m1
      = (Inr (), m2)"
    using Forget_succeeds [of "''/D/chunk-0001''" "''p''"] keys put(1) by (metis store_ok_def)
  then show ?thesis
    using wr keys(1) by (simp add: WriteDocument_def demo_cut write_chunks_def demo_listing by_key_def demo_key body_at_def
        demo_env_def demo_chunk_def demo_fact_def)
qed


theorem WriteDocument_effect_witness:
  "\<exists>counts m'. WriteDocument demo_env demo_tick demo_fids id 0 ''p'' ''/d'' ''new'' ''w'' demo_docs
     = Some (Inr counts, m') \<and> live_body 9 ''p'' m' ''/d/chunk-0001'' = Some ''new''"
proof -
  obtain counts m' where run: "WriteDocument demo_env demo_tick demo_fids id 0 ''p'' ''/d'' ''new'' ''w'' demo_docs
     = Some (Inr counts, m')" using demo_run by blast
  have "live_body 9 ''p'' m' ''/d/chunk-0001'' = Some ''new''"
    using WriteDocument_effect [OF demo_doc_setting demo_docs_ok _ run, of 9] by (simp add: demo_cut demo_key)
  then show ?thesis using run by blast
qed

lemma WriteDocument_case_clash_witness:
  "\<exists>counts m'. WriteDocument demo_env demo_tick demo_fids id 0 ''p'' ''/d'' ''new'' ''w'' demo_docs
     = Some (Inr counts, m') \<and> live_body 9 ''p'' m' ''/D/chunk-0001'' = None"
proof -
  obtain counts m' where run: "WriteDocument demo_env demo_tick demo_fids id 0 ''p'' ''/d'' ''new'' ''w'' demo_docs
     = Some (Inr counts, m')" using demo_run by blast
  have lower: "map lower_char ''/D'' = map lower_char ''/d''" by code_simp
  have f: "is_live (demo_tick 0 0) ''p'' (chunk_key ''/D'' 0) (mm_facts demo_docs) (demo_chunk ''1'' ''/D/chunk-0001'')"
    by (simp add: demo_key is_live_def demo_docs_def demo_chunk_def demo_store is_latest_def unexpired_def)
  have "live_body 9 ''p'' m' ''/D/chunk-0001'' = None"
    using WriteDocument_case_clash [OF demo_doc_setting demo_docs_ok _ run _ _ _ _ lower f, of 9]
    by (simp add: demo_key demo_docs_def demo_memory_def)
  then show ?thesis using run by blast
qed

end
