(* ===== verification/Links.thy ===== *)
theory Links
  imports Facts "HOL-Library.Product_Lexorder"
begin

text \<open>
  Typed edges between facts, \<open>internal/memory/links.go\<close>.  The table's primary key is (namespace, from, to,
  type), over open and closed edges alike.  The embedder is a parameter that gives the encoded vector of a
  description or fails.
\<close>

section \<open>The table\<close>

record link_row =
  lk_ns :: string
  lk_from :: string
  lk_to :: string
  lk_type :: string
  lk_weight :: rat
  lk_desc :: "string option"
  lk_embedding :: "string option"
  lk_created :: instant
  lk_valid :: "instant option"
  lk_invalid :: "instant option"

type_synonym links = "link_row list"

datatype link_error =
    LinkKey memory_error
  | LinkTypeUnknown string
  | LinkEmbed
  | LinkNotFound string string string
  | DirectionInvalid string
  | LimitOverflow

definition LinkTypes :: "string list" where
  "LinkTypes =
    [''relates_to'', ''leads_to'', ''occurred_before'', ''prefers_over'', ''exemplifies'', ''contradicts'',
     ''reinforces'', ''invalidated_by'', ''evolved_into'', ''derived_from'', ''part_of'', ''similar_to'',
     ''mentions'', ''co_occurs'']"

definition ValidateLinkType :: "string \<Rightarrow> link_error + unit" where
  "ValidateLinkType t = (if t \<in> set LinkTypes then Inr () else Inl (LinkTypeUnknown t))"

section \<open>Adding and closing\<close>

definition link_type_of :: "string \<Rightarrow> string" where
  "link_type_of linkType = (if linkType = [] then ''relates_to'' else linkType)"

definition normalizeLinkArgs :: "string \<Rightarrow> string \<Rightarrow> string \<Rightarrow> rat \<Rightarrow> link_error + (string \<times> rat)" where
  "normalizeLinkArgs from to linkType weight =
     (case ValidateKey from of
        Inl e \<Rightarrow> Inl (LinkKey e)
      | Inr _ \<Rightarrow> (case ValidateKey to of
          Inl e \<Rightarrow> Inl (LinkKey e)
        | Inr _ \<Rightarrow> (case ValidateLinkType (link_type_of linkType) of
            Inl e \<Rightarrow> Inl e
          | Inr _ \<Rightarrow> Inr (link_type_of linkType, if weight \<le> 0 \<or> weight > 1 then 1 else weight))))"

definition nullableString :: "string \<Rightarrow> string option" where
  "nullableString v = (if v = [] then None else Some v)"

definition same_edge :: "string \<Rightarrow> string \<Rightarrow> string \<Rightarrow> string \<Rightarrow> link_row \<Rightarrow> bool" where
  "same_edge ns from to linkType l \<longleftrightarrow> lk_ns l = ns \<and> lk_from l = from \<and> lk_to l = to \<and> lk_type l = linkType"

definition addLinkTx ::
  "string \<Rightarrow> string \<Rightarrow> string \<Rightarrow> string \<Rightarrow> rat \<Rightarrow> string \<Rightarrow> string option \<Rightarrow> instant \<Rightarrow> (links, link_error, unit) op" where
  "addLinkTx ns from to linkType weight description embedding now ls =
     (case normalizeLinkArgs from to linkType weight of
        Inl e \<Rightarrow> (Inl e, ls)
      | Inr (ty, w) \<Rightarrow>
          (Inr (), if list_ex (same_edge ns from to ty) ls then ls
             else ls @ [\<lparr>lk_ns = ns, lk_from = from, lk_to = to, lk_type = ty, lk_weight = w,
               lk_desc = nullableString description, lk_embedding = embedding, lk_created = now,
               lk_valid = Some now, lk_invalid = None\<rparr>]))"

definition AddLinkDescribed ::
  "(string \<Rightarrow> string option) option \<Rightarrow> instant \<Rightarrow> string \<Rightarrow> string \<Rightarrow> string \<Rightarrow> string \<Rightarrow> rat \<Rightarrow> string
   \<Rightarrow> (links, link_error, unit) op" where
  "AddLinkDescribed embedder now ns from to linkType weight description ls =
     (case normalizeLinkArgs from to linkType weight of
        Inl e \<Rightarrow> (Inl e, ls)
      | Inr (ty, w) \<Rightarrow>
          (case embedder of
             Some encode \<Rightarrow>
               if description \<noteq> [] then
                 (case encode description of
                    None \<Rightarrow> (Inl LinkEmbed, ls)
                  | Some v \<Rightarrow> with_tx (addLinkTx ns from to ty w description (Some v) now) ls)
               else with_tx (addLinkTx ns from to ty w description None now) ls
           | None \<Rightarrow> with_tx (addLinkTx ns from to ty w description None now) ls))"

definition AddLinkWeighted ::
  "(string \<Rightarrow> string option) option \<Rightarrow> instant \<Rightarrow> string \<Rightarrow> string \<Rightarrow> string \<Rightarrow> string \<Rightarrow> rat
   \<Rightarrow> (links, link_error, unit) op" where
  "AddLinkWeighted embedder now ns from to linkType weight =
     AddLinkDescribed embedder now ns from to linkType weight []"

definition AddLink ::
  "(string \<Rightarrow> string option) option \<Rightarrow> instant \<Rightarrow> string \<Rightarrow> string \<Rightarrow> string \<Rightarrow> string
   \<Rightarrow> (links, link_error, unit) op" where
  "AddLink embedder now ns from to linkType = AddLinkWeighted embedder now ns from to linkType 1"

definition open_edge :: "string \<Rightarrow> string \<Rightarrow> string \<Rightarrow> string \<Rightarrow> link_row \<Rightarrow> bool" where
  "open_edge ns from to ty l \<longleftrightarrow> same_edge ns from to ty l \<and> lk_invalid l = None"

definition invalidateLinkTx :: "string \<Rightarrow> string \<Rightarrow> string \<Rightarrow> string \<Rightarrow> instant \<Rightarrow> (links, link_error, unit) op" where
  "invalidateLinkTx ns from to linkType now ls =
     (case ValidateKey from of
        Inl e \<Rightarrow> (Inl (LinkKey e), ls)
      | Inr _ \<Rightarrow> (case ValidateKey to of
          Inl e \<Rightarrow> (Inl (LinkKey e), ls)
        | Inr _ \<Rightarrow>
            (let ty = link_type_of linkType in
             case ValidateLinkType ty of
               Inl e \<Rightarrow> (Inl e, ls)
             | Inr _ \<Rightarrow>
                 (let ls' = update_where (open_edge ns from to ty) (\<lambda>l. l\<lparr>lk_invalid := Some now\<rparr>) ls
                  in if rows_affected (open_edge ns from to ty) ls = 0 then (Inl (LinkNotFound from to ty), ls')
                     else (Inr (), ls')))))"

definition InvalidateLink :: "instant \<Rightarrow> string \<Rightarrow> string \<Rightarrow> string \<Rightarrow> string \<Rightarrow> (links, link_error, unit) op" where
  "InvalidateLink now ns from to linkType = with_tx (invalidateLinkTx ns from to linkType now)"

section \<open>Reading\<close>

record link =
  li_ns :: string
  li_from :: string
  li_to :: string
  li_type :: string
  li_weight :: rat
  li_desc :: string

definition link_of :: "link_row \<Rightarrow> link" where
  "link_of l = \<lparr>li_ns = lk_ns l, li_from = lk_from l, li_to = lk_to l, li_type = lk_type l, li_weight = lk_weight l,
     li_desc = (case lk_desc l of None \<Rightarrow> [] | Some d \<Rightarrow> d)\<rparr>"

definition near_end :: "string \<Rightarrow> link_row \<Rightarrow> string" where
  "near_end direction l = (if direction = ''in'' then lk_to l else lk_from l)"

definition far_end :: "string \<Rightarrow> link_row \<Rightarrow> string" where
  "far_end direction l = (if direction = ''in'' then lk_from l else lk_to l)"

record neighbor_page =
  np_links :: "link list"
  np_more :: bool

definition max_int :: int where "max_int = 2 ^ 63 - 1"

definition live_neighbors :: "string \<Rightarrow> string \<Rightarrow> string \<Rightarrow> links \<Rightarrow> link_row list" where
  "live_neighbors ns key direction ls =
     sort_key (\<lambda>l. (far_end direction l, lk_type l))
       (filter (\<lambda>l. lk_ns l = ns \<and> near_end direction l = key \<and> lk_invalid l = None) ls)"

text \<open>The loop stops at the first row past the limit; the query returns one row more than that at most.\<close>

fun read_page :: "int \<Rightarrow> link_row list \<Rightarrow> link list \<Rightarrow> neighbor_page" where
  "read_page limit [] acc = \<lparr>np_links = acc, np_more = False\<rparr>"
| "read_page limit (r # rs) acc =
     (if limit > 0 \<and> int (length acc) = limit then \<lparr>np_links = acc, np_more = True\<rparr>
      else read_page limit rs (acc @ [link_of r]))"

definition NeighborsBounded :: "string \<Rightarrow> string \<Rightarrow> string \<Rightarrow> int \<Rightarrow> links \<Rightarrow> link_error + neighbor_page" where
  "NeighborsBounded ns key direction limit ls =
     (if direction \<noteq> ''out'' \<and> direction \<noteq> ''in'' then Inl (DirectionInvalid direction)
      else if limit = max_int then Inl LimitOverflow
      else let rows = live_neighbors ns key direction ls
           in Inr (read_page limit (if limit > 0 then take (nat (limit + 1)) rows else rows) []))"

definition Neighbors :: "string \<Rightarrow> string \<Rightarrow> string \<Rightarrow> links \<Rightarrow> link_error + link list" where
  "Neighbors ns key direction ls =
     (case NeighborsBounded ns key (if direction = ''in'' then ''in'' else ''out'') 0 ls of
        Inl e \<Rightarrow> Inl e | Inr page \<Rightarrow> Inr (np_links page))"

definition link_covers :: "instant \<Rightarrow> link_row \<Rightarrow> bool" where
  "link_covers t l \<longleftrightarrow> (case lk_valid l of None \<Rightarrow> lk_created l | Some v \<Rightarrow> v) \<le> t
     \<and> (case lk_invalid l of None \<Rightarrow> True | Some i \<Rightarrow> i > t)"

definition NeighborsAsOf :: "string \<Rightarrow> string \<Rightarrow> string \<Rightarrow> instant \<Rightarrow> links \<Rightarrow> link list" where
  "NeighborsAsOf ns key direction t ls =
     map link_of (sort_key (far_end direction)
       (filter (\<lambda>l. lk_ns l = ns \<and> near_end direction l = key \<and> link_covers t l) ls))"

definition linkTargetsAll :: "string \<Rightarrow> string \<Rightarrow> string \<Rightarrow> links \<Rightarrow> string list" where
  "linkTargetsAll ns from linkType ls =
     sort (map lk_to (filter (\<lambda>l. lk_ns l = ns \<and> lk_from l = from \<and> lk_type l = linkType) ls))"

definition linkSourcesAll :: "string \<Rightarrow> string \<Rightarrow> string \<Rightarrow> links \<Rightarrow> string list" where
  "linkSourcesAll ns to linkType ls =
     sort (map lk_from (filter (\<lambda>l. lk_ns l = ns \<and> lk_to l = to \<and> lk_type l = linkType) ls))"

definition linksForKeys :: "string \<Rightarrow> string list \<Rightarrow> links \<Rightarrow> link list" where
  "linksForKeys ns ks ls =
     (if ks = [] then []
      else map (\<lambda>l. (link_of l)\<lparr>li_desc := []\<rparr>)
        (filter (\<lambda>l. lk_ns l = ns \<and> (lk_from l \<in> set ks \<or> lk_to l \<in> set ks) \<and> lk_invalid l = None) ls))"

section \<open>Pages\<close>

lemma read_page_unlimited: "read_page 0 rs acc = \<lparr>np_links = acc @ map link_of rs, np_more = False\<rparr>"
  by (induction rs arbitrary: acc) simp_all

lemma read_page_limited:
  "0 < limit \<Longrightarrow> int (length acc) \<le> limit \<Longrightarrow>
   read_page limit rs acc = \<lparr>np_links = acc @ map link_of (take (nat limit - length acc) rs),
     np_more = (nat limit - length acc < length rs)\<rparr>"
proof (induction rs arbitrary: acc)
  case (Cons r rs)
  show ?case
  proof (cases "int (length acc) = limit")
    case True
    then show ?thesis using Cons.prems by auto
  next
    case False
    then have less: "int (length acc) < limit" using Cons.prems by simp
    then have "nat limit - length acc = Suc (nat limit - length (acc @ [link_of r]))" by simp
    then show ?thesis using Cons.IH [of "acc @ [link_of r]"] Cons.prems less False by simp
  qed
qed simp

lemma Neighbors_eq:
  "Neighbors ns key direction ls = Inr (map link_of (live_neighbors ns key (if direction = ''in'' then ''in'' else ''out'') ls))"
  by (simp add: Neighbors_def NeighborsBounded_def max_int_def read_page_unlimited Let_def)

text \<open>A bounded page is the beginning of the whole neighbourhood, and says whether there is more.\<close>

lemma NeighborsBounded_page:
  assumes "direction = ''in'' \<or> direction = ''out''" "0 < limit" "limit < max_int"
    and "Neighbors ns key direction ls = Inr whole"
  shows "NeighborsBounded ns key direction limit ls =
    Inr \<lparr>np_links = take (nat limit) whole, np_more = (nat limit < length whole)\<rparr>"
proof -
  let ?rows = "live_neighbors ns key direction ls"
  have "(if direction = ''in'' then ''in'' else ''out'') = direction" using assms(1) by auto
  then have whole: "whole = map link_of ?rows" using assms(4) by (simp add: Neighbors_eq)
  have "nat (limit + 1) = Suc (nat limit)" using assms(2) by simp
  then have "read_page limit (take (nat (limit + 1)) ?rows) [] =
      \<lparr>np_links = map link_of (take (nat limit) ?rows), np_more = (nat limit < length ?rows)\<rparr>"
    using read_page_limited [of limit "[]"] assms(2) by (auto simp: min_def)
  then show ?thesis using assms(1-3) by (auto simp: NeighborsBounded_def Let_def whole take_map)
qed

section \<open>Histories of edges\<close>

datatype link_op =
    AddOp instant string string string string rat string
  | CloseOp instant string string string string

fun link_time :: "link_op \<Rightarrow> instant" where
  "link_time (AddOp now _ _ _ _ _ _) = now"
| "link_time (CloseOp now _ _ _ _) = now"

fun link_do :: "(string \<Rightarrow> string option) option \<Rightarrow> link_op \<Rightarrow> links \<Rightarrow> links" where
  "link_do emb (AddOp now ns from to ty w d) ls = snd (AddLinkDescribed emb now ns from to ty w d ls)"
| "link_do emb (CloseOp now ns from to ty) ls = snd (InvalidateLink now ns from to ty ls)"

definition link_run :: "(string \<Rightarrow> string option) option \<Rightarrow> link_op list \<Rightarrow> links \<Rightarrow> links" where
  "link_run emb ops ls = fold (link_do emb) ops ls"

lemma addLinkTx_state:
  "snd (addLinkTx ns from to ty w d v now ls) = ls
   \<or> (\<exists>l. snd (addLinkTx ns from to ty w d v now ls) = ls @ [l] \<and> lk_created l = now \<and> lk_valid l = Some now \<and> lk_invalid l = None
        \<and> \<not> list_ex (same_edge (lk_ns l) (lk_from l) (lk_to l) (lk_type l)) ls)"
  by (auto simp: addLinkTx_def split: sum.split)

lemma AddLinkDescribed_state:
  "snd (AddLinkDescribed emb now ns from to ty w d ls) = ls
   \<or> (\<exists>l. snd (AddLinkDescribed emb now ns from to ty w d ls) = ls @ [l] \<and> lk_created l = now \<and> lk_valid l = Some now
        \<and> lk_invalid l = None \<and> \<not> list_ex (same_edge (lk_ns l) (lk_from l) (lk_to l) (lk_type l)) ls)"
proof (cases "normalizeLinkArgs from to ty w")
  case (Inl e)
  then show ?thesis by (simp add: AddLinkDescribed_def)
next
  case (Inr p)
  obtain t x where p: "p = (t, x)" by (cases p)
  have tx: "snd (with_tx (addLinkTx ns from to t x d v now) ls) = snd (addLinkTx ns from to t x d v now ls)" for v
    by (cases rule: with_tx_cases [of "addLinkTx ns from to t x d v now" ls])
      (auto simp: addLinkTx_def split: sum.splits prod.splits)
  have "AddLinkDescribed emb now ns from to ty w d ls = (Inl LinkEmbed, ls)
      \<or> (\<exists>v. AddLinkDescribed emb now ns from to ty w d ls = with_tx (addLinkTx ns from to t x d v now) ls)"
    unfolding AddLinkDescribed_def Inr p sum.case prod.case by (simp split: option.split) blast
  then consider "snd (AddLinkDescribed emb now ns from to ty w d ls) = ls"
    | v where "snd (AddLinkDescribed emb now ns from to ty w d ls) = snd (addLinkTx ns from to t x d v now ls)"
    using tx by (metis snd_conv)
  then show ?thesis
  proof cases
    case 2
    then show ?thesis using addLinkTx_state [of ns "from" to t x d v now ls] by presburger
  qed simp
qed

lemma InvalidateLink_state:
  "\<exists>P. snd (InvalidateLink now ns from to ty ls) = update_where P (\<lambda>l. l\<lparr>lk_invalid := Some now\<rparr>) ls
     \<and> (\<forall>l. P l \<longrightarrow> lk_invalid l = None)"
proof -
  have unchanged: "\<exists>P. ls = update_where P (\<lambda>l. l\<lparr>lk_invalid := Some now\<rparr>) ls \<and> (\<forall>l. P l \<longrightarrow> lk_invalid l = None)"
    by (rule exI [of _ "\<lambda>_. False"]) (simp add: update_where_def)
  show ?thesis
  proof (cases rule: with_tx_cases [of "invalidateLinkTx ns from to ty now" ls])
    case (commit a s')
    then have "s' = update_where (open_edge ns from to (link_type_of ty)) (\<lambda>l. l\<lparr>lk_invalid := Some now\<rparr>) ls"
      by (auto simp: invalidateLinkTx_def Let_def split: sum.splits if_splits)
    then show ?thesis using commit by (auto simp: InvalidateLink_def open_edge_def)
  next
    case (rollback e s')
    then show ?thesis using unchanged by (simp add: InvalidateLink_def)
  qed
qed

lemma insort_key_map: "insort_key f (g x) (map g xs) = map g (insort_key (f \<circ> g) x xs)"
  by (induction xs) auto

lemma sort_key_map: "sort_key f (map g xs) = map g (sort_key (f \<circ> g) xs)"
  by (induction xs) (simp_all add: insort_key_map comp_def)

lemma closing_keeps_past:
  assumes "\<forall>l. P l \<longrightarrow> lk_invalid l = None" "t < now"
  shows "NeighborsAsOf ns key dir t (update_where P (\<lambda>l. l\<lparr>lk_invalid := Some now\<rparr>) ls) = NeighborsAsOf ns key dir t ls"
proof -
  let ?u = "\<lambda>l. if P l then l\<lparr>lk_invalid := Some now\<rparr> else l"
  let ?Q = "\<lambda>l. lk_ns l = ns \<and> near_end dir l = key \<and> link_covers t l"
  have Q: "?Q (?u l) = ?Q l" for l
    using assms by (auto simp: near_end_def link_covers_def split: option.splits)
  have far: "far_end dir (?u l) = far_end dir l" and same: "link_of (?u l) = link_of l" for l
    by (simp_all add: far_end_def link_of_def)
  have "filter ?Q (map ?u ls) = map ?u (filter ?Q ls)" by (simp add: filter_map comp_def Q)
  moreover have "sort_key (far_end dir) (map ?u xs) = map ?u (sort_key (far_end dir) xs)" for xs
    by (simp only: sort_key_map comp_def far)
  ultimately show ?thesis by (simp add: NeighborsAsOf_def update_where_def comp_def same)
qed

lemma link_do_keeps_past:
  assumes "t < link_time op"
  shows "NeighborsAsOf ns key dir t (link_do emb op ls) = NeighborsAsOf ns key dir t ls"
proof (cases op)
  case (AddOp now n a b ty w d)
  show ?thesis
    using AddLinkDescribed_state [of emb now n a b ty w d ls] assms
    by (auto simp: AddOp NeighborsAsOf_def link_covers_def)
next
  case (CloseOp now n a b ty)
  obtain P where "snd (InvalidateLink now n a b ty ls) = update_where P (\<lambda>l. l\<lparr>lk_invalid := Some now\<rparr>) ls"
    "\<forall>l. P l \<longrightarrow> lk_invalid l = None"
    using InvalidateLink_state by blast
  then show ?thesis using closing_keeps_past assms by (simp add: CloseOp)
qed

definition edge_key :: "link_row \<Rightarrow> string \<times> string \<times> string \<times> string" where
  "edge_key l = (lk_ns l, lk_from l, lk_to l, lk_type l)"

definition links_ok :: "instant \<Rightarrow> links \<Rightarrow> bool" where
  "links_ok now ls \<longleftrightarrow>
     distinct (map edge_key ls)
     \<and> (\<forall>l \<in> set ls. lk_valid l = Some (lk_created l) \<and> lk_created l \<le> now
          \<and> (\<forall>i. lk_invalid l = Some i \<longrightarrow> lk_created l \<le> i \<and> i \<le> now))"

lemma link_do_ok:
  assumes "links_ok now ls" "now \<le> link_time op"
  shows "links_ok (link_time op) (link_do emb op ls)"
proof (cases op)
  case (AddOp t n a b ty w d)
  then show ?thesis
    using AddLinkDescribed_state [of emb t n a b ty w d ls] assms
    by (fastforce simp: links_ok_def list_ex_iff same_edge_def edge_key_def)
next
  case (CloseOp t n a b ty)
  obtain P where P: "snd (InvalidateLink t n a b ty ls) = update_where P (\<lambda>l. l\<lparr>lk_invalid := Some t\<rparr>) ls"
    using InvalidateLink_state by blast
  have "map edge_key (update_where P (\<lambda>l. l\<lparr>lk_invalid := Some t\<rparr>) ls)
      = map edge_key ls"
    by (simp add: update_where_def edge_key_def)
  moreover have "lk_valid l' = Some (lk_created l') \<and> lk_created l' \<le> t
      \<and> (\<forall>i. lk_invalid l' = Some i \<longrightarrow> lk_created l' \<le> i \<and> i \<le> t)"
    if member: "l' \<in> set (update_where P (\<lambda>l. l\<lparr>lk_invalid := Some t\<rparr>) ls)" for l'
  proof -
    obtain l where "l \<in> set ls" "l' = (if P l then l\<lparr>lk_invalid := Some t\<rparr> else l)"
      using in_update_whereE [OF member] by blast
    moreover have "lk_valid l = Some (lk_created l)" "lk_created l \<le> t"
      "\<forall>i. lk_invalid l = Some i \<longrightarrow> lk_created l \<le> i \<and> i \<le> t"
      using assms CloseOp \<open>l \<in> set ls\<close> by (auto simp: links_ok_def)
    ultimately show ?thesis by simp
  qed
  ultimately show ?thesis
    using assms(1) P unfolding links_ok_def CloseOp link_do.simps link_time.simps by simp
qed

lemma link_run_ok:
  "links_ok now ls \<Longrightarrow> sorted (now # map link_time ops) \<Longrightarrow>
   links_ok (last (now # map link_time ops)) (link_run emb ops ls)"
proof (induction ops arbitrary: now ls)
  case (Cons op ops)
  have "links_ok (link_time op) (link_do emb op ls)" using Cons.prems link_do_ok by simp
  from Cons.IH [OF this] show ?case using Cons.prems by (simp add: link_run_def)
qed (simp add: link_run_def)

lemma covers_now:
  assumes "links_ok now ls" "l \<in> set ls"
  shows "link_covers now l \<longleftrightarrow> lk_invalid l = None"
  using assms by (fastforce simp: links_ok_def link_covers_def split: option.splits)

lemma distinct_mapD: "distinct (map f xs) \<Longrightarrow> distinct xs"
  by (simp add: distinct_map)

lemma live_neighbors_distinct:
  assumes "distinct (map edge_key ls)"
  shows "distinct (map (\<lambda>l. (li_from l, li_to l, li_type l)) (map link_of (live_neighbors ns key dir ls)))"
proof -
  let ?rows = "live_neighbors ns key dir ls"
  have "distinct (map edge_key (filter (\<lambda>l. lk_ns l = ns \<and> near_end dir l = key \<and> lk_invalid l = None) ls))"
    using assms by (rule distinct_map_filter)
  then have "distinct (map edge_key ?rows)"
    using mset_eq_imp_distinct_iff [of "map edge_key ?rows"
      "map edge_key (filter (\<lambda>l. lk_ns l = ns \<and> near_end dir l = key \<and> lk_invalid l = None) ls)"]
    by (simp add: live_neighbors_def)
  moreover have "map edge_key ?rows = map (Pair ns) (map (\<lambda>l. (li_from l, li_to l, li_type l)) (map link_of ?rows))"
    by (simp add: edge_key_def link_of_def live_neighbors_def)
  ultimately have "distinct (map (Pair ns) (map (\<lambda>l. (li_from l, li_to l, li_type l)) (map link_of ?rows)))" by simp
  then show ?thesis by (rule distinct_mapD)
qed


lemma demo_link_keys: "ValidateKey ''/a'' = Inr ()" "ValidateKey ''/b'' = Inr ()"
  by (simp_all add: ValidateKey_def has_prefix_def has_suffix_def contains_sub_def)


text \<open>A closed edge cannot be recorded again.  After an edge is closed, adding it reports success at any
  later time and with any weight, and changes nothing: the edge stays closed and is not a neighbour.\<close>

lemma AddLink_closed_lost:
  assumes "InvalidateLink now ns from to linkType ls = (Inr (), ls')"
  shows "AddLinkDescribed None later ns from to linkType weight description ls' = (Inr (), ls')
    \<and> (\<forall>live. Neighbors ns from ''out'' ls' = Inr live \<longrightarrow>
         (\<forall>l \<in> set live. \<not> (li_to l = to \<and> li_type l = link_type_of linkType)))"
proof -
  let ?ty = "link_type_of linkType"
  have tx: "invalidateLinkTx ns from to linkType now ls = (Inr (), ls')"
    using assms by (cases rule: with_tx_cases [of "invalidateLinkTx ns from to linkType now" ls]) (auto simp: InvalidateLink_def)
  then have keys: "is_ok (ValidateKey from)" "is_ok (ValidateKey to)" "ValidateLinkType ?ty = Inr ()"
    and state: "ls' = update_where (open_edge ns from to ?ty) (\<lambda>l. l\<lparr>lk_invalid := Some now\<rparr>) ls"
    and some: "rows_affected (open_edge ns from to ?ty) ls \<noteq> 0"
    by (auto simp: invalidateLinkTx_def Let_def split: sum.splits if_splits)
  have closed: "l' \<in> set ls' \<Longrightarrow> same_edge ns from to ?ty l' \<Longrightarrow> lk_invalid l' \<noteq> None" for l'
    unfolding state by (erule in_update_whereE) (auto simp: open_edge_def same_edge_def split: if_splits)
  obtain l where "l \<in> set ls" "open_edge ns from to ?ty l" using some by (auto simp: rows_affected_0)
  then have "l\<lparr>lk_invalid := Some now\<rparr> \<in> set ls'" "same_edge ns from to ?ty (l\<lparr>lk_invalid := Some now\<rparr>)"
    unfolding state update_where_def by (force, simp add: open_edge_def same_edge_def)
  then have present: "list_ex (same_edge ns from to ?ty) ls'" by (auto simp: list_ex_iff)
  have type: "link_type_of ?ty = ?ty" by (simp add: link_type_of_def)
  have "AddLinkDescribed None later ns from to linkType weight description ls' = (Inr (), ls')"
    using keys present type
    by (auto simp: AddLinkDescribed_def normalizeLinkArgs_def is_ok_iff with_tx_def addLinkTx_def)
  moreover have "\<not> (li_to l = to \<and> li_type l = ?ty)"
    if listed: "Neighbors ns from ''out'' ls' = Inr live" "l \<in> set live" for live l
  proof
    assume target: "li_to l = to \<and> li_type l = ?ty"
    obtain row where "row \<in> set ls'" "lk_ns row = ns" "lk_from row = from" "lk_invalid row = None" "l = link_of row"
      using listed by (auto simp: Neighbors_eq live_neighbors_def near_end_def)
    then show False using closed [of row] target by (simp add: same_edge_def link_of_def)
  qed
  ultimately show ?thesis by blast
qed

definition demo_links :: links where
  "demo_links = snd (AddLink None 3 ''n'' ''/a'' ''/b'' [] [])"

lemma AddLink_closed_lost_witness:
  "AddLinkDescribed None 12 ''n'' ''/a'' ''/b'' [] 1 [] (snd (InvalidateLink 9 ''n'' ''/a'' ''/b'' [] demo_links))
   = (Inr (), snd (InvalidateLink 9 ''n'' ''/a'' ''/b'' [] demo_links))"
proof -
  have "fst (InvalidateLink 9 ''n'' ''/a'' ''/b'' [] demo_links) = Inr ()"
    by (simp add: demo_links_def AddLink_def AddLinkWeighted_def AddLinkDescribed_def normalizeLinkArgs_def demo_link_keys
        ValidateLinkType_def LinkTypes_def link_type_of_def with_tx_def addLinkTx_def InvalidateLink_def invalidateLinkTx_def
        Let_def rows_affected_def open_edge_def same_edge_def)
  then have "InvalidateLink 9 ''n'' ''/a'' ''/b'' [] demo_links = (Inr (), snd (InvalidateLink 9 ''n'' ''/a'' ''/b'' [] demo_links))"
    by (metis prod.collapse)
  from AddLink_closed_lost [OF this] show ?thesis by blast
qed

end
