(* ===== verification/Pipeline.thy ===== *)
theory Pipeline
  imports Links
begin

text \<open>
  The enrichment pipeline of \<open>internal/memory\<close>: the outbox drain (\<open>outbox.go\<close>), the durable run records with
  their claims, fences and recovery (\<open>pipeline_runs.go\<close>), and the stage that links a fact to its nearest
  neighbours (\<open>enrich.go\<close>).  The embedder, the vector codec and the similarity of two vectors are
  parameters.  Between any two transactions of a stage other workers may run: what they do there
  is the parameter \<open>others\<close>.
\<close>

section \<open>Runs\<close>

definition StageEmbedLink :: string where "StageEmbedLink = ''embed_link''"
definition StageEntities :: string where "StageEntities = ''entities''"
definition embedLinkStageVersion :: nat where "embedLinkStageVersion = 1"
definition entitiesStageVersion :: nat where "entitiesStageVersion = 1"

definition RunPending :: string where "RunPending = ''pending''"
definition RunRunning :: string where "RunRunning = ''running''"
definition RunSucceeded :: string where "RunSucceeded = ''succeeded''"
definition RunFailed :: string where "RunFailed = ''failed''"
definition RunSuperseded :: string where "RunSuperseded = ''superseded''"

definition pipelineRunLease :: duration where "pipelineRunLease = 5 * 60 * 1000000000"
definition pipelineMaxAttempts :: nat where "pipelineMaxAttempts = 3"
definition entityBatchKeys :: nat where "entityBatchKeys = 8"

record pipeline_run =
  rn_id :: nat
  rn_ns :: string
  rn_stage :: string
  rn_version :: nat
  rn_key :: string
  rn_rev :: string
  rn_status :: string
  rn_attempts :: nat
  rn_items :: "int option"
  rn_error :: "string option"
  rn_created :: instant
  rn_started :: "instant option"
  rn_finished :: "instant option"

record brain =
  br_mem :: memory
  br_links :: links
  br_runs :: "pipeline_run list"
  br_next_run :: nat

text \<open>The causes the classification looks for in an error's chain.  An embedder's own error is formatted into
  the text of the wrapping error (\<open>%v\<close>), so its cause is not in the chain.\<close>

datatype error_cause = DeadlineExceeded | Canceled | OtherCause

datatype pipe_error = FenceTripped | PipeEmbedding | PipeLink link_error | PipeCaused error_cause

fun cause_of :: "pipe_error \<Rightarrow> error_cause" where
  "cause_of (PipeCaused c) = c"
| "cause_of FenceTripped = OtherCause"
| "cause_of PipeEmbedding = OtherCause"
| "cause_of (PipeLink e) = OtherCause"

definition classifyStageError :: "pipe_error \<Rightarrow> string \<Rightarrow> string" where
  "classifyStageError err fallback =
     (case cause_of err of
        DeadlineExceeded \<Rightarrow> ''timeout'' | Canceled \<Rightarrow> ''canceled'' | OtherCause \<Rightarrow> fallback)"

text \<open>The stages the store is configured for.\<close>

record stages =
  sg_embedder :: bool
  sg_extractor :: bool

section \<open>Claiming\<close>

definition work_row :: "string \<Rightarrow> string \<Rightarrow> nat \<Rightarrow> string \<Rightarrow> string \<Rightarrow> pipeline_run \<Rightarrow> bool" where
  "work_row ns stage version key rv r \<longleftrightarrow>
     rn_ns r = ns \<and> rn_stage r = stage \<and> rn_version r = version \<and> rn_key r = key \<and> rn_rev r = rv"

text \<open>\<open>INSERT ... ON CONFLICT DO NOTHING\<close> on the work key.\<close>

definition ensure_run :: "instant \<Rightarrow> string \<Rightarrow> string \<Rightarrow> nat \<Rightarrow> string \<Rightarrow> string \<Rightarrow> brain \<Rightarrow> brain" where
  "ensure_run now ns stage version key rv b =
     (if list_ex (work_row ns stage version key rv) (br_runs b) then b
      else b\<lparr>br_runs := br_runs b @ [\<lparr>rn_id = br_next_run b, rn_ns = ns, rn_stage = stage, rn_version = version,
               rn_key = key, rn_rev = rv, rn_status = RunPending, rn_attempts = 0, rn_items = None, rn_error = None,
               rn_created = now, rn_started = None, rn_finished = None\<rparr>],
             br_next_run := Suc (br_next_run b)\<rparr>)"

definition update_runs :: "(pipeline_run \<Rightarrow> bool) \<Rightarrow> (pipeline_run \<Rightarrow> pipeline_run) \<Rightarrow> brain \<Rightarrow> brain" where
  "update_runs P f b = b\<lparr>br_runs := update_where P f (br_runs b)\<rparr>"

definition supersede :: "instant \<Rightarrow> pipeline_run \<Rightarrow> pipeline_run" where
  "supersede now r = r\<lparr>rn_status := RunSuperseded, rn_finished := Some now\<rparr>"

definition start_run :: "instant \<Rightarrow> pipeline_run \<Rightarrow> pipeline_run" where
  "start_run now r = r\<lparr>rn_status := RunRunning, rn_attempts := rn_attempts r + 1, rn_started := Some now,
     rn_finished := None, rn_error := None, rn_items := None\<rparr>"

definition claim_run_body ::
  "instant \<Rightarrow> string \<Rightarrow> string \<Rightarrow> nat \<Rightarrow> string \<Rightarrow> string \<Rightarrow> (brain, pipe_error, (pipeline_run \<times> nat) option) op" where
  "claim_run_body now ns stage version key rv b =
     (let b1 = update_runs (\<lambda>r. rn_ns r = ns \<and> rn_stage r = stage \<and> rn_version r = version \<and> rn_key r = key
                 \<and> rn_rev r \<noteq> rv \<and> rn_status r = RunPending) (supersede now) b;
          b2 = ensure_run now ns stage version key rv b1;
          claimable = (\<lambda>r. work_row ns stage version key rv r \<and> rn_status r = RunPending);
          b3 = update_runs claimable (start_run now) b2
      in if rows_affected claimable (br_runs b2) = 0 then (Inr None, b3)
         else (Inr (map_option (\<lambda>r. (r, rn_attempts r)) (find (work_row ns stage version key rv) (br_runs b3))), b3))"

definition live_revision :: "instant \<Rightarrow> string \<Rightarrow> string \<Rightarrow> brain \<Rightarrow> string option" where
  "live_revision now ns key b =
     (case queryLiveByKeys now ns [key] (br_mem b) of [] \<Rightarrow> None | f # _ \<Rightarrow> Some (fa_id f))"

definition claimPipelineWork ::
  "clock \<Rightarrow> string \<Rightarrow> string \<Rightarrow> nat \<Rightarrow> string \<Rightarrow> (brain, pipe_error, (pipeline_run \<times> nat) option) op" where
  "claimPipelineWork now ns stage version key b =
     (case live_revision (now 0) ns key b of
        None \<Rightarrow> (Inr None, b)
      | Some rv \<Rightarrow> with_tx (claim_run_body (now 1) ns stage version key rv) b)"

definition stage_list :: "stages \<Rightarrow> (string \<times> nat) list" where
  "stage_list sg = (if sg_embedder sg then [(StageEmbedLink, embedLinkStageVersion)] else [])
     @ (if sg_extractor sg then [(StageEntities, entitiesStageVersion)] else [])"

definition persistPipelineWork :: "stages \<Rightarrow> clock \<Rightarrow> string \<Rightarrow> string \<Rightarrow> brain \<Rightarrow> brain" where
  "persistPipelineWork sg now ns key b =
     (case live_revision (now 0) ns key b of
        None \<Rightarrow> b
      | Some rv \<Rightarrow> fold (\<lambda>(stage, version). ensure_run (now 1) ns stage version key rv) (stage_list sg) b)"

definition supersedePendingPipelineRuns :: "clock \<Rightarrow> string \<Rightarrow> string \<Rightarrow> brain \<Rightarrow> brain" where
  "supersedePendingPipelineRuns now ns key b =
     (case live_revision (now 0) ns key b of
        None \<Rightarrow> update_runs (\<lambda>r. rn_ns r = ns \<and> rn_key r = key \<and> rn_status r = RunPending) (supersede (now 1)) b
      | Some rv \<Rightarrow> update_runs (\<lambda>r. rn_ns r = ns \<and> rn_key r = key \<and> rn_status r = RunPending \<and> rn_rev r \<noteq> rv)
          (supersede (now 1)) b)"

section \<open>Fences\<close>

record run_fence =
  fc_run :: nat
  fc_attempt :: nat
  fc_rev :: string

definition liveRevisionTx :: "instant \<Rightarrow> string \<Rightarrow> string \<Rightarrow> brain \<Rightarrow> string" where
  "liveRevisionTx now ns key b =
     (if ns \<notin> set (mm_namespaces (br_mem b)) then []
      else case live_head ns key (br_mem b) of
        None \<Rightarrow> []
      | Some f \<Rightarrow> if fa_action f = ''tombstone'' then []
                  else if \<not> unexpired now f then [] else fa_id f)"

definition claim_held :: "run_fence \<Rightarrow> pipeline_run \<Rightarrow> bool" where
  "claim_held fence r \<longleftrightarrow> rn_id r = fc_run fence \<and> rn_status r = RunRunning \<and> rn_attempts r = fc_attempt fence"

definition fenced_body ::
  "instant \<Rightarrow> string \<Rightarrow> string \<Rightarrow> run_fence \<Rightarrow> (brain, pipe_error, unit) op \<Rightarrow> (brain, pipe_error, unit) op" where
  "fenced_body now ns key fence fn b =
     (if rows_affected (claim_held fence) (br_runs b) = 0 then (Inl FenceTripped, b)
      else if liveRevisionTx now ns key b \<noteq> fc_rev fence then (Inl FenceTripped, b)
      else fn b)"

definition fencedStageTx ::
  "instant \<Rightarrow> string \<Rightarrow> string \<Rightarrow> run_fence \<Rightarrow> (brain, pipe_error, unit) op \<Rightarrow> (brain, pipe_error, bool) op" where
  "fencedStageTx now ns key fence fn b =
     (case with_tx (fenced_body now ns key fence fn) b of
        (Inl e, b') \<Rightarrow> if e = FenceTripped then (Inr False, b') else (Inl e, b')
      | (Inr _, b') \<Rightarrow> (Inr True, b'))"

definition revisionStillLive :: "instant \<Rightarrow> string \<Rightarrow> string \<Rightarrow> string \<Rightarrow> brain \<Rightarrow> bool" where
  "revisionStillLive now ns key rv b \<longleftrightarrow>
     (case queryLiveByKeys now ns [key] (br_mem b) of [f] \<Rightarrow> fa_id f = rv | _ \<Rightarrow> False)"

definition finishPipelineRun ::
  "instant \<Rightarrow> nat \<Rightarrow> nat \<Rightarrow> string \<Rightarrow> int option \<Rightarrow> string \<Rightarrow> brain \<Rightarrow> bool \<times> brain" where
  "finishPipelineRun now run attempt status items errClass b =
     (let P = claim_held \<lparr>fc_run = run, fc_attempt = attempt, fc_rev = []\<rparr>
      in (rows_affected P (br_runs b) = 1,
          update_runs P (\<lambda>r. r\<lparr>rn_status := status, rn_items := items,
            rn_error := (if errClass = [] then None else Some errClass), rn_finished := Some now\<rparr>) b))"

section \<open>Recovery\<close>

definition requeue_one :: "pipeline_run \<Rightarrow> pipeline_run list \<times> brain \<Rightarrow> pipeline_run list \<times> brain" where
  "requeue_one r = (\<lambda>(out, b).
     let P = (\<lambda>x. rn_id x = rn_id r \<and> rn_status x = rn_status r)
     in (if rows_affected P (br_runs b) = 1 then out @ [r] else out,
         update_runs P (\<lambda>x. x\<lparr>rn_status := RunPending\<rparr>) b))"

definition requeueRuns :: "(pipeline_run \<Rightarrow> bool) \<Rightarrow> brain \<Rightarrow> pipeline_run list \<times> brain" where
  "requeueRuns P b = fold requeue_one (sort_key rn_id (filter P (br_runs b))) ([], b)"

definition requeueStalePipelineRuns :: "instant \<Rightarrow> brain \<Rightarrow> pipeline_run list \<times> brain" where
  "requeueStalePipelineRuns staleBefore =
     requeueRuns (\<lambda>r. rn_status r = RunRunning \<and> (case rn_started r of None \<Rightarrow> False | Some t \<Rightarrow> t < staleBefore))"

definition requeueFailedPipelineRuns :: "nat \<Rightarrow> brain \<Rightarrow> pipeline_run list \<times> brain" where
  "requeueFailedPipelineRuns maxAttempts = requeueRuns (\<lambda>r. rn_status r = RunFailed \<and> rn_attempts r < maxAttempts)"

definition pendingPipelineRuns :: "brain \<Rightarrow> pipeline_run list" where
  "pendingPipelineRuns b = sort_key rn_id (filter (\<lambda>r. rn_status r = RunPending) (br_runs b))"

definition work_id :: "pipeline_run \<Rightarrow> string" where
  "work_id r = rn_stage r @ [CHR 0x00] @ rn_ns r @ [CHR 0x00] @ rn_key r"

fun first_work :: "string list \<Rightarrow> pipeline_run list \<Rightarrow> pipeline_run list" where
  "first_work seen [] = []"
| "first_work seen (r # rs) =
     (if work_id r \<in> set seen then first_work seen rs else r # first_work (work_id r # seen) rs)"

definition stage_work :: "string \<Rightarrow> pipeline_run list \<Rightarrow> (string \<times> string) list" where
  "stage_work stage rs = map (\<lambda>r. (rn_ns r, rn_key r)) (filter (\<lambda>r. rn_stage r = stage) rs)"

function chunks :: "nat \<Rightarrow> 'a list \<Rightarrow> 'a list list" where
  "chunks n xs = (if xs = [] \<or> n = 0 then [] else take n xs # chunks n (drop n xs))"
  by pat_completeness auto
termination by (relation "measure (length \<circ> snd)") auto

declare chunks.simps [simp del]

text \<open>The work one recovery pass hands to the stages: the keys of the embed-link stage in order, and the batches
  of the entity stage.  The code walks the namespaces in no fixed order; here it is that of first mention.\<close>

definition recovery_work :: "clock \<Rightarrow> brain \<Rightarrow> (string \<times> string) list \<times> (string \<times> string list) list \<times> brain" where
  "recovery_work now b =
     (case requeueStalePipelineRuns (now 0 - pipelineRunLease) b of
        (stale, b1) \<Rightarrow> (case requeueFailedPipelineRuns pipelineMaxAttempts b1 of
          (failed, b2) \<Rightarrow>
            (let todo = first_work [] (stale @ failed @ pendingPipelineRuns b2);
                 entity = stage_work StageEntities todo;
                 batches = concat (map (\<lambda>ns. map (Pair ns) (chunks entityBatchKeys
                   (map snd (filter (\<lambda>w. fst w = ns) entity)))) (remdups (map fst entity)))
             in (stage_work StageEmbedLink todo, batches, b2))))"

definition run_limit :: "int \<Rightarrow> nat" where
  "run_limit limit = (if limit \<le> 0 then 100 else if limit > 500 then 500 else nat limit)"

definition ListPipelineRuns :: "string \<Rightarrow> string \<Rightarrow> string \<Rightarrow> int \<Rightarrow> brain \<Rightarrow> pipeline_run list" where
  "ListPipelineRuns ns stage status limit b =
     take (run_limit limit) (rev (sort_key rn_id (filter (\<lambda>r. rn_ns r = ns \<and> (stage = [] \<or> rn_stage r = stage)
       \<and> (status = [] \<or> rn_status r = status)) (br_runs b))))"

section \<open>The outbox\<close>

record outbox_event =
  oe_id :: nat
  oe_kind :: string
  oe_key :: string
  oe_payload :: "(string \<times> string) list"

definition event_of :: "outbox_row \<Rightarrow> outbox_event" where
  "event_of o' = \<lparr>oe_id = ob_id o', oe_kind = ob_kind o', oe_key = ob_key o', oe_payload = ob_payload o'\<rparr>"

definition payload_at :: "outbox_event \<Rightarrow> string \<Rightarrow> string" where
  "payload_at e k = (case map_of (oe_payload e) k of None \<Rightarrow> [] | Some v \<Rightarrow> v)"

definition persistStageWork :: "stages \<Rightarrow> clock \<Rightarrow> outbox_event \<Rightarrow> brain \<Rightarrow> brain" where
  "persistStageWork sg now e b =
     (if oe_kind e \<noteq> ''memory'' then b
      else let ns = payload_at e ''namespace''; key = payload_at e ''key'' in
        if ns = [] \<or> key = [] then b
        else if payload_at e ''action'' = ''tombstone'' then supersedePendingPipelineRuns now ns key b
        else persistPipelineWork sg now ns key b)"

definition mark_delivered :: "instant \<Rightarrow> nat \<Rightarrow> brain \<Rightarrow> brain" where
  "mark_delivered now i b = b\<lparr>br_mem := (br_mem b)\<lparr>mm_outbox :=
     update_where (\<lambda>o'. ob_id o' = i) (\<lambda>o'. o'\<lparr>ob_delivered := Some now\<rparr>) (mm_outbox (br_mem b))\<rparr>\<rparr>"

text \<open>The number delivered, the error that stopped the batch, and what the receiver became.\<close>

fun drain_loop ::
  "stages \<Rightarrow> (nat \<Rightarrow> clock) \<Rightarrow> (outbox_event \<Rightarrow> ('d, 'e, unit) op) \<Rightarrow> nat \<Rightarrow> outbox_event list \<Rightarrow> brain \<Rightarrow> 'd
   \<Rightarrow> (nat \<times> 'e option) \<times> brain \<times> 'd" where
  "drain_loop sg tick deliver n [] b d = ((n, None), b, d)"
| "drain_loop sg tick deliver n (e # es) b d =
     (let b1 = persistStageWork sg (tick n) e b in
      case deliver e d of
        (Inl err, d1) \<Rightarrow> ((n, Some err), b1, d1)
      | (Inr _, d1) \<Rightarrow> drain_loop sg tick deliver (Suc n) es (mark_delivered (tick n 2) (oe_id e) b1) d1)"

definition undelivered :: "brain \<Rightarrow> outbox_event list" where
  "undelivered b = map event_of (sort_key ob_id (filter (\<lambda>o'. ob_delivered o' = None) (mm_outbox (br_mem b))))"

definition DrainOutbox ::
  "stages \<Rightarrow> (nat \<Rightarrow> clock) \<Rightarrow> int \<Rightarrow> (outbox_event \<Rightarrow> ('d, 'e, unit) op) \<Rightarrow> brain \<Rightarrow> 'd
   \<Rightarrow> (nat \<times> 'e option) \<times> brain \<times> 'd" where
  "DrainOutbox sg tick limit deliver b d =
     drain_loop sg tick deliver 0 (take (if limit \<le> 0 then 100 else nat limit) (undelivered b)) b d"

section \<open>Draining persists the work before it acknowledges\<close>

definition work_exists :: "string \<Rightarrow> string \<Rightarrow> nat \<Rightarrow> string \<Rightarrow> string \<Rightarrow> brain \<Rightarrow> bool" where
  "work_exists ns stage version key rv b = list_ex (work_row ns stage version key rv) (br_runs b)"

definition keeps_work :: "(pipeline_run \<Rightarrow> pipeline_run) \<Rightarrow> bool" where
  "keeps_work f \<longleftrightarrow> (\<forall>ns stage version key rv r. work_row ns stage version key rv (f r) = work_row ns stage version key rv r)"

lemma keeps_work_intros [simp]:
  "keeps_work (supersede now)" "keeps_work (start_run now)"
  "keeps_work (\<lambda>r. r\<lparr>rn_status := st\<rparr>)"
  "keeps_work (\<lambda>r. r\<lparr>rn_status := st, rn_items := items, rn_error := err, rn_finished := fin\<rparr>)"
  by (simp_all add: keeps_work_def work_row_def supersede_def start_run_def)

lemma list_ex_map_eq: "list_ex P (map f xs) = list_ex (P \<circ> f) xs"
  by (induction xs) auto

lemma update_runs_work: "keeps_work f \<Longrightarrow> work_exists ns stage version key rv (update_runs P f b) = work_exists ns stage version key rv b"
proof -
  assume "keeps_work f"
  then have "work_row ns stage version key rv \<circ> (\<lambda>r. if P r then f r else r) = work_row ns stage version key rv"
    by (auto simp: keeps_work_def fun_eq_iff)
  then show ?thesis by (simp add: work_exists_def update_runs_def update_where_def list_ex_map_eq)
qed

lemma ensure_run_work:
  "work_exists ns stage version key rv (ensure_run now ns' stage' version' key' rv' b)
   \<longleftrightarrow> work_exists ns stage version key rv b \<or> (ns, stage, version, key, rv) = (ns', stage', version', key', rv')"
  by (auto simp: work_exists_def ensure_run_def work_row_def list_ex_iff)

lemma update_runs_mem [simp]: "br_mem (update_runs P f b) = br_mem b"
  by (simp add: update_runs_def)

lemma ensure_run_mem [simp]: "br_mem (ensure_run now ns stage version key rv b) = br_mem b"
  by (simp add: ensure_run_def)

lemma fold_ensure_mem [simp]: "br_mem (fold (\<lambda>(stage, version). ensure_run now ns stage version key rv) ss b) = br_mem b"
  by (induction ss arbitrary: b) (auto split: prod.split)

lemma fold_ensure_work:
  "work_exists ns stage version key rv (fold (\<lambda>(stage, version). ensure_run now ns' stage version key' rv') ss b)
   \<longleftrightarrow> work_exists ns stage version key rv b \<or> (ns, key, rv) = (ns', key', rv') \<and> (stage, version) \<in> set ss"
  by (induction ss arbitrary: b) (auto simp: ensure_run_work split: prod.splits)

lemma persist_mem [simp]: "br_mem (persistStageWork sg now e b) = br_mem b"
  by (auto simp: persistStageWork_def Let_def supersedePendingPipelineRuns_def persistPipelineWork_def split: option.split)

lemma persist_keeps: "work_exists ns stage version key rv b \<Longrightarrow> work_exists ns stage version key rv (persistStageWork sg now e b)"
  by (auto simp: persistStageWork_def Let_def supersedePendingPipelineRuns_def persistPipelineWork_def update_runs_work
      fold_ensure_work split: option.split)

definition carries_work :: "outbox_event \<Rightarrow> bool" where
  "carries_work e \<longleftrightarrow> oe_kind e = ''memory'' \<and> payload_at e ''namespace'' \<noteq> [] \<and> payload_at e ''key'' \<noteq> []
     \<and> payload_at e ''action'' \<noteq> ''tombstone''"

definition event_work :: "stages \<Rightarrow> instant \<Rightarrow> outbox_event \<Rightarrow> brain \<Rightarrow> brain \<Rightarrow> bool" where
  "event_work sg now e b b' \<longleftrightarrow> (carries_work e \<longrightarrow>
     (\<forall>rv. live_revision now (payload_at e ''namespace'') (payload_at e ''key'') b = Some rv \<longrightarrow>
       (\<forall>(stage, version) \<in> set (stage_list sg).
          work_exists (payload_at e ''namespace'') stage version (payload_at e ''key'') rv b')))"

lemma persist_creates: "event_work sg (now 0) e b (persistStageWork sg now e b)"
  by (auto simp: event_work_def carries_work_def persistStageWork_def Let_def persistPipelineWork_def fold_ensure_work)

lemma mark_delivered_facts [simp]:
  "mm_facts (br_mem (mark_delivered now i b)) = mm_facts (br_mem b)"
  "mm_namespaces (br_mem (mark_delivered now i b)) = mm_namespaces (br_mem b)"
  "br_runs (mark_delivered now i b) = br_runs b"
  by (simp_all add: mark_delivered_def)

lemma live_revision_cong:
  "mm_facts (br_mem b) = mm_facts (br_mem b') \<Longrightarrow> mm_namespaces (br_mem b) = mm_namespaces (br_mem b') \<Longrightarrow>
   live_revision now ns key b = live_revision now ns key b'"
  by (simp add: live_revision_def queryLiveByKeys_def latest_live_def)

lemma drain_loop_work:
  assumes "drain_loop sg tick deliver n es b d = ((m, err), b', d')"
  shows "n \<le> m \<and> m \<le> n + length es \<and> (err = None \<longleftrightarrow> m = n + length es)
    \<and> mm_facts (br_mem b') = mm_facts (br_mem b) \<and> mm_namespaces (br_mem b') = mm_namespaces (br_mem b)
    \<and> (\<forall>ns stage version key rv. work_exists ns stage version key rv b \<longrightarrow> work_exists ns stage version key rv b')
    \<and> (\<forall>i < length es. n + i \<le> m \<longrightarrow> event_work sg (tick (n + i) 0) (es ! i) b b')"
  using assms
proof (induction es arbitrary: n b d)
  case (Cons e es)
  let ?b1 = "persistStageWork sg (tick n) e b"
  have created: "event_work sg (tick n 0) e b ?b1" by (rule persist_creates)
  show ?case
  proof (cases "deliver e d")
    case (Pair res d1)
    show ?thesis
    proof (cases res)
      case (Inl x)
      then have "m = n" "err = Some x" "b' = ?b1" using Cons.prems Pair by auto
      then show ?thesis using created by (auto simp: persist_keeps nth_Cons split: nat.split)
    next
      case (Inr u)
      let ?b2 = "mark_delivered (tick n 2) (oe_id e) ?b1"
      have step: "drain_loop sg tick deliver (Suc n) es ?b2 d1 = ((m, err), b', d')" using Cons.prems Pair Inr by simp
      note IH = Cons.IH [OF step]
      have same: "event_work sg t x ?b2 b' \<longleftrightarrow> event_work sg t x b b'" for t x
        using live_revision_cong [of ?b2 b] by (simp add: event_work_def)
      have kept: "work_exists ns stage version key rv b'" if "work_exists ns stage version key rv ?b1" for ns stage version key rv
        using IH that by (simp add: work_exists_def)
      have "event_work sg (tick (n + i) 0) ((e # es) ! i) b b'" if "i < length (e # es)" "n + i \<le> m" for i
      proof (cases i)
        case 0
        then show ?thesis using created kept by (fastforce simp: event_work_def)
      next
        case (Suc j)
        then show ?thesis using IH that same by auto
      qed
      then show ?thesis using IH kept persist_keeps by auto
    qed
  qed
qed simp

lemma undelivered_mark:
  "undelivered (mark_delivered now i b) = filter (\<lambda>e. oe_id e \<noteq> i) (undelivered b)"
proof -
  let ?u = "\<lambda>r. if ob_id r = i then r\<lparr>ob_delivered := Some now\<rparr> else r"
  have "filter (\<lambda>r. ob_delivered r = None) (map ?u rs) = filter (\<lambda>r. ob_id r \<noteq> i) (filter (\<lambda>r. ob_delivered r = None) rs)" for rs :: "outbox_row list"
    by (induction rs) auto
  then have "undelivered (mark_delivered now i b)
      = map event_of (sort_key ob_id (filter (\<lambda>r. ob_id r \<noteq> i) (filter (\<lambda>r. ob_delivered r = None) (mm_outbox (br_mem b)))))"
    by (simp add: undelivered_def mark_delivered_def update_where_def del: filter_filter)
  also have "\<dots> = map event_of (filter (\<lambda>r. ob_id r \<noteq> i) (sort_key ob_id (filter (\<lambda>r. ob_delivered r = None) (mm_outbox (br_mem b)))))"
    by (simp only: filter_sort)
  also have "\<dots> = filter (\<lambda>e. oe_id e \<noteq> i) (undelivered b)"
    by (simp add: undelivered_def filter_map comp_def event_of_def)
  finally show ?thesis .
qed

lemma undelivered_persist [simp]: "undelivered (persistStageWork sg now e b) = undelivered b"
  by (simp add: undelivered_def)

lemma drain_loop_order:
  "drain_loop sg tick deliver n es b d = ((m, err), b', d') \<Longrightarrow> undelivered b = es @ rest \<Longrightarrow>
   distinct (map oe_id (es @ rest)) \<Longrightarrow> undelivered b' = drop (m - n) es @ rest"
proof (induction es arbitrary: n b d)
  case (Cons e es)
  let ?b1 = "persistStageWork sg (tick n) e b"
  show ?case
  proof (cases "deliver e d")
    case (Pair res d1)
    show ?thesis
    proof (cases res)
      case (Inl x)
      then have "m = n" "b' = ?b1" using Cons.prems(1) Pair by auto
      then show ?thesis using Cons.prems(2) by simp
    next
      case (Inr u)
      let ?b2 = "mark_delivered (tick n 2) (oe_id e) ?b1"
      have step: "drain_loop sg tick deliver (Suc n) es ?b2 d1 = ((m, err), b', d')" using Cons.prems(1) Pair Inr by simp
      have "oe_id e \<notin> set (map oe_id (es @ rest))" using Cons.prems(3) by simp
      then have "\<forall>x \<in> set (es @ rest). oe_id x \<noteq> oe_id e" unfolding set_map image_iff by metis
      then have "filter (\<lambda>x. oe_id x \<noteq> oe_id e) (es @ rest) = es @ rest" by (rule filter_True)
      then have "undelivered ?b2 = es @ rest"
        unfolding undelivered_mark undelivered_persist Cons.prems(2) by simp
      then have "undelivered b' = drop (m - Suc n) es @ rest" using Cons.IH [OF step] Cons.prems(3) by simp
      moreover have "n < m" using drain_loop_work [OF step] by linarith
      moreover from this have "m - n = Suc (m - Suc n)" by simp
      ultimately show ?thesis by (simp only: drop_Suc_Cons append_Cons)
    qed
  qed
qed simp


section \<open>Interleaved workers\<close>

text \<open>
  Any number of workers, in any order.  A derived write is a function on the facts and edges, run inside
  the fence; \<open>WorldOp\<close> is whatever else happens to facts, outbox and edges.  A history remembers which
  claims were won and which fenced writes were applied, each with its run and attempt.
\<close>

datatype pipe_op =
    WorldOp "memory \<Rightarrow> memory" "links \<Rightarrow> links"
  | ClaimOp clock string string nat string
  | PersistOp stages clock outbox_event
  | FencedOp instant string string run_fence "memory \<times> links \<Rightarrow> (pipe_error + unit) \<times> memory \<times> links"
  | FinishOp instant nat nat string "int option" string
  | RequeueStaleOp instant
  | RequeueFailedOp

record pipe_history =
  ph_brain :: brain
  ph_claims :: "(nat \<times> nat) list"
  ph_writes :: "(nat \<times> nat) list"

definition on_data ::
  "(memory \<times> links \<Rightarrow> (pipe_error + unit) \<times> memory \<times> links) \<Rightarrow> (brain, pipe_error, unit) op" where
  "on_data fn b = (case fn (br_mem b, br_links b) of (r, m, l) \<Rightarrow> (r, b\<lparr>br_mem := m, br_links := l\<rparr>))"

fun pipe_do :: "pipe_op \<Rightarrow> pipe_history \<Rightarrow> pipe_history" where
  "pipe_do (WorldOp f g) h = h\<lparr>ph_brain := (ph_brain h)\<lparr>br_mem := f (br_mem (ph_brain h)), br_links := g (br_links (ph_brain h))\<rparr>\<rparr>"
| "pipe_do (ClaimOp now ns stage version key) h =
     (case claimPipelineWork now ns stage version key (ph_brain h) of
        (Inr (Some (r, a)), b) \<Rightarrow> h\<lparr>ph_brain := b, ph_claims := ph_claims h @ [(rn_id r, a)]\<rparr>
      | (_, b) \<Rightarrow> h\<lparr>ph_brain := b\<rparr>)"
| "pipe_do (PersistOp sg now e) h = h\<lparr>ph_brain := persistStageWork sg now e (ph_brain h)\<rparr>"
| "pipe_do (FencedOp now ns key fence fn) h =
     (case fencedStageTx now ns key fence (on_data fn) (ph_brain h) of
        (Inr True, b) \<Rightarrow> h\<lparr>ph_brain := b, ph_writes := ph_writes h @ [(fc_run fence, fc_attempt fence)]\<rparr>
      | (_, b) \<Rightarrow> h\<lparr>ph_brain := b\<rparr>)"
| "pipe_do (FinishOp now i a status items errClass) h =
     h\<lparr>ph_brain := snd (finishPipelineRun now i a status items errClass (ph_brain h))\<rparr>"
| "pipe_do (RequeueStaleOp before) h = h\<lparr>ph_brain := snd (requeueStalePipelineRuns before (ph_brain h))\<rparr>"
| "pipe_do RequeueFailedOp h = h\<lparr>ph_brain := snd (requeueFailedPipelineRuns pipelineMaxAttempts (ph_brain h))\<rparr>"

definition work_key :: "pipeline_run \<Rightarrow> string \<times> string \<times> nat \<times> string \<times> string" where
  "work_key r = (rn_ns r, rn_stage r, rn_version r, rn_key r, rn_rev r)"

definition runs_ok :: "brain \<Rightarrow> bool" where
  "runs_ok b \<longleftrightarrow> distinct (map rn_id (br_runs b)) \<and> distinct (map work_key (br_runs b))
     \<and> (\<forall>r \<in> set (br_runs b). rn_id r < br_next_run b)"

definition attempts_of :: "nat \<Rightarrow> brain \<Rightarrow> nat" where
  "attempts_of i b = (case find (\<lambda>r. rn_id r = i) (br_runs b) of None \<Rightarrow> 0 | Some r \<Rightarrow> rn_attempts r)"

definition quiet :: "(pipeline_run \<Rightarrow> pipeline_run) \<Rightarrow> bool" where
  "quiet f \<longleftrightarrow> (\<forall>r. rn_id (f r) = rn_id r \<and> work_key (f r) = work_key r \<and> rn_attempts (f r) = rn_attempts r)"

lemma quiet_intros [simp]:
  "quiet (supersede now)" "quiet (\<lambda>r. r\<lparr>rn_status := st\<rparr>)"
  "quiet (\<lambda>r. r\<lparr>rn_status := st, rn_items := items, rn_error := err, rn_finished := fin\<rparr>)"
  by (simp_all add: quiet_def work_key_def supersede_def)

lemma find_map_same: "(\<And>x. P (f x) = P x) \<Longrightarrow> find P (map f xs) = map_option f (find P xs)"
  by (induction xs) auto

lemma attempts_of_member:
  "runs_ok b \<Longrightarrow> r \<in> set (br_runs b) \<Longrightarrow> attempts_of (rn_id r) b = rn_attempts r"
proof -
  assume ok: "runs_ok b" and r: "r \<in> set (br_runs b)"
  have "find (\<lambda>x. rn_id x = rn_id r) xs = Some r" if "distinct (map rn_id xs)" "r \<in> set xs" for xs
    using that by (induction xs) auto
  then show ?thesis using ok r by (simp add: runs_ok_def attempts_of_def)
qed

lemma update_ident:
  assumes "\<And>r. rn_id (f r) = rn_id r \<and> work_key (f r) = work_key r" "runs_ok b"
  shows "runs_ok (update_runs P f b)"
proof -
  let ?u = "\<lambda>r. if P r then f r else r"
  have id: "rn_id (?u r) = rn_id r" and key: "work_key (?u r) = work_key r" for r
    using assms(1) by simp_all
  then have "rn_id \<circ> ?u = rn_id" "work_key \<circ> ?u = work_key" by (simp_all add: fun_eq_iff)
  moreover have "rn_id r < n" if "r \<in> ?u ` set rs" "\<forall>r \<in> set rs. rn_id r < n" for r rs n
    using that id by fastforce
  ultimately show ?thesis
    using assms(2) unfolding runs_ok_def update_runs_def update_where_def by simp
qed

lemma find_updated:
  assumes "\<And>r. rn_id (f r) = rn_id r"
  shows "find (\<lambda>r. rn_id r = i) (br_runs (update_runs P f b))
    = map_option (\<lambda>r. if P r then f r else r) (find (\<lambda>r. rn_id r = i) (br_runs b))"
  unfolding update_runs_def update_where_def using assms by (simp add: find_map_same)

lemma update_quiet:
  assumes "quiet f"
  shows "runs_ok b \<Longrightarrow> runs_ok (update_runs P f b)" "attempts_of i (update_runs P f b) = attempts_of i b"
  using assms find_updated [of f i P b]
  by (auto simp: quiet_def attempts_of_def intro: update_ident split: option.split)

lemma find_append_None: "find P (xs @ ys) = (case find P xs of None \<Rightarrow> find P ys | Some x \<Rightarrow> Some x)"
  by (induction xs) auto

lemma ensure_ok:
  assumes "runs_ok b"
  shows "runs_ok (ensure_run now ns stage version key rv b)" "attempts_of i (ensure_run now ns stage version key rv b) = attempts_of i b"
  using assms
  by (auto simp: ensure_run_def runs_ok_def attempts_of_def find_append_None list_ex_iff work_row_def work_key_def
      split: option.split)

lemma fold_ensure_ok:
  assumes "runs_ok b"
  shows "runs_ok (fold (\<lambda>(stage, version). ensure_run now ns stage version key rv) ss b)
    \<and> attempts_of i (fold (\<lambda>(stage, version). ensure_run now ns stage version key rv) ss b) = attempts_of i b"
  using assms by (induction ss arbitrary: b) (auto simp: ensure_ok split: prod.splits)

lemma persist_ok:
  assumes "runs_ok b"
  shows "runs_ok (persistStageWork sg now e b)" "attempts_of i (persistStageWork sg now e b) = attempts_of i b"
  using assms fold_ensure_ok
  by (auto simp: persistStageWork_def Let_def supersedePendingPipelineRuns_def persistPipelineWork_def update_quiet
      split: option.split)

lemma requeue_ok:
  assumes "runs_ok b"
  shows "runs_ok (snd (requeueRuns P b))" "attempts_of i (snd (requeueRuns P b)) = attempts_of i b"
proof -
  have "runs_ok (snd (fold requeue_one rs (out, b))) \<and> attempts_of i (snd (fold requeue_one rs (out, b))) = attempts_of i b"
    if "runs_ok b" for rs out b
    using that by (induction rs arbitrary: out b) (auto simp: requeue_one_def Let_def update_quiet)
  then show "runs_ok (snd (requeueRuns P b))" "attempts_of i (snd (requeueRuns P b)) = attempts_of i b"
    using assms by (simp_all add: requeueRuns_def)
qed

lemma claim_effect:
  assumes "runs_ok b" and "claimPipelineWork now ns stage version key b = (res, b')"
  obtains (idle) "res = Inr None" "runs_ok b'" "\<And>i. attempts_of i b' = attempts_of i b"
  | (won) r where "res = Inr (Some (r, rn_attempts r))" "runs_ok b'" "r \<in> set (br_runs b')" "rn_status r = RunRunning"
      "work_row ns stage version key (rn_rev r) r" "live_revision (now 0) ns key b = Some (rn_rev r)"
      "\<And>i. attempts_of i b' = (if i = rn_id r then attempts_of i b + 1 else attempts_of i b)"
proof (cases "live_revision (now 0) ns key b")
  case None
  then have "res = Inr None" "b' = b" using assms(2) by (simp_all add: claimPipelineWork_def)
  then show ?thesis using assms(1) idle by simp
next
  case (Some rv)
  define b1 where "b1 = update_runs (\<lambda>r. rn_ns r = ns \<and> rn_stage r = stage \<and> rn_version r = version \<and> rn_key r = key
      \<and> rn_rev r \<noteq> rv \<and> rn_status r = RunPending) (supersede (now 1)) b"
  define b2 where "b2 = ensure_run (now 1) ns stage version key rv b1"
  define claimable where "claimable = (\<lambda>r. work_row ns stage version key rv r \<and> rn_status r = RunPending)"
  have ok2: "runs_ok b2" and same: "attempts_of i b2 = attempts_of i b" for i
    using assms(1) by (simp_all add: b2_def b1_def ensure_ok update_quiet)
  have body: "claim_run_body (now 1) ns stage version key rv b =
      (if rows_affected claimable (br_runs b2) = 0 then (Inr None, update_runs claimable (start_run (now 1)) b2)
       else (Inr (map_option (\<lambda>r. (r, rn_attempts r)) (find (work_row ns stage version key rv)
          (br_runs (update_runs claimable (start_run (now 1)) b2)))), update_runs claimable (start_run (now 1)) b2))"
    unfolding claim_run_body_def Let_def b2_def b1_def claimable_def ..
  have result: "(res, b') = claim_run_body (now 1) ns stage version key rv b"
    using assms(2) by (auto simp: claimPipelineWork_def Some with_tx_def body split: if_splits simp del: One_nat_def)
  show ?thesis
  proof (cases "rows_affected claimable (br_runs b2) = 0")
    case True
    then have "\<forall>r \<in> set (br_runs b2). \<not> claimable r" by (simp add: rows_affected_0)
    then have "update_runs claimable (start_run (now 1)) b2 = b2"
      by (simp add: update_runs_def update_where_def map_idI)
    then show ?thesis using idle result body True ok2 same by simp
  next
    case False
    then obtain q where q: "q \<in> set (br_runs b2)" "claimable q" by (auto simp: rows_affected_0)
    have only: "x = q" if "x \<in> set (br_runs b2)" "work_row ns stage version key rv x" for x
      using that q ok2 by (auto simp: runs_ok_def claimable_def work_row_def work_key_def distinct_map inj_on_def)
    let ?b3 = "update_runs claimable (start_run (now 1)) b2" and ?q = "start_run (now 1) q"
    have keep: "rn_id (start_run t x) = rn_id x \<and> work_key (start_run t x) = work_key x" for t x
      by (simp add: start_run_def work_key_def)
    have "find (work_row ns stage version key rv) (br_runs b2) = Some q"
      using only q by (metis find_SomeD find_None_iff claimable_def option.exhaust)
    then have found: "find (work_row ns stage version key rv) (br_runs ?b3) = Some ?q"
      using q(2) by (simp add: update_runs_def update_where_def find_map_same work_row_def start_run_def)
    have res: "res = Inr (Some (?q, rn_attempts ?q))" and b3: "b' = ?b3"
      using result body False found by simp_all
    have ok3: "runs_ok b'" unfolding b3 by (rule update_ident [OF keep ok2])
    have member: "?q \<in> set (br_runs b')" using q by (force simp: b3 update_runs_def update_where_def)
    have row: "rn_status ?q = RunRunning" "work_row ns stage version key (rn_rev ?q) ?q" "live_revision (now 0) ns key b = Some (rn_rev ?q)"
      using q(2) Some by (simp_all add: start_run_def claimable_def work_row_def)
    have "attempts_of i ?b3 = (if i = rn_id ?q then attempts_of i b + 1 else attempts_of i b)" for i
    proof (cases "find (\<lambda>r. rn_id r = i) (br_runs b2)")
      case None
      then have "i \<noteq> rn_id q" using q(1) by (auto simp: find_None_iff)
      then show ?thesis
        using None same [of i] find_updated [of "start_run (now 1)" i claimable b2] keep
        by (simp add: attempts_of_def start_run_def)
    next
      case (Some x)
      have x: "x \<in> set (br_runs b2)" "rn_id x = i" using Some by (auto simp: find_Some_iff)
      have "claimable x \<longleftrightarrow> i = rn_id q"
      proof
        assume "claimable x"
        then show "i = rn_id q" using only x by (auto simp: claimable_def)
      next
        assume "i = rn_id q"
        then have "x = q" using x q(1) ok2 by (auto simp: runs_ok_def distinct_map inj_on_def)
        then show "claimable x" using q(2) by simp
      qed
      then show ?thesis
        using Some same [of i] find_updated [of "start_run (now 1)" i claimable b2] keep
        by (auto simp: attempts_of_def start_run_def)
    qed
    then have "attempts_of i b' = (if i = rn_id ?q then attempts_of i b + 1 else attempts_of i b)" for i
      unfolding b3 .
    with res ok3 member row show ?thesis by (rule won)
  qed
qed

lemma fenced_effect:
  assumes "fencedStageTx now ns key fence (on_data fn) b = (res, b')"
  shows "br_runs b' = br_runs b" "br_next_run b' = br_next_run b"
    and "res = Inr True \<Longrightarrow> liveRevisionTx now ns key b = fc_rev fence
         \<and> (\<exists>r \<in> set (br_runs b). claim_held fence r)
         \<and> fn (br_mem b, br_links b) = (Inr (), br_mem b', br_links b')"
    and "res \<noteq> Inr True \<Longrightarrow> b' = b"
proof -
  have frame: "br_runs (snd (on_data fn c)) = br_runs c" "br_next_run (snd (on_data fn c)) = br_next_run c" for c
    by (simp_all add: on_data_def split: prod.split)
  show "br_runs b' = br_runs b" "br_next_run b' = br_next_run b"
    "res \<noteq> Inr True \<Longrightarrow> b' = b"
    "res = Inr True \<Longrightarrow> liveRevisionTx now ns key b = fc_rev fence
         \<and> (\<exists>r \<in> set (br_runs b). claim_held fence r)
         \<and> fn (br_mem b, br_links b) = (Inr (), br_mem b', br_links b')"
    using assms frame [of b]
    by (auto simp: fencedStageTx_def with_tx_def fenced_body_def rows_affected_0 on_data_def
        split: prod.splits sum.splits if_splits)
qed

definition history_ok :: "pipe_history \<Rightarrow> bool" where
  "history_ok h \<longleftrightarrow> runs_ok (ph_brain h)
     \<and> (\<forall>i. map snd (filter (\<lambda>c. fst c = i) (ph_claims h)) = [1 ..< Suc (attempts_of i (ph_brain h))])
     \<and> (\<forall>i. sorted (map snd (filter (\<lambda>c. fst c = i) (ph_writes h))))
     \<and> (\<forall>c \<in> set (ph_writes h). snd c \<le> attempts_of (fst c) (ph_brain h))"

lemma history_quiet:
  assumes "history_ok h" "runs_ok b" "\<And>i. attempts_of i b = attempts_of i (ph_brain h)"
  shows "history_ok (h\<lparr>ph_brain := b\<rparr>)"
  using assms by (simp add: history_ok_def)

lemma pipe_do_ok:
  assumes "history_ok h"
  shows "history_ok (pipe_do op h)"
proof -
  have ok: "runs_ok (ph_brain h)" using assms by (simp add: history_ok_def)
  show ?thesis
  proof (cases op)
    case (WorldOp f g)
    then show ?thesis using assms by (simp add: history_ok_def runs_ok_def attempts_of_def)
  next
    case (ClaimOp now ns stage version key)
    obtain res b where claim: "claimPipelineWork now ns stage version key (ph_brain h) = (res, b)" by fastforce
    from ok claim show ?thesis
    proof (cases rule: claim_effect)
      case idle
      then show ?thesis using history_quiet [OF assms] by (simp add: ClaimOp claim)
    next
      case (won r)
      have "rn_attempts r = attempts_of (rn_id r) b" using attempts_of_member [OF won(2, 3)] by simp
      also have "\<dots> = Suc (attempts_of (rn_id r) (ph_brain h))" unfolding won(7) by simp
      finally have token: "rn_attempts r = Suc (attempts_of (rn_id r) (ph_brain h))" .
      have "pipe_do op h = h\<lparr>ph_brain := b, ph_claims := ph_claims h @ [(rn_id r, rn_attempts r)]\<rparr>"
        by (simp add: ClaimOp claim won(1))
      then show ?thesis
        using assms won(2) unfolding history_ok_def by (auto simp: won(7) token le_SucI)
    qed
  next
    case (PersistOp sg now e)
    then show ?thesis using history_quiet [OF assms] persist_ok [OF ok] by simp
  next
    case (FencedOp now ns key fence fn)
    obtain res b where f: "fencedStageTx now ns key fence (on_data fn) (ph_brain h) = (res, b)" by fastforce
    have same: "runs_ok b" "\<And>i. attempts_of i b = attempts_of i (ph_brain h)"
      using fenced_effect(1, 2) [OF f] ok by (simp_all add: runs_ok_def attempts_of_def)
    show ?thesis
    proof (cases "res = Inr True")
      case True
      then obtain r where r: "r \<in> set (br_runs (ph_brain h))" "claim_held fence r"
        using fenced_effect(3) [OF f] by blast
      then have "attempts_of (fc_run fence) (ph_brain h) = fc_attempt fence"
        using attempts_of_member [OF ok r(1)] by (simp add: claim_held_def)
      then show ?thesis
        using assms same True by (auto simp: FencedOp f history_ok_def sorted_append)
    next
      case False
      then have "pipe_do op h = h\<lparr>ph_brain := b\<rparr>" by (auto simp: FencedOp f split: sum.split bool.split)
      then show ?thesis using history_quiet [OF assms] same by simp
    qed
  next
    case (FinishOp now i a status items errClass)
    then show ?thesis using history_quiet [OF assms] ok by (simp add: finishPipelineRun_def Let_def update_quiet)
  next
    case (RequeueStaleOp before)
    then show ?thesis using history_quiet [OF assms] requeue_ok [OF ok] by (simp add: requeueStalePipelineRuns_def)
  next
    case RequeueFailedOp
    then show ?thesis using history_quiet [OF assms] requeue_ok [OF ok] by (simp add: requeueFailedPipelineRuns_def)
  qed
qed

definition New_pipeline :: "memory \<Rightarrow> links \<Rightarrow> pipe_history" where
  "New_pipeline m ls = \<lparr>ph_brain = \<lparr>br_mem = m, br_links = ls, br_runs = [], br_next_run = 1\<rparr>, ph_claims = [], ph_writes = []\<rparr>"

definition pipe_run :: "pipe_op list \<Rightarrow> memory \<Rightarrow> links \<Rightarrow> pipe_history" where
  "pipe_run ops m ls = fold pipe_do ops (New_pipeline m ls)"

lemma pipe_run_ok: "history_ok (pipe_run ops m ls)"
proof -
  have "history_ok h \<Longrightarrow> history_ok (fold pipe_do ops h)" for h
    by (induction ops arbitrary: h) (simp_all add: pipe_do_ok)
  moreover have "history_ok (New_pipeline m ls)"
    by (simp add: history_ok_def New_pipeline_def runs_ok_def attempts_of_def)
  ultimately show ?thesis unfolding pipe_run_def by blast
qed

text \<open>C24: a claim is an exclusive, fenced token.  Whatever workers do in whatever order, a unit of work has one
  run row; the claims won on a run carry the attempts 1, 2, 3 and so on, each once; and the derived writes
  that were applied for a run come in the order of their attempts: once a later attempt has written, no earlier
  attempt's write is applied any more.  A write that is applied belongs to the running attempt and to the
  revision that is live at that moment, and one that is not applied changes nothing.\<close>

theorem fenced_writes_ordered:
  "distinct (map work_key (br_runs (ph_brain (pipe_run ops m ls))))
   \<and> (\<forall>i. map snd (filter (\<lambda>c. fst c = i) (ph_claims (pipe_run ops m ls)))
        = [1 ..< Suc (attempts_of i (ph_brain (pipe_run ops m ls)))])
   \<and> (\<forall>i. sorted (map snd (filter (\<lambda>c. fst c = i) (ph_writes (pipe_run ops m ls)))))
   \<and> (\<forall>now ns key fence fn res b.
        fencedStageTx now ns key fence (on_data fn) (ph_brain (pipe_run ops m ls)) = (res, b) \<longrightarrow>
          (res = Inr True \<longrightarrow> liveRevisionTx now ns key (ph_brain (pipe_run ops m ls)) = fc_rev fence
             \<and> (\<exists>r \<in> set (br_runs (ph_brain (pipe_run ops m ls))). claim_held fence r))
          \<and> (res \<noteq> Inr True \<longrightarrow> b = ph_brain (pipe_run ops m ls)))"
proof -
  have ok: "history_ok (pipe_run ops m ls)" by (rule pipe_run_ok)
  have "(res = Inr True \<longrightarrow> liveRevisionTx now ns key b0 = fc_rev fence \<and> (\<exists>r \<in> set (br_runs b0). claim_held fence r))
      \<and> (res \<noteq> Inr True \<longrightarrow> b = b0)"
    if "fencedStageTx now ns key fence (on_data fn) b0 = (res, b)" for now ns key fence fn b0 res b
    using fenced_effect(3, 4) [OF that] by simp
  then show ?thesis using ok unfolding history_ok_def runs_ok_def by presburger
qed

lemma pipe_run_append: "pipe_run (xs @ ys) m ls = fold pipe_do ys (pipe_run xs m ls)"
  by (simp add: pipe_run_def)

section \<open>Finished work stays finished\<close>

definition settled :: "pipeline_run \<Rightarrow> bool" where
  "settled r \<longleftrightarrow> rn_status r \<in> {RunSucceeded, RunSuperseded} \<or> (rn_status r = RunFailed \<and> pipelineMaxAttempts \<le> rn_attempts r)"

lemmas run_states = RunPending_def RunRunning_def RunSucceeded_def RunFailed_def RunSuperseded_def

lemma settled_not: "settled r \<Longrightarrow> rn_status r \<noteq> RunPending" "settled r \<Longrightarrow> rn_status r \<noteq> RunRunning"
  by (auto simp: settled_def run_states)

lemma update_runs_keeps: "r \<in> set (br_runs b) \<Longrightarrow> \<not> P r \<Longrightarrow> r \<in> set (br_runs (update_runs P f b))"
  by (force simp: update_runs_def update_where_def)

lemma ensure_keeps: "r \<in> set (br_runs b) \<Longrightarrow> r \<in> set (br_runs (ensure_run now ns stage version key rv b))"
  by (simp add: ensure_run_def)

lemma fold_ensure_keeps:
  "r \<in> set (br_runs b) \<Longrightarrow> r \<in> set (br_runs (fold (\<lambda>(stage, version). ensure_run now ns stage version key rv) ss b))"
  by (induction ss arbitrary: b) (auto simp: ensure_keeps split: prod.splits)

lemma claim_keeps_settled:
  assumes "r \<in> set (br_runs b)" "settled r"
  shows "r \<in> set (br_runs (snd (claimPipelineWork now ns stage version key b)))"
proof (cases "live_revision (now 0) ns key b")
  case None
  then show ?thesis using assms by (simp add: claimPipelineWork_def)
next
  case (Some rv)
  have "r \<in> set (br_runs (snd (claim_run_body (now 1) ns stage version key rv b)))"
    using assms settled_not [OF assms(2)]
    by (simp add: claim_run_body_def Let_def update_runs_keeps ensure_keeps)
  then show ?thesis
    by (cases rule: with_tx_cases [of "claim_run_body (now 1) ns stage version key rv" b])
      (use assms(1) in \<open>auto simp: claimPipelineWork_def Some\<close>)
qed

lemma requeue_keeps:
  assumes "\<And>x. P x \<Longrightarrow> \<not> settled x"
  shows "r \<in> set (br_runs b) \<Longrightarrow> settled r \<Longrightarrow> runs_ok b \<Longrightarrow> r \<in> set (br_runs (snd (requeueRuns P b)))"
proof -
  have "r \<in> set (br_runs (snd (fold requeue_one rs (out, b))))"
    if "r \<in> set (br_runs b)" "\<forall>x \<in> set rs. rn_id x \<noteq> rn_id r" for rs out b
    using that by (induction rs arbitrary: out b) (auto simp: requeue_one_def Let_def update_runs_keeps)
  moreover assume "r \<in> set (br_runs b)" "settled r" "runs_ok b"
  moreover from this have "\<forall>x \<in> set (sort_key rn_id (filter P (br_runs b))). rn_id x \<noteq> rn_id r"
    using assms by (auto simp: runs_ok_def distinct_map inj_on_def)
  ultimately show ?thesis by (simp add: requeueRuns_def)
qed

lemma pipe_do_settled:
  assumes "r \<in> set (br_runs (ph_brain h))" "settled r" "history_ok h"
  shows "r \<in> set (br_runs (ph_brain (pipe_do op h)))"
proof (cases op)
  case (ClaimOp now ns stage version key)
  have "ph_brain (pipe_do op h) = snd (claimPipelineWork now ns stage version key (ph_brain h))"
    by (simp add: ClaimOp split: prod.split sum.split option.split)
  then show ?thesis using claim_keeps_settled assms by simp
next
  case (PersistOp sg now e)
  then show ?thesis
    using assms settled_not [OF assms(2)]
    by (auto simp: persistStageWork_def Let_def supersedePendingPipelineRuns_def persistPipelineWork_def
        update_runs_keeps fold_ensure_keeps split: option.split)
next
  case (FencedOp now ns key fence fn)
  obtain res b where f: "fencedStageTx now ns key fence (on_data fn) (ph_brain h) = (res, b)" by fastforce
  have "ph_brain (pipe_do op h) = b" by (simp add: FencedOp f split: sum.split bool.split)
  then show ?thesis using fenced_effect(1) [OF f] assms by simp
next
  case (FinishOp now i a status items errClass)
  then show ?thesis
    using assms settled_not [OF assms(2)] by (simp add: finishPipelineRun_def Let_def claim_held_def update_runs_keeps)
next
  case (RequeueStaleOp before)
  then show ?thesis
    using assms settled_not by (auto simp: requeueStalePipelineRuns_def history_ok_def intro!: requeue_keeps)
next
  case RequeueFailedOp
  have "\<not> settled x" if "rn_status x = RunFailed \<and> rn_attempts x < pipelineMaxAttempts" for x
    using that by (simp add: settled_def run_states)
  then show ?thesis
    using assms RequeueFailedOp by (auto simp: requeueFailedPipelineRuns_def history_ok_def intro!: requeue_keeps)
qed (use assms in simp)

text \<open>Finished work is never run again.  A row that has succeeded, was superseded, or has failed with its
  attempts used up stays in the table unchanged whatever happens later; and while its revision is the live
  one, a claim of that work, by a redelivery or by recovery, is refused.\<close>

lemma settled_runs_stay:
  assumes "r \<in> set (br_runs (ph_brain (pipe_run ops m ls)))" "settled r"
  shows "r \<in> set (br_runs (ph_brain (pipe_run (ops @ later) m ls)))
    \<and> (live_revision (now 0) (rn_ns r) (rn_key r) (ph_brain (pipe_run (ops @ later) m ls)) = Some (rn_rev r) \<longrightarrow>
         fst (claimPipelineWork now (rn_ns r) (rn_stage r) (rn_version r) (rn_key r) (ph_brain (pipe_run (ops @ later) m ls))) = Inr None)"
proof -
  have "r \<in> set (br_runs (ph_brain (fold pipe_do later h))) \<and> history_ok (fold pipe_do later h)"
    if "r \<in> set (br_runs (ph_brain h))" "history_ok h" for h
    using that by (induction later arbitrary: h) (simp_all add: pipe_do_settled assms(2) pipe_do_ok)
  then have inter: "r \<in> set (br_runs (ph_brain (pipe_run (ops @ later) m ls)))" "history_ok (pipe_run (ops @ later) m ls)"
    using assms(1) pipe_run_ok by (auto simp: pipe_run_append)
  let ?b = "ph_brain (pipe_run (ops @ later) m ls)"
  have member: "r \<in> set (br_runs ?b)" and ok: "runs_ok ?b"
    using inter by (simp_all add: history_ok_def)
  have "fst (claimPipelineWork now (rn_ns r) (rn_stage r) (rn_version r) (rn_key r) ?b) = Inr None"
    if live: "live_revision (now 0) (rn_ns r) (rn_key r) ?b = Some (rn_rev r)"
  proof -
    obtain res b' where claim: "claimPipelineWork now (rn_ns r) (rn_stage r) (rn_version r) (rn_key r) ?b = (res, b')"
      by fastforce
    have still: "r \<in> set (br_runs b')" using claim_keeps_settled [OF member assms(2)] claim by (metis snd_conv)
    from ok claim show ?thesis
    proof (cases rule: claim_effect)
      case (won q)
      have "rn_rev q = rn_rev r" using won(6) live by simp
      then have "work_key q = work_key r" using won(5) by (simp add: work_row_def work_key_def)
      then have "q = r" using still won(2, 3) by (auto simp: runs_ok_def distinct_map inj_on_def)
      then show ?thesis using won(4) settled_not(2) [OF assms(2)] by simp
    qed (simp add: claim)
  qed
  then show ?thesis using member by blast
qed

end
