(* ===== verification/DocSource.thy ===== *)
theory DocSource
  imports Document Pipeline
begin

text \<open>
  Documents with their source, \<open>internal/memory/document_source.go\<close>, and the preview of such a write
  (\<open>PreviewDocumentSource\<close> in \<open>pipeline_runs.go\<close>).  Chunks carry the byte range they were cut from; their
  keys name the owner of the source, the content and the occurrence, so that a write touches only the
  chunks of its own source.  SHA-256 is the parameter \<open>sha\<close>, which gives the digest in hexadecimal.
\<close>

section \<open>Cutting with offsets\<close>

record doc_source =
  ds_id :: string
  ds_uri :: string
  ds_revision :: string
  ds_media :: string

record doc_section =
  sec_name :: string
  sec_page :: int
  sec_text :: string

record source_document =
  sd_source :: doc_source
  sd_sections :: "doc_section list"

record source_chunk =
  sc_body :: string
  sc_start :: nat
  sc_end :: nat
  sc_section :: nat

text \<open>The bytes before the first rune that is not white space.\<close>

definition leadingSpaceLen :: "string \<Rightarrow> nat" where
  "leadingSpaceLen s = length s - length (trim_left_space s)"

definition chunk_at :: "string \<Rightarrow> nat \<Rightarrow> source_chunk" where
  "chunk_at body start =
     \<lparr>sc_body = body, sc_start = start, sc_end = start + length body, sc_section = 0\<rparr>"

text \<open>The pieces of an oversize paragraph, each searched for from the end of the one before.\<close>

fun offset_pieces :: "string \<Rightarrow> nat \<Rightarrow> nat \<Rightarrow> string list \<Rightarrow> source_chunk list" where
  "offset_pieces txt base cursor [] = []"
| "offset_pieces txt base cursor (piece # pieces) =
     (case index_of (drop cursor txt) piece of
        None \<Rightarrow> []
      | Some idx \<Rightarrow> chunk_at piece (base + (cursor + idx))
          # offset_pieces txt base (cursor + idx + length piece) pieces)"

fun offset_paras :: "string \<Rightarrow> nat \<Rightarrow> nat \<Rightarrow> nat \<Rightarrow> string list \<Rightarrow> source_chunk list option" where
  "offset_paras txt mx base pos [] = Some []"
| "offset_paras txt mx base pos (raw # raws) =
     (let trimmed = trim_space raw; start = pos + leadingSpaceLen raw in
      Option.bind
        (if trimmed = [] then Some []
         else if length trimmed \<le> mx then Some [chunk_at trimmed (base + start)]
         else map_option (offset_pieces txt base start) (splitOversize mx trimmed))
        (\<lambda>cs. map_option (\<lambda>ds. cs @ ds) (offset_paras txt mx base (pos + (length raw + 2)) raws)))"

definition chunkTextOffsets :: "string \<Rightarrow> nat \<Rightarrow> nat \<Rightarrow> source_chunk list option" where
  "chunkTextOffsets txt mx base = offset_paras txt mx base 0 (split_sub [CHR 0x0A, CHR 0x0A] txt)"

text \<open>The chunks of all sections, in the coordinates of the assembled text.\<close>

fun document_chunks :: "nat \<Rightarrow> nat \<Rightarrow> nat \<Rightarrow> doc_section list \<Rightarrow> source_chunk list option" where
  "document_chunks mx i base [] = Some []"
| "document_chunks mx i base (sec # secs) =
     Option.bind (chunkTextOffsets (sec_text sec) mx base)
       (\<lambda>cs. map_option (\<lambda>ds. map (\<lambda>c. c\<lparr>sc_section := i\<rparr>) cs @ ds)
          (document_chunks mx (Suc i) (base + (length (sec_text sec) + 2)) secs))"

definition full_text :: "doc_section list \<Rightarrow> string" where
  "full_text sections = join_with [CHR 0x0A, CHR 0x0A] (map sec_text sections)"

section \<open>Owners and keys\<close>

definition chunkIDKey :: "(string \<Rightarrow> string) \<Rightarrow> string \<Rightarrow> string \<Rightarrow> string \<Rightarrow> nat \<Rightarrow> string" where
  "chunkIDKey sha prefix owner body occurrence =
     (if owner = []
      then prefix @ ''/chunk-'' @ take 16 (sha body) @ ''-'' @ nat_str occurrence
      else prefix @ ''/chunk-'' @ take 16 (sha body) @ ''-'' @ take 16 (sha owner) @ ''-'' @ nat_str occurrence)"

definition sourceOwner :: "doc_source \<Rightarrow> string" where
  "sourceOwner src = (if ds_id src \<noteq> [] then ds_id src else ds_uri src)"

definition string_attr :: "attrs \<Rightarrow> string \<Rightarrow> string" where
  "string_attr ats k = (case map_of ats k of Some (JStr s) \<Rightarrow> s | _ \<Rightarrow> [])"

definition chunkOwner :: "fact \<Rightarrow> string option" where
  "chunkOwner f =
     (case map_of (fa_attrs f) ''source'' of
        Some (JObj src) \<Rightarrow>
          Some (if string_attr src ''id'' \<noteq> [] then string_attr src ''id'' else string_attr src ''uri'')
      | _ \<Rightarrow> None)"

text \<open>The live chunks under a prefix, read in pages of 500 keys; page \<open>i\<close> reads the clock at \<open>now i\<close>.\<close>

definition liveChunkFacts :: "clock \<Rightarrow> string \<Rightarrow> string \<Rightarrow> memory \<Rightarrow> fact list" where
  "liveChunkFacts now ns prefix m =
     concat (map (\<lambda>(i, ks). queryLiveByKeys (now i) ns ks m)
       (enumerate 0 (chunks 500 (ListKeys ns (prefix @ ''/chunk-'') m))))"

definition sourceRef :: "doc_source \<Rightarrow> string \<Rightarrow> string \<Rightarrow> string" where
  "sourceRef src prefix contentHash =
     (let ident = (if ds_id src \<noteq> [] then ds_id src else ds_uri src);
          ident' = (if ident = [] then prefix else ident)
      in ''document:'' @ ident' @ ''@'' @ take 12 contentHash)"

definition sourceAttrs ::
  "doc_source \<Rightarrow> string \<Rightarrow> doc_section \<Rightarrow> nat \<Rightarrow> source_chunk \<Rightarrow> nat \<Rightarrow> attrs" where
  "sourceAttrs src contentHash sec ordinal c occurrence =
     [(''source'', JObj (
        [(''content_hash'', JStr contentHash), (''chunk'', JNum (of_nat ordinal)),
         (''occurrence'', JNum (of_nat occurrence)), (''start'', JNum (of_nat (sc_start c))),
         (''end'', JNum (of_nat (sc_end c)))]
        @ (if ds_id src \<noteq> [] then [(''id'', JStr (ds_id src))] else [])
        @ (if ds_uri src \<noteq> [] then [(''uri'', JStr (ds_uri src))] else [])
        @ (if ds_revision src \<noteq> [] then [(''revision'', JStr (ds_revision src))] else [])
        @ (if ds_media src \<noteq> [] then [(''media_type'', JStr (ds_media src))] else [])
        @ (if sec_name sec \<noteq> [] then [(''section'', JStr (sec_name sec))] else [])
        @ (if sec_page sec > 0 then [(''page'', JNum (of_int (sec_page sec)))] else [])))]"

section \<open>Writing\<close>

text \<open>The metadata under the defense policy: scrubbed when the mode is \<open>redact\<close>; a label in it under
  \<open>block\<close> blocks the document.\<close>

definition scrub_meta :: "mem_env \<Rightarrow> string \<Rightarrow> string \<Rightarrow> string" where
  "scrub_meta env mode v = (if mode = ''redact'' then fst (Scrub env v) else v)"

definition meta_strings :: "source_document \<Rightarrow> string list" where
  "meta_strings doc =
     (let src = sd_source doc in
      [ds_id src, ds_uri src, ds_revision src, ds_media src] @ map sec_name (sd_sections doc))"

definition meta_sensitive :: "mem_env \<Rightarrow> string \<Rightarrow> source_document \<Rightarrow> bool" where
  "meta_sensitive env mode doc \<longleftrightarrow>
     mode = ''block'' \<and> list_ex (\<lambda>v. snd (Scrub env v) \<noteq> []) (meta_strings doc)"

definition scrub_source :: "mem_env \<Rightarrow> string \<Rightarrow> doc_source \<Rightarrow> doc_source" where
  "scrub_source env mode src =
     \<lparr>ds_id = scrub_meta env mode (ds_id src), ds_uri = scrub_meta env mode (ds_uri src),
      ds_revision = scrub_meta env mode (ds_revision src), ds_media = scrub_meta env mode (ds_media src)\<rparr>"

definition scrub_sections :: "mem_env \<Rightarrow> string \<Rightarrow> doc_section list \<Rightarrow> doc_section list" where
  "scrub_sections env mode = map (\<lambda>s. s\<lparr>sec_name := scrub_meta env mode (sec_name s)\<rparr>)"

text \<open>What stays fixed in the loop over the chunks.\<close>

record source_job =
  jb_ns :: string
  jb_prefix :: string
  jb_writer :: string
  jb_mode :: string
  jb_source :: doc_source
  jb_sections :: "doc_section list"
  jb_hash :: string
  jb_occupied :: "string set"

definition count_of :: "(string \<times> nat) list \<Rightarrow> string \<Rightarrow> nat" where
  "count_of occ body = (case map_of occ body of None \<Rightarrow> 0 | Some n \<Rightarrow> n)"

definition source_input ::
  "source_job \<Rightarrow> nat \<Rightarrow> source_chunk \<Rightarrow> nat \<Rightarrow> string \<Rightarrow> string \<Rightarrow> write_input" where
  "source_input job i c occurrence key body =
     \<lparr>wi_ns = jb_ns job, wi_key = key, wi_body = body,
      wi_attrs = sourceAttrs (jb_source job) (jb_hash job) (jb_sections job ! sc_section c) (i + 1) c occurrence,
      wi_author = jb_writer job, wi_writer = jb_writer job, wi_task = [],
      wi_source = sourceRef (jb_source job) (jb_prefix job) (jb_hash job), wi_confidence = 0,
      wi_expires = None, wi_importance = 0\<rparr>"

definition owned_bodies :: "string \<Rightarrow> fact list \<Rightarrow> (string \<times> string) list" where
  "owned_bodies owner existing =
     fold (\<lambda>f. if chunkOwner f = Some owner then AList.update (fa_key f) (fa_body f) else id) existing []"

definition blocks_body :: "mem_env \<Rightarrow> string \<Rightarrow> string \<Rightarrow> bool" where
  "blocks_body env mode body \<longleftrightarrow> mode = ''block'' \<and> snd (Scrub env body) \<noteq> []"

definition is_foreign :: "source_job \<Rightarrow> (string \<times> string) list \<Rightarrow> string \<Rightarrow> bool" where
  "is_foreign job byKey key \<longleftrightarrow> map_of byKey key = None \<and> key \<in> jb_occupied job"

text \<open>The loop of the write, with the bodies still to be met again and the occurrences counted so far.\<close>

primrec source_loop ::
  "mem_env \<Rightarrow> (string \<Rightarrow> string) \<Rightarrow> (nat \<Rightarrow> clock) \<Rightarrow> (nat \<Rightarrow> string) \<Rightarrow> source_job \<Rightarrow> nat \<Rightarrow> source_chunk list
   \<Rightarrow> (string \<times> string) list \<Rightarrow> (string \<times> nat) list \<Rightarrow> doc_counts
   \<Rightarrow> (memory, memory_error \<times> doc_counts, (string \<times> string) list \<times> doc_counts) op" where
  "source_loop env sha tick fids job i [] byKey occ counts m = (Inr (byKey, counts), m)"
| "source_loop env sha tick fids job i (c # cs) byKey occ counts m =
     (let (written, unchanged, removed, blocked) = counts;
          body = scrub_meta env (jb_mode job) (sc_body c);
          n = count_of occ body + 1; occ' = AList.update body n occ;
          key = chunkIDKey sha (jb_prefix job) (sourceOwner (jb_source job)) body n;
          byKey' = AList.delete key byKey
      in if blocks_body env (jb_mode job) body
         then source_loop env sha tick fids job (Suc i) cs byKey' occ' (written, unchanged, removed, Suc blocked) m
         else if body_at byKey key = body
         then source_loop env sha tick fids job (Suc i) cs byKey' occ' (written, Suc unchanged, removed, blocked) m
         else if is_foreign job byKey key
         then source_loop env sha tick fids job (Suc i) cs byKey occ' (written, unchanged, removed, Suc blocked) m
         else case Write env (tick (Suc i)) (fids (Suc i)) (source_input job i c n key body) m of
             (Inl e, m1) \<Rightarrow> (Inl (e, (written, unchanged, removed, blocked)), m1)
           | (Inr _, m1) \<Rightarrow>
               source_loop env sha tick fids job (Suc i) cs byKey' occ' (Suc written, unchanged, removed, blocked) m1)"

definition source_job_of ::
  "mem_env \<Rightarrow> (string \<Rightarrow> string) \<Rightarrow> string \<Rightarrow> string \<Rightarrow> source_document \<Rightarrow> string \<Rightarrow> fact list \<Rightarrow> source_job" where
  "source_job_of env sha ns prefix doc writer existing =
     (let mode = defenseMode env ns in
      \<lparr>jb_ns = ns, jb_prefix = prefix, jb_writer = writer, jb_mode = mode,
       jb_source = scrub_source env mode (sd_source doc),
       jb_sections = scrub_sections env mode (sd_sections doc),
       jb_hash = sha (full_text (sd_sections doc)), jb_occupied = fa_key ` set existing\<rparr>)"

definition write_source_chunks ::
  "mem_env \<Rightarrow> (string \<Rightarrow> string) \<Rightarrow> (nat \<Rightarrow> clock) \<Rightarrow> (nat \<Rightarrow> string) \<Rightarrow> (string list \<Rightarrow> string list) \<Rightarrow> source_job
   \<Rightarrow> (string \<times> string) list \<Rightarrow> source_chunk list \<Rightarrow> (memory, memory_error \<times> doc_counts, doc_counts) op" where
  "write_source_chunks env sha tick fids order job byKey cs m =
     (case source_loop env sha tick fids job 0 cs byKey [] (0, 0, 0, 0) m of
        (Inl e, m1) \<Rightarrow> (Inl e, m1)
      | (Inr (rest, counts), m1) \<Rightarrow>
          forget_loop tick fids (jb_ns job) (jb_writer job) (length cs) (order (map fst rest)) counts m1)"

definition WriteDocumentSource ::
  "mem_env \<Rightarrow> (string \<Rightarrow> string) \<Rightarrow> (nat \<Rightarrow> clock) \<Rightarrow> (nat \<Rightarrow> string) \<Rightarrow> (string list \<Rightarrow> string list) \<Rightarrow> int \<Rightarrow> string
   \<Rightarrow> string \<Rightarrow> source_document \<Rightarrow> string \<Rightarrow> memory
   \<Rightarrow> (((memory_error \<times> doc_counts) + doc_counts) \<times> memory) option" where
  "WriteDocumentSource env sha tick fids order configured ns prefix doc writer m =
     (case ValidateKey prefix of
        Inl e \<Rightarrow> Some (Inl (e, (0, 0, 0, 0)), m)
      | Inr _ \<Rightarrow> map_option
          (\<lambda>cs. if meta_sensitive env (defenseMode env ns) doc then (Inr (0, 0, 0, length cs), m)
             else (let existing = liveChunkFacts (tick 0) ns prefix m;
                       job = source_job_of env sha ns prefix doc writer existing
                   in write_source_chunks env sha tick fids order job
                        (owned_bodies (sourceOwner (jb_source job)) existing) cs m))
          (document_chunks (chunkMax configured) 0 0 (sd_sections doc)))"

section \<open>Previewing\<close>

definition EstimateTokens :: "string \<Rightarrow> nat" where
  "EstimateTokens s = (length s + 3) div 4"

definition embedText :: "string \<Rightarrow> string \<Rightarrow> string" where
  "embedText key body = ''key: '' @ key @ [CHR 0x0A] @ body"

record preview_chunk =
  pc_key :: string
  pc_body :: string
  pc_section :: string
  pc_ordinal :: nat
  pc_start :: nat
  pc_end :: nat
  pc_bytes :: nat
  pc_embed_bytes :: nat
  pc_tokens :: nat
  pc_embed_tokens :: nat

record document_preview =
  dp_hash :: string
  dp_chunks :: nat
  dp_changed :: "preview_chunk list"
  dp_unchanged :: nat
  dp_removed :: "string list"
  dp_blocked :: nat
  dp_meta_blocked :: bool

definition preview_chunk_of :: "source_job \<Rightarrow> nat \<Rightarrow> source_chunk \<Rightarrow> string \<Rightarrow> string \<Rightarrow> preview_chunk" where
  "preview_chunk_of job i c key body =
     (let embed_in = embedText key body in
      \<lparr>pc_key = key, pc_body = body, pc_section = sec_name (jb_sections job ! sc_section c),
       pc_ordinal = i + 1, pc_start = sc_start c, pc_end = sc_end c, pc_bytes = length body,
       pc_embed_bytes = length embed_in, pc_tokens = EstimateTokens body,
       pc_embed_tokens = EstimateTokens embed_in\<rparr>)"

primrec preview_loop ::
  "mem_env \<Rightarrow> (string \<Rightarrow> string) \<Rightarrow> source_job \<Rightarrow> nat \<Rightarrow> source_chunk list \<Rightarrow> (string \<times> string) list
   \<Rightarrow> (string \<times> nat) list \<Rightarrow> document_preview \<Rightarrow> (string \<times> string) list \<times> document_preview" where
  "preview_loop env sha job i [] byKey occ p = (byKey, p)"
| "preview_loop env sha job i (c # cs) byKey occ p =
     (let body = scrub_meta env (jb_mode job) (sc_body c);
          n = count_of occ body + 1; occ' = AList.update body n occ;
          key = chunkIDKey sha (jb_prefix job) (sourceOwner (jb_source job)) body n;
          byKey' = AList.delete key byKey
      in if blocks_body env (jb_mode job) body
         then preview_loop env sha job (Suc i) cs byKey' occ' (p\<lparr>dp_blocked := Suc (dp_blocked p)\<rparr>)
         else if body_at byKey key = body
         then preview_loop env sha job (Suc i) cs byKey' occ' (p\<lparr>dp_unchanged := Suc (dp_unchanged p)\<rparr>)
         else if is_foreign job byKey key
         then preview_loop env sha job (Suc i) cs byKey occ' (p\<lparr>dp_blocked := Suc (dp_blocked p)\<rparr>)
         else preview_loop env sha job (Suc i) cs byKey' occ'
           (p\<lparr>dp_changed := dp_changed p @ [preview_chunk_of job i c key body]\<rparr>))"

text \<open>The snapshot of a preview reads as \<open>liveChunkFacts\<close> does; it differs in the rows that do not decode,
  which are not modelled.\<close>

definition liveChunkSnapshot :: "clock \<Rightarrow> string \<Rightarrow> string \<Rightarrow> memory \<Rightarrow> fact list" where
  "liveChunkSnapshot = liveChunkFacts"

definition PreviewDocumentSource ::
  "mem_env \<Rightarrow> (string \<Rightarrow> string) \<Rightarrow> clock \<Rightarrow> int \<Rightarrow> string \<Rightarrow> string \<Rightarrow> source_document \<Rightarrow> memory
   \<Rightarrow> (memory_error + document_preview) option" where
  "PreviewDocumentSource env sha now configured ns prefix doc m =
     (case ValidateKey prefix of
        Inl e \<Rightarrow> Some (Inl e)
      | Inr _ \<Rightarrow> map_option
          (\<lambda>cs. let p = \<lparr>dp_hash = sha (full_text (sd_sections doc)), dp_chunks = length cs, dp_changed = [],
                        dp_unchanged = 0, dp_removed = [], dp_blocked = 0, dp_meta_blocked = False\<rparr>
             in if meta_sensitive env (defenseMode env ns) doc
                then Inr (p\<lparr>dp_meta_blocked := True, dp_blocked := length cs\<rparr>)
                else (let existing = liveChunkSnapshot now ns prefix m;
                          job = source_job_of env sha ns prefix doc [] existing
                      in case preview_loop env sha job 0 cs (owned_bodies (sourceOwner (jb_source job)) existing) [] p of
                           (rest, p') \<Rightarrow> Inr (p'\<lparr>dp_removed := sort (map fst rest)\<rparr>)))
          (document_chunks (chunkMax configured) 0 0 (sd_sections doc)))"

section \<open>The stages a write creates work for\<close>

record pipeline_stage =
  st_name :: string
  st_version :: nat
  st_model :: string
  st_batch_keys :: nat

definition embedLinkStage :: "string \<Rightarrow> pipeline_stage" where
  "embedLinkStage model =
     \<lparr>st_name = StageEmbedLink, st_version = embedLinkStageVersion, st_model = model, st_batch_keys = 0\<rparr>"

definition entitiesStage :: "string \<Rightarrow> bool \<Rightarrow> pipeline_stage" where
  "entitiesStage model batched =
     \<lparr>st_name = StageEntities, st_version = entitiesStageVersion, st_model = model,
      st_batch_keys = (if batched then entityBatchKeys else 0)\<rparr>"

text \<open>A dependency is its model name, if it has one, and, for an extractor, whether it works in batches;
  \<open>None\<close> when it is not configured.\<close>

definition ConfiguredPipelineStages :: "string option option \<Rightarrow> (string option \<times> bool) option \<Rightarrow> pipeline_stage list" where
  "ConfiguredPipelineStages embedder extractor =
     (case embedder of None \<Rightarrow> []
      | Some model \<Rightarrow> [embedLinkStage (case model of None \<Rightarrow> [] | Some n \<Rightarrow> n)])
     @ (case extractor of None \<Rightarrow> []
        | Some (model, batched) \<Rightarrow> [entitiesStage (case model of None \<Rightarrow> [] | Some n \<Rightarrow> n) batched])"

definition PipelineStagesForModels :: "string \<Rightarrow> string \<Rightarrow> bool \<Rightarrow> pipeline_stage list" where
  "PipelineStagesForModels embedModel extractModel batched =
     (if embedModel \<noteq> [] then [embedLinkStage embedModel] else [])
     @ (if extractModel \<noteq> [] then [entitiesStage extractModel batched] else [])"


section \<open>Offsets are exact\<close>

lemma index_of_least: "has_prefix (drop j s) p \<Longrightarrow> j \<le> length s \<Longrightarrow> \<exists>i \<le> j. index_of s p = Some i"
proof (induction s arbitrary: j)
  case Nil
  then show ?case by (auto simp: has_prefix_append)
next
  case (Cons c s)
  show ?case
  proof (cases "has_prefix (c # s) p")
    case True
    then show ?thesis by simp
  next
    case False
    then obtain k where "j = Suc k" using Cons.prems by (cases j) auto
    then show ?thesis using Cons.IH [of k] Cons.prems False by auto
  qed
qed

lemma index_of_append: "\<exists>i \<le> length u. index_of (u @ p @ v) p = Some i"
  by (rule index_of_least) (simp_all add: has_prefix_append)

lemma leading_space: "raw = take (leadingSpaceLen raw) raw @ trim_left_space raw"
proof -
  obtain t where t: "raw = t @ trim_left_space raw"
    using strip_encodings_suffix [of raw space_encodings] by (auto simp: trim_left_space_def)
  then have "length raw = length t + length (trim_left_space raw)" by (metis length_append)
  then have "leadingSpaceLen raw = length t" by (simp add: leadingSpaceLen_def)
  then show ?thesis using t by (metis append_eq_conv_conj)
qed

lemma trim_right_prefix: "\<exists>b. s = trim_right_space s @ b"
proof -
  obtain t where "rev s = t @ strip_encodings (map rev space_encodings) (rev s)"
    using strip_encodings_suffix by blast
  then have "s = rev (strip_encodings (map rev space_encodings) (rev s)) @ rev t"
    by (metis rev_append rev_rev_ident)
  then show ?thesis by (auto simp: trim_right_space_def)
qed

lemma trimmed_at: "\<exists>b. drop (leadingSpaceLen raw) raw = trim_space raw @ b"
proof -
  have "length (take (leadingSpaceLen raw) raw) = leadingSpaceLen raw" by (simp add: leadingSpaceLen_def)
  then have "drop (leadingSpaceLen raw) raw = trim_left_space raw"
    using leading_space [of raw] by (metis append_eq_conv_conj)
  then show ?thesis using trim_right_prefix [of "trim_left_space raw"] by (simp add: trim_space_def)
qed

text \<open>Chunks in the order of the text, from \<open>lo\<close> to \<open>hi\<close> and not overlapping, each the bytes its range
  names.\<close>

fun placed :: "string \<Rightarrow> nat \<Rightarrow> nat \<Rightarrow> source_chunk list \<Rightarrow> nat \<Rightarrow> bool" where
  "placed txt base lo [] hi = (lo \<le> hi)"
| "placed txt base lo (c # cs) hi =
     (base + lo \<le> sc_start c \<and> sc_end c = sc_start c + length (sc_body c)
      \<and> take (length (sc_body c)) (drop (sc_start c - base) txt) = sc_body c
      \<and> placed txt base (sc_end c - base) cs hi)"

lemma placed_lower: "placed txt base lo cs hi \<Longrightarrow> lo' \<le> lo \<Longrightarrow> placed txt base lo' cs hi"
  by (cases cs) auto

lemma placed_append: "placed txt base lo cs mid \<Longrightarrow> placed txt base mid ds hi \<Longrightarrow> placed txt base lo (cs @ ds) hi"
  by (induction cs arbitrary: lo) (auto intro: placed_lower)

lemma placed_upper: "placed txt base lo cs hi \<Longrightarrow> hi \<le> hi' \<Longrightarrow> placed txt base lo cs hi'"
  by (induction cs arbitrary: lo) auto

lemma placed_section: "placed txt base lo (map (\<lambda>c. c\<lparr>sc_section := i\<rparr>) cs) hi = placed txt base lo cs hi"
  by (induction cs arbitrary: lo) auto

lemma placed_single:
  "drop start txt = body @ rest \<Longrightarrow> lo \<le> start \<Longrightarrow> start + length body \<le> hi
   \<Longrightarrow> placed txt base lo [chunk_at body (base + start)] hi"
  by (simp add: chunk_at_def)

lemma offset_pieces_placed:
  assumes "weave s ps" "drop cursor txt = u @ s @ t"
  shows "map sc_body (offset_pieces txt base cursor ps) = ps
    \<and> placed txt base cursor (offset_pieces txt base cursor ps) (cursor + length u + length s)"
  using assms
proof (induction arbitrary: cursor u rule: weave.induct)
  case (blanks w)
  then show ?case by simp
next
  case (piece w s ps p)
  have text_at: "drop cursor txt = (u @ w) @ p @ (s @ t)" using piece.prems by simp
  then obtain i where i: "i \<le> length (u @ w)" "index_of (drop cursor txt) p = Some i"
    using index_of_append [of "u @ w" p "s @ t"] by auto
  have "has_prefix (drop i (drop cursor txt)) p" using index_of_Some [OF i(2)] by simp
  then obtain v where "drop (cursor + i) txt = p @ v" by (auto simp: has_prefix_append add.commute)
  then have here: "placed txt base cursor [chunk_at p (base + (cursor + i))] (cursor + i + length p)"
    by (intro placed_single) auto
  have "drop (cursor + i + length p) txt = drop (i + length p) ((u @ w @ p) @ (s @ t))"
    using text_at by (metis append_assoc add.assoc add.commute drop_drop)
  also have "\<dots> = drop (i + length p) (u @ w @ p) @ s @ t" using i(1) by simp
  finally have rest: "drop (cursor + i + length p) txt = drop (i + length p) (u @ w @ p) @ s @ t" .
  have "cursor + i + length p + length (drop (i + length p) (u @ w @ p)) = cursor + length (u @ w @ p)"
    using i(1) by simp
  then have "cursor + i + length p + length (drop (i + length p) (u @ w @ p)) + length s
      = cursor + length u + length (w @ p @ s)"
    by (simp only: length_append)
  then have "map sc_body (offset_pieces txt base (cursor + i + length p) ps) = ps
    \<and> placed txt base (cursor + i + length p) (offset_pieces txt base (cursor + i + length p) ps)
         (cursor + length u + length (w @ p @ s))"
    using piece.IH [OF rest] by metis
  moreover from this have "placed txt base cursor
      ([chunk_at p (base + (cursor + i))] @ offset_pieces txt base (cursor + i + length p) ps)
      (cursor + length u + length (w @ p @ s))"
    using placed_append [OF here] by blast
  ultimately show ?case
    using i(2) by (simp add: chunk_at_def)
qed

lemma split_sub_join: "sep \<noteq> [] \<Longrightarrow> join_with sep (split_sub sep s) = s"
proof (induction sep s rule: split_sub.induct)
  case (1 sep s)
  show ?case
  proof (cases "index_of s sep")
    case None
    then show ?thesis using 1 by (simp add: split_sub.simps [of sep s])
  next
    case (Some i)
    have "split_sub sep (drop (i + length sep) s) \<noteq> []"
      by (subst split_sub.simps) (simp split: option.split)
    then have "join_with sep (split_sub sep s) = take i s @ sep @ drop (i + length sep) s"
      using 1 Some by (cases "split_sub sep (drop (i + length sep) s)")
        (simp_all add: split_sub.simps [of sep s])
    moreover have "drop i s = sep @ drop (i + length sep) s"
      using index_of_Some [OF Some] by (metis add.commute append_take_drop_id drop_drop has_prefix_def)
    ultimately show ?thesis by (metis append_take_drop_id)
  qed
qed

lemma offset_paras_placed:
  assumes "0 < mx" "drop pos txt = join_with [CHR 0x0A, CHR 0x0A] raws"
  shows "\<exists>cs. offset_paras txt mx base pos raws = Some cs
    \<and> chunk_paras mx raws = Some (map sc_body cs) \<and> placed txt base pos cs (pos + length (drop pos txt))"
  using assms(2)
proof (induction raws arbitrary: pos)
  case Nil
  then show ?case by simp
next
  case (Cons raw raws)
  let ?p = "trim_space raw" and ?start = "pos + leadingSpaceLen raw" and ?next = "pos + (length raw + 2)"
  obtain rest where para: "drop pos txt = raw @ rest" and
    more: "raws \<noteq> [] \<Longrightarrow> rest = [CHR 0x0A, CHR 0x0A] @ join_with [CHR 0x0A, CHR 0x0A] raws"
    and nomore: "raws = [] \<Longrightarrow> rest = []"
    using Cons.prems by (cases raws) auto
  obtain b where b: "drop (leadingSpaceLen raw) raw = ?p @ b" using trimmed_at by blast
  have lead: "leadingSpaceLen raw \<le> length raw" by (simp add: leadingSpaceLen_def)
  have fits: "leadingSpaceLen raw + length ?p \<le> length raw"
    using arg_cong [OF b, of length] lead by simp
  have at: "drop ?start txt = ?p @ b @ rest"
    using para b lead by (metis append_assoc add.commute drop_append drop_drop diff_is_0_eq drop0)
  define here where "here = (if ?p = [] then Some [] else if length ?p \<le> mx then Some [chunk_at ?p (base + ?start)]
      else map_option (offset_pieces txt base ?start) (splitOversize mx ?p))"
  have "\<exists>cs. here = Some cs \<and> placed txt base pos cs (pos + length raw)
      \<and> (if ?p = [] then Some [] else if length ?p \<le> mx then Some [?p] else splitOversize mx ?p) = Some (map sc_body cs)"
  proof (cases "length ?p \<le> mx")
    case True
    then show ?thesis
      using placed_single [OF at, of pos "pos + length raw" base] fits
      by (cases "?p = []") (simp_all add: here_def chunk_at_def)
  next
    case False
    then obtain ps where ps: "splitOversize mx ?p = Some ps" "weave ?p ps"
      using splitOversize_ok [OF assms(1)] by blast
    have "drop ?start txt = [] @ ?p @ (b @ rest)" using at by simp
    from offset_pieces_placed [OF ps(2) this, of base] show ?thesis
      using False ps(1) fits
        placed_lower [of "txt" "base" "?start" "offset_pieces txt base ?start ps" "pos + length raw" "pos"]
        placed_upper [of "txt" "base" "?start" "offset_pieces txt base ?start ps" "?start + length ?p" "pos + length raw"]
      by (auto simp: here_def)
  qed
  then obtain cs where cs: "here = Some cs" "placed txt base pos cs (pos + length raw)"
    "(if ?p = [] then Some [] else if length ?p \<le> mx then Some [?p] else splitOversize mx ?p) = Some (map sc_body cs)"
    by blast
  show ?case
  proof (cases "raws = []")
    case True
    then show ?thesis using cs para nomore by (simp add: here_def)
  next
    case False
    have follow: "drop ?next txt = join_with [CHR 0x0A, CHR 0x0A] raws"
      using para more [OF False] by (metis add.commute append_eq_conv_conj drop_drop length_Cons list.size(3) Suc_1 One_nat_def)
    have len: "?next + length (drop ?next txt) = pos + length (drop pos txt)"
      unfolding follow para more [OF False] by simp
    obtain ds where "offset_paras txt mx base ?next raws = Some ds" "chunk_paras mx raws = Some (map sc_body ds)"
      "placed txt base ?next ds (?next + length (drop ?next txt))"
      using Cons.IH [OF follow] by blast
    moreover have "placed txt base pos cs ?next" using placed_upper [OF cs(2)] by simp
    ultimately have "offset_paras txt mx base ?next raws = Some ds" "chunk_paras mx raws = Some (map sc_body ds)"
      "placed txt base pos (cs @ ds) (pos + length (drop pos txt))"
      using len placed_append by metis+
    then show ?thesis using cs(1,3) by (simp add: here_def Let_def)
  qed
qed

lemma chunkTextOffsets_placed:
  assumes "0 < mx"
  shows "\<exists>cs. chunkTextOffsets txt mx base = Some cs
    \<and> chunkText txt mx = Some (map sc_body cs) \<and> placed txt base 0 cs (length txt)"
  using offset_paras_placed [OF assms, of 0 "txt" "split_sub [CHR 0x0A, CHR 0x0A] txt" base]
    split_sub_join [of "[CHR 0x0A, CHR 0x0A]" "txt"]
  by (simp add: chunkTextOffsets_def chunkText_def)

lemma placed_within:
  "drop base full = txt @ rest \<Longrightarrow> placed txt base lo cs hi \<Longrightarrow> placed full 0 (base + lo) cs (base + hi)"
proof (induction cs arbitrary: lo)
  case (Cons c cs)
  let ?k = "sc_start c - base" and ?n = "length (sc_body c)"
  have start: "sc_start c = base + ?k" "sc_end c = base + (sc_end c - base)" using Cons.prems(2) by auto
  have body: "take ?n (drop ?k txt) = sc_body c" using Cons.prems(2) by simp
  have "length (take ?n (drop ?k txt)) = ?n" unfolding body ..
  then have "?n \<le> length (drop ?k txt)" by simp
  moreover have "drop (sc_start c) full = drop ?k (txt @ rest)"
    using Cons.prems(1) start(1) by (metis add.commute drop_drop)
  ultimately have "take ?n (drop (sc_start c) full) = sc_body c" using body by simp
  moreover have "placed txt base (sc_end c - base) cs hi" using Cons.prems(2) unfolding placed.simps by (elim conjE)
  then have "placed full 0 (sc_end c) cs (base + hi)"
    using Cons.IH [OF Cons.prems(1)] start(2) by metis
  ultimately show ?case using Cons.prems(2) by (simp only: placed.simps) simp
qed simp

text \<open>Every chunk of a section is a chunk the text-only cutting makes of it.\<close>

definition section_bodies :: "nat \<Rightarrow> doc_section list \<Rightarrow> string list" where
  "section_bodies mx secs = concat (map (\<lambda>sec. the (chunkText (sec_text sec) mx)) secs)"

lemma document_chunks_placed:
  assumes "0 < mx" "drop base full = full_text secs"
  shows "\<exists>cs. document_chunks mx i base secs = Some cs
    \<and> map sc_body cs = section_bodies mx secs \<and> placed full 0 base cs (base + length (full_text secs))
    \<and> (\<forall>c \<in> set cs. i \<le> sc_section c \<and> sc_section c < i + length secs)"
  using assms(2)
proof (induction secs arbitrary: i base)
  case Nil
  then show ?case by (simp add: section_bodies_def)
next
  case (Cons sec secs)
  let ?t = "sec_text sec" and ?next = "base + (length (sec_text sec) + 2)"
  obtain rest where full: "drop base full = ?t @ rest"
    and more: "secs \<noteq> [] \<Longrightarrow> rest = [CHR 0x0A, CHR 0x0A] @ full_text secs"
    using Cons.prems by (cases secs) (auto simp: full_text_def)
  obtain cs where cs: "chunkTextOffsets ?t mx base = Some cs" "chunkText ?t mx = Some (map sc_body cs)"
    "placed ?t base 0 cs (length ?t)"
    using chunkTextOffsets_placed [OF assms(1)] by blast
  have first: "placed full 0 base (map (\<lambda>c. c\<lparr>sc_section := i\<rparr>) cs) (base + length ?t)"
    using placed_within [OF full cs(3)] by (simp add: placed_section)
  show ?case
  proof (cases "secs = []")
    case True
    then show ?thesis using cs(1,2) first by (auto simp: full_text_def section_bodies_def comp_def)
  next
    case False
    have follow: "drop ?next full = full_text secs"
    proof -
      have "drop ?next full = drop (length ?t + 2) (drop base full)" by (simp add: add.commute)
      then show ?thesis using full more [OF False] by simp
    qed
    have len: "?next + length (full_text secs) = base + length (full_text (sec # secs))"
      using False by (cases secs) (auto simp: full_text_def)
    obtain ds where ds: "document_chunks mx (Suc i) ?next secs = Some ds"
      "map sc_body ds = section_bodies mx secs" "placed full 0 ?next ds (?next + length (full_text secs))"
      "\<forall>c \<in> set ds. Suc i \<le> sc_section c \<and> sc_section c < Suc i + length secs"
      using Cons.IH [OF follow, of "Suc i"] by blast
    have "placed full 0 base (map (\<lambda>c. c\<lparr>sc_section := i\<rparr>) cs @ ds) (base + length (full_text (sec # secs)))"
      using placed_append [OF placed_upper [OF first] ds(3) [unfolded len]] by simp
    then show ?thesis using cs(1,2) ds(1,2,4) by (auto simp: section_bodies_def comp_def)
  qed
qed

text \<open>C20: the byte ranges of a document's chunks are exact.  For every positive bound the cutting ends; the
  chunks are, section by section, those the text-only cutting makes; in the assembled text they lie in order
  without overlap, and the bytes each range names are the body of its chunk, which names a section that exists.\<close>

theorem document_chunks_exact:
  assumes "0 < mx"
  shows "\<exists>cs. document_chunks mx 0 0 secs = Some cs \<and> map sc_body cs = section_bodies mx secs
    \<and> placed (full_text secs) 0 0 cs (length (full_text secs))
    \<and> (\<forall>c \<in> set cs. sc_section c < length secs)"
  using document_chunks_placed [OF assms, of 0 "full_text secs" secs 0] by auto

definition demo_sections :: "doc_section list" where
  "demo_sections = [\<lparr>sec_name = ''a'', sec_page = 1, sec_text = ''one two. three''\<rparr>]"

theorem document_chunks_exact_witness:
  "\<exists>cs. document_chunks (chunkMax 5) 0 0 demo_sections = Some cs
    \<and> map sc_body cs = section_bodies (chunkMax 5) demo_sections
    \<and> placed (full_text demo_sections) 0 0 cs (length (full_text demo_sections))
    \<and> (\<forall>c \<in> set cs. sc_section c < length demo_sections)"
  by (rule document_chunks_exact) (simp add: chunkMax_def)

section \<open>The preview and the write\<close>

definition source_setting :: "mem_env \<Rightarrow> (nat \<Rightarrow> clock) \<Rightarrow> string \<Rightarrow> bool" where
  "source_setting env tick ns \<longleftrightarrow> collision_free env \<and> (\<forall>k. tick k 0 < tick (Suc k) 0)
     \<and> (defenseMode env ns = ''redact'' \<longrightarrow> (\<forall>b. fst (Scrub env (fst (Scrub env b))) = fst (Scrub env b)))"

text \<open>A body that the loop lets through is stored by \<open>Write\<close> as it is.\<close>

lemma defend_again:
  assumes "source_setting env tick ns" "mode = defenseMode env ns"
    and "\<not> blocks_body env mode (scrub_meta env mode b)"
  shows "\<exists>ls fs. defend env ns (scrub_meta env mode b) = Inr (scrub_meta env mode b, ls, fs)"
proof (cases "mode = ''redact''")
  case True
  have "fst (Scrub env x) = fst (ScrubAudited env x)" for x by (simp add: Scrub_def case_prod_beta)
  then have "fst (ScrubAudited env (fst (Scrub env b))) = fst (Scrub env b)"
    using True assms(1,2) by (metis source_setting_def)
  then show ?thesis
    using True assms(2) by (cases "ScrubAudited env (fst (Scrub env b))")
      (simp add: defend_def scrub_meta_def)
next
  case False
  then show ?thesis
    using assms(2,3) by (auto simp: defend_def scrub_meta_def blocks_body_def Scrub_def split: prod.splits)
qed

text \<open>A map after the chunks of a list were written to it.\<close>

primrec applied :: "preview_chunk list \<Rightarrow> (string \<Rightarrow> string option) \<Rightarrow> string \<Rightarrow> string option" where
  "applied [] f = f"
| "applied (c # cs) f = applied cs (f(pc_key c \<mapsto> pc_body c))"

lemma preview_loop_writer:
  "preview_loop env sha (job\<lparr>jb_writer := w\<rparr>) i cs byKey occ p = preview_loop env sha job i cs byKey occ p"
  by (induction cs arbitrary: i byKey occ p)
    (simp_all add: Let_def is_foreign_def preview_chunk_of_def)

lemma source_write:
  assumes setting: "source_setting env tick ns" "jb_ns job = ns" "jb_mode job = defenseMode env ns"
    and "store_ok env (tick k 0) m" "\<not> blocks_body env (jb_mode job) body" "body = scrub_meta env (jb_mode job) b"
    and "Write env (tick k) fid (source_input job i c n key body) m = (Inr f, m')"
  shows "store_ok env (tick (Suc k) 0) m' \<and> live_body later ns m' = (live_body later ns m)(key \<mapsto> body)
    \<and> (\<forall>ns'. ns' \<noteq> ns \<longrightarrow> live_body later ns' m' = live_body later ns' m)"
proof -
  obtain ls fs where "defend env (wi_ns (source_input job i c n key body)) (wi_body (source_input job i c n key body))
      = Inr (body, ls, fs)"
    using defend_again [OF setting(1) setting(3), of b] assms by (auto simp: source_input_def)
  moreover have "collision_free env" "tick k 0 < tick (Suc k) 0" using setting(1) by (auto simp: source_setting_def)
  ultimately show ?thesis
    using Write_put [where now = "tick k" and T = "tick (Suc k) 0", OF assms(4) _ _ _ _ assms(7) [unfolded Write_def]] setting(2)
    by (simp add: source_input_def)
qed

lemma loops_agree:
  assumes setting: "source_setting env tick ns" "jb_ns job = ns" "jb_mode job = defenseMode env ns"
    and "store_ok env (tick (Suc i) 0) m"
    and "source_loop env sha tick fids job i cs byKey occ (w, u, r, b) m = (Inr (rest, counts), m')"
  shows "\<exists>p' new. preview_loop env sha job i cs byKey occ p = (rest, p') \<and> dp_changed p' = dp_changed p @ new
    \<and> counts = (w + length new, u + (dp_unchanged p' - dp_unchanged p), r, b + (dp_blocked p' - dp_blocked p))
    \<and> dp_unchanged p \<le> dp_unchanged p' \<and> dp_blocked p \<le> dp_blocked p'
    \<and> store_ok env (tick (Suc (i + length cs)) 0) m'
    \<and> live_body later ns m' = applied new (live_body later ns m)
    \<and> (\<forall>ns'. ns' \<noteq> ns \<longrightarrow> live_body later ns' m' = live_body later ns' m)"
  using assms(4-)
proof (induction cs arbitrary: i byKey occ w u r b m p)
  case Nil
  then show ?case by auto
next
  case (Cons c cs)
  define body where "body = scrub_meta env (jb_mode job) (sc_body c)"
  define n where "n = Suc (count_of occ body)"
  define occ' where "occ' = AList.update body n occ"
  define key where "key = chunkIDKey sha (jb_prefix job) (sourceOwner (jb_source job)) body n"
  define byKey' where "byKey' = AList.delete key byKey"
  note names = body_def [symmetric] n_def [symmetric] occ'_def [symmetric] key_def [symmetric] byKey'_def [symmetric]
  have run: "source_loop env sha tick fids job i (c # cs) byKey occ (w, u, r, b) m = (Inr (rest, counts), m')"
    by (rule Cons.prems(2))
  have ok: "store_ok env (tick (Suc (Suc i)) 0) m"
    using store_ok_mono [OF Cons.prems(1)] setting(1) by (simp add: source_setting_def less_imp_le)
  have skip: ?case
    if step: "preview_loop env sha job i (c # cs) byKey occ p = preview_loop env sha job (Suc i) cs bk occ' p2"
      and loop: "source_loop env sha tick fids job (Suc i) cs bk occ' (w, u2, r, b2) m = (Inr (rest, counts), m')"
      and same: "dp_changed p2 = dp_changed p" "dp_unchanged p2 = dp_unchanged p + (u2 - u)"
        "dp_blocked p2 = dp_blocked p + (b2 - b)" "u \<le> u2" "b \<le> b2" for bk p2 u2 b2
  proof -
    obtain p' new where tail: "preview_loop env sha job (Suc i) cs bk occ' p2 = (rest, p')"
      "dp_changed p' = dp_changed p2 @ new"
      "counts = (w + length new, u2 + (dp_unchanged p' - dp_unchanged p2), r, b2 + (dp_blocked p' - dp_blocked p2))"
      "dp_unchanged p2 \<le> dp_unchanged p'" "dp_blocked p2 \<le> dp_blocked p'"
      "store_ok env (tick (Suc (Suc i + length cs)) 0) m'"
      "live_body later ns m' = applied new (live_body later ns m)"
      "\<forall>ns'. ns' \<noteq> ns \<longrightarrow> live_body later ns' m' = live_body later ns' m"
      using Cons.IH [OF ok loop, of p2] by blast
    have "preview_loop env sha job i (c # cs) byKey occ p = (rest, p')" using tail(1) step by (rule trans [rotated])
    moreover have "dp_changed p' = dp_changed p @ new"
      "counts = (w + length new, u + (dp_unchanged p' - dp_unchanged p), r, b + (dp_blocked p' - dp_blocked p))"
      "dp_unchanged p \<le> dp_unchanged p'" "dp_blocked p \<le> dp_blocked p'"
      "store_ok env (tick (Suc (i + length (c # cs))) 0) m'"
      using tail(2-6) same by auto
    ultimately show ?thesis using tail(7,8) by blast
  qed
  consider (blocked) "blocks_body env (jb_mode job) body"
    | (kept) "\<not> blocks_body env (jb_mode job) body" "body_at byKey key = body"
    | (alien) "\<not> blocks_body env (jb_mode job) body" "body_at byKey key \<noteq> body" "is_foreign job byKey key"
    | (stored) "\<not> blocks_body env (jb_mode job) body" "body_at byKey key \<noteq> body" "\<not> is_foreign job byKey key"
    by blast
  then show ?case
  proof cases
    case blocked
    show ?thesis
      by (rule skip [of byKey' "p\<lparr>dp_blocked := Suc (dp_blocked p)\<rparr>" u "Suc b"])
        (use run blocked in \<open>simp_all add: Let_def names\<close>)
  next
    case kept
    show ?thesis
      by (rule skip [of byKey' "p\<lparr>dp_unchanged := Suc (dp_unchanged p)\<rparr>" "Suc u" b])
        (use run kept in \<open>simp_all add: Let_def names\<close>)
  next
    case alien
    show ?thesis
      by (rule skip [of byKey "p\<lparr>dp_blocked := Suc (dp_blocked p)\<rparr>" u "Suc b"])
        (use run alien in \<open>simp_all add: Let_def names\<close>)
  next
    case stored
    then obtain f m1 where wr: "Write env (tick (Suc i)) (fids (Suc i)) (source_input job i c n key body) m = (Inr f, m1)"
      and rest: "source_loop env sha tick fids job (Suc i) cs byKey' occ' (Suc w, u, r, b) m1 = (Inr (rest, counts), m')"
      using run by (auto simp: Let_def names split: prod.splits sum.splits)
    note put = source_write [OF setting Cons.prems(1) stored(1) body_def wr, of later]
    have ok1: "store_ok env (tick (Suc (Suc i)) 0) m1" using put by blast
    let ?new = "preview_chunk_of job i c key body"
    have new: "pc_key ?new = key" "pc_body ?new = body" by (simp_all add: preview_chunk_of_def Let_def)
    obtain p' more_new where tail: "preview_loop env sha job (Suc i) cs byKey' occ' (p\<lparr>dp_changed := dp_changed p @ [?new]\<rparr>) = (rest, p')"
      "dp_changed p' = (dp_changed p @ [?new]) @ more_new"
      "counts = (Suc w + length more_new, u + (dp_unchanged p' - dp_unchanged p), r, b + (dp_blocked p' - dp_blocked p))"
      "dp_unchanged p \<le> dp_unchanged p'" "dp_blocked p \<le> dp_blocked p'"
      "store_ok env (tick (Suc (Suc i + length cs)) 0) m'"
      "live_body later ns m' = applied more_new (live_body later ns m1)"
      "\<forall>ns'. ns' \<noteq> ns \<longrightarrow> live_body later ns' m' = live_body later ns' m1"
      using Cons.IH [OF ok1 rest, of "p\<lparr>dp_changed := dp_changed p @ [?new]\<rparr>"] by auto
    have "preview_loop env sha job i (c # cs) byKey occ p = (rest, p')"
      using tail(1) stored by (simp add: Let_def names)
    moreover have "live_body later ns m' = applied (?new # more_new) (live_body later ns m)"
      using tail(7) put new by simp
    moreover have "dp_changed p' = dp_changed p @ (?new # more_new)"
      "counts = (w + length (?new # more_new), u + (dp_unchanged p' - dp_unchanged p), r, b + (dp_blocked p' - dp_blocked p))"
      "store_ok env (tick (Suc (i + length (c # cs))) 0) m'"
      "\<forall>ns'. ns' \<noteq> ns \<longrightarrow> live_body later ns' m' = live_body later ns' m"
      using tail(2,3,6,8) put by simp_all
    ultimately show ?thesis using tail(4,5) by blast
  qed
qed

lemma queryLiveByKeys_plain:
  "plain_facts env T (mm_facts m) \<Longrightarrow> queryLiveByKeys t ns ks m = queryLiveByKeys t' ns ks m"
  unfolding queryLiveByKeys_def latest_live_def
  using plain_unexpired by (auto intro!: arg_cong [of _ _ "sort_key fa_key"] filter_cong)

lemma liveChunkFacts_plain:
  assumes "store_ok env T m"
  shows "liveChunkFacts now ns prefix m = liveChunkFacts now' ns prefix m"
proof -
  have "queryLiveByKeys t ns ks m = queryLiveByKeys t' ns ks m" for t t' ks
    using queryLiveByKeys_plain assms unfolding store_ok_def by blast
  then have "(\<lambda>(i, ks). queryLiveByKeys (now i) ns ks m) = (\<lambda>(i, ks). queryLiveByKeys (now' i) ns ks m)"
    by (intro ext) (auto split: prod.splits)
  then show ?thesis unfolding liveChunkFacts_def by simp
qed

lemma source_job_of_writer:
  "source_job_of env sha ns prefix doc w existing = (source_job_of env sha ns prefix doc w' existing)\<lparr>jb_writer := w\<rparr>"
  by (simp add: source_job_of_def Let_def)

text \<open>What the preview promises of a write that ends in \<open>m'\<close> with \<open>counts\<close>.\<close>

definition preview_kept :: "instant \<Rightarrow> string \<Rightarrow> document_preview \<Rightarrow> memory \<Rightarrow> doc_counts \<Rightarrow> memory \<Rightarrow> bool" where
  "preview_kept later ns p m counts m' \<longleftrightarrow>
     counts = (length (dp_changed p), dp_unchanged p, length (dp_removed p), dp_blocked p)
     \<and> live_body later ns m' = (\<lambda>k. if k \<in> set (dp_removed p) then None
          else applied (dp_changed p) (live_body later ns m) k)"

lemma forget_loop_count:
  "forget_loop tick fids ns writer i ks (w, u, r, b) m = (Inr counts, m') \<Longrightarrow> counts = (w, u, r + length ks, b)"
proof (induction ks arbitrary: i r m)
  case (Cons k ks)
  then obtain m1 where "forget_loop tick fids ns writer (Suc i) ks (w, u, Suc r, b) m1 = (Inr counts, m')"
    by (auto split: prod.splits sum.splits)
  from Cons.IH [OF this] show ?case by simp
qed simp

lemma chunks_written_as_previewed:
  assumes setting: "source_setting env tick ns" and ok: "store_ok env (tick 1 0) m"
    and order: "\<And>ks. mset (order ks) = mset ks"
    and job: "jb_ns job = ns" "jb_mode job = defenseMode env ns"
    and start: "dp_changed p0 = []" "dp_unchanged p0 = 0" "dp_blocked p0 = 0"
    and run: "write_source_chunks env sha tick fids order job byKey cs m = (Inr counts, m')"
    and preview: "preview_loop env sha job 0 cs byKey [] p0 = (rest, p1)"
  shows "preview_kept later ns (p1\<lparr>dp_removed := sort (map fst rest)\<rparr>) m counts m'
    \<and> (\<forall>ns'. ns' \<noteq> ns \<longrightarrow> live_body later ns' m' = live_body later ns' m)"
proof -
  have advance: "\<forall>k. tick k 0 < tick (Suc k) 0" using setting by (simp add: source_setting_def)
  obtain rest' c1 m1 where loop: "source_loop env sha tick fids job 0 cs byKey [] (0, 0, 0, 0) m = (Inr (rest', c1), m1)"
    and del: "forget_loop tick fids (jb_ns job) (jb_writer job) (length cs) (order (map fst rest')) c1 m1 = (Inr counts, m')"
    using run by (auto simp: write_source_chunks_def split: prod.splits sum.splits)
  have ok0: "store_ok env (tick (Suc 0) 0) m" using ok by simp
  obtain p' new where written: "preview_loop env sha job 0 cs byKey [] p0 = (rest', p')"
    "dp_changed p' = new" "c1 = (length new, dp_unchanged p', 0, dp_blocked p')"
    "store_ok env (tick (Suc (length cs)) 0) m1"
    "live_body later ns m1 = applied new (live_body later ns m)"
    "\<forall>ns'. ns' \<noteq> ns \<longrightarrow> live_body later ns' m1 = live_body later ns' m"
    using loops_agree [OF setting job ok0 loop, of p0 later] start by auto
  have same: "rest' = rest" "p' = p1" using written(1) preview by simp_all
  have keys: "set (order (map fst rest)) = set (map fst rest)" "length (order (map fst rest)) = length (map fst rest)"
    using order mset_eq_setD mset_eq_length by blast+
  note gone = forget_loop_effect [OF advance written(4) del, of later, unfolded job(1) same]
  have "counts = (length new, dp_unchanged p1, length rest, dp_blocked p1)"
    using forget_loop_count [OF del [unfolded written(3)]] keys same by simp
  moreover have "live_body later ns m' = (\<lambda>k. if k \<in> set (map fst rest) then None
      else applied new (live_body later ns m) k)"
    using gone keys(1) unfolding written(5) by simp
  moreover have "\<forall>ns'. ns' \<noteq> ns \<longrightarrow> live_body later ns' m' = live_body later ns' m"
    using gone written(6) by metis
  ultimately show ?thesis
    using written(2) same by (simp add: preview_kept_def cong: if_cong)
qed

lemma preview_written:
  assumes setting: "source_setting env tick ns" and ok: "store_ok env (tick 1 0) m"
    and order: "\<And>ks. mset (order ks) = mset ks"
    and run: "WriteDocumentSource env sha tick fids order configured ns prefix doc writer m = Some (Inr counts, m')"
  shows "\<exists>p. PreviewDocumentSource env sha now configured ns prefix doc m = Some (Inr p)
    \<and> preview_kept later ns p m counts m'
    \<and> (\<forall>ns'. ns' \<noteq> ns \<longrightarrow> live_body later ns' m' = live_body later ns' m)"
proof -
  define existing where "existing = liveChunkFacts (tick 0) ns prefix m"
  have snapshot: "liveChunkSnapshot now ns prefix m = existing"
    using liveChunkFacts_plain [OF ok] by (simp add: existing_def liveChunkSnapshot_def)
  define job where "job = source_job_of env sha ns prefix doc writer existing"
  have job': "source_job_of env sha ns prefix doc [] existing = job\<lparr>jb_writer := []\<rparr>"
    unfolding job_def by (rule source_job_of_writer)
  obtain key cs where valid: "ValidateKey prefix = Inr key"
    and cs: "document_chunks (chunkMax configured) 0 0 (sd_sections doc) = Some cs"
    using run by (auto simp: WriteDocumentSource_def split: sum.splits)
  show ?thesis
  proof (cases "meta_sensitive env (defenseMode env ns) doc")
    case True
    then show ?thesis
      using run valid cs by (simp add: WriteDocumentSource_def PreviewDocumentSource_def preview_kept_def)
  next
    case False
    define p0 where "p0 = \<lparr>dp_hash = sha (full_text (sd_sections doc)), dp_chunks = length cs, dp_changed = [],
       dp_unchanged = 0, dp_removed = [], dp_blocked = 0, dp_meta_blocked = False\<rparr>"
    obtain rest p1 where preview: "preview_loop env sha job 0 cs (owned_bodies (sourceOwner (jb_source job)) existing) [] p0
        = (rest, p1)" by fastforce
    have "write_source_chunks env sha tick fids order job (owned_bodies (sourceOwner (jb_source job)) existing) cs m
        = (Inr counts, m')"
      using run valid cs False by (simp add: WriteDocumentSource_def Let_def existing_def job_def)
    moreover have "jb_ns job = ns" "jb_mode job = defenseMode env ns"
      by (simp_all add: job_def source_job_of_def Let_def)
    ultimately have "preview_kept later ns (p1\<lparr>dp_removed := sort (map fst rest)\<rparr>) m counts m'
        \<and> (\<forall>ns'. ns' \<noteq> ns \<longrightarrow> live_body later ns' m' = live_body later ns' m)"
      by (intro chunks_written_as_previewed [OF setting ok order _ _ _ _ _ _ preview]) (simp_all add: p0_def)
    moreover have "PreviewDocumentSource env sha now configured ns prefix doc m
        = Some (Inr (p1\<lparr>dp_removed := sort (map fst rest)\<rparr>))"
      using valid cs False preview
      by (simp add: PreviewDocumentSource_def Let_def snapshot job' preview_loop_writer p0_def)
    ultimately show ?thesis by blast
  qed
qed

text \<open>C14: the preview of a document is what writing it does.  When the write succeeds, the preview made
  before it counted the chunks to write, to keep, to remove and to block exactly, and afterwards the
  namespace reads as before except that the changed chunks the preview listed are in it and the keys it
  listed as removed are not; no other namespace changes.\<close>

theorem preview_is_the_write:
  assumes "source_setting env tick ns" "store_ok env (tick 1 0) m" "\<And>ks. mset (order ks) = mset ks"
    and "WriteDocumentSource env sha tick fids order configured ns prefix doc writer m = Some (Inr counts, m')"
  shows "\<exists>p. PreviewDocumentSource env sha now configured ns prefix doc m = Some (Inr p)
    \<and> preview_kept later ns p m counts m'
    \<and> (\<forall>ns'. ns' \<noteq> ns \<longrightarrow> live_body later ns' m' = live_body later ns' m)"
  by (rule preview_written [OF assms])

section \<open>Foreign facts\<close>

lemma preview_loop_keys:
  assumes "preview_loop env sha job i cs byKey occ p = (rest, p')"
  shows "set (map fst rest) \<subseteq> set (map fst byKey)
    \<and> (\<forall>c \<in> set (dp_changed p') - set (dp_changed p). (pc_key c \<notin> jb_occupied job \<or> pc_key c \<in> set (map fst byKey))
         \<and> (\<exists>tail. pc_key c = jb_prefix job @ ''/chunk-'' @ tail))"
  using assms
proof (induction cs arbitrary: i byKey occ p)
  case (Cons c cs)
  define body where "body = scrub_meta env (jb_mode job) (sc_body c)"
  define n where "n = Suc (count_of occ body)"
  define occ' where "occ' = AList.update body n occ"
  define key where "key = chunkIDKey sha (jb_prefix job) (sourceOwner (jb_source job)) body n"
  define byKey' where "byKey' = AList.delete key byKey"
  note names = body_def [symmetric] n_def [symmetric] occ'_def [symmetric] key_def [symmetric] byKey'_def [symmetric]
  have deleted: "set (map fst byKey') \<subseteq> set (map fst byKey)" by (auto simp: byKey'_def delete_keys_set)
  have shape: "\<exists>tail. key = jb_prefix job @ ''/chunk-'' @ tail"
    by (auto simp: key_def chunkIDKey_def)
  show ?case
  proof (cases "blocks_body env (jb_mode job) body \<or> body_at byKey key = body \<or> is_foreign job byKey key")
    case True
    then obtain bk p2 where "preview_loop env sha job (Suc i) cs bk occ' p2 = (rest, p')"
      "set (map fst bk) \<subseteq> set (map fst byKey)" "dp_changed p2 = dp_changed p"
      using Cons.prems deleted by (auto simp: Let_def names split: if_splits)
    from Cons.IH [OF this(1), unfolded this(3)] this(2) show ?thesis by (meson subset_trans subsetD)
  next
    case False
    let ?new = "preview_chunk_of job i c key body"
    have run: "preview_loop env sha job (Suc i) cs byKey' occ' (p\<lparr>dp_changed := dp_changed p @ [?new]\<rparr>) = (rest, p')"
      using Cons.prems False by (simp add: Let_def names)
    have "pc_key ?new = key" by (simp add: preview_chunk_of_def Let_def)
    moreover have "key \<notin> jb_occupied job \<or> key \<in> set (map fst byKey)"
      using False by (auto simp: is_foreign_def map_of_eq_None_iff)
    ultimately have this_one: "(pc_key ?new \<notin> jb_occupied job \<or> pc_key ?new \<in> set (map fst byKey))
        \<and> (\<exists>tail. pc_key ?new = jb_prefix job @ ''/chunk-'' @ tail)" using shape by simp
    note later = Cons.IH [OF run]
    have "c' = ?new \<or> c' \<in> set (dp_changed p') - set (dp_changed (p\<lparr>dp_changed := dp_changed p @ [?new]\<rparr>))"
      if "c' \<in> set (dp_changed p') - set (dp_changed p)" for c' using that by auto
    then show ?thesis using this_one later deleted by blast
  qed
qed simp

lemma applied_other: "k \<notin> pc_key ` set cs \<Longrightarrow> applied cs f k = f k"
  by (induction cs arbitrary: f) auto

lemma chunks_concat: "0 < n \<Longrightarrow> concat (chunks n xs) = xs"
proof (induction n xs rule: chunks.induct)
  case (1 n xs)
  have "chunks n [] = ([] :: 'a list list)" by (subst chunks.simps) simp
  then show ?case using 1 by (cases "xs = []") (simp_all add: chunks.simps [of n xs])
qed

text \<open>Every live fact whose key has the form of a chunk key is among those read.\<close>

lemma chunk_listed:
  assumes "store_ok env T m" "live_fact later ns m key = Some f" "has_prefix key (prefix @ ''/chunk-'')"
  shows "f \<in> set (liveChunkFacts now ns prefix m)"
proof -
  have m: "stamps_ok (mm_facts m)" "plain_facts env T (mm_facts m)" using assms(1) by (auto simp: store_ok_def)
  have f: "ns \<in> set (mm_namespaces m)" "is_live later ns key (mm_facts m) f"
    using live_fact_iff [OF m(1)] assms(2) by blast+
  have key: "fa_key f = key" using f(2) by (simp add: is_live_def of_key_def)
  have "key \<in> set (ListKeys ns (prefix @ ''/chunk-'') m)"
    using f key_like_prefix [OF assms(3), of m] by (auto simp: ListKeys_def is_live_def of_key_def)
  then have "key \<in> \<Union> (set ` set (chunks 500 (ListKeys ns (prefix @ ''/chunk-'') m)))"
    using chunks_concat [of 500] by (metis set_concat zero_less_numeral)
  then obtain ks where ks: "ks \<in> set (chunks 500 (ListKeys ns (prefix @ ''/chunk-'') m))" "key \<in> set ks" by blast
  obtain i where i: "i < length (chunks 500 (ListKeys ns (prefix @ ''/chunk-'') m))"
    "chunks 500 (ListKeys ns (prefix @ ''/chunk-'') m) ! i = ks"
    using ks(1) by (meson in_set_conv_nth)
  have "f \<in> set (queryLiveByKeys (now i) ns ks m)"
    using f key ks(2) plain_unexpired [OF m(2)]
    by (auto simp: queryLiveByKeys_def latest_live_def is_live_def of_key_def)
  moreover have "(i, ks) \<in> set (enumerate 0 (chunks 500 (ListKeys ns (prefix @ ''/chunk-'') m)))"
    using i by (auto simp: in_set_enumerate_eq)
  ultimately show ?thesis unfolding liveChunkFacts_def by fastforce
qed

lemma listed_live:
  assumes "store_ok env T m" "f \<in> set (liveChunkFacts now ns prefix m)"
  shows "live_fact later ns m (fa_key f) = Some f"
proof -
  have m: "stamps_ok (mm_facts m)" "plain_facts env T (mm_facts m)" using assms(1) by (auto simp: store_ok_def)
  obtain t ks where "f \<in> set (queryLiveByKeys t ns ks m)"
    using assms(2) unfolding liveChunkFacts_def by (fastforce split: prod.splits)
  then have "ns \<in> set (mm_namespaces m)" "is_live later ns (fa_key f) (mm_facts m) f"
    using plain_unexpired [OF m(2)]
    by (auto simp: queryLiveByKeys_def latest_live_def is_live_def of_key_def split: if_splits)
  then show ?thesis using live_fact_iff [OF m(1)] by blast
qed

lemma owned_bodies_keys: "set (map fst (owned_bodies owner fs)) = fa_key ` {f \<in> set fs. chunkOwner f = Some owner}"
proof -
  have "fst ` set (fold (\<lambda>f. if chunkOwner f = Some owner then AList.update (fa_key f) (fa_body f) else id) fs al)
      = fst ` set al \<union> fa_key ` {f \<in> set fs. chunkOwner f = Some owner}" for al
    by (induction fs arbitrary: al) (auto simp: dom_update)
  from this [of "[]"] show ?thesis by (simp add: owned_bodies_def)
qed

lemma preview_spares:
  assumes ok: "store_ok env T m" and f: "live_fact later ns m key = Some f"
    and alien: "chunkOwner f \<noteq> Some (sourceOwner (scrub_source env (defenseMode env ns) (sd_source doc)))"
    and preview: "PreviewDocumentSource env sha now configured ns prefix doc m = Some (Inr p)"
  shows "key \<notin> set (dp_removed p) \<and> key \<notin> pc_key ` set (dp_changed p)"
proof -
  define existing where "existing = liveChunkFacts now ns prefix m"
  define job where "job = source_job_of env sha ns prefix doc [] existing"
  define owned where "owned = owned_bodies (sourceOwner (jb_source job)) existing"
  obtain cs where cs: "document_chunks (chunkMax configured) 0 0 (sd_sections doc) = Some cs"
    using preview by (auto simp: PreviewDocumentSource_def split: sum.splits)
  show ?thesis
  proof (cases "meta_sensitive env (defenseMode env ns) doc")
    case True
    then show ?thesis
      using preview cs by (auto simp: PreviewDocumentSource_def Let_def split: sum.splits)
  next
    case False
    then obtain p0 rest p1 where p: "preview_loop env sha job 0 cs owned [] p0 = (rest, p1)" "dp_changed p0 = []"
      "dp_removed p = sort (map fst rest)" "dp_changed p = dp_changed p1"
      using preview cs
      by (auto simp: PreviewDocumentSource_def Let_def liveChunkSnapshot_def existing_def job_def owned_def
        split: sum.splits prod.splits)
    note keys = preview_loop_keys [OF p(1)]
    have owner: "jb_source job = scrub_source env (defenseMode env ns) (sd_source doc)" "jb_prefix job = prefix"
      "jb_occupied job = fa_key ` set existing"
      by (simp_all add: job_def source_job_of_def Let_def)
    have "key \<notin> set (map fst owned)"
    proof
      assume "key \<in> set (map fst owned)"
      then obtain g where g: "g \<in> set existing" "fa_key g = key" "chunkOwner g = Some (sourceOwner (jb_source job))"
        unfolding owned_def owned_bodies_keys by blast
      then have "g = f" using listed_live [OF ok, of g now ns prefix later] f by (simp add: existing_def)
      then show False using g(3) alien owner(1) by simp
    qed
    moreover have "key \<in> jb_occupied job" if "key = prefix @ ''/chunk-'' @ tail" for tail
    proof -
      have "has_prefix key (prefix @ ''/chunk-'')" using that by (simp add: has_prefix_append)
      moreover have "fa_key f = key" using f live_fact_iff ok by (auto simp: store_ok_def is_live_def of_key_def)
      ultimately show ?thesis using chunk_listed [OF ok f] owner(3) existing_def by (metis imageI)
    qed
    ultimately have "key \<notin> pc_key ` (set (dp_changed p1) - set (dp_changed p0))"
      using keys owner(2) by (metis (no_types, lifting) imageE)
    moreover have "key \<notin> set (map fst rest)"
      using keys \<open>key \<notin> set (map fst owned)\<close> by blast
    ultimately show ?thesis using p(2-4) by simp
  qed
qed

text \<open>C15: a source writes and removes only its own chunks.  A live fact whose provenance does not name the
  owner of the document, be it a fact written by a user under a chunk key, an older positional chunk or the
  chunk of another source, reads after a successful write as it did before.\<close>

theorem source_write_spares_others:
  assumes setting: "source_setting env tick ns" and ok: "store_ok env (tick 1 0) m"
    and order: "\<And>ks. mset (order ks) = mset ks"
    and run: "WriteDocumentSource env sha tick fids order configured ns prefix doc writer m = Some (Inr counts, m')"
    and f: "live_fact later ns m key = Some f"
    and alien: "chunkOwner f \<noteq> Some (sourceOwner (scrub_source env (defenseMode env ns) (sd_source doc)))"
  shows "live_body later ns m' key = Some (fa_body f)"
proof -
  obtain p where p: "PreviewDocumentSource env sha (tick 0) configured ns prefix doc m = Some (Inr p)"
    "preview_kept later ns p m counts m'"
    using preview_written [OF setting ok order run] by blast
  then have "live_body later ns m' key = live_body later ns m key"
    using preview_spares [OF ok f alien p(1)] by (simp add: preview_kept_def applied_other)
  then show ?thesis using f by (simp add: live_body_def)
qed

definition demo_sha :: "string \<Rightarrow> string" where "demo_sha s = replicate 64 CHR ''0''"

definition demo_sourced_doc :: source_document where
  "demo_sourced_doc = \<lparr>sd_source = \<lparr>ds_id = ''s'', ds_uri = [], ds_revision = [], ds_media = []\<rparr>,
     sd_sections = [\<lparr>sec_name = [], sec_page = 0, sec_text = ''new''\<rparr>]\<rparr>"

definition demo_user_fact :: fact where "demo_user_fact = demo_chunk ''1'' ''/d/chunk-mine''"

definition demo_user_store :: memory where "demo_user_store = demo_memory [demo_user_fact]"

lemma demo_source_setting: "source_setting demo_env demo_tick ''p''"
  by (simp add: source_setting_def collision_free_def demo_env_def demo_tick_def defenseMode_def)

lemma demo_user_ok: "store_ok demo_env (demo_tick 1 0) demo_user_store"
  by (simp add: store_ok_def plain_facts_def demo_user_store_def demo_user_fact_def demo_chunk_def demo_tick_def demo_store)

lemma demo_user_live: "live_fact 9 ''p'' demo_user_store ''/d/chunk-mine'' = Some demo_user_fact"
  using live_fact_iff [of demo_user_store 9 "''p''"] demo_user_ok
  by (simp add: store_ok_def is_live_def demo_user_store_def demo_user_fact_def demo_chunk_def demo_store is_latest_def
      unexpired_def of_key_def)

lemma demo_user_owner: "chunkOwner demo_user_fact = None"
  by (simp add: chunkOwner_def demo_user_fact_def demo_chunk_def demo_fact_def)

lemma demo_source_cut:
  "document_chunks (chunkMax 0) 0 0 (sd_sections demo_sourced_doc) = Some [chunk_at ''new'' 0]"
proof -
  have "length (trim_space ''new'') \<le> length (trim_left_space ''new'')"
    using trim_right_prefix [of "trim_left_space ''new''"] by (metis trim_space_def length_append le_add1)
  then have "leadingSpaceLen ''new'' = 0" by (simp add: leadingSpaceLen_def demo_trim)
  then show ?thesis
    by (simp add: demo_sourced_doc_def chunkTextOffsets_def split_sub.simps demo_trim chunkMax_def DefaultChunkMaxChars_def
        has_prefix_def chunk_at_def)
qed

lemma demo_source_run:
  "\<exists>counts m'. WriteDocumentSource demo_env demo_sha demo_tick demo_fids id 0 ''p'' ''/d'' demo_sourced_doc ''w'' demo_user_store
     = Some (Inr counts, m')"
proof -
  define existing where "existing = liveChunkFacts (demo_tick 0) ''p'' ''/d'' demo_user_store"
  define job where "job = source_job_of demo_env demo_sha ''p'' ''/d'' demo_sourced_doc ''w'' existing"
  define key where "key = ''/d/chunk-'' @ take 16 (demo_sha ''new'') @ ''-'' @ take 16 (demo_sha ''s'') @ ''-'' @ nat_str 1"
  have key: "key = ''/d/chunk-0000000000000000-0000000000000000-1''"
    unfolding key_def by code_simp
  have read: "f = demo_user_fact" if "f \<in> set existing" for f
  proof -
    have "f \<in> set (mm_facts demo_user_store)"
      using that listed_live [OF demo_user_ok] live_fact_iff [of demo_user_store] demo_user_ok
      unfolding existing_def store_ok_def is_live_def by blast
    then show ?thesis by (simp add: demo_user_store_def demo_memory_def)
  qed
  have owned: "owned_bodies owner existing = []" for owner
  proof -
    have "chunkOwner f \<noteq> Some owner" if "f \<in> set existing" for f
      using read [OF that] demo_user_owner by simp
    then have "set (map fst (owned_bodies owner existing)) = {}" unfolding owned_bodies_keys by blast
    then show ?thesis by simp
  qed
  have fields: "jb_ns job = ''p''" "jb_mode job = ''off''" "jb_prefix job = ''/d''" "jb_writer job = ''w''"
    "sourceOwner (jb_source job) = ''s''" "jb_occupied job = fa_key ` set existing"
    by (simp_all add: job_def source_job_of_def Let_def defenseMode_def demo_env_def scrub_source_def scrub_meta_def
        demo_sourced_doc_def sourceOwner_def)
  have "fa_key demo_user_fact = ''/d/chunk-mine''" by (simp add: demo_user_fact_def demo_chunk_def demo_fact_def)
  then have "fa_key ` set existing \<subseteq> {''/d/chunk-mine''}" using read by auto
  then have "key \<notin> fa_key ` set existing" by (auto simp: key)
  then have job: "key \<notin> jb_occupied job" unfolding fields .
  have "ValidateKey key = Inr ()" "ValidateKey ''/d'' = Inr ()" "name_ok ''p''"
    unfolding key by (simp_all add: ValidateKey_def has_prefix_def has_suffix_def contains_sub_def name_ok_def)
  then obtain f m1 where wr: "Write demo_env (demo_tick (Suc 0)) (demo_fids (Suc 0))
      (source_input job 0 (chunk_at ''new'' 0) 1 key ''new'') demo_user_store = (Inr f, m1)"
    using Write_succeeds [of "source_input job 0 (chunk_at ''new'' 0) 1 key ''new''" demo_env "''new''" "[]" "[]"
        "demo_fids (Suc 0)" demo_user_store "demo_tick (Suc 0)" True] fields
    by (auto simp: source_input_def defend_def defenseMode_def demo_env_def demo_fids_def Write_def demo_user_store_def
        demo_memory_def demo_user_fact_def demo_chunk_def demo_fact_def)
  have "source_loop demo_env demo_sha demo_tick demo_fids job 0 [chunk_at ''new'' 0] [] [] (0, 0, 0, 0) demo_user_store
      = (Inr ([], (1, 0, 0, 0)), m1)"
    using wr job fields by (simp add: Let_def chunk_at_def scrub_meta_def blocks_body_def body_at_def is_foreign_def count_of_def
        chunkIDKey_def key_def)
  then have "write_source_chunks demo_env demo_sha demo_tick demo_fids id job [] [chunk_at ''new'' 0] demo_user_store
      = (Inr (1, 0, 0, 0), m1)"
    unfolding write_source_chunks_def by simp
  moreover have "defenseMode demo_env ''p'' = ''off''" by (simp add: defenseMode_def demo_env_def)
  ultimately show ?thesis
    using \<open>ValidateKey ''/d'' = Inr ()\<close>
    by (simp del: One_nat_def add: WriteDocumentSource_def demo_source_cut existing_def [symmetric] job_def [symmetric]
        Let_def owned meta_sensitive_def)
qed

theorem preview_is_the_write_witness:
  "\<exists>counts m' p. WriteDocumentSource demo_env demo_sha demo_tick demo_fids id 0 ''p'' ''/d'' demo_sourced_doc ''w'' demo_user_store
     = Some (Inr counts, m')
   \<and> PreviewDocumentSource demo_env demo_sha (demo_tick 0) 0 ''p'' ''/d'' demo_sourced_doc demo_user_store = Some (Inr p)
   \<and> preview_kept 9 ''p'' p demo_user_store counts m'"
proof -
  obtain counts m' where run: "WriteDocumentSource demo_env demo_sha demo_tick demo_fids id 0 ''p'' ''/d'' demo_sourced_doc ''w''
      demo_user_store = Some (Inr counts, m')" using demo_source_run by blast
  show ?thesis
    using preview_is_the_write [OF demo_source_setting demo_user_ok _ run, of "demo_tick 0" 9] run by auto
qed

theorem source_write_spares_others_witness:
  "\<exists>counts m'. WriteDocumentSource demo_env demo_sha demo_tick demo_fids id 0 ''p'' ''/d'' demo_sourced_doc ''w'' demo_user_store
     = Some (Inr counts, m') \<and> live_body 9 ''p'' m' ''/d/chunk-mine'' = Some (fa_body demo_user_fact)"
proof -
  obtain counts m' where run: "WriteDocumentSource demo_env demo_sha demo_tick demo_fids id 0 ''p'' ''/d'' demo_sourced_doc ''w''
      demo_user_store = Some (Inr counts, m')" using demo_source_run by blast
  have "live_body 9 ''p'' m' ''/d/chunk-mine'' = Some (fa_body demo_user_fact)"
    using source_write_spares_others [OF demo_source_setting demo_user_ok _ run demo_user_live]
    by (simp add: demo_user_owner)
  then show ?thesis using run by blast
qed

end
