(* ===== verification/TaskBoard.thy ===== *)
theory TaskBoard
  imports Facts_Proofs Claims "HOL-Library.AList"
begin

text \<open>
  The task board: the \<open>/tasks\<close> convention over the fact store (\<open>internal/memory/tasks.go\<close>) and its join
  with work claims and members (\<open>internal/taskboard/board.go\<close>).  Text is compared byte by byte after
  \<open>to_lower\<close>, which is exact for the ASCII words searched here.
\<close>

section \<open>Reading a status\<close>

definition TaskStates :: "string list" where
  "TaskStates = [''pending'', ''in_progress'', ''review'', ''blocked'', ''done'']"

definition taskStateWords :: "string \<Rightarrow> string list" where
  "taskStateWords st = (if st = ''in_progress'' then [''in_progress'', ''in progress'', ''in-progress''] else [st])"

definition firstLine :: "string \<Rightarrow> string" where
  "firstLine s = trim_space (takeWhile (\<lambda>c. c \<noteq> CHR 0x0A) (trim_space s))"

definition cut :: "string \<Rightarrow> nat \<Rightarrow> string" where
  "cut s n = (if length s \<le> n then s else trim_space (take n s))"

text \<open>The runes \<open>unicode.IsSpace\<close> accepts.\<close>

definition is_space_rune :: "nat \<Rightarrow> bool" where
  "is_space_rune r \<longleftrightarrow> r \<in> {9, 10, 11, 12, 13, 32, 133, 160, 5760, 8232, 8233, 8239, 8287, 12288}
     \<or> in_range 8192 8202 r"

text \<open>What may follow a state word: nothing, one of the separators, or white space.\<close>

definition word_ends :: "string \<Rightarrow> bool" where
  "word_ends rest \<longleftrightarrow> rest = [] \<or>
     (case fst (decode_rune rest) of
        None \<Rightarrow> False
      | Some r \<Rightarrow> r \<in> {58, 40, 45, 46, 44, 8212, 8211} \<or> is_space_rune r)"

definition opens_with :: "string \<Rightarrow> string \<Rightarrow> bool" where
  "opens_with head w \<longleftrightarrow> (case cut_prefix head w of None \<Rightarrow> False | Some rest \<Rightarrow> word_ends rest)"

definition bodyTaskState :: "string \<Rightarrow> string" where
  "bodyTaskState head =
     (case find (\<lambda>st. list_ex (opens_with (to_lower head)) (taskStateWords st)) TaskStates of
        None \<Rightarrow> [] | Some st \<Rightarrow> st)"

definition ParseTaskState :: "string \<Rightarrow> attrs \<Rightarrow> string" where
  "ParseTaskState body ats =
     (let st = bodyTaskState (firstLine body) in
      if st \<noteq> [] then st
      else case map_of ats ''state'' of
          Some (JStr v) \<Rightarrow> if v \<in> set TaskStates then v else ''pending''
        | _ \<Rightarrow> ''pending'')"

definition RenderTaskStatus :: "string \<Rightarrow> string \<Rightarrow> string \<Rightarrow> string \<Rightarrow> string \<Rightarrow> string \<Rightarrow> string" where
  "RenderTaskStatus state summary sha tests phase deviation =
     state @ '':''
     @ (if state = ''done'' then
          (if sha \<noteq> [] then '' '' @ sha else []) @ '' '' @ summary
          @ (if tests \<noteq> [] then ''; tests: '' @ tests else [])
        else if state = ''in_progress'' then
          (if phase \<noteq> [] then '' '' @ phase else []) @ '' '' @ summary
        else '' '' @ summary)
     @ (if deviation \<noteq> [] then CHR 0x0A # ''deviation: '' @ deviation else [])"

text \<open>\<open>strings.FieldsFunc\<close> for separators that are single bytes.\<close>

fun fields_func :: "(char \<Rightarrow> bool) \<Rightarrow> string \<Rightarrow> string \<Rightarrow> string list" where
  "fields_func sep cur [] = (if cur = [] then [] else [rev cur])"
| "fields_func sep cur (c # s) =
     (if sep c then (if cur = [] then fields_func sep [] s else rev cur # fields_func sep [] s)
      else fields_func sep (c # cur) s)"

definition depends_line :: "string \<Rightarrow> string option" where
  "depends_line line =
     (let l = to_lower (trim_space line) in
      if has_prefix l ''depends_on:'' then Some (drop (length ''depends_on:'') (trim_space line))
      else if has_prefix l ''depends:'' then Some (drop (length ''depends:'') (trim_space line))
      else None)"

definition depends_ids :: "string \<Rightarrow> string list" where
  "depends_ids rest =
     filter (\<lambda>d. d \<noteq> [] \<and> d \<noteq> ''none'')
       (map trim_space (fields_func (\<lambda>c. c \<in> {CHR '','', CHR '' '', CHR '';''}) [] rest))"

fun depends_body :: "string list \<Rightarrow> string list" where
  "depends_body [] = []"
| "depends_body (line # rest) =
     (case depends_line line of Some ids \<Rightarrow> depends_ids ids | None \<Rightarrow> depends_body rest)"

definition parseDepends :: "string \<Rightarrow> attrs \<Rightarrow> string list" where
  "parseDepends body ats =
     (case map_of ats ''depends_on'' of
        Some (JArr vs) \<Rightarrow> concat (map (\<lambda>v. case v of JStr d \<Rightarrow> if d \<noteq> [] then [d] else [] | _ \<Rightarrow> []) vs)
      | _ \<Rightarrow> depends_body (split_byte (CHR 0x0A) body))"

section \<open>Counting and listing\<close>

record task_counts =
  tc_total :: nat
  tc_done :: nat
  tc_blocked :: nat
  tc_pending :: nat

definition task_parts :: "string \<Rightarrow> string list" where
  "task_parts key = split_byte (CHR ''/'') (trim_prefix key ''/tasks/'')"

definition task_key :: "string \<Rightarrow> string option" where
  "task_key key = (case task_parts key of [tid] \<Rightarrow> if tid \<noteq> [] then Some tid else None | _ \<Rightarrow> None)"

definition status_key :: "string \<Rightarrow> string option" where
  "status_key key = (case task_parts key of [tid, s] \<Rightarrow> if s = ''status'' then Some tid else None | _ \<Rightarrow> None)"

text \<open>\<open>substr(body, 1, n)\<close> counts characters.\<close>

fun take_runes :: "nat \<Rightarrow> string \<Rightarrow> string" where
  "take_runes 0 s = []"
| "take_runes (Suc n) s =
     (if s = [] then [] else take (snd (decode_rune s)) s @ take_runes n (drop (snd (decode_rune s)) s))"

definition TaskCounts :: "string \<Rightarrow> memory \<Rightarrow> task_counts" where
  "TaskCounts ns m =
     (if ns \<notin> set (mm_namespaces m) then \<lparr>tc_total = 0, tc_done = 0, tc_blocked = 0, tc_pending = 0\<rparr>
      else let rows = filter (\<lambda>f. fa_ns f = ns \<and> key_like m ''/tasks/'' (fa_key f) \<and> is_latest (mm_facts m) f
                 \<and> fa_action f \<noteq> ''tombstone'') (mm_facts m);
               total = length (filter (\<lambda>f. task_key (fa_key f) \<noteq> None) rows);
               states = map (\<lambda>f. bodyTaskState (firstLine (take_runes 40 (fa_body f))))
                 (filter (\<lambda>f. status_key (fa_key f) \<noteq> None) rows);
               finished = length (filter (\<lambda>s. s = ''done'') states);
               blocked = length (filter (\<lambda>s. s = ''blocked'') states)
           in \<lparr>tc_total = total, tc_done = finished, tc_blocked = blocked,
               tc_pending = total - finished - blocked\<rparr>)"

record task_row =
  tr_id :: string
  tr_title :: string
  tr_state :: string
  tr_status :: string
  tr_depends :: "string list"
  tr_updated :: "instant option"
  tr_by :: string

definition new_row :: "string \<Rightarrow> task_row" where
  "new_row tid = \<lparr>tr_id = tid, tr_title = [], tr_state = ''pending'', tr_status = [], tr_depends = [],
     tr_updated = None, tr_by = []\<rparr>"

definition taskFactLimit :: nat where "taskFactLimit = 20000"

text \<open>The zero time, before every fact, is \<open>None\<close>.\<close>

definition stamp_row :: "fact \<Rightarrow> task_row \<Rightarrow> task_row" where
  "stamp_row f r =
     (if (case tr_updated r of None \<Rightarrow> True | Some t \<Rightarrow> fa_created f > t)
      then r\<lparr>tr_updated := Some (fa_created f), tr_by := fa_writer f\<rparr> else r)"

definition with_row :: "string \<Rightarrow> (task_row \<Rightarrow> task_row) \<Rightarrow> (string \<times> task_row) list \<Rightarrow> (string \<times> task_row) list" where
  "with_row tid u rows =
     AList.update tid (u (case map_of rows tid of None \<Rightarrow> new_row tid | Some r \<Rightarrow> r)) rows"

definition row_of_fact :: "fact \<Rightarrow> (string \<times> task_row) list \<Rightarrow> (string \<times> task_row) list" where
  "row_of_fact f rows =
     (case task_key (fa_key f) of
        Some tid \<Rightarrow> with_row tid (\<lambda>r. stamp_row f
          (r\<lparr>tr_title := cut (firstLine (fa_body f)) 120, tr_depends := parseDepends (fa_body f) (fa_attrs f)\<rparr>)) rows
      | None \<Rightarrow>
          (case status_key (fa_key f) of
             Some tid \<Rightarrow> with_row tid (\<lambda>r. stamp_row f
               (r\<lparr>tr_state := ParseTaskState (fa_body f) (fa_attrs f), tr_status := cut (firstLine (fa_body f)) 300\<rparr>)) rows
           | None \<Rightarrow> rows))"

definition ListTasks :: "instant \<Rightarrow> string \<Rightarrow> memory \<Rightarrow> task_row list" where
  "ListTasks now ns m =
     sort_key tr_id (map snd (fold row_of_fact (recallPrefixRange now ns ''/tasks/'' taskFactLimit m) []))"

section \<open>The board\<close>

record board_task =
  bt_row :: task_row
  bt_holder :: string
  bt_lease :: "instant option"
  bt_ready :: bool

record board_counts =
  bc_total :: nat
  bc_pending :: nat
  bc_in_progress :: nat
  bc_review :: nat
  bc_blocked :: nat
  bc_done :: nat

record board =
  bo_ns :: string
  bo_next :: string
  bo_counts :: board_counts
  bo_tasks :: "board_task list"
  bo_members :: "member list"

definition count_state :: "string \<Rightarrow> board_counts \<Rightarrow> board_counts" where
  "count_state st c =
     (let c = c\<lparr>bc_total := Suc (bc_total c)\<rparr> in
      if st = ''in_progress'' then c\<lparr>bc_in_progress := Suc (bc_in_progress c)\<rparr>
      else if st = ''review'' then c\<lparr>bc_review := Suc (bc_review c)\<rparr>
      else if st = ''blocked'' then c\<lparr>bc_blocked := Suc (bc_blocked c)\<rparr>
      else if st = ''done'' then c\<lparr>bc_done := Suc (bc_done c)\<rparr>
      else c\<lparr>bc_pending := Suc (bc_pending c)\<rparr>)"

definition board_key :: "string \<Rightarrow> string" where
  "board_key tid = ''/tasks/'' @ tid"

definition board_task_of :: "(string \<times> claim) list \<Rightarrow> string set \<Rightarrow> task_row \<Rightarrow> board_task" where
  "board_task_of holders finished r =
     (let held = map_of holders (board_key (tr_id r));
          holder = (case held of None \<Rightarrow> [] | Some c \<Rightarrow> cl_holder c)
      in \<lparr>bt_row = r, bt_holder = holder, bt_lease = map_option cl_expires_at held,
          bt_ready = (tr_state r = ''pending'' \<and> holder = [] \<and> list_all (\<lambda>d. d \<in> finished) (tr_depends r))\<rparr>)"

fun board_loop :: "(string \<times> claim) list \<Rightarrow> string set \<Rightarrow> task_row list \<Rightarrow> board \<Rightarrow> board" where
  "board_loop holders finished [] b = b"
| "board_loop holders finished (r # rows) b =
     (let t = board_task_of holders finished r in
      board_loop holders finished rows
        (b\<lparr>bo_next := (if bt_ready t \<and> bo_next b = [] then tr_id r else bo_next b),
           bo_counts := count_state (tr_state r) (bo_counts b),
           bo_tasks := bo_tasks b @ [t]\<rparr>))"

definition holders_of :: "claim list \<Rightarrow> (string \<times> claim) list" where
  "holders_of claims = fold (\<lambda>c. AList.update (cl_key c) c) claims []"

definition empty_board :: "string \<Rightarrow> member list \<Rightarrow> board" where
  "empty_board ns members = \<lparr>bo_ns = ns, bo_next = [], bo_counts = \<lparr>bc_total = 0, bc_pending = 0,
     bc_in_progress = 0, bc_review = 0, bc_blocked = 0, bc_done = 0\<rparr>, bo_tasks = [], bo_members = members\<rparr>"

definition Build :: "clock \<Rightarrow> memory \<Rightarrow> hub option \<Rightarrow> string \<Rightarrow> board" where
  "Build now m reg ns =
     (let rows = ListTasks (now 0) ns m;
          holders = (case reg of None \<Rightarrow> [] | Some h \<Rightarrow> holders_of (ListClaims (now 1) ns h));
          members = (case reg of None \<Rightarrow> [] | Some h \<Rightarrow> Members ns h);
          finished = set (map tr_id (filter (\<lambda>r. tr_state r = ''done'') rows))
      in board_loop holders finished rows (empty_board ns members))"

text \<open>What the selection loop of \<open>WaitForChange\<close> receives, one case at a time.  The settle timer runs from the first
  matching event; before that its channel never delivers.\<close>

datatype wake = Canceled | Deadline | Settled | Closed | Published string string

fun wait_change :: "string \<Rightarrow> wake list \<Rightarrow> string list \<Rightarrow> string list option" where
  "wait_change ns [] keys = None"
| "wait_change ns (w # ws) keys =
     (case w of
        Settled \<Rightarrow> if keys = [] then wait_change ns ws keys else Some keys
      | Published kind key \<Rightarrow>
          if (kind \<noteq> ''memory'' \<and> kind \<noteq> ''claim'') \<or> \<not> has_prefix key (ns @ '':/tasks/'')
          then wait_change ns ws keys
          else wait_change ns ws (keys @ [trim_prefix key (ns @ '':'')])
      | _ \<Rightarrow> Some keys)"

definition WaitForChange :: "bool \<Rightarrow> string \<Rightarrow> duration \<Rightarrow> wake list \<Rightarrow> string list option" where
  "WaitForChange has_bus ns timeout ws = (if \<not> has_bus \<or> timeout \<le> 0 then Some [] else wait_change ns ws [])"

section \<open>Statuses round trip\<close>

lemma space_bytes_not_graphic: "e \<in> set space_encodings \<Longrightarrow> c \<in> set e \<Longrightarrow> \<not> graphic c"
  by (auto simp: space_encodings_def graphic_def in_range_def byte_char_of)

lemma strip_encodings_stops:
  "(\<And>e. e \<in> set encs \<Longrightarrow> c \<notin> set e) \<Longrightarrow> \<exists>zs. strip_encodings encs (xs @ c # ys) = zs @ c # ys"
proof (induction "length xs" arbitrary: xs rule: less_induct)
  case less
  let ?s = "xs @ c # ys"
  show ?case
  proof (cases "starts_space encs ?s")
    case None
    then show ?thesis by (subst strip_encodings.simps) auto
  next
    case (Some e)
    then have e: "e \<noteq> []" "has_prefix ?s e" "e \<in> set encs"
      by (auto simp: starts_space_def find_Some_iff dest: nth_mem)
    then have "c \<notin> set e" using less.prems by blast
    obtain t where t: "?s = e @ t" using e(2) by (auto simp: has_prefix_append)
    have "length e \<le> length xs"
    proof (rule ccontr)
      assume "\<not> length e \<le> length xs"
      then have "?s ! length xs \<in> set e" unfolding t by (simp add: nth_append)
      then show False using \<open>c \<notin> set e\<close> by (simp add: nth_append)
    qed
    then have "drop (length e) ?s = drop (length e) xs @ c # ys" by simp
    moreover have "length (drop (length e) xs) < length xs"
      using e(1) \<open>length e \<le> length xs\<close> by (cases e) auto
    ultimately show ?thesis
      using less.hyps [of "drop (length e) xs"] less.prems Some
      by (subst strip_encodings.simps) (metis option.simps(5))
  qed
qed

text \<open>Trimming keeps a head that begins and ends in printable characters.\<close>

lemma trim_keeps:
  assumes "p \<noteq> []" "list_all graphic p"
  shows "\<exists>r'. trim_space (p @ r) = p @ r'"
proof -
  have hd: "graphic (hd (p @ r))" using assms by (cases p) auto
  have left: "strip_encodings space_encodings (p @ r) = p @ r"
    by (rule starts_space_graphic) (use hd space_encodings_graphic in auto)
  obtain q c where q: "p = q @ [c]" using assms(1) by (cases p rule: rev_cases) auto
  then have "graphic c" using assms(2) by simp
  then have "\<exists>zs. strip_encodings (map rev space_encodings) (rev r @ c # rev q) = zs @ c # rev q"
    by (intro strip_encodings_stops) (auto dest: space_bytes_not_graphic)
  then obtain zs where "strip_encodings (map rev space_encodings) (rev (p @ r)) = zs @ c # rev q"
    using q by auto
  then have "trim_space (p @ r) = p @ rev zs"
    using left q by (simp add: trim_space_def trim_left_space_def trim_right_space_def)
  then show ?thesis by blast
qed

lemma firstLine_keeps:
  assumes "p \<noteq> []" "list_all graphic p"
  shows "\<exists>r'. firstLine (p @ r) = p @ r'"
proof -
  obtain r1 where r1: "trim_space (p @ r) = p @ r1" using trim_keeps [OF assms] by blast
  have "\<not> graphic (CHR 0x0A)" by (simp add: graphic_def in_range_def byte_def)
  then have "\<forall>c \<in> set p. c \<noteq> CHR 0x0A" using assms(2) by (auto simp: list_all_iff)
  then have "takeWhile (\<lambda>c. c \<noteq> CHR 0x0A) (p @ r1) = p @ takeWhile (\<lambda>c. c \<noteq> CHR 0x0A) r1"
    by (rule takeWhile_append2 [OF bspec])
  then show ?thesis using trim_keeps [OF assms] by (simp add: firstLine_def r1)
qed

lemma to_lower_ascii: "byte c < 128 \<Longrightarrow> to_lower (c # s) = lower_char c # to_lower s"
  by (cases s) auto

lemma to_lower_append: "\<forall>c \<in> set p. byte c < 128 \<and> lower_char c = c \<Longrightarrow> to_lower (p @ s) = p @ to_lower s"
  by (induction p) (simp_all add: to_lower_ascii)

lemma word_ends_colon: "word_ends (CHR '':'' # s)"
  by (simp add: word_ends_def byte_def)

lemma state_opens:
  assumes "st \<in> set TaskStates"
  shows "find (\<lambda>s. list_ex (opens_with ((st @ '':'') @ x)) (taskStateWords s)) TaskStates = Some st"
proof -
  have [simp]: "opens_with (w' @ x) w = (has_prefix (w' @ x) w \<and> word_ends (drop (length w) (w' @ x)))" for w w'
    by (simp add: opens_with_def cut_prefix_def)
  consider "st = ''pending''" | "st = ''in_progress''" | "st = ''review''" | "st = ''blocked''" | "st = ''done''"
    using assms by (auto simp: TaskStates_def)
  then show ?thesis
    by cases (simp_all add: TaskStates_def taskStateWords_def opens_with_def cut_prefix_def has_prefix_def word_ends_colon)
qed

lemma RenderTaskStatus_head:
  "\<exists>r. RenderTaskStatus state summary sha tests phase deviation = (state @ '':'') @ r"
  by (simp add: RenderTaskStatus_def)

lemma RenderTaskStatus_state:
  assumes "state \<in> set TaskStates"
  shows "ParseTaskState (RenderTaskStatus state summary sha tests phase deviation) ats = state"
proof -
  let ?p = "state @ '':''"
  have p: "list_all graphic ?p" "\<forall>c \<in> set ?p. byte c < 128 \<and> lower_char c = c"
    using assms by (auto simp: TaskStates_def graphic_def lower_char_def in_range_def byte_def)
  obtain r where "RenderTaskStatus state summary sha tests phase deviation = ?p @ r"
    using RenderTaskStatus_head by blast
  then obtain r' where line: "firstLine (RenderTaskStatus state summary sha tests phase deviation) = ?p @ r'"
    using firstLine_keeps [OF _ p(1), of r] by auto
  have "bodyTaskState (?p @ r') = state"
    unfolding bodyTaskState_def to_lower_append [OF p(2)] state_opens [OF assms] by simp
  moreover have "state \<noteq> []" using assms by (auto simp: TaskStates_def)
  ultimately show ?thesis by (simp add: ParseTaskState_def line)
qed

text \<open>C32: a rendered status reads back.  Whatever the summary, commit, tests, phase and deviation
  are, the state a status was rendered for is the state \<open>ParseTaskState\<close> reads, on any attributes.\<close>

theorem RenderTaskStatus_parse:
  assumes "state \<in> set TaskStates"
  shows "ParseTaskState (RenderTaskStatus state summary sha tests phase deviation) ats = state"
  by (rule RenderTaskStatus_state [OF assms])

theorem RenderTaskStatus_parse_witness:
  "ParseTaskState (RenderTaskStatus ''review'' ''x'' [] [] [] ''late'') [] = ''review''"
  by (rule RenderTaskStatus_parse) (simp add: TaskStates_def)

section \<open>The rows of a board\<close>

definition fact_task :: "fact \<Rightarrow> string option" where
  "fact_task f = (case task_key (fa_key f) of Some tid \<Rightarrow> Some tid | None \<Rightarrow> status_key (fa_key f))"

definition state_at :: "(string \<times> task_row) list \<Rightarrow> string \<Rightarrow> string" where
  "state_at rows tid = (case map_of rows tid of None \<Rightarrow> ''pending'' | Some r \<Rightarrow> tr_state r)"

definition rows_ok :: "(string \<times> task_row) list \<Rightarrow> bool" where
  "rows_ok rows \<longleftrightarrow> distinct (map fst rows) \<and> (\<forall>(tid, r) \<in> set rows. tr_id r = tid)"

lemma stamp_row_simps [simp]:
  "tr_id (stamp_row f r) = tr_id r" "tr_state (stamp_row f r) = tr_state r"
  by (simp_all add: stamp_row_def)

lemma with_row_keys: "fst ` set (with_row tid u rows) = insert tid (fst ` set rows)"
  by (simp add: with_row_def dom_update)

lemma with_row_ok:
  assumes "rows_ok rows" "\<And>r. tr_id (u r) = tr_id r"
  shows "rows_ok (with_row tid u rows)"
proof -
  let ?r = "case map_of rows tid of None \<Rightarrow> new_row tid | Some r \<Rightarrow> r"
  have id: "tr_id ?r = tid" using assms(1)
    by (auto simp: rows_ok_def new_row_def split: option.split dest!: map_of_SomeD)
  have upd: "set (AList.update tid v rows) \<subseteq> insert (tid, v) (set rows)" for v
    by (induction rows) auto
  have "tr_id r = t" if mem: "(t, r) \<in> set (with_row tid u rows)" for t r
  proof -
    have "(t, r) = (tid, u ?r) \<or> (t, r) \<in> set rows" using mem upd [of "u ?r"] unfolding with_row_def by blast
    then show ?thesis using assms id by (auto simp: rows_ok_def)
  qed
  moreover have "distinct (map fst (with_row tid u rows))"
    using assms(1) by (simp add: with_row_def rows_ok_def distinct_update)
  ultimately show ?thesis by (auto simp: rows_ok_def)
qed

lemma with_row_state:
  "state_at (with_row tid u rows) t =
    (if t = tid then tr_state (u (case map_of rows tid of None \<Rightarrow> new_row tid | Some r \<Rightarrow> r)) else state_at rows t)"
  by (simp add: state_at_def with_row_def update_conv)

lemma new_row_state [simp]: "tr_state (case map_of rows tid of None \<Rightarrow> new_row tid | Some r \<Rightarrow> r) = state_at rows tid"
  by (simp add: state_at_def new_row_def split: option.split)

lemma row_of_fact_keys:
  "fst ` set (row_of_fact f rows) = (case fact_task f of None \<Rightarrow> {} | Some tid \<Rightarrow> {tid}) \<union> fst ` set rows"
  by (auto simp: row_of_fact_def fact_task_def with_row_keys split: option.split)

lemma row_of_fact_ok: "rows_ok rows \<Longrightarrow> rows_ok (row_of_fact f rows)"
  by (auto simp: row_of_fact_def split: option.split intro!: with_row_ok)

lemma task_status_exclusive: "task_key key = Some t \<Longrightarrow> status_key key = None"
  by (auto simp: task_key_def status_key_def split: list.splits if_splits)

lemma row_of_fact_state:
  "state_at (row_of_fact f rows) tid =
    (if status_key (fa_key f) = Some tid then ParseTaskState (fa_body f) (fa_attrs f) else state_at rows tid)"
  by (auto simp: row_of_fact_def with_row_state dest: task_status_exclusive split: option.split)

definition listed_facts :: "fact list \<Rightarrow> (string \<times> task_row) list" where
  "listed_facts fs = fold row_of_fact fs []"

lemma listed_facts_snoc: "listed_facts (fs @ [f]) = row_of_fact f (listed_facts fs)"
  by (simp add: listed_facts_def)

lemma listed_facts_ok: "rows_ok (listed_facts fs)"
  by (induction fs rule: rev_induct)
    (simp_all add: listed_facts_snoc row_of_fact_ok, simp add: listed_facts_def rows_ok_def)

lemma listed_facts_keys: "fst ` set (listed_facts fs) = {tid. \<exists>f \<in> set fs. fact_task f = Some tid}"
  by (induction fs rule: rev_induct)
    (auto simp: listed_facts_snoc row_of_fact_keys split: option.splits, simp add: listed_facts_def)

lemma listed_facts_state:
  assumes "f \<in> set fs" "status_key (fa_key f) = Some tid"
    and "\<And>g. g \<in> set fs \<Longrightarrow> status_key (fa_key g) = Some tid \<Longrightarrow> g = f"
  shows "state_at (listed_facts fs) tid = ParseTaskState (fa_body f) (fa_attrs f)"
  using assms
proof (induction fs rule: rev_induct)
  case (snoc g fs)
  show ?case
  proof (cases "g = f")
    case True
    then show ?thesis using snoc.prems(2) by (simp add: listed_facts_snoc row_of_fact_state)
  next
    case False
    then have "status_key (fa_key g) \<noteq> Some tid" using snoc.prems(3) [of g] by auto
    moreover have "state_at (listed_facts fs) tid = ParseTaskState (fa_body f) (fa_attrs f)"
      by (rule snoc.IH) (use snoc.prems False in auto)
    ultimately show ?thesis by (simp add: listed_facts_snoc row_of_fact_state)
  qed
qed simp

lemma listed_facts_pending:
  "(\<And>g. g \<in> set fs \<Longrightarrow> status_key (fa_key g) \<noteq> Some tid) \<Longrightarrow> state_at (listed_facts fs) tid = ''pending''"
  by (induction fs rule: rev_induct) (auto simp: listed_facts_snoc row_of_fact_state, simp add: listed_facts_def state_at_def)

lemma ListTasks_rows:
  "set (ListTasks now ns m) = snd ` set (listed_facts (recallPrefixRange now ns ''/tasks/'' taskFactLimit m))"
  by (simp add: ListTasks_def listed_facts_def)

lemma rows_ok_map: "rows_ok rows \<Longrightarrow> map tr_id (map snd rows) = map fst rows"
  by (auto simp: rows_ok_def)

lemma ListTasks_ids: "distinct (map tr_id (ListTasks now ns m)) \<and> sorted (map tr_id (ListTasks now ns m))"
proof -
  let ?rows = "listed_facts (recallPrefixRange now ns ''/tasks/'' taskFactLimit m)"
  have "distinct (map tr_id (map snd ?rows))"
    unfolding rows_ok_map [OF listed_facts_ok] using listed_facts_ok by (simp only: rows_ok_def)
  then have "distinct (map tr_id (ListTasks now ns m))"
    unfolding ListTasks_def listed_facts_def [symmetric]
    by (metis distinct_map distinct_sort set_sort)
  then show ?thesis by (simp add: ListTasks_def)
qed

lemma ListTasks_row:
  assumes "r \<in> set (ListTasks now ns m)"
  shows "tr_state r = state_at (listed_facts (recallPrefixRange now ns ''/tasks/'' taskFactLimit m)) (tr_id r)"
proof -
  let ?rows = "listed_facts (recallPrefixRange now ns ''/tasks/'' taskFactLimit m)"
  obtain tid where "(tid, r) \<in> set ?rows" using assms by (auto simp: ListTasks_rows)
  moreover from this have "tr_id r = tid" using listed_facts_ok by (auto simp: rows_ok_def)
  moreover have "distinct (map fst ?rows)" using listed_facts_ok by (simp add: rows_ok_def)
  ultimately show ?thesis by (simp add: state_at_def map_of_is_SomeI)
qed

lemma split_byte_pair: "split_byte d s = [a, b] \<longleftrightarrow> s = a @ d # b \<and> d \<notin> set a \<and> d \<notin> set b"
proof
  have one: "split_byte d s = [w] \<Longrightarrow> s = w \<and> d \<notin> set w" for s w
    by (induction s arbitrary: w) (auto split: if_splits list.splits)
  show "split_byte d s = [a, b] \<Longrightarrow> s = a @ d # b \<and> d \<notin> set a \<and> d \<notin> set b"
  proof (induction s arbitrary: a)
    case (Cons c s)
    then show ?case
      by (cases "c = d"; cases "split_byte d s") (auto dest: one)
  qed simp
next
  assume "s = a @ d # b \<and> d \<notin> set a \<and> d \<notin> set b"
  then show "split_byte d s = [a, b]" by (simp add: split_byte_append split_byte_no_sep)
qed

definition status_of :: "string \<Rightarrow> string" where
  "status_of tid = ''/tasks/'' @ tid @ ''/status''"

lemma status_key_iff:
  assumes "has_prefix key ''/tasks/''"
  shows "status_key key = Some tid \<longleftrightarrow> key = status_of tid \<and> CHR ''/'' \<notin> set tid"
proof -
  obtain rest where key: "key = ''/tasks/'' @ rest" using assms by (auto simp: has_prefix_append)
  have rest: "trim_prefix key ''/tasks/'' = rest" by (simp add: key trim_prefix_def has_prefix_def)
  have "status_key key = Some tid \<longleftrightarrow> split_byte (CHR ''/'') rest = [tid, ''status'']"
    unfolding status_key_def task_parts_def rest
    by (auto split: list.splits if_splits)
  then show ?thesis by (auto simp: split_byte_pair key status_of_def)
qed

lemma board_facts:
  assumes "length (mm_facts m) \<le> taskFactLimit"
  shows "f \<in> set (recallPrefixRange now ns ''/tasks/'' taskFactLimit m) \<longleftrightarrow>
    ns \<in> set (mm_namespaces m) \<and> has_prefix (fa_key f) ''/tasks/'' \<and> is_live now ns (fa_key f) (mm_facts m) f"
proof -
  have upper: "prefixUpper ''/tasks/'' \<noteq> None" by (simp add: prefixUpper_def byte_def)
  have "length (latest_live now ns P m) \<le> taskFactLimit" for P
    using assms by (simp add: latest_live_def order_trans [OF length_filter_le])
  then have "recallPrefixRange now ns ''/tasks/'' taskFactLimit m =
      (if ns \<in> set (mm_namespaces m) then latest_live now ns (\<lambda>k. has_prefix k ''/tasks/'') m else [])"
    using recall_prefix [of m "''/tasks/''" now ns taskFactLimit] upper by simp
  then show ?thesis by (auto simp: latest_live_def is_live_def of_key_def)
qed

lemma live_status_row:
  assumes live: "live_body now ns m (status_of tid) = Some body" and stamps: "stamps_ok (mm_facts m)"
    and small: "length (mm_facts m) \<le> taskFactLimit" and tid: "CHR ''/'' \<notin> set tid"
  shows "\<exists>r ats. r \<in> set (ListTasks now ns m) \<and> tr_id r = tid \<and> tr_state r = ParseTaskState body ats"
proof -
  let ?fs = "recallPrefixRange now ns ''/tasks/'' taskFactLimit m"
  obtain f where f: "ns \<in> set (mm_namespaces m)" "is_live now ns (status_of tid) (mm_facts m) f" "fa_body f = body"
    using live by (auto simp: live_body_def live_fact_iff [OF stamps])
  have key: "fa_key f = status_of tid" using f by (simp add: is_live_def of_key_def)
  have prefix: "has_prefix (status_of tid) ''/tasks/''" by (simp add: status_of_def has_prefix_def)
  have listed: "f \<in> set ?fs" using f prefix by (simp add: board_facts [OF small] key)
  have status: "status_key (fa_key f) = Some tid" using prefix tid by (simp add: key status_key_iff)
  have unique: "g = f" if "g \<in> set ?fs" "status_key (fa_key g) = Some tid" for g
  proof -
    have "has_prefix (fa_key g) ''/tasks/''" "is_live now ns (fa_key g) (mm_facts m) g"
      using that(1) by (auto simp: board_facts [OF small])
    then show ?thesis using that(2) f(2) is_live_unique [OF stamps] by (simp add: status_key_iff)
  qed
  have state: "state_at (listed_facts ?fs) tid = ParseTaskState body (fa_attrs f)"
    using listed_facts_state [OF listed status unique] f(3) by simp
  have "fact_task f = Some tid"
    using status task_status_exclusive by (auto simp: fact_task_def split: option.split)
  then have "tid \<in> fst ` set (listed_facts ?fs)" using listed by (auto simp: listed_facts_keys)
  then obtain r where r: "(tid, r) \<in> set (listed_facts ?fs)" by auto
  then have "r \<in> set (ListTasks now ns m)" "tr_id r = tid"
    using listed_facts_ok [of ?fs] by (force simp: ListTasks_rows rows_ok_def)+
  then show ?thesis using ListTasks_row state by metis
qed

text \<open>A status that was written shows on the board.  After a successful write of a rendered status
  to the status key of a task, the listing has one row for the task, in the state the status was rendered
  for.\<close>

lemma status_write_shows:
  assumes ok: "store_ok env (now 0) m" and col: "collision_free env"
    and inp: "wi_key inp = status_of tid" "wi_expires inp = None"
      "wi_body inp = RenderTaskStatus st summary sha tests phase deviation" "st \<in> set TaskStates"
    and kept: "defend env (wi_ns inp) (wi_body inp) = Inr (wi_body inp, labels, prints)"
    and run: "write_fact env now fid inp outbox m = (Inr f, m')"
    and small: "length (mm_facts m') \<le> taskFactLimit" and tid: "CHR ''/'' \<notin> set tid"
  shows "\<exists>!r. r \<in> set (ListTasks later (wi_ns inp) m') \<and> tr_id r = tid \<and> tr_state r = st"
proof -
  have put: "store_ok env (now 0 + 1) m'" "live_body later (wi_ns inp) m' (status_of tid) = Some (wi_body inp)"
    using Write_put [where now = now, OF ok col kept inp(2) _ run, of "now 0 + 1" later] inp(1) by auto
  then obtain r ats where r: "r \<in> set (ListTasks later (wi_ns inp) m')" "tr_id r = tid"
      "tr_state r = ParseTaskState (wi_body inp) ats"
    using live_status_row [OF put(2) _ small tid] by (auto simp: store_ok_def)
  have "tr_state r = st" using r(3) RenderTaskStatus_state [OF inp(4)] inp(3) by simp
  moreover have "q = r" if "q \<in> set (ListTasks later (wi_ns inp) m')" "tr_id q = tid" for q
    using ListTasks_ids [of later "wi_ns inp" m'] that r(1,2) distinct_key_eq by metis
  ultimately show ?thesis using r by blast
qed


lemma status_write_shows_witness:
  "\<exists>f m'. write_fact demo_env (\<lambda>_. 7) ''2'' ((demo_input (status_of ''t1'') (RenderTaskStatus ''done'' ''ok'' [] [] [] [])))
     True (demo_memory []) = (Inr f, m')
   \<and> (\<exists>!r. r \<in> set (ListTasks 9 ''p'' m') \<and> tr_id r = ''t1'' \<and> tr_state r = ''done'')"
proof -
  let ?inp = "demo_input (status_of ''t1'') (RenderTaskStatus ''done'' ''ok'' [] [] [] [])"
  have inp: "wi_ns ?inp = ''p''" "wi_key ?inp = status_of ''t1''" "wi_expires ?inp = None"
    "wi_body ?inp = RenderTaskStatus ''done'' ''ok'' [] [] [] []"
    by (simp_all add: demo_input_def)
  have kept: "defend demo_env (wi_ns ?inp) (wi_body ?inp) = Inr (wi_body ?inp, [], [])"
    by (simp add: defend_def defenseMode_def demo_env_def)
  have key: "ValidateKey (wi_key ?inp) = Inr ()"
    unfolding inp by (simp add: status_of_def ValidateKey_def has_prefix_def has_suffix_def contains_sub_def)
  have ids: "''2'' \<notin> fa_id ` set (mm_facts (demo_memory []))" by (simp add: demo_memory_def)
  obtain f m' where run: "write_fact demo_env (\<lambda>_. 7) ''2'' ?inp True (demo_memory []) = (Inr f, m')"
  proof -
    have "name_ok (wi_ns ?inp)" by (simp add: inp name_ok_def)
    from Write_succeeds [OF key kept this ids, of "\<lambda>_. 7" True] show ?thesis using that by blast
  qed
  have "length (mm_facts m') \<le> taskFactLimit"
    using mem_step_length [OF write_step [of "\<lambda>_. 7" "demo_memory []" demo_env "''2''" ?inp True]] run
    by (simp add: demo_memory_def taskFactLimit_def)
  moreover have "store_ok demo_env 7 (demo_memory [])"
    by (simp add: store_ok_def plain_facts_def demo_store)
  moreover have "collision_free demo_env" by (simp add: collision_free_def demo_env_def)
  ultimately have "\<exists>!r. r \<in> set (ListTasks 9 (wi_ns ?inp) m') \<and> tr_id r = ''t1'' \<and> tr_state r = ''done''"
    using status_write_shows [where now = "\<lambda>_. 7" and tid = "''t1''", OF _ _ inp(2,3,4) _ kept run, of 9]
    by (simp add: TaskStates_def)
  then show ?thesis using run inp by auto
qed

section \<open>Readiness\<close>

lemma board_loop_tasks:
  "bo_tasks (board_loop holders finished rows b) = bo_tasks b @ map (board_task_of holders finished) rows"
  by (induction rows arbitrary: b) (simp_all add: Let_def)

lemma board_task_row [simp]: "bt_row (board_task_of holders finished r) = r"
  by (simp add: board_task_of_def Let_def)

lemma board_loop_next:
  "bo_next (board_loop holders finished rows b) =
    (if bo_next b \<noteq> [] then bo_next b
     else case find (\<lambda>t. bt_ready t \<and> tr_id (bt_row t) \<noteq> []) (map (board_task_of holders finished) rows) of
       None \<Rightarrow> [] | Some t \<Rightarrow> tr_id (bt_row t))"
  by (induction rows arbitrary: b) (auto simp: Let_def)

definition counts_sum :: "board_counts \<Rightarrow> bool" where
  "counts_sum c \<longleftrightarrow> bc_total c = bc_pending c + bc_in_progress c + bc_review c + bc_blocked c + bc_done c"

lemma count_state_sum: "counts_sum c \<Longrightarrow> counts_sum (count_state st c)"
  and count_state_total: "bc_total (count_state st c) = Suc (bc_total c)"
  by (simp_all add: count_state_def counts_sum_def Let_def)

lemma board_loop_counts:
  "counts_sum (bo_counts b) \<Longrightarrow> counts_sum (bo_counts (board_loop holders finished rows b))
   \<and> bc_total (bo_counts (board_loop holders finished rows b)) = bc_total (bo_counts b) + length rows"
  by (induction rows arbitrary: b) (simp_all add: Let_def count_state_sum count_state_total)

lemma board_counts:
  "counts_sum (bo_counts (board_loop holders finished rows (empty_board ns members)))
   \<and> bc_total (bo_counts (board_loop holders finished rows (empty_board ns members))) = length rows"
  using board_loop_counts [of "empty_board ns members" holders finished rows]
  by (simp add: empty_board_def counts_sum_def)

lemma holders_of_None:
  "map_of (holders_of claims) key = None \<longleftrightarrow> key \<notin> cl_key ` set claims"
proof -
  have "fst ` set (fold (\<lambda>c. AList.update (cl_key c) c) claims al) = fst ` set al \<union> cl_key ` set claims" for al
    by (induction claims arbitrary: al) (auto simp: dom_update)
  from this [of "[]"] show ?thesis by (auto simp: holders_of_def map_of_eq_None_iff)
qed

lemma holders_of_Some: "map_of (holders_of claims) key = Some c \<Longrightarrow> c \<in> set claims"
proof -
  have "map_of (fold (\<lambda>c. AList.update (cl_key c) c) claims al) key = Some c \<Longrightarrow>
      c \<in> set claims \<or> map_of al key = Some c" for al
  proof (induction claims arbitrary: al)
    case (Cons d claims)
    then have "c \<in> set claims \<or> map_of (AList.update (cl_key d) d al) key = Some c" by simp
    then show ?case by (auto simp: update_conv split: if_splits)
  qed simp
  from this [of "[]"] show "map_of (holders_of claims) key = Some c \<Longrightarrow> c \<in> set claims"
    by (simp add: holders_of_def)
qed

text \<open>When a row can be started.\<close>

definition startable :: "clock \<Rightarrow> memory \<Rightarrow> hub \<Rightarrow> string \<Rightarrow> task_row \<Rightarrow> bool" where
  "startable now m h ns r \<longleftrightarrow> tr_state r = ''pending''
     \<and> (\<forall>c \<in> set (ListClaims (now 1) ns h). cl_key c \<noteq> board_key (tr_id r))
     \<and> (\<forall>d \<in> set (tr_depends r). \<exists>q \<in> set (ListTasks (now 0) ns m). tr_id q = d \<and> tr_state q = ''done'')"

lemma Build_tasks:
  assumes "\<forall>c \<in> set (hu_claims h). cl_holder c \<noteq> []"
  shows "map bt_row (bo_tasks (Build now m (Some h) ns)) = ListTasks (now 0) ns m
    \<and> (\<forall>t \<in> set (bo_tasks (Build now m (Some h) ns)). bt_ready t \<longleftrightarrow> startable now m h ns (bt_row t))"
proof -
  let ?claims = "ListClaims (now 1) ns h"
  let ?finished = "set (map tr_id (filter (\<lambda>r. tr_state r = ''done'') (ListTasks (now 0) ns m)))"
  have held: "\<forall>c \<in> set ?claims. cl_holder c \<noteq> []" using assms by (auto simp: ListClaims_def)
  have "bt_ready (board_task_of (holders_of ?claims) ?finished r) \<longleftrightarrow> startable now m h ns r" for r
  proof (cases "map_of (holders_of ?claims) (board_key (tr_id r))")
    case None
    have free: "\<forall>c \<in> set ?claims. cl_key c \<noteq> board_key (tr_id r)" using None holders_of_None by force
    show ?thesis
      unfolding board_task_of_def startable_def Let_def None using free by (auto simp: list_all_iff)
  next
    case (Some c)
    then have "cl_holder c \<noteq> []" using holders_of_Some held by blast
    moreover have "board_key (tr_id r) \<in> cl_key ` set ?claims"
      using Some holders_of_None [of ?claims] by (metis option.distinct(1))
    ultimately show ?thesis
      using Some by (auto simp: board_task_of_def startable_def Let_def)
  qed
  then show ?thesis
    by (auto simp: Build_def Let_def board_loop_tasks empty_board_def comp_def)
qed

lemma Build_board:
  assumes "\<forall>c \<in> set (hu_claims h). cl_holder c \<noteq> []"
  shows "map bt_row (bo_tasks (Build now m (Some h) ns)) = ListTasks (now 0) ns m
    \<and> (\<forall>t \<in> set (bo_tasks (Build now m (Some h) ns)). bt_ready t \<longleftrightarrow> startable now m h ns (bt_row t))
    \<and> bo_next (Build now m (Some h) ns) =
        (case find (\<lambda>r. startable now m h ns r \<and> tr_id r \<noteq> []) (ListTasks (now 0) ns m) of
           None \<Rightarrow> [] | Some r \<Rightarrow> tr_id r)
    \<and> counts_sum (bo_counts (Build now m (Some h) ns))
    \<and> bc_total (bo_counts (Build now m (Some h) ns)) = length (ListTasks (now 0) ns m)"
proof -
  let ?b = "Build now m (Some h) ns"
  note tasks = Build_tasks [OF assms, of now m ns]
  have nxt: "bo_next ?b = (case find (\<lambda>t. bt_ready t \<and> tr_id (bt_row t) \<noteq> []) (bo_tasks ?b) of
      None \<Rightarrow> [] | Some t \<Rightarrow> tr_id (bt_row t))"
    by (simp add: Build_def Let_def board_loop_next board_loop_tasks empty_board_def)
  have found: "(case find (\<lambda>t. bt_ready t \<and> tr_id (bt_row t) \<noteq> []) ts of None \<Rightarrow> [] | Some t \<Rightarrow> tr_id (bt_row t))
      = (case find (\<lambda>r. startable now m h ns r \<and> tr_id r \<noteq> []) (map bt_row ts) of None \<Rightarrow> [] | Some r \<Rightarrow> tr_id r)"
    if "\<forall>t \<in> set ts. bt_ready t \<longleftrightarrow> startable now m h ns (bt_row t)" for ts
    using that by (induction ts) auto
  have "bo_next ?b = (case find (\<lambda>r. startable now m h ns r \<and> tr_id r \<noteq> []) (map bt_row (bo_tasks ?b)) of
      None \<Rightarrow> [] | Some r \<Rightarrow> tr_id r)"
    unfolding nxt by (rule found) (rule conjunct2 [OF tasks])
  moreover have "counts_sum (bo_counts ?b) \<and> bc_total (bo_counts ?b) = length (ListTasks (now 0) ns m)"
    unfolding Build_def Let_def by (rule board_counts)
  ultimately show ?thesis using tasks by simp
qed

lemmas Build_next = Build_board [THEN conjunct2, THEN conjunct2, THEN conjunct1]

text \<open>C21: the board is right about what can start.  Its tasks are the listed rows in order; a task is ready
  exactly when it is pending, nobody holds a live claim on it and each of its dependencies is a listed task
  that is done; the next task is the first ready one; and the counts add up to the number of rows.\<close>

theorem Build_ready:
  assumes "\<forall>c \<in> set (hu_claims h). cl_holder c \<noteq> []"
  shows "map bt_row (bo_tasks (Build now m (Some h) ns)) = ListTasks (now 0) ns m
    \<and> (\<forall>t \<in> set (bo_tasks (Build now m (Some h) ns)). bt_ready t \<longleftrightarrow> startable now m h ns (bt_row t))
    \<and> bo_next (Build now m (Some h) ns) =
        (case find (\<lambda>r. startable now m h ns r \<and> tr_id r \<noteq> []) (ListTasks (now 0) ns m) of
           None \<Rightarrow> [] | Some r \<Rightarrow> tr_id r)
    \<and> counts_sum (bo_counts (Build now m (Some h) ns))
    \<and> bc_total (bo_counts (Build now m (Some h) ns)) = length (ListTasks (now 0) ns m)"
  by (rule Build_board [OF assms])


definition demo_claim_hub :: hub where
  "demo_claim_hub = (empty_hub SQLite)\<lparr>hu_claims := [\<lparr>cl_ns = ''p'', cl_key = ''/tasks/t1'', cl_holder = ''a'',
     cl_claimed_at = 1, cl_expires_at = 50, cl_released_at = None\<rparr>]\<rparr>"

theorem Build_ready_witness:
  "bc_total (bo_counts (Build (\<lambda>_. 9) (demo_memory []) (Some demo_claim_hub) ''p'')) = 0"
  using Build_ready [of demo_claim_hub "\<lambda>_. 9" "demo_memory []" "''p''"]
  by (simp add: demo_claim_hub_def ListTasks_def recallPrefixRange_def recallPrefix_def latest_live_def demo_memory_def
      split: option.split)

text \<open>C35: work does not get stuck on the board.  When every unfinished task is pending and unclaimed,
  every dependency is a listed task and dependencies do not run in circles, some task can start as long as one is unfinished.\<close>

theorem board_progress:
  assumes claims: "\<forall>c \<in> set (hu_claims h). cl_holder c \<noteq> []"
    and rows: "\<forall>r \<in> set (ListTasks (now 0) ns m). tr_id r \<noteq> []
      \<and> (tr_state r = ''done'' \<or> tr_state r = ''pending'')
      \<and> (\<forall>c \<in> set (ListClaims (now 1) ns h). cl_key c \<noteq> board_key (tr_id r))
      \<and> (\<forall>d \<in> set (tr_depends r). d \<in> tr_id ` set (ListTasks (now 0) ns m) \<and> (rank :: string \<Rightarrow> nat) d < rank (tr_id r))"
    and open_task: "undone \<in> set (ListTasks (now 0) ns m)" "tr_state undone \<noteq> ''done''"
  shows "bo_next (Build now m (Some h) ns) \<noteq> []"
proof -
  let ?rows = "ListTasks (now 0) ns m"
  let ?open = "\<lambda>r. r \<in> set ?rows \<and> tr_state r \<noteq> ''done''"
  obtain r where r: "?open r" "\<forall>q. ?open q \<longrightarrow> rank (tr_id r) \<le> rank (tr_id q)"
    using ex_has_least_nat [of ?open undone "\<lambda>r. rank (tr_id r)"] open_task by blast
  have "startable now m h ns r"
    unfolding startable_def
  proof (intro conjI ballI)
    show "tr_state r = ''pending''" using r(1) rows by blast
    show "cl_key c \<noteq> board_key (tr_id r)" if "c \<in> set (ListClaims (now 1) ns h)" for c
      using r(1) rows that by blast
    show "\<exists>q \<in> set ?rows. tr_id q = d \<and> tr_state q = ''done''" if "d \<in> set (tr_depends r)" for d
    proof -
      have d: "d \<in> tr_id ` set ?rows" "rank d < rank (tr_id r)"
        using r(1) rows \<open>d \<in> set (tr_depends r)\<close> by blast+
      then obtain q where q: "q \<in> set ?rows" "tr_id q = d" "rank d < rank (tr_id r)" by auto
      then have "tr_state q = ''done''" using r(2) by (metis not_le)
      then show ?thesis using q by blast
    qed
  qed
  then have "find (\<lambda>r. startable now m h ns r \<and> tr_id r \<noteq> []) ?rows \<noteq> None"
    using r(1) rows by (auto simp: find_None_iff)
  then obtain q where q: "find (\<lambda>r. startable now m h ns r \<and> tr_id r \<noteq> []) ?rows = Some q" by blast
  then have "tr_id q \<noteq> []" using find_SomeD [OF q] by blast
  moreover have "bo_next (Build now m (Some h) ns) = tr_id q"
    using Build_next [OF claims, of now m ns] q by simp
  ultimately show ?thesis by simp
qed


lemma demo_listed:
  "ListTasks 9 ''p'' (demo_memory [demo_fact ''1'' ''/tasks/t1'' 1])
   = [\<lparr>tr_id = ''t1'', tr_title = ''b'', tr_state = ''pending'', tr_status = [], tr_depends = [],
       tr_updated = Some 1, tr_by = ''a''\<rparr>]"
proof -
  let ?m = "demo_memory [demo_fact ''1'' ''/tasks/t1'' 1]"
  have line: "trim_space ''b'' = ''b''"
    by (rule trim_space_plain) (simp add: graphic_def in_range_def byte_def)
  have "recallPrefixRange 9 ''p'' ''/tasks/'' taskFactLimit ?m = [demo_fact ''1'' ''/tasks/t1'' 1]"
    using recall_prefix [of ?m "''/tasks/''" 9 "''p''" taskFactLimit]
    by (simp add: prefixUpper_def byte_def demo_store latest_live_def is_latest_def unexpired_def taskFactLimit_def)
  then show ?thesis
    by (simp add: ListTasks_def row_of_fact_def demo_fact_def task_key_def task_parts_def trim_prefix_def
        has_prefix_def with_row_def new_row_def stamp_row_def firstLine_def line cut_def parseDepends_def
        depends_line_def)
qed

theorem board_progress_witness:
  "bo_next (Build (\<lambda>_. 9) (demo_memory [demo_fact ''1'' ''/tasks/t1'' 1]) (Some (empty_hub SQLite)) ''p'') \<noteq> []"
  by (rule board_progress [where rank = "\<lambda>_. 0"
        and undone = "hd (ListTasks 9 ''p'' (demo_memory [demo_fact ''1'' ''/tasks/t1'' 1]))"])
    (simp_all add: demo_listed empty_hub_def ListClaims_def)

end
