(* ===== verification/Authz.thy ===== *)
theory Authz
  imports Db "HOL-Library.Product_Lexorder"
begin

text \<open>
  Namespace grants, \<open>internal/authz/authz.go\<close>: exact-match permissions with a history of revocations.
  The partial unique index over active grants is part of the table: an insert that would break it does
  nothing.
\<close>

section \<open>The operations\<close>

datatype authz_error = SubjectInvalid string | AuthzNamespaceInvalid string | OpInvalid string | NoActiveGrant string string string

definition OpRead :: string where "OpRead = ''read''"
definition OpWrite :: string where "OpWrite = ''write''"
definition OpAdmin :: string where "OpAdmin = ''admin''"

definition validOp :: "string \<Rightarrow> bool" where
  "validOp op \<longleftrightarrow> op \<in> {OpRead, OpWrite, OpAdmin}"

record grant_row =
  gr_subject :: string
  gr_ns :: string
  gr_op :: string
  gr_created :: instant
  gr_revoked :: "instant option"

type_synonym grants = "grant_row list"

definition validateSubject :: "string \<Rightarrow> authz_error + unit" where
  "validateSubject subject =
     (if trim_space subject = [] then Inl (SubjectInvalid subject)
      else if CHR ''*'' \<in> set subject then Inl (SubjectInvalid subject)
      else Inr ())"

definition validateNamespace :: "string \<Rightarrow> authz_error + unit" where
  "validateNamespace ns =
     (if trim_space ns = [] then Inl (AuthzNamespaceInvalid ns)
      else if CHR ''*'' \<in> set ns then Inl (AuthzNamespaceInvalid ns)
      else if CHR '':'' \<in> set ns then Inl (AuthzNamespaceInvalid ns)
      else Inr ())"

definition active_grant :: "string \<Rightarrow> string \<Rightarrow> string \<Rightarrow> grant_row \<Rightarrow> bool" where
  "active_grant subject ns op g \<longleftrightarrow> gr_subject g = subject \<and> gr_ns g = ns \<and> gr_op g = op \<and> gr_revoked g = None"

definition Grant :: "instant \<Rightarrow> string \<Rightarrow> string \<Rightarrow> string \<Rightarrow> (grants, authz_error, unit) op" where
  "Grant now subject ns op gs =
     (case validateSubject subject of
        Inl e \<Rightarrow> (Inl e, gs)
      | Inr _ \<Rightarrow> (case validateNamespace ns of
          Inl e \<Rightarrow> (Inl e, gs)
        | Inr _ \<Rightarrow>
            if \<not> validOp op then (Inl (OpInvalid op), gs)
            else if list_ex (active_grant subject ns op) gs then (Inr (), gs)
            else (Inr (), gs @ [\<lparr>gr_subject = subject, gr_ns = ns, gr_op = op, gr_created = now, gr_revoked = None\<rparr>])))"

definition Revoke :: "instant \<Rightarrow> string \<Rightarrow> string \<Rightarrow> string \<Rightarrow> (grants, authz_error, unit) op" where
  "Revoke now subject ns op gs =
     (let gs' = update_where (active_grant subject ns op) (\<lambda>g. g\<lparr>gr_revoked := Some now\<rparr>) gs in
      if rows_affected (active_grant subject ns op) gs = 0 then (Inl (NoActiveGrant subject ns op), gs')
      else (Inr (), gs'))"

text \<open>\<open>ORDER BY namespace, op\<close>.\<close>

definition Grants :: "string \<Rightarrow> grants \<Rightarrow> grant_row list" where
  "Grants subject gs =
     sort_key (\<lambda>g. (gr_ns g, gr_op g)) (filter (\<lambda>g. gr_subject g = subject \<and> gr_revoked g = None) gs)"

definition Allow :: "string \<Rightarrow> string \<Rightarrow> string \<Rightarrow> grants \<Rightarrow> bool" where
  "Allow subject ns op gs \<longleftrightarrow>
     \<not> (trim_space subject = [] \<or> ns = []) \<and> \<not> (CHR ''*'' \<in> set subject \<or> CHR ''*'' \<in> set ns)
     \<and> CHR '':'' \<notin> set ns \<and> validOp op \<and> list_ex (active_grant subject ns op) gs"

section \<open>The table as a set of permissions\<close>

datatype authz_op = GrantOp instant string string string | RevokeOp instant string string string

fun authz_do :: "authz_op \<Rightarrow> grants \<Rightarrow> grants" where
  "authz_do (GrantOp now s n p) gs = snd (Grant now s n p gs)"
| "authz_do (RevokeOp now s n p) gs = snd (Revoke now s n p gs)"

fun permission_do :: "authz_op \<Rightarrow> (string \<times> string \<times> string) set \<Rightarrow> (string \<times> string \<times> string) set" where
  "permission_do (GrantOp now s n p) A =
     (if is_ok (validateSubject s) \<and> is_ok (validateNamespace n) \<and> validOp p then insert (s, n, p) A else A)"
| "permission_do (RevokeOp now s n p) A = A - {(s, n, p)}"

definition permissions :: "grants \<Rightarrow> (string \<times> string \<times> string) set" where
  "permissions gs = {(s, n, p). list_ex (active_grant s n p) gs}"

definition grants_ok :: "grants \<Rightarrow> bool" where
  "grants_ok gs \<longleftrightarrow>
     (\<forall>g \<in> set gs. is_ok (validateSubject (gr_subject g)) \<and> is_ok (validateNamespace (gr_ns g)) \<and> validOp (gr_op g))
     \<and> (\<forall>s n p. rows_affected (active_grant s n p) gs \<le> 1)"

lemma Grant_cases:
  obtains (refused) e where "Grant now s n p gs = (Inl e, gs)"
      "\<not> (is_ok (validateSubject s) \<and> is_ok (validateNamespace n) \<and> validOp p)"
  | (known) "Grant now s n p gs = (Inr (), gs)" "list_ex (active_grant s n p) gs"
      "is_ok (validateSubject s) \<and> is_ok (validateNamespace n) \<and> validOp p"
  | (added) "Grant now s n p gs = (Inr (), gs @ [\<lparr>gr_subject = s, gr_ns = n, gr_op = p, gr_created = now, gr_revoked = None\<rparr>])"
      "\<not> list_ex (active_grant s n p) gs"
      "is_ok (validateSubject s) \<and> is_ok (validateNamespace n) \<and> validOp p"
  unfolding Grant_def by (cases "validateSubject s"; cases "validateNamespace n"; cases "validOp p";
      cases "list_ex (active_grant s n p) gs") auto

lemma active_grant_new:
  "active_grant s n p \<lparr>gr_subject = s', gr_ns = n', gr_op = p', gr_created = now, gr_revoked = None\<rparr>
   \<longleftrightarrow> s = s' \<and> n = n' \<and> p = p'"
  by (auto simp: active_grant_def)

lemma active_grant_revoked:
  "list_ex (active_grant s n p) (update_where (active_grant s' n' p') (\<lambda>g. g\<lparr>gr_revoked := Some now\<rparr>) gs)
   \<longleftrightarrow> list_ex (active_grant s n p) gs \<and> (s, n, p) \<noteq> (s', n', p')"
  by (induction gs) (auto simp: update_where_def active_grant_def)

lemma authz_do_permissions: "permissions (authz_do op gs) = permission_do op (permissions gs)"
proof (cases op)
  case (GrantOp now s n p)
  then show ?thesis
    by (cases rule: Grant_cases [of now s n p gs]) (auto simp: permissions_def active_grant_new)
next
  case (RevokeOp now s n p)
  then show ?thesis
    by (auto simp: permissions_def Revoke_def Let_def active_grant_revoked)
qed

lemma rows_affected_revoke:
  "rows_affected (active_grant s n p) (update_where (active_grant s' n' p') (\<lambda>g. g\<lparr>gr_revoked := Some now\<rparr>) gs)
   \<le> rows_affected (active_grant s n p) gs"
  by (induction gs) (auto simp: update_where_def rows_affected_def active_grant_def)

lemma authz_do_ok: "grants_ok gs \<Longrightarrow> grants_ok (authz_do op gs)"
proof (cases op)
  case (GrantOp now s n p)
  assume ok: "grants_ok gs"
  show ?thesis
  proof (cases rule: Grant_cases [of now s n p gs])
    case added
    have "rows_affected (active_grant s n p) gs = 0"
      using added(2) by (simp add: rows_affected_0 list_ex_iff)
    then show ?thesis
      using ok added GrantOp by (auto simp: grants_ok_def rows_affected_def active_grant_new)
  qed (use ok GrantOp in auto)
next
  case (RevokeOp now s n p)
  assume ok: "grants_ok gs"
  have "rows_affected (active_grant s' n' p') (authz_do op gs) \<le> 1" for s' n' p'
    using order_trans [OF rows_affected_revoke] ok by (auto simp: RevokeOp Revoke_def Let_def grants_ok_def)
  moreover have "\<forall>g \<in> set (authz_do op gs). is_ok (validateSubject (gr_subject g))
      \<and> is_ok (validateNamespace (gr_ns g)) \<and> validOp (gr_op g)"
    using ok by (auto simp: RevokeOp Revoke_def Let_def grants_ok_def set_update_where)
  ultimately show ?thesis by (simp add: grants_ok_def)
qed

definition authz_run :: "authz_op list \<Rightarrow> grants" where
  "authz_run ops = fold authz_do ops []"

lemma authz_run_refines: "grants_ok (authz_run ops) \<and> permissions (authz_run ops) = fold permission_do ops {}"
proof -
  have "grants_ok gs \<Longrightarrow> grants_ok (fold authz_do ops gs)
      \<and> permissions (fold authz_do ops gs) = fold permission_do ops (permissions gs)" for gs
    by (induction ops arbitrary: gs) (simp_all add: authz_do_ok authz_do_permissions)
  moreover have "grants_ok []" "permissions [] = {}"
    by (simp_all add: grants_ok_def rows_affected_def permissions_def)
  ultimately show ?thesis unfolding authz_run_def by metis
qed

text \<open>C33: access is exactly what was granted and not revoked since.  After any sequence of grants and
  revocations, a subject is allowed an operation on a namespace precisely when that exact triple is in the
  set obtained by adding every valid grant and removing every revocation; operations never imply
  one another, nothing is allowed by default, and the listing shows the same permissions.\<close>

theorem Allow_exact:
  "(Allow subject ns op (authz_run ops) \<longleftrightarrow> (subject, ns, op) \<in> fold permission_do ops {})
   \<and> (fold permission_do ops {} = {(s, n, p). \<exists>g \<in> set (Grants s (authz_run ops)). gr_ns g = n \<and> gr_op g = p})
   \<and> \<not> Allow subject ns op (authz_run [])"
proof -
  let ?gs = "authz_run ops"
  have ok: "grants_ok ?gs" and perms: "permissions ?gs = fold permission_do ops {}"
    using authz_run_refines by blast+
  have "Allow subject ns op ?gs" if active: "list_ex (active_grant subject ns op) ?gs"
  proof -
    obtain g where "g \<in> set ?gs" "active_grant subject ns op g" using active by (auto simp: list_ex_iff)
    then have "is_ok (validateSubject subject)" "is_ok (validateNamespace ns)" "validOp op"
      using ok by (auto simp: grants_ok_def active_grant_def)
    then show ?thesis
      using active by (auto simp: Allow_def validateSubject_def validateNamespace_def split: if_splits)
  qed
  then have "Allow subject ns op ?gs \<longleftrightarrow> (subject, ns, op) \<in> permissions ?gs"
    by (auto simp: permissions_def Allow_def)
  moreover have "permissions ?gs = {(s, n, p). \<exists>g \<in> set (Grants s ?gs). gr_ns g = n \<and> gr_op g = p}"
    by (auto simp: permissions_def Grants_def list_ex_iff active_grant_def)
  ultimately show ?thesis using perms by (simp add: authz_run_def Allow_def)
qed

end
