(* ===== verification/Bus.thy ===== *)
theory Bus
  imports Prelude "HOL-Library.Sublist"
begin

text \<open>
  The event bus, \<open>internal/bus/bus.go\<close>: every subscriber has a buffered channel of 64 events; a publisher
  never waits and skips subscribers whose buffer is full.  A channel is identified by the number of its
  subscription; closing it leaves what is buffered to the reader.
\<close>

section \<open>The operations\<close>

record bus_event =
  ev_kind :: string
  ev_key :: string
  ev_data :: "(string \<times> string) list"

record channel =
  ch_id :: nat
  ch_buffer :: "bus_event list"
  ch_open :: bool

record bus =
  bu_next :: nat
  bu_channels :: "channel list"

definition capacity :: nat where "capacity = 64"

definition New_bus :: bus where "New_bus = \<lparr>bu_next = 0, bu_channels = []\<rparr>"

definition Subscribe :: "bus \<Rightarrow> nat \<times> bus" where
  "Subscribe b = (bu_next b, b\<lparr>bu_next := Suc (bu_next b),
     bu_channels := bu_channels b @ [\<lparr>ch_id = bu_next b, ch_buffer = [], ch_open = True\<rparr>]\<rparr>)"

definition cancel :: "nat \<Rightarrow> bus \<Rightarrow> bus" where
  "cancel i b = b\<lparr>bu_channels :=
     update_where (\<lambda>c. ch_id c = i \<and> ch_open c) (\<lambda>c. c\<lparr>ch_open := False\<rparr>) (bu_channels b)\<rparr>"

definition Publish :: "bus_event \<Rightarrow> bus \<Rightarrow> bus" where
  "Publish e b = b\<lparr>bu_channels :=
     update_where (\<lambda>c. ch_open c \<and> length (ch_buffer c) < capacity)
       (\<lambda>c. c\<lparr>ch_buffer := ch_buffer c @ [e]\<rparr>) (bu_channels b)\<rparr>"

text \<open>A receive takes the oldest buffered event; \<open>None\<close> when there is none.\<close>

definition receive :: "nat \<Rightarrow> bus \<Rightarrow> bus_event option \<times> bus" where
  "receive i b =
     (case find (\<lambda>c. ch_id c = i) (bu_channels b) of
        None \<Rightarrow> (None, b)
      | Some c \<Rightarrow>
          (case ch_buffer c of
             [] \<Rightarrow> (None, b)
           | e # es \<Rightarrow> (Some e, b\<lparr>bu_channels :=
               update_where (\<lambda>c. ch_id c = i) (\<lambda>c. c\<lparr>ch_buffer := es\<rparr>) (bu_channels b)\<rparr>)))"

section \<open>What a subscriber sees\<close>

datatype bus_op = SubscribeOp | CancelOp nat | PublishOp bus_event | ReceiveOp nat

text \<open>The bus with its history: for every subscription the events published while it was open, and those
  it has received.\<close>

record history =
  hi_bus :: bus
  hi_published :: "nat \<Rightarrow> bus_event list"
  hi_received :: "nat \<Rightarrow> bus_event list"
  hi_lost :: "nat \<Rightarrow> nat"

definition subscribed :: "nat \<Rightarrow> bus \<Rightarrow> bool" where
  "subscribed i b \<longleftrightarrow> (\<exists>c \<in> set (bu_channels b). ch_id c = i \<and> ch_open c)"

definition full :: "nat \<Rightarrow> bus \<Rightarrow> bool" where
  "full i b \<longleftrightarrow> (\<exists>c \<in> set (bu_channels b). ch_id c = i \<and> ch_open c \<and> \<not> length (ch_buffer c) < capacity)"

fun bus_do :: "bus_op \<Rightarrow> history \<Rightarrow> history" where
  "bus_do SubscribeOp h = h\<lparr>hi_bus := snd (Subscribe (hi_bus h))\<rparr>"
| "bus_do (CancelOp i) h = h\<lparr>hi_bus := cancel i (hi_bus h)\<rparr>"
| "bus_do (PublishOp e) h = h\<lparr>hi_bus := Publish e (hi_bus h),
     hi_published := (\<lambda>i. hi_published h i @ (if subscribed i (hi_bus h) then [e] else [])),
     hi_lost := (\<lambda>i. hi_lost h i + (if full i (hi_bus h) then 1 else 0))\<rparr>"
| "bus_do (ReceiveOp i) h =
     (case receive i (hi_bus h) of (r, b) \<Rightarrow>
        h\<lparr>hi_bus := b,
          hi_received := (\<lambda>j. hi_received h j @ (if j = i then (case r of None \<Rightarrow> [] | Some e \<Rightarrow> [e]) else []))\<rparr>)"

definition bus_run :: "bus_op list \<Rightarrow> history" where
  "bus_run ops = fold bus_do ops
     \<lparr>hi_bus = New_bus, hi_published = (\<lambda>_. []), hi_received = (\<lambda>_. []), hi_lost = (\<lambda>_. 0)\<rparr>"

definition channel_ok :: "history \<Rightarrow> channel \<Rightarrow> bool" where
  "channel_ok h c \<longleftrightarrow> length (ch_buffer c) \<le> capacity
     \<and> subseq (hi_received h (ch_id c) @ ch_buffer c) (hi_published h (ch_id c))
     \<and> length (hi_received h (ch_id c) @ ch_buffer c) + hi_lost h (ch_id c) = length (hi_published h (ch_id c))"

definition bus_ok :: "history \<Rightarrow> bool" where
  "bus_ok h \<longleftrightarrow> distinct (map ch_id (bu_channels (hi_bus h)))
     \<and> (\<forall>c \<in> set (bu_channels (hi_bus h)). ch_id c < bu_next (hi_bus h))
     \<and> (\<forall>i \<ge> bu_next (hi_bus h). hi_published h i = [] \<and> hi_received h i = [] \<and> hi_lost h i = 0)
     \<and> (\<forall>c \<in> set (bu_channels (hi_bus h)). channel_ok h c)"

lemma channel_unique:
  "bus_ok h \<Longrightarrow> c \<in> set (bu_channels (hi_bus h)) \<Longrightarrow>
   subscribed (ch_id c) (hi_bus h) = ch_open c
   \<and> full (ch_id c) (hi_bus h) = (ch_open c \<and> \<not> length (ch_buffer c) < capacity)"
  unfolding bus_ok_def subscribed_def full_def by (metis distinct_key_eq)

lemma subseq_snoc: "subseq xs ys \<Longrightarrow> subseq (xs @ [e]) (ys @ [e])"
  by (rule list_emb_append_mono) auto

lemma receive_nothing: "receive i (hi_bus h) = (None, hi_bus h) \<Longrightarrow> bus_do (ReceiveOp i) h = h"
  by (cases h) (simp add: fun_eq_iff)

lemma bus_do_ok: "bus_ok h \<Longrightarrow> bus_ok (bus_do op h)"
proof (cases op)
  case SubscribeOp
  assume ok: "bus_ok h"
  have "distinct (map ch_id (bu_channels (hi_bus h)) @ [bu_next (hi_bus h)])"
    using ok by (force simp: bus_ok_def)
  then show ?thesis
    using ok by (auto simp: SubscribeOp Subscribe_def bus_ok_def channel_ok_def less_Suc_eq)
next
  case (CancelOp i)
  assume "bus_ok h"
  then show ?thesis
    by (auto simp: CancelOp cancel_def bus_ok_def channel_ok_def map_update_where set_update_where)
next
  case (PublishOp e)
  assume ok: "bus_ok h"
  have chan: "channel_ok (bus_do op h) (if ch_open c \<and> length (ch_buffer c) < capacity
      then c\<lparr>ch_buffer := ch_buffer c @ [e]\<rparr> else c)" if "c \<in> set (bu_channels (hi_bus h))" for c
  proof -
    have "channel_ok h c" using ok that by (simp add: bus_ok_def)
    then show ?thesis
      using channel_unique [OF ok that] subseq_snoc [of "hi_received h (ch_id c) @ ch_buffer c" "hi_published h (ch_id c)" e]
      by (auto simp: PublishOp channel_ok_def)
  qed
  have quiet: "\<not> subscribed i (hi_bus h) \<and> \<not> full i (hi_bus h)" if "i \<ge> bu_next (hi_bus h)" for i
    using ok that by (fastforce simp: bus_ok_def subscribed_def full_def)
  have ids: "map ch_id (bu_channels (hi_bus (bus_do op h))) = map ch_id (bu_channels (hi_bus h))"
    by (simp add: PublishOp Publish_def map_update_where)
  have mem: "\<exists>c \<in> set (bu_channels (hi_bus h)). d = (if ch_open c \<and> length (ch_buffer c) < capacity
      then c\<lparr>ch_buffer := ch_buffer c @ [e]\<rparr> else c)" if "d \<in> set (bu_channels (hi_bus (bus_do op h)))" for d
    using that by (auto simp: PublishOp Publish_def update_where_def)
  have nxt: "bu_next (hi_bus (bus_do op h)) = bu_next (hi_bus h)" by (simp add: PublishOp Publish_def)
  have hist: "hi_published (bus_do op h) i = hi_published h i @ (if subscribed i (hi_bus h) then [e] else [])
      \<and> hi_received (bus_do op h) i = hi_received h i
      \<and> hi_lost (bus_do op h) i = hi_lost h i + (if full i (hi_bus h) then 1 else 0)" for i
    by (simp add: PublishOp)
  show ?thesis
    unfolding bus_ok_def
  proof (intro conjI ballI allI impI)
    show "distinct (map ch_id (bu_channels (hi_bus (bus_do op h))))" using ok ids by (simp add: bus_ok_def)
    fix d assume "d \<in> set (bu_channels (hi_bus (bus_do op h)))"
    from mem [OF this] obtain c where c: "c \<in> set (bu_channels (hi_bus h))"
      "d = (if ch_open c \<and> length (ch_buffer c) < capacity then c\<lparr>ch_buffer := ch_buffer c @ [e]\<rparr> else c)" by blast
    show "channel_ok (bus_do op h) d" unfolding c(2) by (rule chan [OF c(1)])
    have "ch_id d = ch_id c" by (simp add: c(2))
    then show "ch_id d < bu_next (hi_bus (bus_do op h))" using ok c(1) nxt by (simp add: bus_ok_def)
  next
    fix i assume "bu_next (hi_bus (bus_do op h)) \<le> i"
    then have i: "bu_next (hi_bus h) \<le> i" using nxt by simp
    then show "hi_published (bus_do op h) i = []" "hi_received (bus_do op h) i = []" "hi_lost (bus_do op h) i = 0"
      using ok quiet [OF i] hist [of i] by (simp_all add: bus_ok_def)
  qed
next
  case (ReceiveOp i)
  assume ok: "bus_ok h"
  show ?thesis
  proof (cases "find (\<lambda>c. ch_id c = i) (bu_channels (hi_bus h))")
    case None
    then have "receive i (hi_bus h) = (None, hi_bus h)" by (simp add: receive_def)
    then show ?thesis using ok receive_nothing by (simp only: ReceiveOp)
  next
    case (Some c)
    then have c: "c \<in> set (bu_channels (hi_bus h))" "ch_id c = i" using find_SomeD [OF Some] by auto
    show ?thesis
    proof (cases "ch_buffer c")
      case Nil
      then have "receive i (hi_bus h) = (None, hi_bus h)" using Some by (simp add: receive_def)
      then show ?thesis using ok receive_nothing by (simp only: ReceiveOp)
    next
      case (Cons e es)
      let ?h = "bus_do op h"
      have chans: "bu_channels (hi_bus ?h) = update_where (\<lambda>c. ch_id c = i) (\<lambda>c. c\<lparr>ch_buffer := es\<rparr>) (bu_channels (hi_bus h))"
        "bu_next (hi_bus ?h) = bu_next (hi_bus h)" "hi_published ?h = hi_published h" "hi_lost ?h = hi_lost h"
        and received: "hi_received ?h j = hi_received h j @ (if j = i then [e] else [])" for j
        using Some Cons by (simp_all add: ReceiveOp receive_def)
      have unique: "d = c" if "d \<in> set (bu_channels (hi_bus h))" "ch_id d = i" for d
        using ok c that distinct_key_eq by (auto simp: bus_ok_def)
      have c_ok: "channel_ok h c" "i < bu_next (hi_bus h)" using ok c by (auto simp: bus_ok_def)
      show ?thesis
        unfolding bus_ok_def
      proof (intro conjI ballI allI impI)
        show "distinct (map ch_id (bu_channels (hi_bus ?h)))"
          using ok by (simp add: chans map_update_where bus_ok_def)
        fix d assume "d \<in> set (bu_channels (hi_bus ?h))"
        then obtain d0 where d0: "d0 \<in> set (bu_channels (hi_bus h))"
          "d = (if ch_id d0 = i then d0\<lparr>ch_buffer := es\<rparr> else d0)"
          unfolding chans(1) by (rule in_update_whereE)
        have d0_ok: "channel_ok h d0" "ch_id d0 < bu_next (hi_bus h)" using ok d0(1) by (simp_all add: bus_ok_def)
        show "channel_ok ?h d"
        proof (cases "ch_id d0 = i")
          case True
          then have "d = c\<lparr>ch_buffer := es\<rparr>" using unique d0 by simp
          then show ?thesis using c_ok(1) Cons c(2) by (simp add: channel_ok_def received chans)
        next
          case False
          then show ?thesis using d0_ok d0(2) by (simp add: channel_ok_def received chans)
        qed
        show "ch_id d < bu_next (hi_bus ?h)" using d0_ok(2) d0(2) chans(2) by simp
      next
        fix j assume "bu_next (hi_bus ?h) \<le> j"
        then have "bu_next (hi_bus h) \<le> j" "j \<noteq> i" using chans(2) c_ok(2) by auto
        then show "hi_published ?h j = []" "hi_received ?h j = []" "hi_lost ?h j = 0"
          using ok by (simp_all add: chans received bus_ok_def)
      qed
    qed
  qed
qed

lemma bus_run_ok: "bus_ok (bus_run ops)"
proof -
  have "bus_ok h \<Longrightarrow> bus_ok (fold bus_do ops h)" for h
    by (induction ops arbitrary: h) (auto dest: bus_do_ok)
  then show ?thesis unfolding bus_run_def by (auto simp: bus_ok_def New_bus_def)
qed

text \<open>C34: the bus delivers in order and counts no event twice.  After any operations, what a
  subscription has received followed by what is buffered for it are events published while it was open, in
  that order and each once, never more than 64 of them buffered; the rest are exactly those published
  while its buffer was full.\<close>

theorem bus_delivery:
  "\<forall>c \<in> set (bu_channels (hi_bus (bus_run ops))).
     length (ch_buffer c) \<le> 64
     \<and> subseq (hi_received (bus_run ops) (ch_id c) @ ch_buffer c) (hi_published (bus_run ops) (ch_id c))
     \<and> length (hi_published (bus_run ops) (ch_id c)) =
         length (hi_received (bus_run ops) (ch_id c)) + length (ch_buffer c) + hi_lost (bus_run ops) (ch_id c)
     \<and> (hi_lost (bus_run ops) (ch_id c) = 0 \<longrightarrow>
         hi_received (bus_run ops) (ch_id c) @ ch_buffer c = hi_published (bus_run ops) (ch_id c))"
proof
  fix c assume "c \<in> set (bu_channels (hi_bus (bus_run ops)))"
  then have "channel_ok (bus_run ops) c" using bus_run_ok by (auto simp: bus_ok_def)
  then show "length (ch_buffer c) \<le> 64
     \<and> subseq (hi_received (bus_run ops) (ch_id c) @ ch_buffer c) (hi_published (bus_run ops) (ch_id c))
     \<and> length (hi_published (bus_run ops) (ch_id c)) =
         length (hi_received (bus_run ops) (ch_id c)) + length (ch_buffer c) + hi_lost (bus_run ops) (ch_id c)
     \<and> (hi_lost (bus_run ops) (ch_id c) = 0 \<longrightarrow>
         hi_received (bus_run ops) (ch_id c) @ ch_buffer c = hi_published (bus_run ops) (ch_id c))"
    using subseq_same_length [of "hi_received (bus_run ops) (ch_id c) @ ch_buffer c" "hi_published (bus_run ops) (ch_id c)"]
    unfolding channel_ok_def capacity_def by simp
qed

lemma demo_bus:
  "bus_run [SubscribeOp, PublishOp e] =
   \<lparr>hi_bus = \<lparr>bu_next = 1, bu_channels = [\<lparr>ch_id = 0, ch_buffer = [e], ch_open = True\<rparr>]\<rparr>,
    hi_published = (\<lambda>i. if i = 0 then [e] else []), hi_received = (\<lambda>_. []), hi_lost = (\<lambda>_. 0)\<rparr>"
  by (simp add: bus_run_def Subscribe_def New_bus_def Publish_def update_where_def capacity_def full_def
      subscribed_def fun_eq_iff)

definition demo_event :: bus_event where
  "demo_event = \<lparr>ev_kind = ''memory'', ev_key = ''n:/k'', ev_data = []\<rparr>"

theorem bus_delivery_witness:
  "hi_received (bus_run [SubscribeOp, PublishOp demo_event]) 0 @ [demo_event]
   = hi_published (bus_run [SubscribeOp, PublishOp demo_event]) 0"
  using bus_delivery [of "[SubscribeOp, PublishOp demo_event]"] by (simp add: demo_bus)

end
