(* ===== verification/Cost.thy ===== *)
theory Cost
  imports GoPath Ledger Bus "HOL-Library.Word"
begin

text \<open>
  Rating model calls (\<open>internal/llm/prices.go\<close> and the call ledger of \<open>llm.go\<close>), the preview of predicted work
  (\<open>internal/cost/preview.go\<close>) and spend reporting with burn-rate alerts (\<open>internal/cost/cost.go\<close>).  Money and
  token counts are 64-bit words, read as signed; sums computed by the database are integers.  The fraction of
  a day, floating point in the code, is an exact rational here.
\<close>

section \<open>Prices\<close>

type_synonym i64 = "64 word"

text \<open>Signed division truncates towards zero.\<close>

definition sdiv64 :: "i64 \<Rightarrow> i64 \<Rightarrow> i64" where
  "sdiv64 a b = word_of_int (sgn (sint a) * sgn (sint b) * (\<bar>sint a\<bar> div \<bar>sint b\<bar>))"

record model_price =
  mp_match :: string
  mp_input :: i64
  mp_output :: i64

record price_table =
  pt_as_of :: string
  pt_models :: "model_price list"

definition price :: "string \<Rightarrow> i64 \<Rightarrow> i64 \<Rightarrow> model_price" where
  "price pattern inp out = \<lparr>mp_match = pattern, mp_input = inp, mp_output = out\<rparr>"

definition defaultPrices :: price_table where
  "defaultPrices = \<lparr>pt_as_of = ''2026-07-06'', pt_models =
     [price ''gpt-5*'' 1250000 10000000,
      price ''claude-*'' 3000000 15000000,
      price ''llama*'' 0 0,
      price ''qwen*'' 0 0,
      price ''*'' 1000000 4000000]\<rparr>"

text \<open>Reading and decoding a file is a parameter.\<close>

definition LoadPrices :: "(string \<Rightarrow> string + price_table) \<Rightarrow> string \<Rightarrow> string + price_table" where
  "LoadPrices read_table override = (if override = [] then Inr defaultPrices else read_table override)"

definition Stale :: "(string \<Rightarrow> instant option) \<Rightarrow> instant \<Rightarrow> duration \<Rightarrow> price_table \<Rightarrow> bool" where
  "Stale parse_day now maxAge t =
     (case parse_day (pt_as_of t) of None \<Rightarrow> True | Some as_of \<Rightarrow> now - as_of > maxAge)"

definition Rate :: "price_table \<Rightarrow> string \<Rightarrow> i64 \<Rightarrow> i64 \<Rightarrow> i64 \<times> bool" where
  "Rate t model promptTokens completionTokens =
     (case find (\<lambda>m. match_path (mp_match m) model) (pt_models t) of
        None \<Rightarrow> (0, False)
      | Some m \<Rightarrow> (sdiv64 (promptTokens * mp_input m) 1000000 + sdiv64 (completionTokens * mp_output m) 1000000, True))"

text \<open>What the call ledger records for a call.\<close>

record llm_call =
  lc_task :: "string option"
  lc_agent :: string
  lc_profile :: string
  lc_model :: string
  lc_prompt :: i64
  lc_completion :: i64
  lc_error :: "string option"
  lc_created :: instant
  lc_cost :: i64

definition call_cost :: "price_table option \<Rightarrow> string \<Rightarrow> i64 \<Rightarrow> i64 \<Rightarrow> i64" where
  "call_cost prices model p c = (case prices of None \<Rightarrow> 0 | Some t \<Rightarrow> fst (Rate t model p c))"

section \<open>Preview\<close>

definition CostPriced :: string where "CostPriced = ''priced''"
definition CostPricedZero :: string where "CostPricedZero = ''priced_zero''"
definition CostRoundedZero :: string where "CostRoundedZero = ''priced_rounded_zero''"
definition CostUnknown :: string where "CostUnknown = ''unknown''"
definition CostNoWork :: string where "CostNoWork = ''no_work''"

record rating =
  ra_micro :: i64
  ra_status :: string

record preview_usage =
  us_stage :: string
  us_model :: string
  us_calls :: i64
  us_prompt :: i64
  us_completion :: i64

record preview_cost =
  co_stage :: string
  co_model :: string
  co_calls :: i64
  co_rating :: rating

record preview =
  pv_micro :: i64
  pv_status :: string
  pv_unpriced :: "string list"
  pv_costs :: "preview_cost list"

definition Preview_Rating :: "preview \<Rightarrow> rating" where
  "Preview_Rating p = \<lparr>ra_micro = pv_micro p, ra_status = pv_status p\<rparr>"

definition unitRates :: "price_table \<Rightarrow> string \<Rightarrow> (i64 \<times> i64) option" where
  "unitRates prices model =
     (case Rate prices model 1000000 0 of
        (_, False) \<Rightarrow> None
      | (inp, True) \<Rightarrow>
          (case Rate prices model 0 1000000 of (_, False) \<Rightarrow> None | (out, True) \<Rightarrow> Some (inp, out)))"

definition RateOne :: "price_table option \<Rightarrow> string \<Rightarrow> i64 \<Rightarrow> i64 \<Rightarrow> i64 \<Rightarrow> rating" where
  "RateOne prices model calls promptTokens completionTokens =
     (if sint calls \<le> 0 \<and> sint promptTokens \<le> 0 \<and> sint completionTokens \<le> 0
      then \<lparr>ra_micro = 0, ra_status = CostNoWork\<rparr>
      else case prices of
        None \<Rightarrow> \<lparr>ra_micro = 0, ra_status = CostUnknown\<rparr>
      | Some t \<Rightarrow>
          if model = [] then \<lparr>ra_micro = 0, ra_status = CostUnknown\<rparr>
          else case Rate t model promptTokens completionTokens of
            (_, False) \<Rightarrow> \<lparr>ra_micro = 0, ra_status = CostUnknown\<rparr>
          | (micro, True) \<Rightarrow>
              if sint micro > 0 then \<lparr>ra_micro = micro, ra_status = CostPriced\<rparr>
              else (case unitRates t model of
                  None \<Rightarrow> \<lparr>ra_micro = 0, ra_status = CostUnknown\<rparr>
                | Some (inp, out) \<Rightarrow>
                    if promptTokens * inp + completionTokens * out = 0
                    then \<lparr>ra_micro = 0, ra_status = CostPricedZero\<rparr>
                    else \<lparr>ra_micro = 0, ra_status = CostRoundedZero\<rparr>))"

text \<open>The running state of the loop: the preview so far and which states occurred.\<close>

record preview_state =
  st_preview :: preview
  st_unknown :: bool
  st_priced :: bool
  st_rounded :: bool
  st_zero :: bool

definition preview_step :: "price_table option \<Rightarrow> preview_usage \<Rightarrow> preview_state \<Rightarrow> preview_state" where
  "preview_step prices u s =
     (let r = RateOne prices (us_model u) (us_calls u) (us_prompt u) (us_completion u);
          p = (st_preview s)\<lparr>pv_costs := pv_costs (st_preview s) @
                [\<lparr>co_stage = us_stage u, co_model = us_model u, co_calls = us_calls u, co_rating = r\<rparr>]\<rparr>
      in if ra_status r = CostUnknown then
           s\<lparr>st_unknown := True, st_preview :=
             (if us_model u \<noteq> [] \<and> us_model u \<notin> set (pv_unpriced p)
              then p\<lparr>pv_unpriced := pv_unpriced p @ [us_model u]\<rparr> else p)\<rparr>
         else if ra_status r = CostPriced then
           s\<lparr>st_priced := True, st_preview := p\<lparr>pv_micro := pv_micro p + ra_micro r\<rparr>\<rparr>
         else if ra_status r = CostRoundedZero then s\<lparr>st_rounded := True, st_preview := p\<rparr>
         else if ra_status r = CostPricedZero then s\<lparr>st_zero := True, st_preview := p\<rparr>
         else s\<lparr>st_preview := p\<rparr>)"

definition preview_status :: "preview_state \<Rightarrow> string" where
  "preview_status s =
     (if st_unknown s then CostUnknown
      else if st_priced s then CostPriced
      else if st_rounded s then CostRoundedZero
      else if st_zero s then CostPricedZero
      else CostNoWork)"

definition empty_preview :: preview_state where
  "empty_preview = \<lparr>st_preview = \<lparr>pv_micro = 0, pv_status = [], pv_unpriced = [], pv_costs = []\<rparr>,
     st_unknown = False, st_priced = False, st_rounded = False, st_zero = False\<rparr>"

definition RatePreview :: "price_table option \<Rightarrow> preview_usage list \<Rightarrow> preview" where
  "RatePreview prices usage =
     (let s = fold (preview_step prices) usage empty_preview
      in (st_preview s)\<lparr>pv_status := preview_status s\<rparr>)"

section \<open>Spend\<close>

definition day_length :: duration where "day_length = 24 * 60 * 60 * 1000000000"

definition dayStart :: "instant \<Rightarrow> instant" where
  "dayStart now = now - now mod day_length"

definition sum_cost :: "(llm_call \<Rightarrow> bool) \<Rightarrow> llm_call list \<Rightarrow> int" where
  "sum_cost P calls = sum_list (map (sint \<circ> lc_cost) (filter P calls))"

definition DailySpendByAgent :: "llm_call list \<Rightarrow> string \<Rightarrow> instant \<Rightarrow> int" where
  "DailySpendByAgent calls agent now = sum_cost (\<lambda>c. lc_agent c = agent \<and> lc_created c \<ge> dayStart now) calls"

record agent_spend =
  as_agent :: string
  as_day :: int
  as_month :: int
  as_tasks :: int
  as_avg :: int

record overview =
  ov_day :: int
  ov_month :: int
  ov_agents :: "agent_spend list"

definition burn_task :: "string \<Rightarrow> task \<Rightarrow> bool" where
  "burn_task agent t \<longleftrightarrow> tk_agent t = agent \<and> tk_status t = StatusCompleted \<and> tk_kind t = ''investigate''"

definition burn_tasks :: "task list \<Rightarrow> llm_call list \<Rightarrow> string \<Rightarrow> string list" where
  "burn_tasks tasks calls agent =
     remdups (map tk_id (filter (\<lambda>t. burn_task agent t \<and> (\<exists>c \<in> set calls. lc_task c = Some (tk_id t))) tasks))"

text \<open>The start of the month is a parameter; the join has one row for every task and call of it.\<close>

definition agent_row :: "(instant \<Rightarrow> instant) \<Rightarrow> task list \<Rightarrow> llm_call list \<Rightarrow> instant \<Rightarrow> string \<Rightarrow> agent_spend" where
  "agent_row monthStart tasks calls now agent =
     (let n = int (length (burn_tasks tasks calls agent));
          total = sum_list (map (\<lambda>t. sum_cost (\<lambda>c. lc_task c = Some (tk_id t)) calls) (filter (burn_task agent) tasks))
      in \<lparr>as_agent = agent,
          as_day = sum_cost (\<lambda>c. lc_agent c = agent \<and> lc_created c \<ge> dayStart now) calls,
          as_month = sum_cost (\<lambda>c. lc_agent c = agent \<and> lc_created c \<ge> monthStart now) calls,
          as_tasks = n, as_avg = (if n > 0 then total div n else 0)\<rparr>)"

definition Summarize :: "(instant \<Rightarrow> instant) \<Rightarrow> task list \<Rightarrow> llm_call list \<Rightarrow> instant \<Rightarrow> overview" where
  "Summarize monthStart tasks calls now =
     \<lparr>ov_day = sum_cost (\<lambda>c. lc_created c \<ge> dayStart now) calls,
      ov_month = sum_cost (\<lambda>c. lc_created c \<ge> monthStart now) calls,
      ov_agents = map (agent_row monthStart tasks calls now)
        (sort (remdups (map lc_agent (filter (\<lambda>c. lc_agent c \<noteq> []) calls))))\<rparr>"

section \<open>Burn-rate alerts\<close>

record projector =
  pr_budget :: int
  pr_last_level :: nat
  pr_last_day :: "instant option"

definition projected_spend :: "int \<Rightarrow> instant \<Rightarrow> int" where
  "projected_spend spent now =
     \<lfloor>rat_of_int spent / max (1 / 100) (rat_of_int (now mod day_length) / rat_of_int day_length)\<rfloor>"

definition alert_level :: "int \<Rightarrow> nat" where
  "alert_level pct = (if pct \<ge> 100 then 100 else if pct \<ge> 80 then 80 else if pct \<ge> 60 then 60 else 0)"

text \<open>The level of the alert the tick publishes, if any, and the state after it.\<close>

definition Tick :: "llm_call list \<Rightarrow> instant \<Rightarrow> projector \<Rightarrow> nat option \<times> projector" where
  "Tick calls now p =
     (if pr_budget p \<le> 0 then (None, p)
      else
        let day = dayStart now;
            p1 = (if pr_last_day p = Some day then p else p\<lparr>pr_last_day := Some day, pr_last_level := 0\<rparr>);
            spent = sum_cost (\<lambda>c. lc_created c \<ge> day) calls;
            pct = projected_spend spent now * 100 div pr_budget p;
            level = alert_level pct
        in if level > pr_last_level p1 then (Some level, p1\<lparr>pr_last_level := level\<rparr>) else (None, p1))"

definition alert_event :: "(nat \<Rightarrow> string) \<Rightarrow> nat \<Rightarrow> bus_event" where
  "alert_event detail level =
     \<lparr>ev_kind = ''cost_alert'', ev_key = nat_str level, ev_data = [(''detail'', detail level)]\<rparr>"

section \<open>Which models the price table rates\<close>

definition plain_char :: "char \<Rightarrow> bool" where
  "plain_char c \<longleftrightarrow> c \<notin> {CHR ''['', CHR ''?'', CHR ''*''} \<and> byte c \<noteq> 92"

lemma match_chunk_plain:
  "list_all plain_char w \<Longrightarrow> match_chunk w s = (if has_prefix s w then Some (drop (length w) s) else None)"
  by (induction w arbitrary: s)
    (auto simp: match_chunk.simps(2) has_prefix_def plain_char_def prefix_Cons neq_Nil_conv split: if_splits)

lemma scan_to_star_plain: "list_all plain_char w \<Longrightarrow> scan_to_star False (w @ ''*'') = (w, ''*'')"
proof (induction w)
  case (Cons c w)
  then obtain d t where "w @ ''*'' = d # t" by (cases w) auto
  with Cons show ?case by (auto simp: plain_char_def)
qed simp

lemma match_star: "match_path ''*'' name \<longleftrightarrow> CHR ''/'' \<notin> set name"
  by (simp add: match_path.simps [of "''*''"] scan_chunk_def)

lemma match_plain_star:
  assumes "list_all plain_char w" "w \<noteq> []"
  shows "match_path (w @ ''*'') name \<longleftrightarrow> has_prefix name w \<and> CHR ''/'' \<notin> set (drop (length w) name)"
proof -
  have "dropWhile (\<lambda>c. c = CHR ''*'') (w @ ''*'') = w @ ''*''"
    using assms by (cases w) (auto simp: plain_char_def)
  then have "scan_chunk (w @ ''*'') = (False, w, ''*'')"
    using scan_to_star_plain [OF assms(1)] by (simp add: scan_chunk_def)
  then show ?thesis
    using match_chunk_plain [OF assms(1)]
    by (simp add: match_path.simps [of "w @ ''*''"] chunk_step_def match_star)
qed

lemma match_default:
  "match_path ''gpt-5*'' name \<longleftrightarrow> has_prefix name ''gpt-5'' \<and> CHR ''/'' \<notin> set (drop (length ''gpt-5'') name)"
  "match_path ''claude-*'' name \<longleftrightarrow> has_prefix name ''claude-'' \<and> CHR ''/'' \<notin> set (drop (length ''claude-'') name)"
  "match_path ''llama*'' name \<longleftrightarrow> has_prefix name ''llama'' \<and> CHR ''/'' \<notin> set (drop (length ''llama'') name)"
  "match_path ''qwen*'' name \<longleftrightarrow> has_prefix name ''qwen'' \<and> CHR ''/'' \<notin> set (drop (length ''qwen'') name)"
  using match_plain_star [of "''gpt-5''" name] match_plain_star [of "''claude-''" name]
    match_plain_star [of "''llama''" name] match_plain_star [of "''qwen''" name]
  by (simp_all add: plain_char_def byte_def)

lemma slash_after_prefix:
  assumes "CHR ''/'' \<in> set name" "has_prefix name w" "CHR ''/'' \<notin> set w"
  shows "CHR ''/'' \<in> set (drop (length w) name)"
proof -
  have "name = w @ drop (length w) name" using assms(2) by (metis append_take_drop_id has_prefix_def)
  then have "set name = set w \<union> set (drop (length w) name)" by (metis set_append)
  then show ?thesis using assms(1, 3) by blast
qed

lemma default_slash:
  assumes "CHR ''/'' \<in> set model"
  shows "Rate defaultPrices model p c = (0, False)"
proof -
  note after = slash_after_prefix [OF assms]
  show ?thesis
    using after [of "''gpt-5''"] after [of "''claude-''"] after [of "''llama''"] after [of "''qwen''"] assms
    by (auto simp: Rate_def defaultPrices_def price_def match_default match_star)
qed

lemma default_no_slash:
  assumes "CHR ''/'' \<notin> set model"
  shows "snd (Rate defaultPrices model p c)"
  using assms by (simp add: Rate_def defaultPrices_def price_def match_star)

text \<open>The shipped price table does not rate every model.  Its last pattern is a star, which
  never crosses a slash: a model is rated precisely when its name has none, so the table can answer
  "unknown" without being empty, and a call to a model such as one named vendor/model is recorded with
  cost 0, which the daily spend and every budget built on it then leave out.\<close>

lemma default_table_gap:
  "(snd (Rate defaultPrices model p c) \<longleftrightarrow> CHR ''/'' \<notin> set model)
   \<and> (CHR ''/'' \<in> set model \<longrightarrow>
        call_cost (Some defaultPrices) model p c = 0
        \<and> DailySpendByAgent (calls @ [\<lparr>lc_task = task, lc_agent = agent, lc_profile = profile, lc_model = model,
            lc_prompt = p, lc_completion = c, lc_error = None, lc_created = now,
            lc_cost = call_cost (Some defaultPrices) model p c\<rparr>]) agent now
          = DailySpendByAgent calls agent now)"
  using default_slash [of model p c] default_no_slash [of model p c]
  by (auto simp: call_cost_def DailySpendByAgent_def sum_cost_def)

lemma default_table_gap_witness:
  "\<not> snd (Rate defaultPrices ''openai/gpt-5'' 1000000 0) \<and> snd (Rate defaultPrices ''gpt-5'' 1000000 0)
   \<and> call_cost (Some defaultPrices) ''openai/gpt-5'' 1000000 0 = 0"
  using default_table_gap [of "''openai/gpt-5''" 1000000 0] default_table_gap [of "''gpt-5''" 1000000 0] by simp

section \<open>Rating is exact up to rounding\<close>

lemma sint_bounded_int: "- (2 ^ 63) \<le> n \<Longrightarrow> n < 2 ^ 63 \<Longrightarrow> sint (word_of_int n :: i64) = n"
  by (simp add: sint_sbintrunc' signed_take_bit_int_eq_self)

lemma million_fits:
  fixes x :: int
  assumes "0 \<le> x" "x < 2 ^ 63"
  shows "0 \<le> x div 1000000" "x div 1000000 < 2 ^ 62"
  using assms by (simp_all add: pos_imp_zdiv_nonneg_iff div_less_iff_less_mult)

lemma sdiv64_product:
  fixes a b :: i64
  assumes "0 \<le> sint a" "0 \<le> sint b" "sint a * sint b < 2 ^ 63"
  shows "sint (sdiv64 (a * b) 1000000) = sint a * sint b div 1000000"
proof -
  have "a * b = word_of_int (sint a * sint b)" by (simp add: wi_hom_mult [symmetric])
  then have prod: "sint (a * b) = sint a * sint b"
    using assms sint_bounded_int [of "sint a * sint b"] mult_nonneg_nonneg [OF assms(1, 2)] by simp
  have nonneg: "0 \<le> sint a * sint b" using assms by simp
  have million: "sint (1000000 :: i64) = 1000000" by simp
  have "sgn (sint (a * b)) * sgn (sint (1000000 :: i64)) * (\<bar>sint (a * b)\<bar> div \<bar>sint (1000000 :: i64)\<bar>)
      = sint a * sint b div 1000000"
    using nonneg by (cases "sint a * sint b = 0") (auto simp: prod million sgn_if)
  moreover have "0 \<le> sint a * sint b div 1000000" "sint a * sint b div 1000000 < 2 ^ 63"
    using million_fits [OF nonneg assms(3)] by simp_all
  ultimately show ?thesis unfolding sdiv64_def using sint_bounded_int [of "sint a * sint b div 1000000"] by simp
qed

lemma two_roundings:
  fixes i k :: int
  shows "(i div 1000000 + k div 1000000) * 1000000 \<le> i + k \<and> i + k < (i div 1000000 + k div 1000000 + 2) * 1000000"
  by presburger

text \<open>A rated call is never overcharged and loses less than two microdollars.  While tokens and
  prices are not negative and each product of tokens and price fits in 63 bits, no operation of the
  rating wraps, and the recorded cost is the exact price rounded down by less than two units.\<close>

lemma Rate_rounds_down:
  assumes "find (\<lambda>m. match_path (mp_match m) model) (pt_models t) = Some m"
    and "0 \<le> sint p" "0 \<le> sint c" "0 \<le> sint (mp_input m)" "0 \<le> sint (mp_output m)"
    and "sint p * sint (mp_input m) < 2 ^ 63" "sint c * sint (mp_output m) < 2 ^ 63"
  shows "snd (Rate t model p c)
    \<and> sint (fst (Rate t model p c)) = sint p * sint (mp_input m) div 1000000 + sint c * sint (mp_output m) div 1000000
    \<and> sint (fst (Rate t model p c)) * 1000000 \<le> sint p * sint (mp_input m) + sint c * sint (mp_output m)
    \<and> sint p * sint (mp_input m) + sint c * sint (mp_output m) < (sint (fst (Rate t model p c)) + 2) * 1000000"
proof -
  let ?i = "sint p * sint (mp_input m)" and ?o = "sint c * sint (mp_output m)"
  let ?x = "sdiv64 (p * mp_input m) 1000000" and ?y = "sdiv64 (c * mp_output m) 1000000"
  have x: "sint ?x = ?i div 1000000" and y: "sint ?y = ?o div 1000000"
    using assms by (simp_all add: sdiv64_product)
  have pos: "0 \<le> ?i" "0 \<le> ?o" using assms by simp_all
  have bounds: "?i div 1000000 < 2 ^ 62" "?o div 1000000 < 2 ^ 62"
    using assms(6, 7) by (simp_all add: div_less_iff_less_mult)
  have "?x + ?y = word_of_int (sint ?x + sint ?y)" by (simp add: wi_hom_add [symmetric])
  then have sum: "sint (?x + ?y) = ?i div 1000000 + ?o div 1000000"
    using sint_bounded_int [of "?i div 1000000 + ?o div 1000000"] bounds pos x y
    by (simp add: pos_imp_zdiv_nonneg_iff)
  have rated: "Rate t model p c = (?x + ?y, True)" using assms(1) by (simp add: Rate_def)
  show ?thesis unfolding rated fst_conv snd_conv sum using two_roundings [of ?i ?o] by blast
qed

lemma Rate_rounds_down_witness:
  "sint (fst (Rate defaultPrices ''gpt-5'' 999999 7)) = 999999 * 1250000 div 1000000 + 7 * 10000000 div 1000000"
proof -
  have "find (\<lambda>m. match_path (mp_match m) ''gpt-5'') (pt_models defaultPrices) = Some (price ''gpt-5*'' 1250000 10000000)"
    by (simp add: defaultPrices_def price_def match_default has_prefix_def)
  from Rate_rounds_down [OF this, of 999999 7] show ?thesis by (simp add: price_def)
qed

section \<open>The preview\<close>

definition usage_rating :: "price_table option \<Rightarrow> preview_usage \<Rightarrow> rating" where
  "usage_rating prices u = RateOne prices (us_model u) (us_calls u) (us_prompt u) (us_completion u)"

lemmas cost_states = CostPriced_def CostPricedZero_def CostRoundedZero_def CostUnknown_def CostNoWork_def

lemma Rate_ok_any: "snd (Rate t model p c) = snd (Rate t model p' c')"
  by (simp add: Rate_def split: option.splits)

lemma unitRates_rated: "snd (Rate t model p c) \<Longrightarrow> unitRates t model \<noteq> None"
  using Rate_ok_any [of t model p c 1000000 0] Rate_ok_any [of t model p c 0 1000000]
  by (auto simp: unitRates_def split: prod.splits bool.splits)

definition has_work :: "preview_usage \<Rightarrow> bool" where
  "has_work u \<longleftrightarrow> 0 < sint (us_calls u) \<or> 0 < sint (us_prompt u) \<or> 0 < sint (us_completion u)"

definition table_rates :: "price_table option \<Rightarrow> string \<Rightarrow> bool" where
  "table_rates prices model \<longleftrightarrow> (case prices of None \<Rightarrow> False | Some t \<Rightarrow> model \<noteq> [] \<and> snd (Rate t model 0 0))"

lemma usage_rating_cases:
  obtains (none) "\<not> has_work u" "usage_rating prices u = \<lparr>ra_micro = 0, ra_status = CostNoWork\<rparr>"
  | (unknown) "has_work u" "\<not> table_rates prices (us_model u)"
      "usage_rating prices u = \<lparr>ra_micro = 0, ra_status = CostUnknown\<rparr>"
  | (priced) micro where "has_work u" "table_rates prices (us_model u)" "0 < sint micro"
      "usage_rating prices u = \<lparr>ra_micro = micro, ra_status = CostPriced\<rparr>"
  | (zero) "has_work u" "table_rates prices (us_model u)"
      "usage_rating prices u = \<lparr>ra_micro = 0, ra_status = CostPricedZero\<rparr>"
  | (rounded) "has_work u" "table_rates prices (us_model u)"
      "usage_rating prices u = \<lparr>ra_micro = 0, ra_status = CostRoundedZero\<rparr>"
proof (cases "has_work u")
  case False
  then show ?thesis using none by (simp add: has_work_def usage_rating_def RateOne_def not_less)
next
  case work: True
  then have start: "\<not> (sint (us_calls u) \<le> 0 \<and> sint (us_prompt u) \<le> 0 \<and> sint (us_completion u) \<le> 0)"
    by (auto simp: has_work_def)
  show ?thesis
  proof (cases "table_rates prices (us_model u)")
    case False
    have "usage_rating prices u = \<lparr>ra_micro = 0, ra_status = CostUnknown\<rparr>"
    proof (cases prices)
      case None
      then show ?thesis unfolding usage_rating_def RateOne_def if_not_P [OF start] using None by simp
    next
      case (Some t)
      then have "us_model u \<noteq> [] \<Longrightarrow> \<not> snd (Rate t (us_model u) (us_prompt u) (us_completion u))"
        using False Rate_ok_any [of t "us_model u" "us_prompt u" "us_completion u" 0 0]
        by (simp add: table_rates_def)
      then show ?thesis unfolding usage_rating_def RateOne_def if_not_P [OF start] using Some
        by (cases "Rate t (us_model u) (us_prompt u) (us_completion u)") auto
    qed
    then show ?thesis using work False unknown by blast
  next
    case True
    then obtain t where t: "prices = Some t" "us_model u \<noteq> []" "snd (Rate t (us_model u) 0 0)"
      by (auto simp: table_rates_def split: option.splits)
    obtain micro where micro: "Rate t (us_model u) (us_prompt u) (us_completion u) = (micro, True)"
      using Rate_ok_any [of t "us_model u" 0 0 "us_prompt u" "us_completion u"] t(3) by (metis prod.collapse)
    obtain inp out where unit: "unitRates t (us_model u) = Some (inp, out)"
      using unitRates_rated [OF t(3)] by auto
    have "usage_rating prices u =
        (if 0 < sint micro then \<lparr>ra_micro = micro, ra_status = CostPriced\<rparr>
         else if us_prompt u * inp + us_completion u * out = 0 then \<lparr>ra_micro = 0, ra_status = CostPricedZero\<rparr>
         else \<lparr>ra_micro = 0, ra_status = CostRoundedZero\<rparr>)"
      unfolding usage_rating_def RateOne_def if_not_P [OF start] using t(1, 2) by (simp add: micro unit)
    then show ?thesis using work True priced zero rounded by presburger
  qed
qed

definition rated_usages :: "price_table option \<Rightarrow> string \<Rightarrow> preview_usage list \<Rightarrow> preview_usage list" where
  "rated_usages prices status usage = filter (\<lambda>u. ra_status (usage_rating prices u) = status) usage"

lemma cost_states_distinct [simp]:
  "CostUnknown \<noteq> CostPriced" "CostUnknown \<noteq> CostRoundedZero" "CostUnknown \<noteq> CostPricedZero" "CostUnknown \<noteq> CostNoWork"
  "CostPriced \<noteq> CostRoundedZero" "CostPriced \<noteq> CostPricedZero" "CostPriced \<noteq> CostNoWork"
  "CostRoundedZero \<noteq> CostPricedZero" "CostRoundedZero \<noteq> CostNoWork" "CostPricedZero \<noteq> CostNoWork"
  by (simp_all add: cost_states)

lemmas cost_states_distinct' [simp] = cost_states_distinct [symmetric]

lemma preview_fold:
  "let s = fold (preview_step prices) usage empty_preview in
   pv_costs (st_preview s) = map (\<lambda>u. \<lparr>co_stage = us_stage u, co_model = us_model u, co_calls = us_calls u,
       co_rating = usage_rating prices u\<rparr>) usage
   \<and> pv_micro (st_preview s) = sum_list (map (\<lambda>u. ra_micro (usage_rating prices u)) usage)
   \<and> distinct (pv_unpriced (st_preview s))
   \<and> set (pv_unpriced (st_preview s)) = us_model ` set (rated_usages prices CostUnknown usage) - {[]}
   \<and> (st_unknown s \<longleftrightarrow> rated_usages prices CostUnknown usage \<noteq> [])
   \<and> (st_priced s \<longleftrightarrow> rated_usages prices CostPriced usage \<noteq> [])
   \<and> (st_rounded s \<longleftrightarrow> rated_usages prices CostRoundedZero usage \<noteq> [])
   \<and> (st_zero s \<longleftrightarrow> rated_usages prices CostPricedZero usage \<noteq> [])"
proof (induction usage rule: rev_induct)
  case Nil
  then show ?case by (simp add: empty_preview_def rated_usages_def)
next
  case (snoc u usage)
  let ?s = "fold (preview_step prices) usage empty_preview"
  have step: "fold (preview_step prices) (usage @ [u]) empty_preview = preview_step prices u ?s" by simp
  show ?case
    using snoc unfolding step Let_def preview_step_def usage_rating_def [symmetric] rated_usages_def
    by (cases rule: usage_rating_cases [of u prices]) auto
qed

text \<open>The preview never shows an unknown price as a cost.  Its costs are the ratings of the usages,
  one each and in order; the total sums them; the status is unknown precisely when some usage with work has
  no table, no model name or no matching price, otherwise priced when some usage costs something, and
  only then can the total be nonzero; the models listed as unpriced are exactly the named models of the
  unrated usages, each once.\<close>

lemma RatePreview_honest:
  "pv_costs (RatePreview prices usage) = map (\<lambda>u. \<lparr>co_stage = us_stage u, co_model = us_model u,
       co_calls = us_calls u, co_rating = usage_rating prices u\<rparr>) usage
   \<and> pv_micro (RatePreview prices usage) = sum_list (map (\<lambda>u. ra_micro (usage_rating prices u)) usage)
   \<and> (pv_status (RatePreview prices usage) = CostUnknown \<longleftrightarrow>
        (\<exists>u \<in> set usage. has_work u \<and> \<not> table_rates prices (us_model u)))
   \<and> (pv_status (RatePreview prices usage) = CostPriced \<longleftrightarrow>
        (\<forall>u \<in> set usage. has_work u \<longrightarrow> table_rates prices (us_model u))
        \<and> (\<exists>u \<in> set usage. 0 < sint (ra_micro (usage_rating prices u))))
   \<and> (pv_status (RatePreview prices usage) = CostNoWork \<longleftrightarrow> (\<forall>u \<in> set usage. \<not> has_work u))
   \<and> distinct (pv_unpriced (RatePreview prices usage))
   \<and> set (pv_unpriced (RatePreview prices usage)) =
       us_model ` {u \<in> set usage. has_work u \<and> \<not> table_rates prices (us_model u)} - {[]}"
proof -
  have unknown: "ra_status (usage_rating prices u) = CostUnknown \<longleftrightarrow> has_work u \<and> \<not> table_rates prices (us_model u)"
    and priced: "ra_status (usage_rating prices u) = CostPriced \<longleftrightarrow> 0 < sint (ra_micro (usage_rating prices u))"
    and none: "has_work u \<longleftrightarrow> ra_status (usage_rating prices u) \<in> {CostUnknown, CostPriced, CostRoundedZero, CostPricedZero}" for u
    by (cases rule: usage_rating_cases [of u prices]; simp)+
  define s where "s = fold (preview_step prices) usage empty_preview"
  have folded: "pv_costs (st_preview s) = map (\<lambda>u. \<lparr>co_stage = us_stage u, co_model = us_model u, co_calls = us_calls u,
       co_rating = usage_rating prices u\<rparr>) usage"
    "pv_micro (st_preview s) = sum_list (map (\<lambda>u. ra_micro (usage_rating prices u)) usage)"
    "distinct (pv_unpriced (st_preview s))"
    "set (pv_unpriced (st_preview s)) = us_model ` {u \<in> set usage. has_work u \<and> \<not> table_rates prices (us_model u)} - {[]}"
    "st_unknown s \<longleftrightarrow> (\<exists>u \<in> set usage. ra_status (usage_rating prices u) = CostUnknown)"
    "st_priced s \<longleftrightarrow> (\<exists>u \<in> set usage. ra_status (usage_rating prices u) = CostPriced)"
    "st_rounded s \<longleftrightarrow> (\<exists>u \<in> set usage. ra_status (usage_rating prices u) = CostRoundedZero)"
    "st_zero s \<longleftrightarrow> (\<exists>u \<in> set usage. ra_status (usage_rating prices u) = CostPricedZero)"
    using preview_fold [of prices usage] unfolding s_def [symmetric]
    by (simp_all add: Let_def rated_usages_def filter_empty_conv unknown)
  have by_flags: "preview_status s = CostUnknown \<longleftrightarrow> st_unknown s"
    "preview_status s = CostPriced \<longleftrightarrow> \<not> st_unknown s \<and> st_priced s"
    "preview_status s = CostNoWork \<longleftrightarrow> \<not> (st_unknown s \<or> st_priced s \<or> st_rounded s \<or> st_zero s)"
    by (simp_all add: preview_status_def)
  have status: "preview_status s = CostUnknown \<longleftrightarrow> (\<exists>u \<in> set usage. has_work u \<and> \<not> table_rates prices (us_model u))"
    unfolding by_flags folded(5) unknown ..
  have status_priced: "preview_status s = CostPriced \<longleftrightarrow> (\<forall>u \<in> set usage. has_work u \<longrightarrow> table_rates prices (us_model u))
        \<and> (\<exists>u \<in> set usage. 0 < sint (ra_micro (usage_rating prices u)))"
    unfolding by_flags folded(5, 6) unknown priced by blast
  have status_none: "preview_status s = CostNoWork \<longleftrightarrow> (\<forall>u \<in> set usage. \<not> has_work u)"
    unfolding by_flags folded(5-8) none by blast
  have "RatePreview prices usage = (st_preview s)\<lparr>pv_status := preview_status s\<rparr>"
    unfolding RatePreview_def Let_def s_def ..
  then have fields: "pv_costs (RatePreview prices usage) = pv_costs (st_preview s)"
    "pv_micro (RatePreview prices usage) = pv_micro (st_preview s)"
    "pv_status (RatePreview prices usage) = preview_status s"
    "pv_unpriced (RatePreview prices usage) = pv_unpriced (st_preview s)"
    by simp_all
  show ?thesis unfolding fields by (intro conjI folded(1-4) status status_priced status_none)
qed

lemma RatePreview_honest_witness:
  "pv_status (RatePreview (Some defaultPrices)
     [\<lparr>us_stage = ''mine'', us_model = ''llama3'', us_calls = 1, us_prompt = 10, us_completion = 0\<rparr>,
      \<lparr>us_stage = ''mine'', us_model = ''vendor/m'', us_calls = 1, us_prompt = 10, us_completion = 0\<rparr>]) = CostUnknown"
proof -
  have "\<not> table_rates (Some defaultPrices) ''vendor/m''" by (simp add: table_rates_def default_slash)
  then show ?thesis
    using RatePreview_honest [of "Some defaultPrices"
     "[\<lparr>us_stage = ''mine'', us_model = ''llama3'', us_calls = 1, us_prompt = 10, us_completion = 0\<rparr>,
      \<lparr>us_stage = ''mine'', us_model = ''vendor/m'', us_calls = 1, us_prompt = 10, us_completion = 0\<rparr>]"]
    by (simp add: has_work_def)
qed

section \<open>Alerts\<close>

text \<open>A sequence of ticks, each with the calls recorded so far and the time: the alerts published, with
  their day.\<close>

fun tick_run :: "(llm_call list \<times> instant) list \<Rightarrow> projector \<Rightarrow> (instant \<times> nat) list" where
  "tick_run [] p = []"
| "tick_run ((calls, now) # ts) p =
     (case Tick calls now p of
        (None, p') \<Rightarrow> tick_run ts p'
      | (Some level, p') \<Rightarrow> (dayStart now, level) # tick_run ts p')"

definition New_projector :: "int \<Rightarrow> projector" where
  "New_projector budget = \<lparr>pr_budget = budget, pr_last_level = 0, pr_last_day = None\<rparr>"

definition tick_level :: "int \<Rightarrow> llm_call list \<times> instant \<Rightarrow> nat" where
  "tick_level budget = (\<lambda>(calls, now). alert_level
     (projected_spend (sum_cost (\<lambda>c. lc_created c \<ge> dayStart now) calls) now * 100 div budget))"

lemma dayStart_mono: "s \<le> t \<Longrightarrow> dayStart s \<le> dayStart t"
proof -
  assume "s \<le> t"
  then have "s div day_length * day_length \<le> t div day_length * day_length"
    by (intro mult_right_mono zdiv_mono1) (simp_all add: day_length_def)
  then show ?thesis by (simp add: dayStart_def minus_mod_eq_div_mult)
qed

definition alert_before :: "instant \<times> nat \<Rightarrow> instant \<times> nat \<Rightarrow> bool" where
  "alert_before a b \<longleftrightarrow> fst a < fst b \<or> fst a = fst b \<and> snd a < snd b"

definition level_on :: "projector \<Rightarrow> instant \<Rightarrow> nat" where
  "level_on p day = (if pr_last_day p = Some day then pr_last_level p else 0)"

lemma Tick_eq:
  assumes "0 < pr_budget p"
  shows "Tick calls now p =
    (let level = tick_level (pr_budget p) (calls, now); old = level_on p (dayStart now)
     in (if old < level then Some level else None,
         p\<lparr>pr_last_day := Some (dayStart now), pr_last_level := max old level\<rparr>))"
  using assms
  by (cases "pr_last_day p = Some (dayStart now)"; cases p)
    (simp_all add: Tick_def tick_level_def level_on_def Let_def max_def)

definition alerts_sound :: "int \<Rightarrow> (llm_call list \<times> instant) list \<Rightarrow> instant \<times> nat \<Rightarrow> (instant \<times> nat) list \<Rightarrow> bool" where
  "alerts_sound budget ts start alerts \<longleftrightarrow>
     sorted_wrt alert_before alerts
     \<and> (\<forall>a \<in> set alerts. alert_before start a \<and> 0 < snd a \<and> (\<exists>t \<in> set ts. fst a = dayStart (snd t) \<and> snd a = tick_level budget t))
     \<and> (\<forall>t \<in> set ts. tick_level budget t > 0 \<longrightarrow>
          (fst start = dayStart (snd t) \<and> tick_level budget t \<le> snd start)
          \<or> (\<exists>level \<ge> tick_level budget t. (dayStart (snd t), level) \<in> set alerts))"

lemma alerts_sound_step:
  assumes "alerts_sound budget ts (d', max old level) alerts" "d \<le> d'" "old = (if d = d' then l else 0)"
    and "dayStart (snd t) = d'" "tick_level budget t = level"
  shows "alerts_sound budget (t # ts) (d, l) (if old < level then (d', level) # alerts else alerts)"
proof -
  let ?after = "if old < level then (d', level) # alerts else alerts"
  have sorted: "sorted_wrt alert_before alerts"
    and all: "\<forall>a \<in> set alerts. alert_before (d', max old level) a \<and> 0 < snd a \<and> (\<exists>t \<in> set ts. fst a = dayStart (snd t) \<and> snd a = tick_level budget t)"
    and covered: "\<forall>u \<in> set ts. tick_level budget u > 0 \<longrightarrow> (d' = dayStart (snd u) \<and> tick_level budget u \<le> max old level)
          \<or> (\<exists>level \<ge> tick_level budget u. (dayStart (snd u), level) \<in> set alerts)"
    using assms(1) by (simp_all add: alerts_sound_def)
  have after: "alert_before (d, l) a" if "alert_before (d', max old level) a" for a
    using that assms(2, 3) by (auto simp: alert_before_def split: if_splits)
  have first: "alert_before (d, l) (d', level)" if "old < level"
    using that assms(2, 3) by (auto simp: alert_before_def split: if_splits)
  have "sorted_wrt alert_before ?after"
    using sorted all by (cases "old < level") simp_all
  moreover have "\<forall>a \<in> set ?after. alert_before (d, l) a \<and> 0 < snd a \<and> (\<exists>t \<in> set (t # ts). fst a = dayStart (snd t) \<and> snd a = tick_level budget t)"
    using all after first assms(4, 5) by auto
  moreover have "(d = dayStart (snd u) \<and> tick_level budget u \<le> l) \<or> (\<exists>level \<ge> tick_level budget u. (dayStart (snd u), level) \<in> set ?after)"
    if u: "u \<in> set (t # ts)" "tick_level budget u > 0" for u
  proof (cases "\<exists>level \<ge> tick_level budget u. (dayStart (snd u), level) \<in> set alerts")
    case True
    then show ?thesis by auto
  next
    case False
    then have "d' = dayStart (snd u)" "tick_level budget u \<le> max old level" using covered u assms(4, 5) by auto
    then show ?thesis using u(2) assms(3) by (auto simp: max_def split: if_splits)
  qed
  ultimately show ?thesis unfolding alerts_sound_def fst_conv snd_conv by blast
qed

lemma tick_run_sound:
  "0 < pr_budget p \<Longrightarrow> sorted (map snd ts) \<Longrightarrow> pr_last_day p = Some d \<Longrightarrow> \<forall>t \<in> set ts. d \<le> dayStart (snd t) \<Longrightarrow>
   alerts_sound (pr_budget p) ts (d, pr_last_level p) (tick_run ts p)"
proof (induction ts arbitrary: p d)
  case Nil
  then show ?case by (simp add: alerts_sound_def)
next
  case (Cons t ts)
  obtain calls now where t: "t = (calls, now)" by (cases t)
  define level where "level = tick_level (pr_budget p) t"
  define old where "old = level_on p (dayStart now)"
  define p' where "p' = p\<lparr>pr_last_day := Some (dayStart now), pr_last_level := max old level\<rparr>"
  have tick: "Tick calls now p = (if old < level then Some level else None, p')"
    using Tick_eq [OF Cons.prems(1), of calls now] by (simp add: Let_def level_def old_def p'_def t)
  have run: "tick_run (t # ts) p = (if old < level then (dayStart now, level) # tick_run ts p' else tick_run ts p')"
    by (simp add: t tick)
  have "\<forall>u \<in> set ts. dayStart now \<le> dayStart (snd u)" "sorted (map snd ts)"
    using Cons.prems(2) by (auto simp: t intro: dayStart_mono)
  then have "alerts_sound (pr_budget p) ts (dayStart now, max old level) (tick_run ts p')"
    using Cons.IH [of p' "dayStart now"] Cons.prems(1) by (simp add: p'_def)
  from alerts_sound_step [OF this, of d "pr_last_level p" t] Cons.prems(3, 4)
  show ?case unfolding run by (auto simp: t level_def old_def level_on_def)
qed

lemma tick_run_fresh:
  "0 < budget \<Longrightarrow> tick_run (t # ts) (New_projector budget) =
     tick_run (t # ts) \<lparr>pr_budget = budget, pr_last_level = 0, pr_last_day = Some (dayStart (snd t))\<rparr>"
  by (cases t) (simp add: Tick_eq New_projector_def level_on_def Let_def)

text \<open>Each burn-rate alert is published once per day.  While the clock does not go back, the alerts
  of a day have strictly increasing levels, each of them 60, 80 or 100 and the level some tick of that day
  computed; and no crossing is missed: a tick whose projection reaches a level has been preceded, or is
  itself answered, by an alert of that day at that level or above.\<close>

lemma Tick_once_per_level:
  assumes "0 < budget" and "sorted (map snd ts)"
  shows "sorted_wrt alert_before (tick_run ts (New_projector budget))
    \<and> (\<forall>a \<in> set (tick_run ts (New_projector budget)). snd a \<in> {60, 80, 100}
         \<and> (\<exists>t \<in> set ts. fst a = dayStart (snd t) \<and> snd a = tick_level budget t))
    \<and> (\<forall>t \<in> set ts. tick_level budget t > 0 \<longrightarrow>
         (\<exists>level \<ge> tick_level budget t. (dayStart (snd t), level) \<in> set (tick_run ts (New_projector budget))))"
proof (cases ts)
  case Nil
  then show ?thesis by simp
next
  case (Cons t us)
  let ?p = "\<lparr>pr_budget = budget, pr_last_level = 0, pr_last_day = Some (dayStart (snd t))\<rparr>"
  have "alerts_sound budget ts (dayStart (snd t), 0) (tick_run ts ?p)"
    using tick_run_sound [of ?p ts "dayStart (snd t)"] assms by (auto simp: Cons intro: dayStart_mono)
  moreover have "tick_run ts (New_projector budget) = tick_run ts ?p"
    using tick_run_fresh [OF assms(1)] by (simp add: Cons)
  ultimately have sound: "alerts_sound budget ts (dayStart (snd t), 0) (tick_run ts (New_projector budget))" by simp
  then have "sorted_wrt alert_before (tick_run ts (New_projector budget))" by (simp add: alerts_sound_def)
  moreover have "\<forall>a \<in> set (tick_run ts (New_projector budget)). 0 < snd a
       \<and> (\<exists>t \<in> set ts. fst a = dayStart (snd t) \<and> snd a = tick_level budget t)"
    using sound by (simp add: alerts_sound_def)
  moreover have "\<forall>t \<in> set ts. tick_level budget t > 0 \<longrightarrow>
       (\<exists>level \<ge> tick_level budget t. (dayStart (snd t), level) \<in> set (tick_run ts (New_projector budget)))"
    using sound by (auto simp: alerts_sound_def)
  moreover have "snd a \<in> {60, 80, 100}" if "0 < snd a" "snd a = tick_level budget u" for a :: "instant \<times> nat" and u
    using that by (cases u) (simp add: tick_level_def alert_level_def split: if_splits)
  ultimately show ?thesis by blast
qed

definition demo_call :: "int \<Rightarrow> llm_call" where
  "demo_call usd = \<lparr>lc_task = None, lc_agent = ''a'', lc_profile = ''p'', lc_model = ''m'', lc_prompt = 0,
     lc_completion = 0, lc_error = None, lc_created = 0, lc_cost = word_of_int usd\<rparr>"

lemma Tick_once_per_level_witness:
  "tick_run [([demo_call 300], 43200000000000), ([demo_call 400], 43200000000000), ([demo_call 300], 43200000000000)]
     (New_projector 1000) = [(0, 60), (0, 80)]
   \<and> (\<exists>level \<ge> 80. (0, level) \<in> set (tick_run [([demo_call 300], 43200000000000), ([demo_call 400], 43200000000000),
        ([demo_call 300], 43200000000000)] (New_projector 1000)))"
proof -
  let ?ts = "[([demo_call 300], 43200000000000), ([demo_call 400], 43200000000000), ([demo_call 300], 43200000000000)]"
  have level: "tick_level 1000 ([demo_call 300], 43200000000000) = 60" "tick_level 1000 ([demo_call 400], 43200000000000) = 80"
    by (simp_all add: tick_level_def alert_level_def projected_spend_def sum_cost_def demo_call_def dayStart_def day_length_def)
  have day: "dayStart 43200000000000 = 0" by (simp add: dayStart_def day_length_def)
  have "\<exists>level \<ge> 80. (0, level) \<in> set (tick_run ?ts (New_projector 1000))"
    using Tick_once_per_level [of 1000 ?ts] by (simp add: level day)
  then show ?thesis
    by (simp add: level day Tick_eq New_projector_def level_on_def Let_def)
qed

end
