(* ===== verification/Recovery.thy ===== *)
theory Recovery
  imports Pipeline
begin

text \<open>
  What a recovery pass of the enrichment pipeline finds (\<open>recoverPipelineRuns\<close>), and the one kind of work it can
  never finish: a pending run whose fact has expired.  The witnesses of the pipeline's properties are here
  too.
\<close>

section \<open>What is recovered\<close>

definition recoverable :: "instant \<Rightarrow> pipeline_run \<Rightarrow> bool" where
  "recoverable now r \<longleftrightarrow> rn_status r = RunPending
     \<or> (rn_status r = RunRunning \<and> (case rn_started r of None \<Rightarrow> False | Some t \<Rightarrow> t < now - pipelineRunLease))
     \<or> (rn_status r = RunFailed \<and> rn_attempts r < pipelineMaxAttempts)"

definition pend :: "pipeline_run \<Rightarrow> pipeline_run" where
  "pend r = r\<lparr>rn_status := RunPending\<rparr>"

lemma requeue_fold:
  assumes "distinct (map rn_id rs)" "set rs \<subseteq> set (br_runs b)" "runs_ok b"
  shows "fold requeue_one rs (out, b) = (out @ rs, update_runs (\<lambda>x. x \<in> set rs) pend b)"
  using assms
proof (induction rs arbitrary: out b)
  case Nil
  then show ?case by (simp add: update_runs_def update_where_def)
next
  case (Cons r rs)
  let ?P = "\<lambda>x. rn_id x = rn_id r \<and> rn_status x = rn_status r"
  have r: "r \<in> set (br_runs b)" using Cons.prems by simp
  have unique: "x = r" if "x \<in> set (br_runs b)" "rn_id x = rn_id r" for x
    using that r Cons.prems(3) by (auto simp: runs_ok_def distinct_map inj_on_def)
  have only: "?P x \<longleftrightarrow> x = r" if "x \<in> set (br_runs b)" for x
    using unique that by auto
  then have "filter ?P (br_runs b) = filter (\<lambda>x. x = r) (br_runs b)" by (rule filter_cong [OF refl])
  moreover have "distinct (br_runs b)" using Cons.prems(3) by (auto simp: runs_ok_def distinct_map)
  ultimately have one: "rows_affected ?P (br_runs b) = 1"
    using r by (simp add: rows_affected_def distinct_length_filter Collect_conv_if)
  let ?b1 = "update_runs ?P pend b"
  have step: "requeue_one r (out, b) = (out @ [r], ?b1)"
    using one by (simp add: requeue_one_def Let_def pend_def [abs_def] del: One_nat_def)
  have fresh: "x \<noteq> r" if "x \<in> set rs" for x using that Cons.prems(1) by auto
  have "set rs \<subseteq> set (br_runs ?b1)"
    using Cons.prems(2) fresh only by (auto intro!: update_runs_keeps)
  moreover have ok1: "runs_ok ?b1" by (rule update_ident [OF _ Cons.prems(3)]) (simp add: pend_def work_key_def)
  ultimately have rest: "fold requeue_one rs (out @ [r], ?b1) = ((out @ [r]) @ rs, update_runs (\<lambda>x. x \<in> set rs) pend ?b1)"
    using Cons.IH Cons.prems(1) by simp
  have "update_runs (\<lambda>x. x \<in> set rs) pend ?b1 = update_runs (\<lambda>x. x \<in> set (r # rs)) pend b"
  proof -
    have "pend r \<notin> set rs"
    proof
      assume "pend r \<in> set rs"
      then have "rn_id (pend r) \<in> rn_id ` set rs" by blast
      then show False using Cons.prems(1) by (simp add: pend_def)
    qed
    then have "map (\<lambda>x. if x \<in> set rs then pend x else x) (map (\<lambda>x. if ?P x then pend x else x) (br_runs b))
        = map (\<lambda>x. if x \<in> set (r # rs) then pend x else x) (br_runs b)"
      using only fresh by auto
    then show ?thesis by (simp add: update_runs_def update_where_def)
  qed
  then show ?case using rest step by simp
qed

lemma requeueRuns_eq:
  assumes "runs_ok b"
  shows "requeueRuns P b = (sort_key rn_id (filter P (br_runs b)), update_runs P pend b)"
proof -
  let ?rs = "sort_key rn_id (filter P (br_runs b))"
  have "distinct (map rn_id (filter P (br_runs b)))" using assms by (auto simp: runs_ok_def intro: distinct_map_filter)
  then have "distinct (map rn_id ?rs)" by (simp add: distinct_map)
  then have "requeueRuns P b = (?rs, update_runs (\<lambda>x. x \<in> set ?rs) pend b)"
    using requeue_fold [of ?rs b "[]"] assms by (auto simp: requeueRuns_def)
  moreover have "update_runs (\<lambda>x. x \<in> set ?rs) pend b = update_runs P pend b"
    by (simp add: update_runs_def update_where_def)
  ultimately show ?thesis by simp
qed

lemma first_work_covers:
  "r \<in> set rs \<Longrightarrow> work_id r \<notin> set seen \<Longrightarrow> \<exists>q \<in> set (first_work seen rs). work_id q = work_id r"
proof (induction seen rs rule: first_work.induct)
  case (2 seen q rs)
  show ?case
  proof (cases "work_id q \<in> set seen")
    case True
    then show ?thesis using 2 by (cases "r = q") auto
  next
    case False
    then show ?thesis using 2 by (cases "work_id r = work_id q") auto
  qed
qed simp

lemma first_work_subset: "set (first_work seen rs) \<subseteq> set rs"
  by (induction seen rs rule: first_work.induct) auto

lemma chunks_cover: "0 < n \<Longrightarrow> concat (chunks n xs) = xs"
proof (induction n xs rule: chunks.induct)
  case (1 n xs)
  then show ?case using chunks.simps [of n xs] by (cases "xs = []") simp_all
qed

lemma chunks_bound: "c \<in> set (chunks n xs) \<Longrightarrow> c \<noteq> [] \<and> length c \<le> n"
proof (induction n xs rule: chunks.induct)
  case (1 n xs)
  then show ?case by (cases "xs = [] \<or> n = 0") (auto simp: chunks.simps [of n xs])
qed

text \<open>No name of a namespace or stage contains the separator.\<close>

definition plain_names :: "brain \<Rightarrow> bool" where
  "plain_names b \<longleftrightarrow> (\<forall>r \<in> set (br_runs b). CHR 0x00 \<notin> set (rn_ns r) \<and> rn_stage r \<in> {StageEmbedLink, StageEntities})"

lemma split_at: "x \<notin> set xs \<Longrightarrow> x \<notin> set ys \<Longrightarrow> xs @ x # us = ys @ x # vs \<Longrightarrow> xs = ys \<and> us = vs"
  by (induction xs arbitrary: ys) (auto simp: Cons_eq_append_conv)

lemma work_id_inj:
  assumes "CHR 0x00 \<notin> set (rn_ns r)" "rn_stage r \<in> {StageEmbedLink, StageEntities}"
    and "CHR 0x00 \<notin> set (rn_ns q)" "rn_stage q \<in> {StageEmbedLink, StageEntities}"
    and "work_id q = work_id r"
  shows "rn_stage q = rn_stage r \<and> rn_ns q = rn_ns r \<and> rn_key q = rn_key r"
proof -
  have stages: "CHR 0x00 \<notin> set (rn_stage q)" "CHR 0x00 \<notin> set (rn_stage r)"
    using assms(2, 4) by (auto simp: StageEmbedLink_def StageEntities_def)
  have "rn_stage q @ CHR 0x00 # (rn_ns q @ CHR 0x00 # rn_key q) = rn_stage r @ CHR 0x00 # (rn_ns r @ CHR 0x00 # rn_key r)"
    using assms(5) by (simp add: work_id_def)
  from split_at [OF stages this] split_at [OF assms(3, 1)] show ?thesis by blast
qed

text \<open>What a pass hands out and what it leaves: every recoverable run is pending afterwards, with its
  attempts, and its work is handed to its stage.\<close>

definition handed :: "pipeline_run \<Rightarrow> (string \<times> string) list \<times> (string \<times> string list) list \<times> brain \<Rightarrow> bool" where
  "handed r = (\<lambda>(embeds, batches, b'). 
     if rn_stage r = StageEmbedLink then (rn_ns r, rn_key r) \<in> set embeds
     else \<exists>ks. (rn_ns r, ks) \<in> set batches \<and> rn_key r \<in> set ks)"

lemma recovery_state:
  assumes "runs_ok b"
  obtains todo where
    "recovery_work now b = (stage_work StageEmbedLink todo,
       concat (map (\<lambda>ns. map (Pair ns) (chunks entityBatchKeys
         (map snd (filter (\<lambda>w. fst w = ns) (stage_work StageEntities todo))))) (remdups (map fst (stage_work StageEntities todo)))),
       update_runs (recoverable (now 0)) pend b)"
    "\<And>r. r \<in> set (br_runs b) \<Longrightarrow> recoverable (now 0) r \<Longrightarrow> \<exists>q \<in> set todo. work_id q = work_id r"
    "\<And>q. q \<in> set todo \<Longrightarrow> \<exists>r \<in> set (br_runs b). work_key r = work_key q"
proof -
  let ?S = "\<lambda>r. rn_status r = RunRunning \<and> (case rn_started r of None \<Rightarrow> False | Some t \<Rightarrow> t < now 0 - pipelineRunLease)"
  let ?F = "\<lambda>r. rn_status r = RunFailed \<and> rn_attempts r < pipelineMaxAttempts"
  define b1 where "b1 = update_runs ?S pend b"
  define b2 where "b2 = update_runs ?F pend b1"
  have ident: "rn_id (pend r) = rn_id r \<and> work_key (pend r) = work_key r" for r
    by (simp add: pend_def work_key_def)
  have ok1: "runs_ok b1" unfolding b1_def by (rule update_ident [OF ident assms])
  let ?stale = "sort_key rn_id (filter ?S (br_runs b))" and ?failed = "sort_key rn_id (filter ?F (br_runs b1))"
  have stale: "requeueStalePipelineRuns (now 0 - pipelineRunLease) b = (?stale, b1)"
    unfolding requeueStalePipelineRuns_def b1_def by (rule requeueRuns_eq [OF assms])
  have failed: "requeueFailedPipelineRuns pipelineMaxAttempts b1 = (?failed, b2)"
    unfolding requeueFailedPipelineRuns_def b2_def by (rule requeueRuns_eq [OF ok1])
  define all where "all = ?stale @ ?failed @ pendingPipelineRuns b2"
  define todo where "todo = first_work [] all"
  have runs1: "br_runs b1 = map (\<lambda>r. if ?S r then pend r else r) (br_runs b)"
    by (simp add: b1_def update_runs_def update_where_def)
  have runs2: "br_runs b2 = map (\<lambda>r. if recoverable (now 0) r then pend r else r) (br_runs b)"
    by (auto simp: b2_def update_runs_def update_where_def runs1 recoverable_def pend_def run_states)
  have b2: "b2 = update_runs (recoverable (now 0)) pend b"
    using runs2 by (simp add: b2_def b1_def update_runs_def update_where_def)
  have "recovery_work now b = (stage_work StageEmbedLink todo,
       concat (map (\<lambda>ns. map (Pair ns) (chunks entityBatchKeys
         (map snd (filter (\<lambda>w. fst w = ns) (stage_work StageEntities todo))))) (remdups (map fst (stage_work StageEntities todo)))),
       update_runs (recoverable (now 0)) pend b)"
    unfolding recovery_work_def stale failed prod.case Let_def b2 [symmetric] todo_def all_def ..
  moreover have "\<exists>q \<in> set todo. work_id q = work_id r" if "r \<in> set (br_runs b)" "recoverable (now 0) r" for r
  proof -
    have "pend r \<in> set (br_runs b2)" using that unfolding runs2 by force
    then have "pend r \<in> set all" by (simp add: all_def pendingPipelineRuns_def pend_def)
    then obtain q where "q \<in> set todo" "work_id q = work_id (pend r)"
      using first_work_covers [of "pend r" all "[]"] by (auto simp: todo_def)
    then show ?thesis by (auto simp: work_id_def pend_def)
  qed
  moreover have "\<exists>r \<in> set (br_runs b). work_key r = work_key q" if "q \<in> set todo" for q
  proof -
    have "q \<in> set all" using that first_work_subset by (auto simp: todo_def)
    then have "q \<in> set (br_runs b) \<or> q \<in> set (br_runs b1) \<or> q \<in> set (br_runs b2)"
      by (auto simp: all_def pendingPipelineRuns_def)
    then show ?thesis unfolding runs1 runs2 using ident by (auto split: if_splits)
  qed
  ultimately show ?thesis by (rule that)
qed

lemma stage_work_member: "(ns, key) \<in> set (stage_work stage todo) \<longleftrightarrow> (\<exists>q \<in> set todo. rn_stage q = stage \<and> rn_ns q = ns \<and> rn_key q = key)"
  by (auto simp: stage_work_def)

text \<open>C26: recovery finds all interrupted work.  After a recovery pass every run that was pending, was left
  running past its lease, or had failed with attempts to spare is pending again with its attempts unchanged,
  and its fact is handed to its stage; other rows are untouched, and no entity batch is empty or larger than
  eight keys.\<close>

theorem recovery_complete:
  assumes "runs_ok b" and "plain_names b" and "r \<in> set (br_runs b)" and "recoverable (now 0) r"
  shows "handed r (recovery_work now b)
    \<and> pend r \<in> set (br_runs (snd (snd (recovery_work now b))))
    \<and> (\<forall>q \<in> set (br_runs b). \<not> recoverable (now 0) q \<longrightarrow> q \<in> set (br_runs (snd (snd (recovery_work now b)))))
    \<and> (\<forall>(ns, ks) \<in> set (fst (snd (recovery_work now b))). ks \<noteq> [] \<and> length ks \<le> 8)"
proof -
  obtain todo where work: "recovery_work now b = (stage_work StageEmbedLink todo,
       concat (map (\<lambda>ns. map (Pair ns) (chunks entityBatchKeys
         (map snd (filter (\<lambda>w. fst w = ns) (stage_work StageEntities todo))))) (remdups (map fst (stage_work StageEntities todo)))),
       update_runs (recoverable (now 0)) pend b)"
    and covered: "\<And>r. r \<in> set (br_runs b) \<Longrightarrow> recoverable (now 0) r \<Longrightarrow> \<exists>q \<in> set todo. work_id q = work_id r"
    and known: "\<And>q. q \<in> set todo \<Longrightarrow> \<exists>r \<in> set (br_runs b). work_key r = work_key q"
    using recovery_state [OF assms(1)] by blast
  obtain q where q: "q \<in> set todo" "work_id q = work_id r" using covered assms(3, 4) by blast
  obtain q0 where "q0 \<in> set (br_runs b)" "work_key q0 = work_key q" using known q(1) by blast
  then have "CHR 0x00 \<notin> set (rn_ns q)" "rn_stage q \<in> {StageEmbedLink, StageEntities}"
    using assms(2) by (auto simp: plain_names_def work_key_def)
  then have same: "rn_stage q = rn_stage r" "rn_ns q = rn_ns r" "rn_key q = rn_key r"
    using work_id_inj [OF _ _ _ _ q(2)] assms(2, 3) by (auto simp: plain_names_def)
  have "handed r (recovery_work now b)"
  proof (cases "rn_stage r = StageEmbedLink")
    case True
    then show ?thesis using q same by (auto simp: handed_def work stage_work_member)
  next
    case False
    then have "rn_stage r = StageEntities" using assms(2, 3) by (auto simp: plain_names_def)
    then have entity: "(rn_ns r, rn_key r) \<in> set (stage_work StageEntities todo)" using q same by (auto simp: stage_work_member)
    let ?keys = "map snd (filter (\<lambda>w. fst w = rn_ns r) (stage_work StageEntities todo))"
    have "rn_key r \<in> set ?keys" using entity by force
    then have "rn_key r \<in> set (concat (chunks entityBatchKeys ?keys))"
      using chunks_cover [of entityBatchKeys ?keys] by (simp add: entityBatchKeys_def)
    then obtain c where "c \<in> set (chunks entityBatchKeys ?keys)" "rn_key r \<in> set c" by auto
    then show ?thesis using False entity by (force simp: handed_def work)
  qed
  moreover have "pend r \<in> set (br_runs (snd (snd (recovery_work now b))))"
    using assms(3, 4) by (force simp: work update_runs_def update_where_def)
  moreover have "q \<in> set (br_runs (snd (snd (recovery_work now b))))" if "q \<in> set (br_runs b)" "\<not> recoverable (now 0) q" for q
    using that by (simp add: work update_runs_keeps)
  moreover have "ks \<noteq> [] \<and> length ks \<le> 8" if "(ns, ks) \<in> set (fst (snd (recovery_work now b)))" for ns ks
    using that chunks_bound [of ks entityBatchKeys] by (auto simp: work entityBatchKeys_def)
  ultimately show ?thesis by blast
qed

section \<open>Work that never ends\<close>

text \<open>One recovery pass with the claims of the embed-link stage it makes.\<close>

definition recovery_round :: "clock \<Rightarrow> brain \<Rightarrow> brain" where
  "recovery_round now b =
     (case recovery_work now b of (embeds, batches, b') \<Rightarrow>
        fold (\<lambda>(ns, key) b. snd (claimPipelineWork now ns StageEmbedLink embedLinkStageVersion key b)) embeds b')"

lemma claim_state_cases:
  obtains "snd (claimPipelineWork now ns stage version key b) = b"
  | rv where "live_revision (now 0) ns key b = Some rv"
      "snd (claimPipelineWork now ns stage version key b) = snd (claim_run_body (now 1) ns stage version key rv b)"
proof (cases "live_revision (now 0) ns key b")
  case None
  then show ?thesis using that(1) by (simp add: claimPipelineWork_def)
next
  case (Some rv)
  then show ?thesis
    using that by (cases rule: with_tx_cases [of "claim_run_body (now 1) ns stage version key rv" b])
      (simp_all add: claimPipelineWork_def)
qed

lemma claim_mem: "br_mem (snd (claimPipelineWork now ns stage version key b)) = br_mem b"
  by (cases rule: claim_state_cases [of now ns stage version key b]) (simp_all add: claim_run_body_def Let_def)

lemma claim_keeps_other:
  assumes "r \<in> set (br_runs b)" "(rn_ns r, rn_key r) \<noteq> (ns, key)"
  shows "r \<in> set (br_runs (snd (claimPipelineWork now ns stage version key b)))"
  using assms
  by (cases rule: claim_state_cases [of now ns stage version key b])
    (auto simp: claim_run_body_def Let_def work_row_def intro!: update_runs_keeps ensure_keeps)

lemma update_plain:
  assumes "\<And>r. rn_ns (f r) = rn_ns r \<and> rn_stage (f r) = rn_stage r" "plain_names b"
  shows "plain_names (update_runs P f b)"
  unfolding plain_names_def
proof
  fix r assume "r \<in> set (br_runs (update_runs P f b))"
  then obtain q where "q \<in> set (br_runs b)" "r = (if P q then f q else q)"
    by (auto simp: update_runs_def update_where_def)
  then show "CHR 0x00 \<notin> set (rn_ns r) \<and> rn_stage r \<in> {StageEmbedLink, StageEntities}"
    using assms by (simp add: plain_names_def)
qed

lemma claim_plain:
  assumes "plain_names b" "CHR 0x00 \<notin> set ns" "stage \<in> {StageEmbedLink, StageEntities}"
  shows "plain_names (snd (claimPipelineWork now ns stage version key b))"
proof (cases rule: claim_state_cases [of now ns stage version key b])
  case (2 rv)
  have "plain_names (ensure_run t ns stage version key rv c)" if "plain_names c" for t c
    using that assms(2, 3) by (auto simp: plain_names_def ensure_run_def)
  then show ?thesis
    using 2 assms(1) by (simp add: claim_run_body_def Let_def update_plain supersede_def start_run_def)
qed (use assms in simp)

definition expired_by :: "instant \<Rightarrow> string \<Rightarrow> string \<Rightarrow> memory \<Rightarrow> bool" where
  "expired_by T ns key m \<longleftrightarrow> (\<forall>f \<in> set (mm_facts m). of_key ns key f \<and> is_latest (mm_facts m) f \<longrightarrow>
     (\<exists>e. fa_expires f = Some e \<and> e \<le> T))"

lemma expired_not_live: "expired_by T ns key (br_mem b) \<Longrightarrow> T \<le> t \<Longrightarrow> live_revision t ns key b = None"
proof -
  assume expired: "expired_by T ns key (br_mem b)" "T \<le> t"
  have "\<not> unexpired t f" if "f \<in> set (mm_facts (br_mem b))" "of_key ns key f" "is_latest (mm_facts (br_mem b)) f" for f
    using expired that by (auto simp: expired_by_def unexpired_def)
  then have "latest_live t ns (\<lambda>k. k \<in> set [key]) (br_mem b) = []"
    by (auto simp: latest_live_def filter_empty_conv of_key_def)
  then show ?thesis by (simp add: live_revision_def queryLiveByKeys_def)
qed

lemma claims_keep:
  assumes "\<forall>(ns, key) \<in> set ws. CHR 0x00 \<notin> set ns" "r \<in> set (br_runs b)" "runs_ok b" "plain_names b"
    and "expired_by T (rn_ns r) (rn_key r) (br_mem b)" "T \<le> now 0"
  shows "let b' = fold (\<lambda>(ns, key) b. snd (claimPipelineWork now ns StageEmbedLink embedLinkStageVersion key b)) ws b
    in r \<in> set (br_runs b') \<and> runs_ok b' \<and> plain_names b' \<and> br_mem b' = br_mem b"
  using assms
proof (induction ws arbitrary: b)
  case (Cons w ws)
  obtain ns key where w: "w = (ns, key)" by (cases w)
  let ?b1 = "snd (claimPipelineWork now ns StageEmbedLink embedLinkStageVersion key b)"
  have "r \<in> set (br_runs ?b1)"
  proof (cases "(rn_ns r, rn_key r) = (ns, key)")
    case True
    then have "live_revision (now 0) ns key b = None" using expired_not_live Cons.prems(5, 6) by auto
    then show ?thesis using Cons.prems(2) by (simp add: claimPipelineWork_def)
  qed (rule claim_keeps_other [OF Cons.prems(2)])
  moreover have "runs_ok ?b1"
    using claim_effect [OF Cons.prems(3), of now ns StageEmbedLink embedLinkStageVersion key "fst (claimPipelineWork now ns StageEmbedLink embedLinkStageVersion key b)" ?b1]
    by (metis prod.collapse)
  moreover have "plain_names ?b1" using Cons.prems(1, 4) by (intro claim_plain) (auto simp: w)
  ultimately have "let b' = fold (\<lambda>(ns, key) b. snd (claimPipelineWork now ns StageEmbedLink embedLinkStageVersion key b)) ws ?b1
    in r \<in> set (br_runs b') \<and> runs_ok b' \<and> plain_names b' \<and> br_mem b' = br_mem ?b1"
    using Cons.IH [of ?b1] Cons.prems by (simp add: claim_mem)
  then show ?case by (simp add: w claim_mem Let_def)
qed simp

lemma recovery_round_keeps:
  assumes "r \<in> set (br_runs b)" "rn_status r = RunPending" "runs_ok b" "plain_names b"
    and "expired_by T (rn_ns r) (rn_key r) (br_mem b)" "T \<le> now 0"
  shows "r \<in> set (br_runs (recovery_round now b)) \<and> runs_ok (recovery_round now b) \<and> plain_names (recovery_round now b)
    \<and> br_mem (recovery_round now b) = br_mem b"
proof -
  obtain todo where work: "recovery_work now b = (stage_work StageEmbedLink todo,
       concat (map (\<lambda>ns. map (Pair ns) (chunks entityBatchKeys
         (map snd (filter (\<lambda>w. fst w = ns) (stage_work StageEntities todo))))) (remdups (map fst (stage_work StageEntities todo)))),
       update_runs (recoverable (now 0)) pend b)"
    and known: "\<And>q. q \<in> set todo \<Longrightarrow> \<exists>r \<in> set (br_runs b). work_key r = work_key q"
    using recovery_state [OF assms(3)] by blast
  let ?b1 = "update_runs (recoverable (now 0)) pend b"
  have ident: "rn_id (pend r) = rn_id r \<and> work_key (pend r) = work_key r" for r by (simp add: pend_def work_key_def)
  have "pend r = r" using assms(2) by (simp add: pend_def)
  then have "r \<in> set (br_runs ?b1)" using assms(1) by (force simp: update_runs_def update_where_def)
  moreover have "runs_ok ?b1" by (rule update_ident [OF ident assms(3)])
  moreover have "plain_names ?b1" by (rule update_plain [OF _ assms(4)]) (simp add: pend_def)
  moreover have "\<forall>(ns, key) \<in> set (stage_work StageEmbedLink todo). CHR 0x00 \<notin> set ns"
  proof (clarify)
    fix ns key assume "(ns, key) \<in> set (stage_work StageEmbedLink todo)" "CHR 0x00 \<in> set ns"
    then obtain q where "q \<in> set todo" "CHR 0x00 \<in> set (rn_ns q)" by (auto simp: stage_work_member)
    then show False using known assms(4) by (fastforce simp: plain_names_def work_key_def)
  qed
  ultimately show ?thesis
    using claims_keep [of "stage_work StageEmbedLink todo" r ?b1 T now] assms(5, 6)
    by (simp add: recovery_round_def work Let_def)
qed

text \<open>C30: work on an expired fact is retried forever.  When the newest revision of a fact has expired, a pending
  run of its embed-link stage survives any number of recovery passes as it is: every pass hands it out again and
  its claim finds no live revision, but nothing ever retires it, unlike the work of a deleted fact.\<close>

theorem expired_run_stuck:
  assumes "runs_ok b" "plain_names b" "r \<in> set (br_runs b)" "rn_status r = RunPending" "rn_stage r = StageEmbedLink"
    and "expired_by T (rn_ns r) (rn_key r) (br_mem b)" and "\<forall>now \<in> set passes. T \<le> now 0" and "T \<le> now 0"
  shows "r \<in> set (br_runs (fold recovery_round passes b))
    \<and> handed r (recovery_work now (fold recovery_round passes b))
    \<and> claimPipelineWork now (rn_ns r) StageEmbedLink version (rn_key r) (fold recovery_round passes b)
        = (Inr None, fold recovery_round passes b)"
proof -
  have kept: "r \<in> set (br_runs (fold recovery_round ps c)) \<and> runs_ok (fold recovery_round ps c)
      \<and> plain_names (fold recovery_round ps c) \<and> br_mem (fold recovery_round ps c) = br_mem c"
    if "r \<in> set (br_runs c)" "runs_ok c" "plain_names c" "expired_by T (rn_ns r) (rn_key r) (br_mem c)" "\<forall>now \<in> set ps. T \<le> now 0"
    for ps c
    using that
  proof (induction ps arbitrary: c)
    case (Cons p ps)
    then show ?case using recovery_round_keeps [OF Cons.prems(1) assms(4) Cons.prems(2-4), of p] by simp
  qed simp
  let ?b = "fold recovery_round passes b"
  have "r \<in> set (br_runs ?b)" "runs_ok ?b" "plain_names ?b" "br_mem ?b = br_mem b"
    using kept assms by simp_all
  moreover from this have "handed r (recovery_work now ?b)"
    using recovery_complete [of ?b r now] assms(4) by (simp add: recoverable_def)
  moreover have "live_revision (now 0) (rn_ns r) (rn_key r) ?b = None"
    using expired_not_live assms(6, 8) \<open>br_mem ?b = br_mem b\<close> by simp
  ultimately show ?thesis by (simp add: claimPipelineWork_def)
qed

section \<open>Instances\<close>

definition demo_source :: "instant option \<Rightarrow> fact" where
  "demo_source expires = (tombstone ''f1'' 5 ''n'' ''/a'' ''w'')\<lparr>fa_action := ''add'', fa_body := ''x'', fa_expires := expires\<rparr>"

definition demo_source_memory :: "instant option \<Rightarrow> memory" where
  "demo_source_memory expires = \<lparr>mm_driver = SQLite, mm_namespaces = [''n''], mm_facts = [demo_source expires],
     mm_outbox = [\<lparr>ob_id = 1, ob_kind = ''memory'', ob_key = ''n:/a'',
       ob_payload = [(''namespace'', ''n''), (''key'', ''/a''), (''action'', ''add'')], ob_created = 5, ob_delivered = None\<rparr>],
     mm_next_outbox = 2\<rparr>"

definition demo_brain :: "instant option \<Rightarrow> pipeline_run list \<Rightarrow> brain" where
  "demo_brain expires runs = \<lparr>br_mem = demo_source_memory expires, br_links = [], br_runs = runs, br_next_run = Suc (length runs)\<rparr>"

definition demo_stage_run :: "string \<Rightarrow> nat \<Rightarrow> pipeline_run" where
  "demo_stage_run status attempts = \<lparr>rn_id = 1, rn_ns = ''n'', rn_stage = StageEmbedLink, rn_version = 1, rn_key = ''/a'', rn_rev = ''f1'',
     rn_status = status, rn_attempts = attempts, rn_items = None, rn_error = None, rn_created = 6,
     rn_started = None, rn_finished = None\<rparr>"

definition embed_only :: stages where "embed_only = \<lparr>sg_embedder = True, sg_extractor = False\<rparr>"

definition count_delivery :: "outbox_event \<Rightarrow> (nat, unit, unit) op" where
  "count_delivery e n = (Inr (), Suc n)"

lemmas demo_defs = demo_source_def demo_source_memory_def demo_brain_def demo_stage_run_def embed_only_def count_delivery_def tombstone_def

lemma demo_live: "br_mem b = demo_source_memory None \<Longrightarrow> live_revision t ''n'' ''/a'' b = Some ''f1''"
  by (simp add: demo_defs live_revision_def queryLiveByKeys_def latest_live_def is_latest_def of_key_def unexpired_def)

lemma demo_drain:
  "DrainOutbox embed_only (\<lambda>i j. 6) 0 count_delivery (demo_brain None []) 0 =
    ((1, None), (demo_brain None [demo_stage_run RunPending 0])\<lparr>br_mem := (demo_source_memory None)\<lparr>mm_outbox :=
       [(hd (mm_outbox (demo_source_memory None)))\<lparr>ob_delivered := Some 6\<rparr>]\<rparr>\<rparr>, 1)"
proof -
  have live: "live_revision 6 ''n'' ''/a'' (demo_brain None []) = Some ''f1''" by (rule demo_live) (simp add: demo_brain_def)
  have "persistStageWork embed_only (\<lambda>j. 6) \<lparr>oe_id = 1, oe_kind = ''memory'', oe_key = ''n:/a'',
      oe_payload = [(''namespace'', ''n''), (''key'', ''/a''), (''action'', ''add'')]\<rparr> (demo_brain None [])
    = demo_brain None [demo_stage_run RunPending 0]"
    using live by (simp add: persistStageWork_def payload_at_def persistPipelineWork_def stage_list_def embed_only_def
        ensure_run_def demo_brain_def demo_stage_run_def embedLinkStageVersion_def)
  then show ?thesis
    by (simp add: DrainOutbox_def undelivered_def event_of_def mark_delivered_def demo_brain_def demo_source_memory_def
        count_delivery_def update_where_def)
qed


lemma demo_run_claim:
  "claimPipelineWork (\<lambda>j. 7) ''n'' StageEmbedLink 1 ''/a'' (demo_brain None []) =
    (Inr (Some ((demo_stage_run RunRunning 1)\<lparr>rn_created := 7, rn_started := Some 7\<rparr>, 1)),
     demo_brain None [(demo_stage_run RunRunning 1)\<lparr>rn_created := 7, rn_started := Some 7\<rparr>])"
proof -
  have live: "live_revision 7 ''n'' ''/a'' (demo_brain None []) = Some ''f1''" by (rule demo_live) (simp add: demo_brain_def)
  show ?thesis
    using live by (simp add: claimPipelineWork_def with_tx_def claim_run_body_def Let_def update_runs_def update_where_def
        ensure_run_def demo_brain_def demo_stage_run_def work_row_def start_run_def rows_affected_def run_states)
qed

definition demo_ops :: "pipe_op list" where
  "demo_ops = [ClaimOp (\<lambda>j. 7) ''n'' StageEmbedLink 1 ''/a'']"

lemma demo_history:
  "pipe_run demo_ops (demo_source_memory None) [] =
    \<lparr>ph_brain = demo_brain None [(demo_stage_run RunRunning 1)\<lparr>rn_created := 7, rn_started := Some 7\<rparr>],
     ph_claims = [(1, 1)], ph_writes = []\<rparr>"
proof -
  have "\<lparr>br_mem = demo_source_memory None, br_links = [], br_runs = [], br_next_run = 1\<rparr> = demo_brain None []"
    by (simp add: demo_brain_def)
  then show ?thesis
    using demo_run_claim by (simp add: demo_ops_def pipe_run_def New_pipeline_def demo_stage_run_def)
qed

theorem fenced_writes_ordered_witness:
  "map snd (filter (\<lambda>c. fst c = 1)
     (ph_claims (pipe_run demo_ops (demo_source_memory None) []))) = [1]
   \<and> fst (fencedStageTx 8 ''n'' ''/a'' \<lparr>fc_run = 1, fc_attempt = 2, fc_rev = ''f1''\<rparr> (on_data (\<lambda>(m, ls). (Inr (), m, ls)))
       (ph_brain (pipe_run demo_ops (demo_source_memory None) []))) \<noteq> Inr True"
proof -
  let ?h = "pipe_run demo_ops (demo_source_memory None) []"
  let ?fence = "\<lparr>fc_run = 1, fc_attempt = 2, fc_rev = ''f1''\<rparr>"
  note ordered = fenced_writes_ordered [of "demo_ops" "demo_source_memory None" "[]"]
  have "\<not> (\<exists>r \<in> set (br_runs (ph_brain ?h)). claim_held ?fence r)"
    by (simp add: demo_history demo_brain_def demo_stage_run_def claim_held_def)
  then have "fst (fencedStageTx 8 ''n'' ''/a'' ?fence (on_data (\<lambda>(m, ls). (Inr (), m, ls))) (ph_brain ?h)) \<noteq> Inr True"
    using ordered by (metis prod.collapse)
  then show ?thesis by (simp add: demo_history)
qed

definition demo_done :: "pipe_op list" where
  "demo_done = demo_ops @ [FinishOp 8 1 1 RunSucceeded (Some 0) []]"

lemma requeueRuns_mem: "br_mem (snd (requeueRuns P b)) = br_mem b"
proof -
  have "br_mem (snd (fold requeue_one rs (out, b))) = br_mem b" for rs out b
    by (induction rs arbitrary: out b) (auto simp: requeue_one_def Let_def)
  then show ?thesis by (simp add: requeueRuns_def)
qed

lemma settled_runs_stay_witness:
  "fst (claimPipelineWork (\<lambda>j. 9) ''n'' StageEmbedLink 1 ''/a'' (ph_brain (pipe_run
     (demo_done @ [RequeueFailedOp])
     (demo_source_memory None) []))) = Inr None"
proof -
  let ?ops = demo_done
  let ?r = "(demo_stage_run RunSucceeded 1)\<lparr>rn_created := 7, rn_started := Some 7, rn_items := Some 0, rn_finished := Some 8\<rparr>"
  have brain: "ph_brain (pipe_run ?ops (demo_source_memory None) []) = demo_brain None [?r]"
    by (simp add: demo_done_def pipe_run_append demo_history finishPipelineRun_def Let_def update_runs_def update_where_def claim_held_def demo_brain_def demo_stage_run_def)
  have "br_mem (ph_brain (pipe_run (?ops @ [RequeueFailedOp]) (demo_source_memory None) [])) = demo_source_memory None"
    unfolding pipe_run_append [of demo_done "[RequeueFailedOp]"]
    by (simp add: brain requeueFailedPipelineRuns_def requeueRuns_mem del: One_nat_def) (simp add: demo_brain_def)
  then have "live_revision 9 ''n'' ''/a'' (ph_brain (pipe_run (?ops @ [RequeueFailedOp]) (demo_source_memory None) [])) = Some ''f1''"
    by (rule demo_live)
  moreover have "?r \<in> set (br_runs (ph_brain (pipe_run ?ops (demo_source_memory None) [])))" "settled ?r"
    by (simp_all add: brain demo_brain_def settled_def demo_stage_run_def)
  ultimately show ?thesis
    using settled_runs_stay [of ?r ?ops "demo_source_memory None" "[]" "[RequeueFailedOp]" "\<lambda>j. 9"] by (simp add: demo_stage_run_def)
qed

lemma demo_pending:
  "runs_ok (demo_brain e [demo_stage_run RunPending 0])" "plain_names (demo_brain e [demo_stage_run RunPending 0])"
  "demo_stage_run RunPending 0 \<in> set (br_runs (demo_brain e [demo_stage_run RunPending 0]))"
  by (simp_all add: runs_ok_def plain_names_def demo_brain_def demo_stage_run_def)

theorem recovery_complete_witness:
  "handed (demo_stage_run RunPending 0) (recovery_work (\<lambda>j. 9) (demo_brain None [demo_stage_run RunPending 0]))"
  using recovery_complete [OF demo_pending, of "\<lambda>j. 9"] by (simp add: recoverable_def demo_stage_run_def)

theorem expired_run_stuck_witness:
  "demo_stage_run RunPending 0 \<in> set (br_runs (fold recovery_round [\<lambda>j. 9, \<lambda>j. 60] (demo_brain (Some 8) [demo_stage_run RunPending 0])))"
proof -
  have "expired_by 8 ''n'' ''/a'' (br_mem (demo_brain (Some 8) [demo_stage_run RunPending 0]))"
    by (simp add: expired_by_def demo_brain_def demo_source_memory_def demo_source_def)
  then show ?thesis
    using expired_run_stuck [OF demo_pending [where e = "Some 8"], where T = 8 and passes = "[\<lambda>j. 9, \<lambda>j. 60]" and now = "\<lambda>j. 9"]
    by (simp add: demo_stage_run_def)
qed

end
