(* ===== verification/Enrich.thy ===== *)
theory Enrich
  imports Recovery
begin

text \<open>
  The embed-link stage, \<open>EnrichKey\<close> and \<open>runEmbedLinkStage\<close> of \<open>internal/memory/enrich.go\<close>.  The embedder, the
  codec of stored vectors and the similarity of two vectors are parameters; \<open>others k\<close> is what the rest of
  the system does to the store before the stage's \<open>k\<close>-th access to it.  The context is never
  cancelled here: a stage that stops half way is a claim without a finish, which the recovery
  theory covers.
\<close>

record 'v embed_env =
  vx_embed :: "string \<Rightarrow> error_cause + 'v list"
  vx_encode :: "'v \<Rightarrow> string"
  vx_decode :: "string \<Rightarrow> 'v option"
  vx_cosine :: "'v \<Rightarrow> 'v \<Rightarrow> rat"

type_synonym interference = "nat \<Rightarrow> brain \<Rightarrow> brain"

definition stored_vector :: "('v, 'z) embed_env_scheme \<Rightarrow> fact \<Rightarrow> 'v option" where
  "stored_vector env f =
     (case fa_embedding f of None \<Rightarrow> None | Some e \<Rightarrow> if e = [] then None else vx_decode env e)"

definition liveWithVectors :: "('v, 'z) embed_env_scheme \<Rightarrow> instant \<Rightarrow> string \<Rightarrow> memory \<Rightarrow> (fact \<times> 'v option) list" where
  "liveWithVectors env now ns m =
     (if ns \<notin> set (mm_namespaces m) then []
      else map (\<lambda>f. (f, stored_vector env f)) (latest_live now ns (\<lambda>_. True) m))"

definition set_embedding :: "string \<Rightarrow> string \<Rightarrow> memory \<times> links \<Rightarrow> (pipe_error + unit) \<times> memory \<times> links" where
  "set_embedding fid v = (\<lambda>(m, ls). (Inr (), m\<lparr>mm_facts :=
     update_where (\<lambda>f. fa_id f = fid) (\<lambda>f. f\<lparr>fa_embedding := Some v\<rparr>) (mm_facts m)\<rparr>, ls))"

definition on_links :: "(links, link_error, unit) op \<Rightarrow> memory \<times> links \<Rightarrow> (pipe_error + unit) \<times> memory \<times> links" where
  "on_links fn = (\<lambda>(m, ls). case fn ls of (Inl e, ls') \<Rightarrow> (Inl (PipeLink e), m, ls') | (Inr u, ls') \<Rightarrow> (Inr u, m, ls'))"

text \<open>The backfill of a missing vector: the vector to go on with, or \<open>None\<close> when the pass ends quietly.\<close>

definition backfill ::
  "('v, 'z) embed_env_scheme \<Rightarrow> clock \<Rightarrow> interference \<Rightarrow> run_fence option \<Rightarrow> string \<Rightarrow> string \<Rightarrow> fact
   \<Rightarrow> (brain, pipe_error, 'v option) op" where
  "backfill env now others fence ns key self b =
     (let b1 = others 1 b in
      if \<not> revisionStillLive (now 1) ns key (fa_id self) b1 then (Inr None, b1)
      else case vx_embed env (fa_body self) of
        Inl c \<Rightarrow> (Inl PipeEmbedding, b1)
      | Inr vs \<Rightarrow>
          if length vs \<noteq> 1 then (Inl PipeEmbedding, b1)
          else (case fence of
              None \<Rightarrow> (Inr (Some (hd vs)), snd (on_data (set_embedding (fa_id self) (vx_encode env (hd vs))) (others 2 b1)))
            | Some fc \<Rightarrow>
                (case fencedStageTx (now 2) ns key fc (on_data (set_embedding (fa_id self) (vx_encode env (hd vs)))) (others 2 b1) of
                   (Inl e, b2) \<Rightarrow> (Inl e, b2)
                 | (Inr applied, b2) \<Rightarrow> (Inr (if applied then Some (hd vs) else None), b2))))"

definition candidates_for ::
  "('v, 'z) embed_env_scheme \<Rightarrow> rat \<Rightarrow> string \<Rightarrow> 'v \<Rightarrow> string list \<Rightarrow> (fact \<times> 'v option) list \<Rightarrow> (string \<times> rat) list" where
  "candidates_for env threshold key self existing facts =
     sort_key (\<lambda>c. - snd c) (concat (map (\<lambda>(f, v). case v of
         None \<Rightarrow> []
       | Some w \<Rightarrow> if fa_key f = key \<or> fa_key f \<in> set existing then []
                   else if vx_cosine env self w \<ge> threshold then [(fa_key f, vx_cosine env self w)] else []) facts))"

fun link_loop ::
  "clock \<Rightarrow> interference \<Rightarrow> run_fence option \<Rightarrow> string \<Rightarrow> string \<Rightarrow> string \<Rightarrow> nat \<Rightarrow> nat \<Rightarrow> nat \<Rightarrow> (string \<times> rat) list
   \<Rightarrow> (brain, pipe_error, nat) op" where
  "link_loop now others fence ns key rv topN k added [] b = (Inr added, b)"
| "link_loop now others fence ns key rv topN k added ((target, score) # cs) b =
     (if added \<ge> topN then (Inr added, b)
      else case fence of
        None \<Rightarrow>
          (let b1 = others k b in
           if \<not> revisionStillLive (now k) ns key rv b1 then (Inr added, b1)
           else (case on_data (on_links (AddLinkWeighted None (now (k + 1)) ns key target ''similar_to'' score)) (others (k + 1) b1) of
               (Inl e, b2) \<Rightarrow> (Inl e, b2)
             | (Inr _, b2) \<Rightarrow> link_loop now others fence ns key rv topN (k + 2) (added + 1) cs b2))
      | Some fc \<Rightarrow>
          (case fencedStageTx (now k) ns key fc
                  (on_data (on_links (addLinkTx ns key target ''similar_to'' score [] None (now (k + 1))))) (others k b) of
             (Inl e, b1) \<Rightarrow> (Inl e, b1)
           | (Inr applied, b1) \<Rightarrow>
               if \<not> applied then (Inr added, b1)
               else link_loop now others fence ns key rv topN (k + 2) (added + 1) cs b1))"

definition enrichKey ::
  "('v, 'z) embed_env_scheme option \<Rightarrow> clock \<Rightarrow> interference \<Rightarrow> run_fence option \<Rightarrow> rat \<Rightarrow> int \<Rightarrow> string \<Rightarrow> string
   \<Rightarrow> (brain, pipe_error, nat) op" where
  "enrichKey embedder now others fence threshold topN ns key b =
     (case embedder of
        None \<Rightarrow> (Inr 0, b)
      | Some env \<Rightarrow>
          let th = (if threshold \<le> 0 then 3 / 4 else threshold);
              n = (if topN \<le> 0 then 2 else nat topN);
              b0 = others 0 b;
              facts = liveWithVectors env (now 0) ns (br_mem b0)
          in case find (\<lambda>(f, v). fa_key f = key) facts of
               None \<Rightarrow> (Inr 0, b0)
             | Some (self, stored) \<Rightarrow>
                 (case (case stored of Some v \<Rightarrow> (Inr (Some v), b0) | None \<Rightarrow> backfill env now others fence ns key self b0) of
                    (Inl e, b1) \<Rightarrow> (Inl e, b1)
                  | (Inr None, b1) \<Rightarrow> (Inr 0, b1)
                  | (Inr (Some v), b1) \<Rightarrow>
                      let b2 = others 3 b1;
                          existing = linkTargetsAll ns key ''similar_to'' (br_links b2)
                      in link_loop now others fence ns key (fa_id self) n 4 0
                           (candidates_for env th key v existing facts) b2))"

definition EnrichKey ::
  "('v, 'z) embed_env_scheme option \<Rightarrow> clock \<Rightarrow> interference \<Rightarrow> rat \<Rightarrow> int \<Rightarrow> string \<Rightarrow> string \<Rightarrow> (brain, pipe_error, nat) op" where
  "EnrichKey embedder now others threshold topN ns key = enrichKey embedder now others None threshold topN ns key"

text \<open>A stage run: the clocks of the claim, of the pass, of the check after it and of the finish.\<close>

definition embed_fallback :: "pipe_error \<Rightarrow> string" where
  "embed_fallback e = (if e = PipeEmbedding then ''model'' else ''store'')"

definition runEmbedLinkStage ::
  "('v, 'z) embed_env_scheme option \<Rightarrow> clock \<Rightarrow> clock \<Rightarrow> instant \<Rightarrow> instant \<Rightarrow> interference \<Rightarrow> (brain \<Rightarrow> brain) \<Rightarrow> (brain \<Rightarrow> brain)
   \<Rightarrow> string \<Rightarrow> string \<Rightarrow> brain \<Rightarrow> brain" where
  "runEmbedLinkStage embedder claim_now now check_now finish_now others before_check before_finish ns key b =
     (case embedder of None \<Rightarrow> b | Some _ \<Rightarrow>
      case claimPipelineWork claim_now ns StageEmbedLink embedLinkStageVersion key b of
        (Inl e, b1) \<Rightarrow> b1
      | (Inr None, b1) \<Rightarrow> b1
      | (Inr (Some (run, attempt)), b1) \<Rightarrow>
          (case enrichKey embedder now others (Some \<lparr>fc_run = rn_id run, fc_attempt = attempt, fc_rev = rn_rev run\<rparr>) 0 0 ns key b1 of
             (Inl e, b2) \<Rightarrow>
               snd (finishPipelineRun finish_now (rn_id run) attempt RunFailed None
                 (classifyStageError e (embed_fallback e)) (before_finish b2))
           | (Inr added, b2) \<Rightarrow>
               (let b3 = before_check b2 in
                if \<not> revisionStillLive check_now ns key (rn_rev run) b3
                then snd (finishPipelineRun finish_now (rn_id run) attempt RunSuperseded None [] (before_finish b3))
                else snd (finishPipelineRun finish_now (rn_id run) attempt RunSucceeded (Some (int added)) [] (before_finish b3)))))"


section \<open>What a pass adds\<close>

definition alone :: interference where "alone = (\<lambda>k b. b)"

lemma alone_apply: "alone k b = b"
  by (simp add: alone_def)

text \<open>The timeout of an embedder is recorded as a model error: its cause is not in the error's chain.\<close>

lemma embed_timeout_class: "classifyStageError PipeEmbedding (embed_fallback PipeEmbedding) = ''model''"
  by (simp add: classifyStageError_def embed_fallback_def)

lemma on_links_result:
  "on_data (on_links fn) b = (case fn (br_links b) of
     (Inl e, ls) \<Rightarrow> (Inl (PipeLink e), b\<lparr>br_links := ls\<rparr>) | (Inr u, ls) \<Rightarrow> (Inr u, b\<lparr>br_links := ls\<rparr>))"
  by (cases b; cases "fn (br_links b)"; cases "fst (fn (br_links b))") (auto simp: on_data_def on_links_def)

lemma link_loop_bound:
  "link_loop now others fence ns key rv topN k added cs b = (Inr n, b') \<Longrightarrow> added \<le> n \<and> n \<le> max added topN \<and> n \<le> added + length cs"
proof (induction cs arbitrary: k added b)
  case (Cons c cs)
  obtain target score where c: "c = (target, score)" by (cases c)
  have "added = n \<or> (added < topN \<and> (\<exists>k' b1. link_loop now others fence ns key rv topN k' (added + 1) cs b1 = (Inr n, b')))"
    using Cons.prems by (fastforce simp: c Let_def split: if_splits option.splits prod.splits sum.splits)
  then show ?case using Cons.IH by fastforce
qed simp

definition similar_row :: "string \<Rightarrow> string \<Rightarrow> string \<Rightarrow> link_row \<Rightarrow> bool" where
  "similar_row ns key target l \<longleftrightarrow> same_edge ns key target ''similar_to'' l \<and> lk_invalid l = None"

lemma AddLinkWeighted_new:
  assumes "ValidateKey from = Inr ()" "ValidateKey to = Inr ()" "to \<notin> set (linkTargetsAll ns from ''similar_to'' ls)"
  shows "\<exists>l. AddLinkWeighted None now ns from to ''similar_to'' w ls = (Inr (), ls @ [l]) \<and> similar_row ns from to l"
proof -
  have "\<not> list_ex (same_edge ns from to ''similar_to'') ls"
    using assms(3) by (auto simp: linkTargetsAll_def list_ex_iff same_edge_def)
  then show ?thesis
    using assms(1, 2)
    by (simp add: AddLinkWeighted_def AddLinkDescribed_def normalizeLinkArgs_def ValidateLinkType_def LinkTypes_def
        link_type_of_def with_tx_def addLinkTx_def similar_row_def same_edge_def)
qed

lemma targets_append:
  "similar_row ns key target l \<Longrightarrow>
   set (linkTargetsAll ns key ''similar_to'' (ls @ [l])) = insert target (set (linkTargetsAll ns key ''similar_to'' ls))"
  by (auto simp: linkTargetsAll_def similar_row_def same_edge_def)

lemma link_loop_adds:
  assumes "\<And>i b'. br_mem b' = m \<Longrightarrow> revisionStillLive (now i) ns key rv b'" "ValidateKey key = Inr ()"
  shows "br_mem b = m \<Longrightarrow> distinct (map fst cs) \<Longrightarrow> \<forall>c \<in> set cs. ValidateKey (fst c) = Inr () \<Longrightarrow>
    \<forall>c \<in> set cs. fst c \<notin> set (linkTargetsAll ns key ''similar_to'' (br_links b)) \<Longrightarrow> added \<le> topN \<Longrightarrow>
    \<exists>rows. link_loop now alone None ns key rv topN k added cs b
        = (Inr (added + length rows), b\<lparr>br_links := br_links b @ rows\<rparr>)
      \<and> list_all2 (\<lambda>c l. similar_row ns key (fst c) l) (take (topN - added) cs) rows"
proof (induction cs arbitrary: k added b)
  case Nil
  then show ?case by (intro exI [of _ "[]"]) simp
next
  case (Cons c cs)
  obtain target score where c: "c = (target, score)" by (cases c)
  show ?case
  proof (cases "added = topN")
    case True
    then show ?thesis by (intro exI [of _ "[]"]) (simp add: c)
  next
    case False
    then have less: "added < topN" using Cons.prems(5) by simp
    have target: "ValidateKey target = Inr ()" "target \<notin> set (linkTargetsAll ns key ''similar_to'' (br_links b))"
      using Cons.prems(3, 4) by (simp_all add: c)
    obtain l where l: "AddLinkWeighted None (now (k + 1)) ns key target ''similar_to'' score (br_links b) = (Inr (), br_links b @ [l])"
      "similar_row ns key target l"
      using AddLinkWeighted_new [OF assms(2) target] by blast
    let ?b1 = "b\<lparr>br_links := br_links b @ [l]\<rparr>"
    have "\<forall>d \<in> set cs. fst d \<notin> set (linkTargetsAll ns key ''similar_to'' (br_links ?b1))"
      using Cons.prems(2, 4) targets_append [OF l(2)] by (auto simp: c)
    then obtain rows where rows: "link_loop now alone None ns key rv topN (k + 2) (added + 1) cs ?b1
        = (Inr (added + 1 + length rows), ?b1\<lparr>br_links := br_links ?b1 @ rows\<rparr>)"
      "list_all2 (\<lambda>c l. similar_row ns key (fst c) l) (take (topN - (added + 1)) cs) rows"
      using Cons.IH [of ?b1 "added + 1" "k + 2"] Cons.prems less by auto
    have "link_loop now alone None ns key rv topN k added (c # cs) b
        = link_loop now alone None ns key rv topN (k + 2) (added + 1) cs ?b1"
      using less assms(1) [OF Cons.prems(1), of k] l(1) by (simp add: c Let_def on_links_result alone_apply)
    moreover have "take (topN - added) (c # cs) = c # take (topN - (added + 1)) cs"
      using less by (simp add: take_Cons' )
    ultimately show ?thesis
      using rows l(2) by (intro exI [of _ "l # rows"]) (simp add: c)
  qed
qed


fun enrich_passes ::
  "('v, 'z) embed_env_scheme \<Rightarrow> (nat \<Rightarrow> clock) \<Rightarrow> rat \<Rightarrow> int \<Rightarrow> string \<Rightarrow> string \<Rightarrow> nat \<Rightarrow> brain \<Rightarrow> brain" where
  "enrich_passes env clk threshold topN ns key 0 b = b"
| "enrich_passes env clk threshold topN ns key (Suc j) b =
     snd (EnrichKey (Some env) (clk j) alone threshold topN ns key (enrich_passes env clk threshold topN ns key j b))"

lemma candidates_known:
  "candidates_for env th key v (existing @ known) facts
   = filter (\<lambda>c. fst c \<notin> set known) (candidates_for env th key v existing facts)"
proof -
  let ?f = "\<lambda>ks (f, w). case w of None \<Rightarrow> [] | Some w \<Rightarrow> if fa_key f = key \<or> fa_key f \<in> set ks then []
                   else if vx_cosine env v w \<ge> th then [(fa_key f, vx_cosine env v w)] else []"
  have "concat (map (?f (existing @ known)) facts) = filter (\<lambda>c. fst c \<notin> set known) (concat (map (?f existing) facts))"
    by (induction facts) (auto split: option.splits)
  then show ?thesis unfolding candidates_for_def by (simp only: filter_sort)
qed

lemma candidates_set_cong:
  "set ks = set ks' \<Longrightarrow> candidates_for env th key v ks facts = candidates_for env th key v ks' facts"
  unfolding candidates_for_def by (simp only:)

lemma candidates_keys:
  "distinct (map (fa_key \<circ> fst) facts) \<Longrightarrow> distinct (map fst (candidates_for env th key v existing facts))"
  "c \<in> set (candidates_for env th key v existing facts) \<Longrightarrow>
   fst c \<notin> set existing \<and> fst c \<in> fa_key ` fst ` set facts \<and> snd c \<ge> th"
proof -
  let ?f = "\<lambda>(f, w). case w of None \<Rightarrow> [] | Some w \<Rightarrow> if fa_key f = key \<or> fa_key f \<in> set existing then []
                   else if vx_cosine env v w \<ge> th then [(fa_key f, vx_cosine env v w)] else []"
  have one: "set (map fst (?f p)) \<subseteq> {fa_key (fst p)}" "distinct (map fst (?f p))" for p
    by (auto split: prod.splits option.splits if_splits)
  have sub: "set (map fst (concat (map ?f facts))) \<subseteq> fa_key ` fst ` set facts" for facts
  proof (induction facts)
    case (Cons p facts)
    then show ?case
      unfolding list.map concat.simps map_append set_append list.set image_insert using one(1) [of p] by blast
  qed simp
  assume "distinct (map (fa_key \<circ> fst) facts)"
  then have "distinct (map fst (concat (map ?f facts)))"
  proof (induction facts)
    case (Cons p facts)
    have "distinct (map fst (?f p))" "distinct (map fst (concat (map ?f facts)))"
      using one(2) Cons by simp_all
    moreover have "set (map fst (?f p)) \<inter> set (map fst (concat (map ?f facts))) = {}"
    proof -
      have "fa_key (fst p) \<notin> fa_key ` fst ` set facts" using Cons.prems by (auto simp: image_iff)
      then show ?thesis using one(1) [of p] sub [of facts] by blast
    qed
    ultimately show ?case by (simp only: list.map concat.simps map_append distinct_append)
  qed simp
  then show "distinct (map fst (candidates_for env th key v existing facts))"
    unfolding candidates_for_def using mset_eq_imp_distinct_iff [of "map fst (sort_key (\<lambda>c. - snd c) (concat (map ?f facts)))" "map fst (concat (map ?f facts))"]
    by simp
next
  show "c \<in> set (candidates_for env th key v existing facts) \<Longrightarrow>
   fst c \<notin> set existing \<and> fst c \<in> fa_key ` fst ` set facts \<and> snd c \<ge> th"
  proof -
    assume "c \<in> set (candidates_for env th key v existing facts)"
    then obtain f w where "(f, w) \<in> set facts" "c \<in> set (case w of None \<Rightarrow> [] | Some w \<Rightarrow>
        if fa_key f = key \<or> fa_key f \<in> set existing then []
        else if vx_cosine env v w \<ge> th then [(fa_key f, vx_cosine env v w)] else [])"
      by (auto simp: candidates_for_def)
    then show ?thesis by (force split: option.splits if_splits)
  qed
qed

text \<open>The setting of the passes: what is live does not change while they run.\<close>

definition steady :: "('v, 'z) embed_env_scheme \<Rightarrow> (nat \<Rightarrow> clock) \<Rightarrow> string \<Rightarrow> string \<Rightarrow> 'v \<Rightarrow> fact list \<Rightarrow> memory \<Rightarrow> bool" where
  "steady env clk ns key v live m \<longleftrightarrow>
     ns \<in> set (mm_namespaces m) \<and> (\<forall>j i. latest_live (clk j i) ns (\<lambda>_. True) m = live)
     \<and> distinct (map fa_key live) \<and> (\<forall>f \<in> set live. ValidateKey (fa_key f) = Inr ())
     \<and> (\<exists>self \<in> set live. fa_key self = key \<and> stored_vector env self = Some v)"

lemma latest_live_filter: "latest_live now ns P m = filter (\<lambda>f. P (fa_key f)) (latest_live now ns (\<lambda>_. True) m)"
  by (simp add: latest_live_def filter_sort conj_ac cong: conj_cong) 

lemma filter_key_single:
  "distinct (map fa_key live) \<Longrightarrow> self \<in> set live \<Longrightarrow> filter (\<lambda>f. fa_key f = fa_key self) live = [self]"
  by (induction live) (auto simp: filter_empty_conv image_iff)

lemma find_key:
  "distinct (map fa_key live) \<Longrightarrow> self \<in> set live \<Longrightarrow>
   find (\<lambda>(f, v). fa_key f = fa_key self) (map (\<lambda>f. (f, g f)) live) = Some (self, g self)"
  by (induction live) auto

lemma steady_live:
  assumes "steady env clk ns key v live m" "br_mem b = m" "self \<in> set live" "fa_key self = key"
  shows "revisionStillLive (clk j i) ns key (fa_id self) b"
proof -
  have "queryLiveByKeys (clk j i) ns [key] m = filter (\<lambda>f. fa_key f \<in> set [key]) live"
    using assms(1) by (simp add: queryLiveByKeys_def steady_def latest_live_filter [of _ _ "\<lambda>k. k = key"])
  also have "\<dots> = [self]" using filter_key_single [of live self] assms by (simp add: steady_def)
  finally show ?thesis using assms(2) by (simp add: revisionStillLive_def)
qed


lemma pass_links:
  assumes steady: "steady env clk ns key v live m" and mem: "br_mem b = m" and th: "0 < th" and n: "0 < topN"
  defines "C \<equiv> candidates_for env th key v (linkTargetsAll ns key ''similar_to'' (br_links b)) (map (\<lambda>f. (f, stored_vector env f)) live)"
  shows "\<exists>rows. EnrichKey (Some env) (clk j) alone th topN ns key b
      = (Inr (length rows), b\<lparr>br_links := br_links b @ rows\<rparr>)
    \<and> list_all2 (\<lambda>c l. similar_row ns key (fst c) l) (take (nat topN) C) rows"
proof -
  obtain self where self: "self \<in> set live" "fa_key self = key" "stored_vector env self = Some v"
    using steady by (auto simp: steady_def)
  have vectors: "liveWithVectors env (clk j i) ns m = map (\<lambda>f. (f, stored_vector env f)) live" for i
    using steady by (simp add: steady_def liveWithVectors_def)
  have distinct: "distinct (map fa_key live)" and keys: "\<forall>f \<in> set live. ValidateKey (fa_key f) = Inr ()"
    using steady by (simp_all add: steady_def)
  have found: "find (\<lambda>(f, v). fa_key f = key) (map (\<lambda>f. (f, stored_vector env f)) live) = Some (self, Some v)"
    using find_key [OF distinct self(1), of "stored_vector env"] self(2, 3) by simp
  have C: "distinct (map fst C)" "\<forall>c \<in> set C. ValidateKey (fst c) = Inr ()"
    "\<forall>c \<in> set C. fst c \<notin> set (linkTargetsAll ns key ''similar_to'' (br_links b))"
    unfolding C_def using candidates_keys [where facts = "map (\<lambda>f. (f, stored_vector env f)) live"] distinct keys
    by (fastforce simp: comp_def)+
  obtain rows where rows: "link_loop (clk j) alone None ns key (fa_id self) (nat topN) 4 0 C b
        = (Inr (0 + length rows), b\<lparr>br_links := br_links b @ rows\<rparr>)"
      "list_all2 (\<lambda>c l. similar_row ns key (fst c) l) (take (nat topN - 0) C) rows"
    using link_loop_adds [of m "clk j" ns key "fa_id self" b C 0 "nat topN" 4] steady_live [OF steady _ self(1, 2)] mem keys self C
    by blast
  have "EnrichKey (Some env) (clk j) alone th topN ns key b = link_loop (clk j) alone None ns key (fa_id self) (nat topN) 4 0 C b"
    using th n found vectors mem by (simp add: EnrichKey_def enrichKey_def Let_def alone_apply C_def)
  then show ?thesis using rows by auto
qed

lemma similar_targets:
  "list_all2 (\<lambda>c l. similar_row ns key (fst c) l) cs rows \<Longrightarrow>
   set (linkTargetsAll ns key ''similar_to'' (ls @ rows)) = set (linkTargetsAll ns key ''similar_to'' ls) \<union> fst ` set cs"
proof (induction cs rows arbitrary: ls rule: list_all2_induct)
  case (Cons c cs l rows)
  show ?case using Cons.IH [of "ls @ [l]"] targets_append [OF Cons.hyps(1), of ls] by simp
qed simp

lemma filter_rest:
  "distinct (map fst C) \<Longrightarrow> filter (\<lambda>c. fst c \<notin> fst ` set (take n C)) C = drop n C"
proof -
  assume d: "distinct (map fst C)"
  then have "fst ` set (take n C) \<inter> fst ` set (drop n C) = {}"
    by (metis append_take_drop_id distinct_append list.set_map map_append)
  then have "filter (\<lambda>c. fst c \<notin> fst ` set (take n C)) (drop n C) = drop n C"
    "filter (\<lambda>c. fst c \<notin> fst ` set (take n C)) (take n C) = []"
    by (auto simp: filter_id_conv filter_empty_conv)
  then show ?thesis by (metis append_Nil append_take_drop_id filter_append)
qed

text \<open>Every enrichment pass adds the next best links.  While the live facts do not change, the j-th pass over
  a key with a vector links it to the candidates ranked after those of the passes before it: after j passes
  exactly the first j times topN candidates, by falling similarity, are linked, each once, and nothing else
  changes.  A pass is therefore repeated without effect only when its candidates fit in one budget: a retry
  after a crash between the links and the finish goes past it.\<close>

lemma enrich_next_best:
  assumes "steady env clk ns key v live (br_mem b)" and "0 < th" and "0 < topN"
  shows "\<exists>rows. enrich_passes env clk th topN ns key j b = b\<lparr>br_links := br_links b @ rows\<rparr>
    \<and> list_all2 (\<lambda>c l. similar_row ns key (fst c) l)
        (take (j * nat topN) (candidates_for env th key v (linkTargetsAll ns key ''similar_to'' (br_links b))
           (map (\<lambda>f. (f, stored_vector env f)) live))) rows"
proof (induction j)
  case 0
  show ?case by (intro exI [of _ "[]"]) simp
next
  case (Suc j)
  let ?facts = "map (\<lambda>f. (f, stored_vector env f)) live"
  let ?C = "candidates_for env th key v (linkTargetsAll ns key ''similar_to'' (br_links b)) ?facts"
  obtain rows where rows: "enrich_passes env clk th topN ns key j b = b\<lparr>br_links := br_links b @ rows\<rparr>"
    "list_all2 (\<lambda>c l. similar_row ns key (fst c) l) (take (j * nat topN) ?C) rows"
    using Suc.IH by blast
  let ?b1 = "b\<lparr>br_links := br_links b @ rows\<rparr>"
  let ?known = "map fst (take (j * nat topN) ?C)"
  have "set (linkTargetsAll ns key ''similar_to'' (br_links ?b1))
      = set (linkTargetsAll ns key ''similar_to'' (br_links b) @ ?known)"
    using similar_targets [OF rows(2)] by simp
  then have "candidates_for env th key v (linkTargetsAll ns key ''similar_to'' (br_links ?b1)) ?facts
      = filter (\<lambda>c. fst c \<notin> set ?known) ?C"
    unfolding candidates_known [symmetric] by (rule candidates_set_cong)
  also have "\<dots> = drop (j * nat topN) ?C"
    unfolding set_map by (rule filter_rest [OF candidates_keys(1)]) (use assms(1) in \<open>simp add: steady_def comp_def\<close>)
  finally have left: "candidates_for env th key v (linkTargetsAll ns key ''similar_to'' (br_links ?b1)) ?facts = drop (j * nat topN) ?C" .
  obtain rows' where rows': "EnrichKey (Some env) (clk j) alone th topN ns key ?b1
      = (Inr (length rows'), ?b1\<lparr>br_links := br_links ?b1 @ rows'\<rparr>)"
    "list_all2 (\<lambda>c l. similar_row ns key (fst c) l) (take (nat topN) (drop (j * nat topN) ?C)) rows'"
    using pass_links [OF assms(1) _ assms(2, 3), of ?b1 j] unfolding left by auto
  have "take (j * nat topN) ?C @ take (nat topN) (drop (j * nat topN) ?C) = take (Suc j * nat topN) ?C"
    by (simp add: take_add [symmetric] add.commute)
  then have "list_all2 (\<lambda>c l. similar_row ns key (fst c) l) (take (Suc j * nat topN) ?C) (rows @ rows')"
    using list_all2_appendI [OF rows(2) rows'(2)] by simp
  then show ?case using rows(1) rows'(1) by (intro exI [of _ "rows @ rows'"]) simp
qed


definition demo_embedded :: "string \<Rightarrow> string \<Rightarrow> fact" where
  "demo_embedded fid key = (demo_source None)\<lparr>fa_id := fid, fa_key := key, fa_embedding := Some ''v''\<rparr>"

definition demo_vectors :: "unit embed_env" where
  "demo_vectors = \<lparr>vx_embed = (\<lambda>_. Inl OtherCause), vx_encode = (\<lambda>_. ''v''), vx_decode = (\<lambda>_. Some ()), vx_cosine = (\<lambda>_ _. 9 / 10)\<rparr>"

definition demo_pair :: brain where
  "demo_pair = (demo_brain None [])\<lparr>br_mem := (demo_source_memory None)\<lparr>mm_facts := [demo_embedded ''f1'' ''/a'', demo_embedded ''f2'' ''/b'']\<rparr>\<rparr>"

lemma demo_steady:
  "steady demo_vectors (\<lambda>j i. 9) ''n'' ''/a'' () [demo_embedded ''f1'' ''/a'', demo_embedded ''f2'' ''/b''] (br_mem demo_pair)"
proof -
  have order: "''/a'' < ''/b''" by code_simp
  then have "latest_live 9 ''n'' (\<lambda>_. True) (br_mem demo_pair) = [demo_embedded ''f1'' ''/a'', demo_embedded ''f2'' ''/b'']"
    by (simp add: latest_live_def is_latest_def of_key_def unexpired_def demo_pair_def demo_embedded_def demo_defs)
  then show ?thesis
    by (simp add: steady_def demo_link_keys demo_embedded_def demo_pair_def demo_defs stored_vector_def demo_vectors_def)
qed

lemma enrich_next_best_witness:
  "set (linkTargetsAll ''n'' ''/a'' ''similar_to'' (br_links (enrich_passes demo_vectors (\<lambda>j i. 9) (1 / 2) 2 ''n'' ''/a'' 1 demo_pair))) = {''/b''}"
proof -
  let ?live = "[demo_embedded ''f1'' ''/a'', demo_embedded ''f2'' ''/b'']"
  obtain rows where rows: "enrich_passes demo_vectors (\<lambda>j i. 9) (1 / 2) 2 ''n'' ''/a'' 1 demo_pair = demo_pair\<lparr>br_links := br_links demo_pair @ rows\<rparr>"
    "list_all2 (\<lambda>c l. similar_row ''n'' ''/a'' (fst c) l)
        (take (1 * nat 2) (candidates_for demo_vectors (1 / 2) ''/a'' () (linkTargetsAll ''n'' ''/a'' ''similar_to'' (br_links demo_pair))
           (map (\<lambda>f. (f, stored_vector demo_vectors f)) ?live))) rows"
    using enrich_next_best [OF demo_steady, of "1 / 2" 2 1] by auto
  have "candidates_for demo_vectors (1 / 2) ''/a'' () (linkTargetsAll ''n'' ''/a'' ''similar_to'' (br_links demo_pair))
      (map (\<lambda>f. (f, stored_vector demo_vectors f)) ?live) = [(''/b'', 9 / 10)]"
    by (simp add: candidates_for_def linkTargetsAll_def demo_pair_def demo_embedded_def demo_defs stored_vector_def demo_vectors_def)
  then show ?thesis
    using similar_targets [OF rows(2), of "br_links demo_pair"] rows(1)
    by (simp add: linkTargetsAll_def demo_pair_def demo_brain_def)
qed

end
