(* ===== verification/Similarity.thy ===== *)
theory Similarity
  imports Complex_Main Prelude
begin

text \<open>
  The closeness of two entity names, \<open>internal/memory/similarity.go\<close>.  Scores are rationals; the code computes them
  in floating point.  The table of the one_edit distance is the row after row that the code fills, and it is
  proved to give the least number of single-rune edits.
\<close>

section \<open>Names\<close>

text \<open>A byte outside ASCII ends a run like any other separator, so the loop over runes is one over bytes.\<close>

definition name_char :: "char \<Rightarrow> bool" where
  "name_char c \<longleftrightarrow> in_range 97 122 (byte c) \<or> in_range 48 57 (byte c)"

fun collapse :: "bool \<Rightarrow> string \<Rightarrow> string" where
  "collapse prevSpace [] = []"
| "collapse prevSpace (c # s) =
     (if name_char c then c # collapse False s
      else if \<not> prevSpace then CHR '' '' # collapse True s
      else collapse prevSpace s)"

definition normalizeName :: "string \<Rightarrow> string" where
  "normalizeName s = rev (dropWhile (\<lambda>c. c = CHR '' '') (rev (collapse True (to_lower s))))"

text \<open>\<open>strings.Fields\<close> of a normalized name, whose only white space is the blank.\<close>

definition name_fields :: "string \<Rightarrow> string list" where
  "name_fields s = filter (\<lambda>w. w \<noteq> []) (split_byte (CHR '' '') s)"

definition containmentScore :: "string \<Rightarrow> string \<Rightarrow> rat" where
  "containmentScore na nb =
     (let ta = name_fields na; tb = name_fields nb in
      if ta = [] \<or> tb = [] \<or> length ta = length tb then 0
      else let (small, big) = (if length ta > length tb then (tb, ta) else (ta, tb))
           in if take (length small) big = small then 9 / 10 else 0)"

section \<open>Edit distance\<close>

definition rune_list :: "string \<Rightarrow> nat list" where
  "rune_list s = map (\<lambda>r. case r of None \<Rightarrow> 65533 | Some c \<Rightarrow> c) (runes s)"

text \<open>One row of the table: the cells from \<open>j\<close> on, given the row above from \<open>j - 1\<close> on and the cell to the left.\<close>

fun lev_row :: "nat \<Rightarrow> nat list \<Rightarrow> nat list \<Rightarrow> nat \<Rightarrow> nat list" where
  "lev_row x (b # bs) (diag # up # rest) left =
     (let c = min (min (up + 1) (left + 1)) (diag + (if x = b then 0 else 1))
      in c # lev_row x bs (up # rest) c)"
| "lev_row x bs prev left = []"

fun lev_rows :: "nat \<Rightarrow> nat list \<Rightarrow> nat list \<Rightarrow> nat list \<Rightarrow> nat list" where
  "lev_rows i [] bs prev = prev"
| "lev_rows i (x # xs) bs prev = lev_rows (Suc i) xs bs (i # lev_row x bs prev i)"

definition levenshtein :: "string \<Rightarrow> string \<Rightarrow> nat" where
  "levenshtein a b =
     (let ra = rune_list a; rb = rune_list b in lev_rows 1 ra rb [0..<Suc (length rb)] ! length rb)"

definition editRatio :: "string \<Rightarrow> string \<Rightarrow> rat" where
  "editRatio a b =
     (let maxLen = max (length a) (length b) in
      if maxLen = 0 then 1 else 1 - of_nat (levenshtein a b) / of_nat maxLen)"

definition nameSimilarityNorm :: "string \<Rightarrow> string \<Rightarrow> rat" where
  "nameSimilarityNorm na nb =
     (if na = nb then 1
      else if containmentScore na nb > editRatio na nb then containmentScore na nb else editRatio na nb)"

definition nameSimilarity :: "string \<Rightarrow> string \<Rightarrow> rat" where
  "nameSimilarity a b = nameSimilarityNorm (normalizeName a) (normalizeName b)"

section \<open>The distance by recursion\<close>

fun edit_dist :: "'a list \<Rightarrow> 'a list \<Rightarrow> nat" where
  "edit_dist [] ys = length ys"
| "edit_dist xs [] = length xs"
| "edit_dist (x # xs) (y # ys) =
     min (min (edit_dist xs (y # ys) + 1) (edit_dist (x # xs) ys + 1)) (edit_dist xs ys + (if x = y then 0 else 1))"

lemma dist_Nil2 [simp]: "edit_dist xs [] = length xs"
  by (cases xs) simp_all

lemma dist_sym: "edit_dist xs ys = edit_dist ys xs"
  by (induction xs ys rule: edit_dist.induct) (simp_all add: eq_commute min.commute min.left_commute)

text \<open>The rows of the table hold the distances of the reversed prefixes.\<close>

fun row_of :: "'a list \<Rightarrow> 'a list \<Rightarrow> 'a list \<Rightarrow> nat list" where
  "row_of ra rb [] = [edit_dist ra rb]"
| "row_of ra rb (y # ys) = edit_dist ra rb # row_of ra (y # rb) ys"

lemma row_of_hd: "row_of ra rb ys = edit_dist ra rb # tl (row_of ra rb ys)"
  by (cases ys) simp_all

lemma lev_row_next: "lev_row x ys (row_of ra rb ys) (edit_dist (x # ra) rb) = tl (row_of (x # ra) rb ys)"
proof (induction ys arbitrary: rb)
  case (Cons y ys)
  have "row_of ra (y # rb) ys = edit_dist ra (y # rb) # tl (row_of ra (y # rb) ys)" by (rule row_of_hd)
  moreover have "edit_dist (x # ra) (y # rb) # tl (row_of (x # ra) (y # rb) ys) = row_of (x # ra) (y # rb) ys"
    by (rule row_of_hd [symmetric])
  ultimately show ?case using Cons.IH [of "y # rb"]
    by (metis edit_dist.simps(3) lev_row.simps(1) list.sel(3) row_of.simps(2))
qed simp

lemma lev_rows_next:
  "lev_rows (Suc (length ra)) xs ys (row_of ra [] ys) = row_of (rev xs @ ra) [] ys"
proof (induction xs arbitrary: ra)
  case (Cons x xs)
  have "Suc (length ra) # lev_row x ys (row_of ra [] ys) (Suc (length ra)) = row_of (x # ra) [] ys"
    using lev_row_next [of x ys ra "[]"] row_of_hd [of "x # ra" "[]" ys] by simp
  then show ?case using Cons.IH [of "x # ra"] by simp
qed simp

lemma row_of_first: "row_of [] rb ys = [length rb..<Suc (length rb + length ys)]"
proof (induction ys arbitrary: rb)
  case (Cons y ys)
  then show ?case by (simp add: upt_conv_Cons del: upt_Suc)
qed simp

lemma row_of_end: "row_of ra rb ys ! length ys = edit_dist ra (rev ys @ rb)"
  by (induction ys arbitrary: rb) simp_all

lemma levenshtein_dist: "levenshtein a b = edit_dist (rev (rune_list a)) (rev (rune_list b))"
  using lev_rows_next [of "[]" "rune_list a" "rune_list b"] row_of_first [of "[]" "rune_list b"]
  by (simp add: levenshtein_def Let_def row_of_end del: upt_Suc)

section \<open>The distance counts edits\<close>

inductive one_edit :: "'a list \<Rightarrow> 'a list \<Rightarrow> bool" where
  insert_one: "one_edit (xs @ ys) (xs @ c # ys)"
| delete_one: "one_edit (xs @ c # ys) (xs @ ys)"
| replace_one: "one_edit (xs @ c # ys) (xs @ d # ys)"

lemma edit_Cons: "one_edit a b \<Longrightarrow> one_edit (x # a) (x # b)"
  by (induction rule: one_edit.induct) (metis append_Cons one_edit.intros)+

lemma edit_rev: "one_edit a b \<Longrightarrow> one_edit (rev a) (rev b)"
proof (induction rule: one_edit.induct)
  case (insert_one xs ys c)
  then show ?case using one_edit.insert_one [of "rev ys" "rev xs" c] by simp
next
  case (delete_one xs c ys)
  then show ?case using one_edit.delete_one [of "rev ys" c "rev xs"] by simp
next
  case (replace_one xs c ys d)
  then show ?case using one_edit.replace_one [of "rev ys" c "rev xs" d] by simp
qed

lemma edits_Cons: "(one_edit ^^ n) a b \<Longrightarrow> (one_edit ^^ n) (x # a) (x # b)"
  by (induction n arbitrary: b) (auto intro: edit_Cons)

lemma edits_rev: "(one_edit ^^ n) a b \<Longrightarrow> (one_edit ^^ n) (rev a) (rev b)"
  by (induction n arbitrary: b) (auto intro: edit_rev)

lemma edits_rev_iff: "(one_edit ^^ n) (rev a) (rev b) \<longleftrightarrow> (one_edit ^^ n) a b"
  using edits_rev [of n a b] edits_rev [of n "rev a" "rev b"] by auto

lemma edit_step: "one_edit a b \<Longrightarrow> (one_edit ^^ n) b c \<Longrightarrow> (one_edit ^^ Suc n) a c"
  by (rule relpowp_Suc_I2)

lemma dist_reached: "(one_edit ^^ edit_dist a b) a b"
proof (induction a b rule: edit_dist.induct)
  case (1 ys)
  show ?case
  proof (induction ys)
    case (Cons y ys)
    have "one_edit ([] :: 'a list) [y]" using insert_one [of "[]" "[]" y] by simp
    moreover have "(one_edit ^^ length ys) [y] (y # ys)" using edits_Cons [of "length ys" "[]" ys y] Cons by simp
    ultimately show ?case using edit_step by fastforce
  qed simp
next
  case (2 v va)
  have "(one_edit ^^ length xs) xs []" for xs :: "'a list"
  proof (induction xs)
    case (Cons x xs)
    then show ?case using edit_step delete_one [of "[]" x xs] by fastforce
  qed simp
  from this [of "v # va"] show ?case by simp
next
  case (3 x xs y ys)
  have del: "(one_edit ^^ (edit_dist xs (y # ys) + 1)) (x # xs) (y # ys)"
    using edit_step [OF delete_one [of "[]" x xs]] 3(1) by simp
  have ins: "(one_edit ^^ (edit_dist (x # xs) ys + 1)) (x # xs) (y # ys)"
    using edit_step [OF insert_one [of "[]" "x # xs" y]] edits_Cons [OF 3(2)] by simp
  have sub: "(one_edit ^^ (edit_dist xs ys + (if x = y then 0 else 1))) (x # xs) (y # ys)"
    using edits_Cons [OF 3(3)] edit_step [OF replace_one [of "[]" x xs y]] by simp
  show ?case using del ins sub by (simp add: min_def)
qed

lemma dist_delete: "edit_dist (c # ys) b \<le> Suc (edit_dist ys b)"
  by (cases b) simp_all

lemma dist_append: "edit_dist ys (y # b) \<le> Suc (edit_dist ys b)"
  by (cases ys) simp_all

lemma dist_insert: "edit_dist ys b \<le> Suc (edit_dist (c # ys) b)"
proof (induction b)
  case (Cons y b)
  have "edit_dist ys (y # b) \<le> Suc (edit_dist ys b)" by (rule dist_append)
  then show ?case using Cons by (auto simp: min_def)
qed simp

lemma dist_prefix:
  assumes "\<And>b. edit_dist a b \<le> Suc (edit_dist a' b)"
  shows "edit_dist (x # a) b \<le> Suc (edit_dist (x # a') b)"
proof (induction b)
  case Nil
  then show ?case using assms [of "[]"] by simp
next
  case (Cons y b)
  then show ?case using assms [of "y # b"] assms [of b] by (auto simp: min_def)
qed

lemma dist_replace: "edit_dist (c # ys) b \<le> Suc (edit_dist (d # ys) b)"
proof (induction b)
  case (Cons y b)
  then show ?case by (auto simp: min_def)
qed simp

lemma dist_edit: "one_edit a a' \<Longrightarrow> edit_dist a b \<le> Suc (edit_dist a' b)"
proof (induction arbitrary: b rule: one_edit.induct)
  case (insert_one xs ys c)
  then show ?case by (induction xs arbitrary: b) (simp_all add: dist_insert dist_prefix del: edit_dist.simps)
next
  case (delete_one xs c ys)
  then show ?case by (induction xs arbitrary: b) (simp_all add: dist_delete dist_prefix del: edit_dist.simps)
next
  case (replace_one xs c ys d)
  then show ?case by (induction xs arbitrary: b) (simp_all add: dist_replace dist_prefix del: edit_dist.simps)
qed

lemma dist_refl [simp]: "edit_dist a a = 0"
  by (induction a) simp_all

lemma dist_least: "(one_edit ^^ n) a b \<Longrightarrow> edit_dist a b \<le> n"
proof (induction n arbitrary: a)
  case (Suc n)
  then obtain a' where "one_edit a a'" "(one_edit ^^ n) a' b" by (meson relpowp_Suc_D2)
  then show ?case using dist_edit [of a a' b] Suc.IH [of a'] by simp
qed simp

text \<open>C19: the one_edit distance is exact.  The table that \<open>levenshtein\<close> fills row by row ends in the least number of
  insertions, deletions and replacements of one rune that turn the first name into the second.\<close>

theorem levenshtein_least:
  "levenshtein a b = (LEAST n. (one_edit ^^ n) (rune_list a) (rune_list b))"
proof (rule Least_equality [symmetric])
  show "(one_edit ^^ levenshtein a b) (rune_list a) (rune_list b)"
    using dist_reached [of "rev (rune_list a)" "rev (rune_list b)"]
    by (simp add: levenshtein_dist edits_rev_iff)
  show "levenshtein a b \<le> n" if "(one_edit ^^ n) (rune_list a) (rune_list b)" for n
    using dist_least [of n "rev (rune_list a)" "rev (rune_list b)"] that
    by (simp add: levenshtein_dist edits_rev_iff)
qed

lemma dist_bound: "edit_dist a b \<le> max (length a) (length b)"
  by (induction a b rule: edit_dist.induct) auto

lemma dist_zero: "edit_dist a b = 0 \<longleftrightarrow> a = b"
  by (induction a b rule: edit_dist.induct) (auto simp: min_def)

lemma levenshtein_sym: "levenshtein a b = levenshtein b a"
  by (simp add: levenshtein_dist dist_sym)

lemma levenshtein_zero: "levenshtein a b = 0 \<longleftrightarrow> rune_list a = rune_list b"
  by (simp add: levenshtein_dist dist_zero)

text \<open>A rune takes at least one byte, so the ratio stays between 0 and 1.\<close>

lemma runes_length: "length (runes s) \<le> length s"
proof (induction s rule: runes.induct)
  case (1 s)
  show ?case
  proof (cases "s = []")
    case False
    then have "length (runes (drop (snd (decode_rune s)) s)) \<le> length s - snd (decode_rune s)" using 1 by simp
    moreover have "1 \<le> snd (decode_rune s)" using decode_rune_width False by simp
    moreover have "0 < length s" using False by simp
    ultimately have "Suc (length (runes (drop (snd (decode_rune s)) s))) \<le> length s" by arith
    then show ?thesis using False by (subst runes.simps) simp
  qed simp
qed

lemma levenshtein_bound: "levenshtein a b \<le> max (length a) (length b)"
  using dist_bound [of "rev (rune_list a)" "rev (rune_list b)"] runes_length [of a] runes_length [of b]
  by (auto simp: levenshtein_dist rune_list_def)

lemma editRatio_bounds: "0 \<le> editRatio a b \<and> editRatio a b \<le> 1"
proof -
  have le: "(of_nat (levenshtein a b) :: rat) \<le> of_nat (max (length a) (length b))"
    using levenshtein_bound by (simp only: of_nat_le_iff)
  show ?thesis
  proof (cases "max (length a) (length b) = 0")
    case False
    then have "(0 :: rat) < of_nat (max (length a) (length b))" by (simp only: of_nat_0_less_iff)
    then have "0 \<le> (of_nat (levenshtein a b) :: rat) / of_nat (max (length a) (length b))
        \<and> (of_nat (levenshtein a b) :: rat) / of_nat (max (length a) (length b)) \<le> 1"
      using le by (simp add: divide_le_eq_1)
    then show ?thesis using False by (simp add: editRatio_def Let_def del: max_nat.eq_neutr_iff)
  qed (simp add: editRatio_def)
qed

lemma nameSimilarity_bounds: "0 \<le> nameSimilarity a b \<and> nameSimilarity a b \<le> 1"
  using editRatio_bounds by (auto simp: nameSimilarity_def nameSimilarityNorm_def containmentScore_def Let_def)

lemma containmentScore_sym: "containmentScore a b = containmentScore b a"
  by (auto simp: containmentScore_def Let_def)

lemma editRatio_sym: "editRatio a b = editRatio b a"
  by (simp only: editRatio_def levenshtein_sym [of a b] max.commute [of "length a"])

lemma nameSimilarity_sym: "nameSimilarity a b = nameSimilarity b a"
  unfolding nameSimilarity_def nameSimilarityNorm_def
  by (simp only: containmentScore_sym [of "normalizeName a"] editRatio_sym [of "normalizeName a"] eq_commute [of "normalizeName a"])

end
