(* ===== verification/EntityMerge.thy ===== *)
theory EntityMerge
  imports DocSource Similarity
begin

text \<open>
  Entities and their reversible merges, \<open>internal/memory/entity_resolve.go\<close> with the helpers of \<open>entity.go\<close>.
  An entity is a fact under \<open>/entities\<close>; a merge marks the absorbed one with \<open>merged_into\<close>, gives the canonical
  one its names, sources and mentions, and records what it gave so that it can be taken back.  A method reads
  the tables several times before its transaction: \<open>others k\<close> is what the rest of the system does before
  access \<open>k\<close>.  The digest, the vectors' cosine and the embedder are parameters.  The text of a piece of
  evidence is left out.  A list attribute that holds nothing is an empty array here, \<open>null\<close> or absent in
  the stored JSON; its readers do not tell them apart.
\<close>

section \<open>Types, names and attributes\<close>

definition EntityTypes :: "string list" where
  "EntityTypes = [''service'', ''repository'', ''database'', ''host'', ''incident'', ''person'', ''unknown'']"

definition ValidEntityType :: "string \<Rightarrow> bool" where
  "ValidEntityType t \<longleftrightarrow> t \<in> set EntityTypes"

definition protectedEntityTypes :: "string list" where
  "protectedEntityTypes = [''incident'', ''host'']"

definition entityAliasThreshold :: rat where "entityAliasThreshold = 85 / 100"
definition entityMergeEmbeddingCosine :: rat where "entityMergeEmbeddingCosine = 9 / 10"
definition resolveMaxHops :: nat where "resolveMaxHops = 8"
definition entityScanPageSize :: nat where "entityScanPageSize = 500"

text \<open>\<open>strings.Cut(rest, "/")\<close>: the type is what precedes the first slash, when there is one.\<close>

definition entityKeyType :: "string \<Rightarrow> string" where
  "entityKeyType key =
     (let rest = trim_prefix key ''/entities/'' in
      case split_byte (CHR ''/'') rest of
        typ # _ # _ \<Rightarrow> if ValidEntityType typ then typ else []
      | _ \<Rightarrow> [])"

definition json_string_list :: "json \<Rightarrow> string list" where
  "json_string_list j = (case j of
      JArr js \<Rightarrow> concat (map (\<lambda>v. case v of JStr s \<Rightarrow> [s] | _ \<Rightarrow> []) js)
    | _ \<Rightarrow> [])"

definition recordStringList :: "attrs \<Rightarrow> string \<Rightarrow> string list" where
  "recordStringList rec name = (case map_of rec name of None \<Rightarrow> [] | Some j \<Rightarrow> json_string_list j)"

definition attrStringList :: "fact \<Rightarrow> string \<Rightarrow> string list" where
  "attrStringList f name = recordStringList (fa_attrs f) name"

definition entityAliases :: "fact \<Rightarrow> string list" where
  "entityAliases f = attrStringList f ''aliases''"

text \<open>Assigning to a key of a Go map, and deleting one.\<close>

definition attr_set :: "string \<Rightarrow> json \<Rightarrow> attrs \<Rightarrow> attrs" where
  "attr_set k v ats = (k, v) # filter (\<lambda>(x, _). x \<noteq> k) ats"

definition attr_del :: "string \<Rightarrow> attrs \<Rightarrow> attrs" where
  "attr_del k ats = filter (\<lambda>(x, _). x \<noteq> k) ats"

definition json_strings :: "string list \<Rightarrow> json" where
  "json_strings xs = JArr (map JStr xs)"

definition mentionCountOf :: "fact \<Rightarrow> rat" where
  "mentionCountOf f = (case map_of (fa_attrs f) ''mention_count'' of Some (JNum x) \<Rightarrow> x | _ \<Rightarrow> 0)"

definition mergedIntoOf :: "fact \<Rightarrow> string" where
  "mergedIntoOf f = string_attr (fa_attrs f) ''merged_into''"

definition normSet :: "string list \<Rightarrow> string set" where
  "normSet names = set (filter (\<lambda>n. n \<noteq> []) (map normalizeName names))"

fun union_loop :: "string list \<Rightarrow> string list \<Rightarrow> string list" where
  "union_loop seen [] = []"
| "union_loop seen (s # ss) =
     (if to_lower s \<in> set seen then union_loop seen ss else s # union_loop (to_lower s # seen) ss)"

definition unionStrings :: "string list \<Rightarrow> string list \<Rightarrow> string list" where
  "unionStrings a b = union_loop [] (a @ b)"

definition storedProtectedEntityType :: "fact list \<Rightarrow> string" where
  "storedProtectedEntityType fs =
     (case concat (map (\<lambda>f. filter (\<lambda>t. t \<in> set protectedEntityTypes)
         [entityKeyType (fa_key f), to_lower (trim_space (string_attr (fa_attrs f) ''entity_type''))]) fs) of
        [] \<Rightarrow> [] | t # _ \<Rightarrow> t)"

section \<open>The lineage records\<close>

definition lineage_list :: "attrs \<Rightarrow> json list" where
  "lineage_list ats = (case map_of ats ''merges'' of Some (JArr js) \<Rightarrow> js | _ \<Rightarrow> [])"

definition mergeRecords :: "fact \<Rightarrow> attrs list" where
  "mergeRecords f = concat (map (\<lambda>j. case j of JObj r \<Rightarrow> [r] | _ \<Rightarrow> []) (lineage_list (fa_attrs f)))"

definition is_merge_record :: "string \<Rightarrow> json \<Rightarrow> bool" where
  "is_merge_record mid j = (case j of JObj r \<Rightarrow> map_of r ''merge_id'' = Some (JStr mid) | _ \<Rightarrow> False)"

definition hasMergeRecord :: "fact \<Rightarrow> string \<Rightarrow> bool" where
  "hasMergeRecord f mid \<longleftrightarrow> (\<exists>r \<in> set (mergeRecords f). map_of r ''merge_id'' = Some (JStr mid))"

fun split_record :: "string \<Rightarrow> json list \<Rightarrow> attrs option \<times> json list" where
  "split_record mid [] = (None, [])"
| "split_record mid (j # js) =
     (case j of
        JObj r \<Rightarrow>
          if map_of r ''merge_id'' = Some (JStr mid) then (Some r, js)
          else (case split_record mid js of (found, rest) \<Rightarrow> (found, j # rest))
      | _ \<Rightarrow> (case split_record mid js of (found, rest) \<Rightarrow> (found, j # rest)))"

definition splitMergeRecord :: "fact \<Rightarrow> string \<Rightarrow> attrs option \<times> json list" where
  "splitMergeRecord f mid = split_record mid (lineage_list (fa_attrs f))"

definition merge_base :: "fact \<Rightarrow> attrs" where
  "merge_base f = (case map_of (fa_attrs f) ''merge_base'' of Some (JObj base) \<Rightarrow> base | _ \<Rightarrow> [])"

definition mergeBaseOf :: "fact \<Rightarrow> string set \<times> string set \<times> string set" where
  "mergeBaseOf f = (set (map normalizeName (recordStringList (merge_base f) ''aliases'')),
     set (recordStringList (merge_base f) ''source_facts''), set (recordStringList (merge_base f) ''mentions''))"

definition entityMergeID :: "(string \<Rightarrow> string) \<Rightarrow> string \<Rightarrow> string \<Rightarrow> string \<Rightarrow> string" where
  "entityMergeID digest ns aliasKey canonicalKey =
     ''em-'' @ take 16 (digest (ns @ CHR 0x00 # aliasKey @ CHR 0x00 # canonicalKey))"

section \<open>The scan of a prefix\<close>

text \<open>Pages of live facts in the order of their keys, each from the last key of the page before.\<close>

definition live_after :: "instant \<Rightarrow> string \<Rightarrow> string \<Rightarrow> string \<Rightarrow> memory \<Rightarrow> fact list" where
  "live_after now ns prefix cursor m = latest_live now ns (\<lambda>k. key_like m prefix k \<and> cursor < k) m"

lemma live_after_member: "f \<in> set (live_after now ns prefix cursor m) \<Longrightarrow> f \<in> set (mm_facts m) \<and> cursor < fa_key f"
  by (auto simp: live_after_def latest_live_def)

function scan_pages :: "clock \<Rightarrow> string \<Rightarrow> string \<Rightarrow> memory \<Rightarrow> nat \<Rightarrow> string \<Rightarrow> fact list" where
  "scan_pages now ns prefix m i cursor =
     (let rows = take entityScanPageSize (live_after (now i) ns prefix cursor m) in
      if length rows < entityScanPageSize then rows
      else rows @ scan_pages now ns prefix m (Suc i) (fa_key (last rows)))"
  by pat_completeness auto

termination
proof (relation "measure (\<lambda>(now, ns, prefix, m, i, cursor). length (filter (\<lambda>f. cursor < fa_key f) (mm_facts m)))", goal_cases)
  case (2 now ns prefix m i cursor rows)
  have "rows \<noteq> []" using 2 by (auto simp: entityScanPageSize_def)
  then have "last rows \<in> set (live_after (now i) ns prefix cursor m)" using 2(1) in_set_takeD last_in_set by metis
  then have end_row: "last rows \<in> set (mm_facts m)" "cursor < fa_key (last rows)" by (auto dest: live_after_member)
  let ?fs = "filter (\<lambda>f. cursor < fa_key f) (mm_facts m)"
  have "filter (\<lambda>f. fa_key (last rows) < fa_key f) (mm_facts m) = filter (\<lambda>f. fa_key (last rows) < fa_key f) ?fs"
    using end_row(2) by (auto intro: filter_cong)
  moreover have "length (filter (\<lambda>f. fa_key (last rows) < fa_key f) ?fs) < length ?fs"
    using end_row by (intro length_filter_less [of "last rows"]) auto
  ultimately show ?case by simp
qed simp

declare scan_pages.simps [simp del]

definition scanLivePrefix :: "clock \<Rightarrow> string \<Rightarrow> string \<Rightarrow> memory \<Rightarrow> fact list" where
  "scanLivePrefix now ns prefix m = (if ns \<notin> set (mm_namespaces m) then [] else scan_pages now ns prefix m 0 [])"

section \<open>Proposals\<close>

datatype evidence_kind = DeclaredAlias | SharedSource | NameSimilar | EmbeddingSimilar

fun evidence_weight :: "evidence_kind \<Rightarrow> rat" where
  "evidence_weight DeclaredAlias = 7 / 10"
| "evidence_weight SharedSource = 1 / 2"
| "evidence_weight NameSimilar = 2 / 10"
| "evidence_weight EmbeddingSimilar = 15 / 100"

record merge_env =
  me_mem :: mem_env
  me_digest :: "string \<Rightarrow> string"
  me_cosine :: "string \<Rightarrow> string \<Rightarrow> rat"

definition embeddingsByKeys :: "instant \<Rightarrow> string \<Rightarrow> string list \<Rightarrow> memory \<Rightarrow> (string \<times> string) list" where
  "embeddingsByKeys now ns ks m =
     concat (map (\<lambda>f. case fa_embedding f of
         None \<Rightarrow> [] | Some e \<Rightarrow> if e = [] then [] else [(fa_key f, e)]) (queryLiveByKeys now ns ks m))"

definition collectMergeEvidence ::
  "merge_env \<Rightarrow> instant \<Rightarrow> string \<Rightarrow> memory \<Rightarrow> fact \<Rightarrow> fact \<Rightarrow> evidence_kind list" where
  "collectMergeEvidence env now ns m a b =
     (if normalizeName (fa_body b) \<in> normSet (entityAliases a) then [DeclaredAlias] else [])
     @ (if normalizeName (fa_body a) \<in> normSet (entityAliases b) then [DeclaredAlias] else [])
     @ (if filter (\<lambda>i. i \<in> set (attrStringList a ''source_facts'')) (attrStringList b ''source_facts'') \<noteq> []
        then [SharedSource] else [])
     @ (if nameSimilarity (fa_body a) (fa_body b) \<ge> entityAliasThreshold then
          NameSimilar # (let raw = rev (embeddingsByKeys now ns [fa_key a, fa_key b] m) in
            case (map_of raw (fa_key a), map_of raw (fa_key b)) of
              (Some x, Some y) \<Rightarrow> if me_cosine env x y \<ge> entityMergeEmbeddingCosine then [EmbeddingSimilar] else []
            | _ \<Rightarrow> [])
        else [])"

definition pickCanonical :: "fact \<Rightarrow> fact \<Rightarrow> fact \<times> fact" where
  "pickCanonical a b =
     (let na = length (attrStringList a ''source_facts''); nb = length (attrStringList b ''source_facts'') in
      if mentionCountOf a \<noteq> mentionCountOf b then
        (if mentionCountOf a > mentionCountOf b then (a, b) else (b, a))
      else if na \<noteq> nb then (if na > nb then (a, b) else (b, a))
      else if length (fa_body a) \<noteq> length (fa_body b) then
        (if length (fa_body a) > length (fa_body b) then (a, b) else (b, a))
      else if fa_key a \<le> fa_key b then (a, b) else (b, a))"

record merge_proposal =
  mp_id :: string
  mp_ns :: string
  mp_canonical :: string
  mp_alias :: string
  mp_canonical_name :: string
  mp_alias_name :: string
  mp_type :: string
  mp_score :: rat
  mp_evidence :: "evidence_kind list"
  mp_protected :: bool

text \<open>The gate of one pair: identity evidence, and for a protected type a declared alias and the option.\<close>

definition identity_gate :: "bool \<Rightarrow> bool \<Rightarrow> evidence_kind list \<Rightarrow> bool" where
  "identity_gate includeProtected protected ev \<longleftrightarrow>
     (DeclaredAlias \<in> set ev \<or> (NameSimilar \<in> set ev \<and> SharedSource \<in> set ev))
     \<and> (protected \<longrightarrow> DeclaredAlias \<in> set ev \<and> includeProtected)"

definition propose_pair ::
  "merge_env \<Rightarrow> instant \<Rightarrow> string \<Rightarrow> bool \<Rightarrow> string \<Rightarrow> memory \<Rightarrow> fact \<Rightarrow> fact \<Rightarrow> merge_proposal list" where
  "propose_pair env now ns includeProtected typ m a b =
     (let ev = collectMergeEvidence env now ns m a b; protected = typ \<in> set protectedEntityTypes in
      if \<not> identity_gate includeProtected protected ev then []
      else case pickCanonical a b of (canonical, absorbed) \<Rightarrow>
        [\<lparr>mp_id = entityMergeID (me_digest env) ns (fa_key absorbed) (fa_key canonical), mp_ns = ns,
          mp_canonical = fa_key canonical, mp_alias = fa_key absorbed,
          mp_canonical_name = fa_body canonical, mp_alias_name = fa_body absorbed, mp_type = typ,
          mp_score = min 1 (sum_list (map evidence_weight ev)), mp_evidence = ev,
          mp_protected = protected\<rparr>])"

fun bucket_pairs :: "'f list \<Rightarrow> ('f \<times> 'f) list" where
  "bucket_pairs [] = []"
| "bucket_pairs (f # fs) = map (\<lambda>g. (f, g)) fs @ bucket_pairs fs"

definition merge_candidates :: "fact list \<Rightarrow> fact list" where
  "merge_candidates ents = filter (\<lambda>e. mergedIntoOf e = []) ents"

definition bucket_proposals ::
  "merge_env \<Rightarrow> (string \<Rightarrow> string \<Rightarrow> instant) \<Rightarrow> string \<Rightarrow> bool \<Rightarrow> memory \<Rightarrow> fact list \<Rightarrow> string \<Rightarrow> merge_proposal list" where
  "bucket_proposals env pair_now ns includeProtected m cands typ =
     concat (map (\<lambda>(a, b). propose_pair env (pair_now (fa_key a) (fa_key b)) ns includeProtected typ m a b)
       (bucket_pairs (filter (\<lambda>e. entityKeyType (fa_key e) = typ) cands)))"

text \<open>Page \<open>i\<close> of the scan reads the clock at \<open>now i\<close>, the stored vectors of a pair are read at
  \<open>pair_now\<close>.\<close>

definition ProposeEntityMerges ::
  "merge_env \<Rightarrow> clock \<Rightarrow> (string \<Rightarrow> string \<Rightarrow> instant) \<Rightarrow> string \<Rightarrow> int \<Rightarrow> bool \<Rightarrow> memory \<Rightarrow> merge_proposal list" where
  "ProposeEntityMerges env now pair_now ns limit includeProtected m =
     (let cands = merge_candidates (scanLivePrefix now ns ''/entities'' m);
          types = sort (remdups (map (\<lambda>e. entityKeyType (fa_key e)) cands))
      in take (if limit \<le> 0 then 100 else nat limit)
           (sort_key (\<lambda>p. (- mp_score p, mp_alias p, mp_canonical p))
             (concat (map (bucket_proposals env pair_now ns includeProtected m cands) types))))"

section \<open>Writing a merge\<close>

type_synonym graph = "memory \<times> links"
type_synonym graph_others = "nat \<Rightarrow> graph \<Rightarrow> graph"

datatype merge_error =
    MergeStore memory_error
  | MergeLink link_error
  | ProtectedEntityMerge string
  | SelfMerge string
  | MergeNotFound string
  | EntityMergeConflict string string
  | EntityNotMerged string
  | LineageMissing string string
  | StalePlan string
  | LineageCycle string
  | ChainTooLong string

record merge_result =
  mr_proposal :: string
  mr_canonical :: string
  mr_alias :: string
  mr_applied :: bool
  mr_reverted :: bool

definition merge_revision ::
  "mem_env \<Rightarrow> string \<Rightarrow> instant \<Rightarrow> string \<Rightarrow> fact \<Rightarrow> attrs \<Rightarrow> string \<Rightarrow> fact" where
  "merge_revision env fid now ns prev ats action =
     \<lparr>fa_id = fid, fa_ns = ns, fa_key = fa_key prev, fa_action = action, fa_body = fa_body prev,
      fa_attrs = ats, fa_author = [], fa_created = now, fa_writer = ''entity-merge'', fa_task = None,
      fa_source = [], fa_confidence = 0, fa_valid = Some now, fa_invalid = None, fa_expires = None,
      fa_embedding = en_embed env (fa_key prev) (fa_body prev),
      fa_hash = en_hash env (fa_key prev) (fa_body prev) ats, fa_importance = fa_importance prev,
      fa_access = 0, fa_feedback = 1 / 2, fa_reinforcements = 0\<rparr>"

definition planned_head :: "string \<Rightarrow> fact \<Rightarrow> fact \<Rightarrow> bool" where
  "planned_head ns prev f \<longleftrightarrow> open_of_key ns (fa_key prev) f \<and> fa_id f = fa_id prev"

definition writeMergeRevisionTx ::
  "mem_env \<Rightarrow> string \<Rightarrow> instant \<Rightarrow> string \<Rightarrow> fact \<Rightarrow> attrs \<Rightarrow> (memory, merge_error, unit) op" where
  "writeMergeRevisionTx env fid now ns prev ats m =
     (case ensureNamespace ns m of
        (Inl e, m1) \<Rightarrow> (Inl (MergeStore e), m1)
      | (Inr _, m1) \<Rightarrow>
          (case latest_revision ns (fa_key prev) m1 of
             None \<Rightarrow> (Inl (StalePlan (fa_key prev)), m1)
           | Some f \<Rightarrow>
               if fa_hash f = en_hash env (fa_key prev) (fa_body prev) ats \<and> fa_action f \<noteq> ''tombstone''
               then (Inr (), reinforce (fa_id f) m1)
               else if fa_id f \<noteq> fa_id prev then (Inl (StalePlan (fa_key prev)), m1)
               else if rows_affected (planned_head ns prev) (mm_facts m1) \<noteq> 1
               then (Inl (StalePlan (fa_key prev)), invalidate now (planned_head ns prev) m1)
               else if fid \<in> fa_id ` set (mm_facts m1) then (Inl (MergeStore (DuplicateFact fid)), m1)
               else (Inr (), append_fact (merge_revision env fid now ns prev ats (liveAction ns (fa_key prev) m1))
                      (invalidate now (planned_head ns prev) m1))))"

definition on_memory :: "(memory, merge_error, unit) op \<Rightarrow> (graph, merge_error, unit) op" where
  "on_memory fn g = (case fn (fst g) of (r, m) \<Rightarrow> (r, (m, snd g)))"

fun add_mentions :: "instant \<Rightarrow> string \<Rightarrow> string \<Rightarrow> string list \<Rightarrow> (graph, merge_error, unit) op" where
  "add_mentions now ns canonical [] g = (Inr (), g)"
| "add_mentions now ns canonical (src # srcs) g =
     (case addLinkTx ns src canonical ''mentions'' 1 [] None now (snd g) of
        (Inl e, ls) \<Rightarrow> (Inl (MergeLink e), (fst g, ls))
      | (Inr _, ls) \<Rightarrow> add_mentions now ns canonical srcs (fst g, ls))"

text \<open>An edge that is closed already is left so.\<close>

fun close_mentions :: "instant \<Rightarrow> string \<Rightarrow> string \<Rightarrow> string list \<Rightarrow> (graph, merge_error, unit) op" where
  "close_mentions now ns canonical [] g = (Inr (), g)"
| "close_mentions now ns canonical (src # srcs) g =
     (case invalidateLinkTx ns src canonical ''mentions'' now (snd g) of
        (Inr _, ls) \<Rightarrow> close_mentions now ns canonical srcs (fst g, ls)
      | (Inl (LinkNotFound _ _ _), ls) \<Rightarrow> close_mentions now ns canonical srcs (fst g, ls)
      | (Inl e, ls) \<Rightarrow> (Inl (MergeLink e), (fst g, ls)))"

section \<open>Planning a merge\<close>

definition mention_sources :: "link list \<Rightarrow> string list" where
  "mention_sources incoming = map li_from (filter (\<lambda>l. li_type l = ''mentions'') incoming)"

definition claimed_mentions :: "fact \<Rightarrow> string list" where
  "claimed_mentions f = concat (map (\<lambda>r. recordStringList r ''added_mentions'') (mergeRecords f))"

fun fresh_aliases :: "string \<Rightarrow> string set \<Rightarrow> string list \<Rightarrow> string list" where
  "fresh_aliases canonName seen [] = []"
| "fresh_aliases canonName seen (cand # cands) =
     (if normalizeName cand = [] \<or> normalizeName cand = canonName \<or> normalizeName cand \<in> seen
      then fresh_aliases canonName seen cands
      else cand # fresh_aliases canonName (insert (normalizeName cand) seen) cands)"

fun fresh_sources :: "string set \<Rightarrow> string list \<Rightarrow> string list" where
  "fresh_sources seen [] = []"
| "fresh_sources seen (i # ids) =
     (if i \<in> seen then fresh_sources seen ids else i # fresh_sources (insert i seen) ids)"

definition contributed_aliases :: "fact \<Rightarrow> string list" where
  "contributed_aliases absorbed = fa_body absorbed # entityAliases absorbed"

definition added_aliases :: "fact \<Rightarrow> fact \<Rightarrow> string list" where
  "added_aliases canonical absorbed =
     fresh_aliases (normalizeName (fa_body canonical)) (normSet (entityAliases canonical @ [fa_body canonical]))
       (contributed_aliases absorbed)"

definition added_sources :: "fact \<Rightarrow> fact \<Rightarrow> string list" where
  "added_sources canonical absorbed =
     fresh_sources (set (attrStringList canonical ''source_facts'')) (attrStringList absorbed ''source_facts'')"

definition set_nonempty :: "string \<Rightarrow> string list \<Rightarrow> attrs \<Rightarrow> attrs" where
  "set_nonempty k xs ats = (if xs = [] then ats else attr_set k (json_strings xs) ats)"

definition merge_record :: "string \<Rightarrow> fact \<Rightarrow> string list \<Rightarrow> string list \<Rightarrow> string list \<Rightarrow> attrs" where
  "merge_record mid absorbed contributed added protected =
     [(''merge_id'', JStr mid), (''alias_key'', JStr (fa_key absorbed)),
      (''contributed_aliases'', json_strings (contributed_aliases absorbed)),
      (''contributed_source_facts'', json_strings (attrStringList absorbed ''source_facts'')),
      (''contributed_mentions'', json_strings contributed), (''added_mentions'', json_strings added),
      (''protected_mentions'', json_strings protected)]"

definition base_snapshot :: "fact \<Rightarrow> string list \<Rightarrow> attrs" where
  "base_snapshot canonical canonSources =
     [(''aliases'', json_strings (entityAliases canonical)),
      (''source_facts'', json_strings (attrStringList canonical ''source_facts'')),
      (''mentions'', json_strings canonSources)]"

definition canonical_attrs ::
  "string \<Rightarrow> fact \<Rightarrow> fact \<Rightarrow> string list \<Rightarrow> string list \<Rightarrow> attrs" where
  "canonical_attrs mid canonical absorbed contributed canonSources =
     (let added = filter (\<lambda>s. s \<notin> set canonSources) contributed;
          protected = filter (\<lambda>s. s \<in> set canonSources \<and> s \<notin> set (claimed_mentions canonical)) contributed;
          ats1 = set_nonempty ''aliases''
            (unionStrings (entityAliases canonical) (added_aliases canonical absorbed)) (fa_attrs canonical);
          ats2 = set_nonempty ''source_facts''
            (unionStrings (attrStringList canonical ''source_facts'') (added_sources canonical absorbed)) ats1;
          ats3 = attr_set ''mention_count'' (JNum (mentionCountOf canonical + of_nat (length added))) ats2
      in if hasMergeRecord canonical mid then ats3
         else let ats4 = (if mergeRecords canonical = []
                    then attr_set ''merge_base'' (JObj (base_snapshot canonical canonSources)) ats3 else ats3)
              in attr_set ''merges''
                   (JArr (lineage_list ats4 @ [JObj (merge_record mid absorbed contributed added protected)])) ats4)"

definition absorbed_attrs :: "string \<Rightarrow> fact \<Rightarrow> fact \<Rightarrow> attrs" where
  "absorbed_attrs mid canonical absorbed =
     attr_set ''merge_id'' (JStr mid) (attr_set ''merged_into'' (JStr (fa_key canonical)) (fa_attrs absorbed))"

definition fact_by_key :: "fact list \<Rightarrow> string \<Rightarrow> fact option" where
  "fact_by_key fs key = map_of (rev (map (\<lambda>f. (fa_key f, f)) fs)) key"

text \<open>The checks between the load of the two facts and the plan: an error, or whether the pair is merged
  already.\<close>

definition merge_checks :: "bool \<Rightarrow> fact \<Rightarrow> fact \<Rightarrow> merge_error + bool" where
  "merge_checks allowProtected canonical absorbed =
     (if entityKeyType (fa_key absorbed) \<noteq> entityKeyType (fa_key canonical)
      then Inl (EntityMergeConflict (fa_key absorbed) (fa_key canonical))
      else if \<not> allowProtected \<and> storedProtectedEntityType [canonical, absorbed] \<noteq> []
      then Inl (ProtectedEntityMerge (storedProtectedEntityType [canonical, absorbed]))
      else if mergedIntoOf absorbed = fa_key canonical then Inr True
      else if mergedIntoOf absorbed \<noteq> [] then Inl (EntityMergeConflict (fa_key absorbed) (mergedIntoOf absorbed))
      else if mergedIntoOf canonical \<noteq> [] then Inl (EntityMergeConflict (fa_key canonical) (mergedIntoOf canonical))
      else Inr False)"

section \<open>Applying\<close>

definition apply_body ::
  "mem_env \<Rightarrow> (nat \<Rightarrow> string) \<Rightarrow> instant \<Rightarrow> string \<Rightarrow> string \<Rightarrow> fact \<Rightarrow> fact \<Rightarrow> string list \<Rightarrow> string list
   \<Rightarrow> (graph, merge_error, unit) op" where
  "apply_body env fid now ns mid canonical absorbed contributed canonSources g =
     (case add_mentions now ns (fa_key canonical) (filter (\<lambda>s. s \<notin> set canonSources) contributed) g of
        (Inl e, g1) \<Rightarrow> (Inl e, g1)
      | (Inr _, g1) \<Rightarrow>
          (case on_memory (writeMergeRevisionTx env (fid 0) now ns canonical
                  (canonical_attrs mid canonical absorbed contributed canonSources)) g1 of
             (Inl e, g2) \<Rightarrow> (Inl e, g2)
           | (Inr _, g2) \<Rightarrow>
               on_memory (writeMergeRevisionTx env (fid 1) now ns absorbed (absorbed_attrs mid canonical absorbed)) g2))"

definition ApplyEntityMerge ::
  "merge_env \<Rightarrow> clock \<Rightarrow> graph_others \<Rightarrow> (nat \<Rightarrow> string) \<Rightarrow> string \<Rightarrow> merge_proposal \<Rightarrow> bool
   \<Rightarrow> (graph, merge_error, merge_result) op" where
  "ApplyEntityMerge env now others fid ns p allowProtected g =
     (let mid = (if mp_id p = [] then entityMergeID (me_digest env) ns (mp_alias p) (mp_canonical p) else mp_id p);
          res = \<lparr>mr_proposal = mid, mr_canonical = mp_canonical p, mr_alias = mp_alias p,
                 mr_applied = False, mr_reverted = False\<rparr>
      in if mp_protected p \<and> \<not> allowProtected then (Inl (ProtectedEntityMerge (mp_type p)), g)
      else case ValidateKey (mp_canonical p) of Inl e \<Rightarrow> (Inl (MergeStore e), g)
      | Inr _ \<Rightarrow> (case ValidateKey (mp_alias p) of Inl e \<Rightarrow> (Inl (MergeStore e), g)
      | Inr _ \<Rightarrow>
      if mp_canonical p = mp_alias p then (Inl (SelfMerge (mp_alias p)), g)
      else let g0 = others 0 g; facts = queryLiveByKeys (now 0) ns [mp_canonical p, mp_alias p] (fst g0)
      in case fact_by_key facts (mp_canonical p) of None \<Rightarrow> (Inl (MergeNotFound (mp_canonical p)), g0)
      | Some canonical \<Rightarrow> (case fact_by_key facts (mp_alias p) of None \<Rightarrow> (Inl (MergeNotFound (mp_alias p)), g0)
      | Some absorbed \<Rightarrow> (case merge_checks allowProtected canonical absorbed of
          Inl e \<Rightarrow> (Inl e, g0)
        | Inr True \<Rightarrow> (Inr res, g0)
        | Inr False \<Rightarrow>
            (let g1 = others 1 g0; g2 = others 2 g1 in
             case Neighbors ns (fa_key absorbed) ''in'' (snd g1) of
               Inl e \<Rightarrow> (Inl (MergeLink e), g1)
             | Inr incoming \<Rightarrow>
                 (case with_tx (apply_body (me_mem env) fid (now 1) ns mid canonical absorbed
                         (mention_sources incoming)
                         (linkSourcesAll ns (fa_key canonical) ''mentions'' (snd g2))) (others 3 g2) of
                    (Inl e, g3) \<Rightarrow> (Inl e, g3)
                  | (Inr _, g3) \<Rightarrow> (Inr (res\<lparr>mr_applied := True\<rparr>), g3)))))))"

section \<open>Taking a merge back\<close>

definition other_records :: "json list \<Rightarrow> attrs list" where
  "other_records rest = concat (map (\<lambda>j. case j of JObj r \<Rightarrow> [r] | _ \<Rightarrow> []) rest)"

definition contributed_by :: "json list \<Rightarrow> string \<Rightarrow> string list" where
  "contributed_by rest name = concat (map (\<lambda>r. recordStringList r name) (other_records rest))"

definition dropped_aliases :: "fact \<Rightarrow> attrs \<Rightarrow> json list \<Rightarrow> string set" where
  "dropped_aliases canonical rec rest =
     normSet (recordStringList rec ''contributed_aliases'')
     - set (map normalizeName (contributed_by rest ''contributed_aliases'')) - fst (mergeBaseOf canonical)"

definition dropped_sources :: "fact \<Rightarrow> attrs \<Rightarrow> json list \<Rightarrow> string set" where
  "dropped_sources canonical rec rest =
     set (recordStringList rec ''contributed_source_facts'')
     - set (contributed_by rest ''contributed_source_facts'') - fst (snd (mergeBaseOf canonical))"

definition closed_mentions :: "fact \<Rightarrow> attrs \<Rightarrow> json list \<Rightarrow> string list" where
  "closed_mentions canonical rec rest =
     sort (remdups (filter (\<lambda>s. s \<notin> set (contributed_by rest ''contributed_mentions'')
         \<and> s \<notin> snd (snd (mergeBaseOf canonical)) \<and> s \<notin> set (recordStringList rec ''protected_mentions''))
       (recordStringList rec ''contributed_mentions'')))"

definition set_or_del :: "string \<Rightarrow> string list \<Rightarrow> attrs \<Rightarrow> attrs" where
  "set_or_del k xs ats = (if xs = [] then attr_del k ats else attr_set k (json_strings xs) ats)"

definition reverted_attrs :: "fact \<Rightarrow> attrs \<Rightarrow> json list \<Rightarrow> attrs" where
  "reverted_attrs canonical rec rest =
     (let ats1 = set_or_del ''aliases''
            (filter (\<lambda>a. normalizeName a \<notin> dropped_aliases canonical rec rest) (entityAliases canonical))
            (fa_attrs canonical);
          ats2 = set_or_del ''source_facts''
            (filter (\<lambda>i. i \<notin> dropped_sources canonical rec rest) (attrStringList canonical ''source_facts'')) ats1;
          ats3 = attr_set ''mention_count''
            (JNum (max 0 (mentionCountOf canonical - of_nat (length (closed_mentions canonical rec rest))))) ats2
      in if rest \<noteq> [] then attr_set ''merges'' (JArr rest) ats3
         else attr_del ''merge_base'' (attr_del ''merges'' ats3))"

definition restored_attrs :: "fact \<Rightarrow> attrs" where
  "restored_attrs absorbed = attr_del ''merge_id'' (attr_del ''merged_into'' (fa_attrs absorbed))"

definition revert_body ::
  "mem_env \<Rightarrow> (nat \<Rightarrow> string) \<Rightarrow> instant \<Rightarrow> string \<Rightarrow> fact \<Rightarrow> fact \<Rightarrow> attrs \<Rightarrow> json list \<Rightarrow> (graph, merge_error, unit) op" where
  "revert_body env fid now ns canonical absorbed rec rest g =
     (case on_memory (writeMergeRevisionTx env (fid 0) now ns canonical (reverted_attrs canonical rec rest)) g of
        (Inl e, g1) \<Rightarrow> (Inl e, g1)
      | (Inr _, g1) \<Rightarrow>
          (case close_mentions now ns (fa_key canonical) (closed_mentions canonical rec rest) g1 of
             (Inl e, g2) \<Rightarrow> (Inl e, g2)
           | (Inr _, g2) \<Rightarrow> on_memory (writeMergeRevisionTx env (fid 1) now ns absorbed (restored_attrs absorbed)) g2))"

definition RevertEntityMerge ::
  "merge_env \<Rightarrow> clock \<Rightarrow> graph_others \<Rightarrow> (nat \<Rightarrow> string) \<Rightarrow> string \<Rightarrow> string \<Rightarrow> (graph, merge_error, merge_result) op" where
  "RevertEntityMerge env now others fid ns aliasKey g =
     (case ValidateKey aliasKey of Inl e \<Rightarrow> (Inl (MergeStore e), g)
      | Inr _ \<Rightarrow>
      let g0 = others 0 g in
      (case queryLiveByKeys (now 0) ns [aliasKey] (fst g0) of
         [absorbed] \<Rightarrow>
           (let ck = mergedIntoOf absorbed; mid = string_attr (fa_attrs absorbed) ''merge_id''; g1 = others 1 g0 in
            if ck = [] then (Inl (EntityNotMerged aliasKey), g0)
            else case queryLiveByKeys (now 1) ns [ck] (fst g1) of
              [canonical] \<Rightarrow>
                (case splitMergeRecord canonical mid of
                   (None, _) \<Rightarrow> (Inl (LineageMissing ck mid), g1)
                 | (Some rec, rest) \<Rightarrow>
                     (case with_tx (revert_body (me_mem env) fid (now 2) ns canonical absorbed rec rest) (others 2 g1) of
                        (Inl e, g2) \<Rightarrow> (Inl e, g2)
                      | (Inr _, g2) \<Rightarrow>
                          (Inr \<lparr>mr_proposal = mid, mr_canonical = ck, mr_alias = aliasKey,
                                mr_applied = False, mr_reverted = True\<rparr>, g2)))
            | _ \<Rightarrow> (Inl (LineageMissing ck mid), g1))
       | _ \<Rightarrow> (Inl (MergeNotFound aliasKey), g0)))"

section \<open>Resolving a key\<close>

text \<open>\<open>ms k\<close> is the store at hop \<open>k\<close>; the last argument counts the hops left.\<close>

fun resolve_hops ::
  "clock \<Rightarrow> (nat \<Rightarrow> memory) \<Rightarrow> string \<Rightarrow> string \<Rightarrow> nat \<Rightarrow> string set \<Rightarrow> string \<Rightarrow> nat \<Rightarrow> merge_error + string" where
  "resolve_hops now ms ns key k seen cur 0 = Inl (ChainTooLong key)"
| "resolve_hops now ms ns key k seen cur (Suc n) =
     (case queryLiveByKeys (now k) ns [cur] (ms k) of
        [f] \<Rightarrow>
          if mergedIntoOf f = [] then Inr cur
          else if mergedIntoOf f \<in> seen then Inl (LineageCycle (mergedIntoOf f))
          else resolve_hops now ms ns key (Suc k) (insert cur seen) (mergedIntoOf f) n
      | _ \<Rightarrow> Inr cur)"

definition ResolveEntityKey :: "clock \<Rightarrow> (nat \<Rightarrow> memory) \<Rightarrow> string \<Rightarrow> string \<Rightarrow> merge_error + string" where
  "ResolveEntityKey now ms ns key = resolve_hops now ms ns key 0 {} key resolveMaxHops"

end
