(* ===== verification/EntityMerge_Proofs.thy ===== *)
theory EntityMerge_Proofs
  imports EntityMerge
begin

text \<open>
  What holds of entity merges: a scan misses no live fact, a proposal needs identity evidence, an absorbed
  key resolves along its lineage as long as that is shorter than eight hops, a plan that was overtaken
  writes nothing, and a merge that is taken back leaves what was there before.
\<close>

section \<open>Live facts\<close>

lemma queryLiveByKeys_fact:
  assumes "stamps_ok (mm_facts m)"
  shows "queryLiveByKeys t ns [key] m = (case live_fact t ns m key of None \<Rightarrow> [] | Some f \<Rightarrow> [f])"
proof (cases "live_fact t ns m key")
  case None
  then show ?thesis by (auto simp: live_fact_def split: list.splits)
next
  case (Some f)
  then have "ns \<in> set (mm_namespaces m)" "is_live t ns key (mm_facts m) f" using live_fact_iff [OF assms] by blast+
  then show ?thesis using queryLiveByKeys_live [OF assms] Some by simp
qed

lemma live_fact_key:
  assumes "stamps_ok (mm_facts m)" "live_fact t ns m key = Some f"
  shows "fa_key f = key" "fa_ns f = ns" "f \<in> set (mm_facts m)" "ns \<in> set (mm_namespaces m)"
    "fa_action f \<noteq> ''tombstone''" "is_latest (mm_facts m) f" "of_key ns key f"
  using live_fact_iff [OF assms(1)] assms(2) by (auto simp: is_live_def of_key_def)

lemma latest_live_distinct:
  assumes "stamps_ok (mm_facts m)"
  shows "distinct (map fa_key (latest_live t ns P m))"
proof -
  let ?fs = "latest_live t ns P m"
  have "distinct (mm_facts m)" using assms by (auto simp: stamps_ok_def distinct_map)
  then have "distinct ?fs" by (simp add: latest_live_def)
  moreover have "f = g" if "f \<in> set ?fs" "g \<in> set ?fs" "fa_key f = fa_key g" for f g
    by (rule is_latest_unique [OF assms, of f g ns "fa_key f"]) (use that in \<open>auto simp: latest_live_def of_key_def\<close>)
  ultimately show ?thesis by (simp add: distinct_map inj_on_def)
qed

lemma fact_by_key_live:
  assumes "stamps_ok (mm_facts m)" "key \<in> set ks"
  shows "fact_by_key (queryLiveByKeys t ns ks m) key = live_fact t ns m key"
proof (rule option_eqI)
  fix f
  let ?fs = "queryLiveByKeys t ns ks m"
  have "distinct (map fa_key ?fs)"
    using latest_live_distinct [OF assms(1)] by (simp add: queryLiveByKeys_def)
  then have "distinct (map fst (rev (map (\<lambda>f. (fa_key f, f)) ?fs)))" by (simp add: rev_map [symmetric] comp_def)
  then have "fact_by_key ?fs key = Some f \<longleftrightarrow> (key, f) \<in> set (rev (map (\<lambda>f. (fa_key f, f)) ?fs))"
    unfolding fact_by_key_def by (rule map_of_eq_Some_iff)
  also have "\<dots> \<longleftrightarrow> ns \<in> set (mm_namespaces m) \<and> is_live t ns key (mm_facts m) f"
    using assms(2) by (auto simp: queryLiveByKeys_def latest_live_def is_live_def of_key_def)
  finally show "fact_by_key ?fs key = Some f \<longleftrightarrow> live_fact t ns m key = Some f"
    by (simp add: live_fact_iff [OF assms(1)])
qed

section \<open>The scan\<close>

lemma live_after_filter:
  "live_after t ns prefix cursor m = filter (\<lambda>f. cursor < fa_key f) (latest_live t ns (key_like m prefix) m)"
proof -
  have "filter (\<lambda>f. cursor < fa_key f) (sort_key fa_key xs) = sort_key fa_key (filter (\<lambda>f. cursor < fa_key f) xs)"
    for xs :: "fact list" by (rule filter_sort)
  then show ?thesis
    by (simp only: live_after_def latest_live_def filter_filter) (rule arg_cong [of _ _ "sort_key fa_key"], auto intro: filter_cong)
qed

lemma sorted_after:
  assumes "sorted (map k xs)" "distinct (map k xs)" "n < length xs" "k (xs ! n) = c"
  shows "filter (\<lambda>x. (c :: 'b :: linorder) < k x) xs = drop (Suc n) xs"
proof -
  have "filter (\<lambda>x. c < k x) xs = filter (\<lambda>x. c < k x) (take (Suc n) xs) @ filter (\<lambda>x. c < k x) (drop (Suc n) xs)"
    by (metis append_take_drop_id filter_append)
  moreover have "filter (\<lambda>x. c < k x) (take (Suc n) xs) = []"
  proof -
    have "k x \<le> c" if member: "x \<in> set (take (Suc n) xs)" for x
    proof -
      obtain i where "i < length (take (Suc n) xs)" "x = take (Suc n) xs ! i"
        using member unfolding in_set_conv_nth by blast
      then have "i \<le> n" "x = xs ! i" by simp_all
      then show ?thesis using assms sorted_nth_mono [of "map k xs" i n] by auto
    qed
    then show ?thesis by (auto simp: filter_empty_conv not_less)
  qed
  moreover have "filter (\<lambda>x. c < k x) (drop (Suc n) xs) = drop (Suc n) xs"
  proof -
    have "c < k x" if later: "x \<in> set (drop (Suc n) xs)" for x
    proof -
      obtain i where at: "i < length (drop (Suc n) xs)" "x = drop (Suc n) xs ! i"
        using later unfolding in_set_conv_nth by blast
      have "i < length xs - Suc n" using at(1) by (simp only: length_drop)
      then have i: "Suc n + i < length xs" by arith
      then have x: "x = xs ! (Suc n + i)" using at(2) by simp
      have "c \<le> k x" using assms i x sorted_nth_mono [of "map k xs" n "Suc n + i"] by auto
      moreover have "c \<noteq> k x"
        using assms(2-4) i x nth_eq_iff_index_eq [of "map k xs" n "Suc n + i"] by auto
      ultimately show ?thesis by simp
    qed
    then show ?thesis by (simp add: filter_id_conv)
  qed
  ultimately show ?thesis by simp
qed

lemma scan_pages_all:
  assumes "stamps_ok (mm_facts m)"
  shows "now = (\<lambda>_. t) \<Longrightarrow> scan_pages now ns prefix m i cursor = live_after t ns prefix cursor m"
  using assms
proof (induction now ns prefix m i cursor rule: scan_pages.induct)
  case (1 now ns prefix m i cursor)
  let ?L = "live_after t ns prefix cursor m"
  let ?rows = "take entityScanPageSize ?L"
  show ?case
  proof (cases "length ?rows < entityScanPageSize")
    case True
    then have "length ?L < entityScanPageSize" by simp
    then show ?thesis using 1(2) by (subst scan_pages.simps) (simp add: Let_def)
  next
    case False
    then have len: "entityScanPageSize \<le> length ?L" by simp
    let ?n = "entityScanPageSize - 1"
    have n: "Suc ?n = entityScanPageSize" "?n < length ?L" using len by (simp_all add: entityScanPageSize_def)
    have end_row: "last ?rows = ?L ! ?n"
      using n len by (subst last_conv_nth) (auto simp: entityScanPageSize_def)
    have sorted: "sorted (map fa_key ?L)" by (simp add: live_after_def latest_live_def)
    have distinct: "distinct (map fa_key ?L)"
      using latest_live_distinct [OF 1(3)] by (simp add: live_after_def)
    define c where "c = fa_key (last ?rows)"
    have c: "fa_key (?L ! ?n) = c" by (simp only: c_def end_row)
    have "cursor < c" using live_after_member [OF nth_mem [OF n(2)]] c by simp
    then have "live_after t ns prefix c m = filter (\<lambda>f. c < fa_key f) ?L"
      unfolding live_after_filter filter_filter by (intro filter_cong) auto
    also have "\<dots> = drop entityScanPageSize ?L"
      using sorted_after [OF sorted distinct n(2) c] n(1) by simp
    finally have rest: "live_after t ns prefix (fa_key (last ?rows)) m = drop entityScanPageSize ?L" unfolding c_def .
    have "scan_pages now ns prefix m (Suc i) (fa_key (last ?rows)) = live_after t ns prefix (fa_key (last ?rows)) m"
      by (rule 1(1)) (use False 1(2,3) in simp_all)
    then have "scan_pages now ns prefix m (Suc i) (fa_key (last ?rows)) = drop entityScanPageSize ?L"
      using rest by simp
    then show ?thesis using False 1(2)
      by (subst scan_pages.simps) (simp only: Let_def if_False append_take_drop_id)
  qed
qed

text \<open>C18: a scan has no ceiling.  Read page by page, 500 keys at a time and each page from the last key of the one
  before, a prefix yields every live fact under it exactly once and in the order of the keys, however many
  there are.\<close>

theorem scan_complete:
  assumes "memory_ok m" "stamps_ok (mm_facts m)"
  shows "scanLivePrefix (\<lambda>_. t) ns prefix m =
      (if ns \<in> set (mm_namespaces m) then latest_live t ns (key_like m prefix) m else [])
    \<and> distinct (map fa_key (scanLivePrefix (\<lambda>_. t) ns prefix m))"
proof -
  have "[] < fa_key f" if "f \<in> set (mm_facts m)" for f
    using assms(1) that
    by (cases "fa_key f") (auto simp: memory_ok_def ValidateKey_def list_all_iff split: if_splits)
  then have "filter (\<lambda>f. [] < fa_key f) (latest_live t ns (key_like m prefix) m) = latest_live t ns (key_like m prefix) m"
    by (auto simp: filter_id_conv latest_live_def)
  then have all: "scan_pages (\<lambda>_. t) ns prefix m 0 [] = latest_live t ns (key_like m prefix) m"
    using scan_pages_all [OF assms(2) refl, of t ns prefix 0 "[]"] by (simp add: live_after_filter)
  then show ?thesis using latest_live_distinct [OF assms(2)] by (simp add: scanLivePrefix_def all)
qed

section \<open>Lineage\<close>

text \<open>One step of the lineage, and the chains that end.\<close>

definition absorbed_by :: "instant \<Rightarrow> string \<Rightarrow> memory \<Rightarrow> string \<Rightarrow> string option" where
  "absorbed_by t ns m key =
     (case queryLiveByKeys t ns [key] m of
        [f] \<Rightarrow> if mergedIntoOf f = [] then None else Some (mergedIntoOf f)
      | _ \<Rightarrow> None)"

inductive chain_ends :: "(string \<Rightarrow> string option) \<Rightarrow> string \<Rightarrow> nat \<Rightarrow> string \<Rightarrow> bool" for up where
  ends_here: "up key = None \<Longrightarrow> chain_ends up key 0 key"
| ends_later: "up key = Some key' \<Longrightarrow> chain_ends up key' n c \<Longrightarrow> chain_ends up key (Suc n) c"

inductive_cases chain_endsE: "chain_ends up key n c"

lemma chain_ends_step:
  "up key = Some key' \<Longrightarrow> chain_ends up key n c \<longleftrightarrow> (\<exists>i. n = Suc i \<and> chain_ends up key' i c)"
  by (auto elim: chain_endsE intro: ends_later)

lemma chain_ends_stop: "up key = None \<Longrightarrow> chain_ends up key n c \<longleftrightarrow> n = 0 \<and> c = key"
  by (auto elim: chain_endsE intro: ends_here)

lemma chain_ends_unique:
  "chain_ends up key n c \<Longrightarrow> chain_ends up key n' c' \<Longrightarrow> n = n' \<and> c = c'"
proof (induction arbitrary: n' c' rule: chain_ends.induct)
  case (ends_here key)
  then show ?case by (simp add: chain_ends_stop)
next
  case (ends_later key key' n c)
  obtain i where "n' = Suc i" "chain_ends up key' i c'"
    using ends_later.prems chain_ends_step [of up, OF ends_later.hyps(1)] by blast
  then show ?case using ends_later.IH by simp
qed

lemma list_one_cases:
  obtains "xs = []" | x where "xs = [x]" | x y ys where "xs = x # y # ys"
  by (cases xs; cases "tl xs") auto

lemma resolve_hops_step:
  "resolve_hops (\<lambda>_. t) (\<lambda>_. m) ns key k seen cur (Suc n) =
     (case absorbed_by t ns m cur of
        None \<Rightarrow> Inr cur
      | Some y \<Rightarrow> if y \<in> seen then Inl (LineageCycle y)
          else resolve_hops (\<lambda>_. t) (\<lambda>_. m) ns key (Suc k) (insert cur seen) y n)"
  unfolding absorbed_by_def resolve_hops.simps(2)
  by (cases "queryLiveByKeys t ns [cur] m" rule: list_one_cases) (simp_all del: resolve_hops.simps)

text \<open>A key seen before never ends sooner than the current one.\<close>

lemma resolve_hops_exact:
  assumes "\<And>x j c. x \<in> seen \<Longrightarrow> chain_ends (absorbed_by t ns m) x j c \<Longrightarrow> \<exists>i < j. chain_ends (absorbed_by t ns m) cur i c"
  shows "resolve_hops (\<lambda>_. t) (\<lambda>_. m) ns key k seen cur n = Inr c \<longleftrightarrow> (\<exists>i < n. chain_ends (absorbed_by t ns m) cur i c)"
  using assms
proof (induction n arbitrary: k seen cur)
  case 0
  then show ?case by simp
next
  case (Suc n)
  let ?ends = "chain_ends (absorbed_by t ns m)"
  show ?case
  proof (cases "absorbed_by t ns m cur")
    case None
    have "resolve_hops (\<lambda>_. t) (\<lambda>_. m) ns key k seen cur (Suc n) = Inr cur"
      unfolding resolve_hops_step None by (rule option.case(1))
    then show ?thesis by (auto simp only: chain_ends_stop [of "absorbed_by t ns m", OF None] sum.inject)
  next
    case (Some y)
    have ends: "(\<exists>i < Suc n. ?ends cur i c) \<longleftrightarrow> (\<exists>i < n. ?ends y i c)"
      by (auto simp only: chain_ends_step [of "absorbed_by t ns m", OF Some] Suc_less_eq)
    show ?thesis
    proof (cases "y \<in> seen")
      case True
      have "\<not> ?ends y i c" for i
      proof
        assume y: "?ends y i c"
        then obtain i' where "i' < i" "?ends cur i' c" using Suc.prems True by blast
        moreover have "?ends cur (Suc i) c" by (rule ends_later [of "absorbed_by t ns m", OF Some y])
        ultimately have "Suc i = i'" using chain_ends_unique [of "absorbed_by t ns m" cur "Suc i" c i' c] by simp
        then show False using \<open>i' < i\<close> by simp
      qed
      then have "\<not> (\<exists>i < n. ?ends y i c)" by blast
      then show ?thesis unfolding resolve_hops_step Some option.case(2) if_P [OF True] ends
        by (simp only: sum.distinct simp_thms)
    next
      case False
      have "\<exists>i < j. ?ends y i c" if x: "x \<in> insert cur seen" "?ends x j c" for x j c
      proof -
        obtain i where "i \<le> j" "?ends cur i c" using x Suc.prems [of x j c] by (metis insertE le_refl less_imp_le)
        moreover from this obtain i' where "i = Suc i'" "?ends y i' c"
          using chain_ends_step [of "absorbed_by t ns m", OF Some] by blast
        ultimately show ?thesis by (intro exI [of _ i']) simp
      qed
      then have "resolve_hops (\<lambda>_. t) (\<lambda>_. m) ns key (Suc k) (insert cur seen) y n = Inr c \<longleftrightarrow> (\<exists>i < n. ?ends y i c)"
        by (rule Suc.IH)
      then show ?thesis
        unfolding resolve_hops_step Some option.case(2) if_not_P [OF False] ends .
    qed
  qed
qed

text \<open>C17: an old key resolves when its lineage is shorter than eight hops.  \<open>ResolveEntityKey\<close> returns \<open>c\<close> exactly
  when following \<open>merged_into\<close> from the key ends at \<open>c\<close> after at most seven steps; a cycle is an error and
  never a loop, but so is a lineage of eight merges that nothing else forbids.\<close>

theorem resolve_exact:
  "ResolveEntityKey (\<lambda>_. t) (\<lambda>_. m) ns key = Inr c \<longleftrightarrow> (\<exists>n < 8. chain_ends (absorbed_by t ns m) key n c)"
  unfolding ResolveEntityKey_def resolveMaxHops_def by (rule resolve_hops_exact) simp

section \<open>What one merge revision changes\<close>

lemma newest_eq:
  assumes "stamps_ok (mm_facts m)" "f \<in> set (mm_facts m)" "of_key ns key f" "is_latest (mm_facts m) f"
  shows "latest_revision ns key m = Some f"
proof (cases "latest_revision ns key m")
  case None
  then show ?thesis using assms(2,3) by (simp add: latest_revision_def newest_None)
next
  case (Some g)
  then have "g \<in> set (mm_facts m)" "of_key ns key g" "is_latest (mm_facts m) g"
    using latest_revision_Some by blast+
  then show ?thesis using is_latest_unique [OF assms(1) assms(2) _ assms(3) _ assms(4)] Some by blast
qed

lemma live_is_latest:
  assumes "stamps_ok (mm_facts m)" "live_fact t ns m key = Some f"
  shows "latest_revision ns key m = Some f"
  using live_fact_key [OF assms] by (intro newest_eq [OF assms(1)])

lemma is_latest_stamps:
  "is_latest fs x \<longleftrightarrow> (\<forall>s \<in> set (map (\<lambda>x. (fa_ns x, fa_key x, fa_created x)) fs).
     fst s = fa_ns x \<and> fst (snd s) = fa_key x \<longrightarrow> snd (snd s) \<le> fa_created x)"
  by (auto simp: is_latest_def of_key_def)

text \<open>A revision that a single step records decides what is read at its key, at any time, and nothing else.\<close>

lemma recorded_live_fact:
  assumes ok: "memory_ok m" "stamps_ok (mm_facts m)"
    and newer: "\<forall>g \<in> set (mm_facts m). of_key ns key g \<longrightarrow> fa_created g < fa_created f"
    and rev: "of_key ns key f" "fa_id f \<notin> fa_id ` set (mm_facts m)" "fa_action f \<noteq> ''tombstone''" "fa_expires f = None"
    and facts: "mm_facts m' = update_where (open_of_key ns key) (\<lambda>g. g\<lparr>fa_invalid := Some now\<rparr>) (mm_facts m) @ [f]"
    and spaces: "set (mm_namespaces m') = insert ns (set (mm_namespaces m))"
  shows "stamps_ok (mm_facts m')
    \<and> live_fact t ns' m' k = (if ns' = ns \<and> k = key then Some f else live_fact t ns' m k)"
proof -
  let ?fs = "update_where (open_of_key ns key) (\<lambda>g. g\<lparr>fa_invalid := Some now\<rparr>) (mm_facts m)"
  have rec: "map as_recorded ?fs = map as_recorded (mm_facts m)"
    by (rule shape_update) (simp add: as_recorded_def)
  have "stamps_ok (map as_recorded ?fs)" unfolding rec using ok(2) stamps_ok_shape [of m] by (simp add: shape_def)
  then have stamps: "stamps_ok ?fs" using stamps_ok_shape [of "m\<lparr>mm_facts := ?fs\<rparr>"] by (simp add: shape_def)
  have member: "\<exists>h \<in> set (mm_facts m). fa_id h = fa_id g \<and> fa_created h = fa_created g \<and> of_key ns' k h = of_key ns' k g"
    if g: "g \<in> set ?fs" for g ns' k
  proof -
    obtain h where "h \<in> set (mm_facts m)" "g = (if open_of_key ns key h then h\<lparr>fa_invalid := Some now\<rparr> else h)"
      using in_update_whereE [OF g] by blast
    then show ?thesis by (intro bexI [of _ h]) (simp_all add: of_key_def)
  qed
  have "fa_created g < fa_created f" if g: "g \<in> set ?fs" "of_key ns key g" for g
    using member [OF g(1), of ns key] g(2) newer by force
  then have newer': "\<forall>g \<in> set ?fs. of_key (fa_ns f) (fa_key f) g \<longrightarrow> fa_created g < fa_created f"
    using rev(1) by (simp add: of_key_def)
  have "map fa_id ?fs = map fa_id (mm_facts m)" by (simp add: map_update_where)
  then have fresh: "fa_id f \<notin> fa_id ` set ?fs" using rev(2) by (metis set_map)
  have stamps': "stamps_ok (mm_facts m')"
    unfolding facts by (rule stamps_ok_append [OF stamps fresh newer'])
  have other: "is_live t ns' k ?fs x \<longleftrightarrow> is_live t ns' k (mm_facts m) x" if k: "\<not> (ns' = ns \<and> k = key)" for x
  proof -
    have "map (\<lambda>x. (fa_ns x, fa_key x, fa_created x)) ?fs = map (\<lambda>x. (fa_ns x, fa_key x, fa_created x)) (mm_facts m)"
      by (rule map_update_where) simp
    then have latest: "is_latest ?fs x \<longleftrightarrow> is_latest (mm_facts m) x"
      by (simp only: is_latest_stamps)
    have "x \<in> set ?fs \<longleftrightarrow> x \<in> set (mm_facts m)" if "of_key ns' k x"
    proof -
      have plain: "\<not> open_of_key ns key x" using that k by (auto simp: open_of_key_def of_key_def)
      show ?thesis
      proof
        assume "x \<in> set ?fs"
        then obtain g where g: "g \<in> set (mm_facts m)" "x = (if open_of_key ns key g then g\<lparr>fa_invalid := Some now\<rparr> else g)"
          by (rule in_update_whereE)
        have "fa_ns x = fa_ns g" "fa_key x = fa_key g" unfolding g(2) by simp_all
        then have "\<not> open_of_key ns key g" using that k by (auto simp: open_of_key_def of_key_def)
        then show "x \<in> set (mm_facts m)" using g by simp
      next
        assume "x \<in> set (mm_facts m)"
        then show "x \<in> set ?fs" using in_update_whereI [of x "mm_facts m" "open_of_key ns key"] plain by fastforce
      qed
    qed
    then show ?thesis using latest by (auto simp: is_live_def)
  qed
  have known: "ns' \<in> set (mm_namespaces m)" if "is_live t ns' k (mm_facts m) x" for ns' k x
    using that ok(1) by (auto simp: is_live_def memory_ok_def of_key_def)
  have "live_fact t ns' m' k = Some x \<longleftrightarrow>
      (if ns' = ns \<and> k = key then Some f else live_fact t ns' m k) = Some x" for x
  proof (cases "ns' = ns \<and> k = key")
    case True
    then have "is_live t ns' k (mm_facts m') x \<longleftrightarrow> x = f"
      using is_live_append [OF newer', of t ns' k x] rev by (auto simp: facts unexpired_def)
    then show ?thesis using True spaces by (auto simp: live_fact_iff [OF stamps'])
  next
    case False
    then have "\<not> of_key ns' k f" using rev(1) by (auto simp: of_key_def)
    then have "is_live t ns' k (mm_facts m') x \<longleftrightarrow> is_live t ns' k (mm_facts m) x"
      using is_live_append [OF newer', of t ns' k x] other [OF False] by (simp add: facts)
    then show ?thesis using False spaces known by (auto simp: live_fact_iff [OF stamps'] live_fact_iff [OF ok(2)])
  qed
  then have "live_fact t ns' m' k = (if ns' = ns \<and> k = key then Some f else live_fact t ns' m k)"
    by (rule option_eqI)
  then show ?thesis using stamps' by simp
qed

text \<open>The plan's row is the only open one of its key, so the update closes what a write would close.\<close>

lemma planned_head_open:
  assumes "memory_ok m" "rows_affected (planned_head ns prev) (mm_facts m) = 1"
  shows "update_where (planned_head ns prev) u (mm_facts m) = update_where (open_of_key ns (fa_key prev)) u (mm_facts m)"
proof -
  let ?P = "planned_head ns prev" and ?Q = "open_of_key ns (fa_key prev)"
  have "filter ?P (mm_facts m) = filter ?P (filter ?Q (mm_facts m))"
    by (auto simp: planned_head_def intro: filter_cong)
  moreover have "length (filter ?Q (mm_facts m)) \<le> 1"
    using assms(1) by (simp add: memory_ok_def rows_affected_def)
  moreover have "length (filter ?P (mm_facts m)) = 1" using assms(2) by (simp add: rows_affected_def)
  ultimately have "filter ?Q (mm_facts m) = filter ?P (mm_facts m)"
    by (cases "filter ?Q (mm_facts m)") (auto split: if_splits)
  then have same: "set (filter ?Q (mm_facts m)) = set (filter ?P (mm_facts m))" by simp
  have "?P x \<longleftrightarrow> ?Q x" if "x \<in> set (mm_facts m)" for x
    using that same unfolding set_filter by blast
  then show ?thesis by (auto simp: update_where_def)
qed

definition not_stored :: "mem_env \<Rightarrow> string \<Rightarrow> fact \<Rightarrow> attrs \<Rightarrow> memory \<Rightarrow> bool" where
  "not_stored env ns prev ats m \<longleftrightarrow>
     \<not> (\<exists>h. latest_revision ns (fa_key prev) m = Some h
          \<and> fa_hash h = en_hash env (fa_key prev) (fa_body prev) ats \<and> fa_action h \<noteq> ''tombstone'')"

lemma merge_write_recorded:
  assumes "writeMergeRevisionTx env fid now ns prev ats m = (Inr (), m')" "not_stored env ns prev ats m"
  obtains action h where "action \<in> {''add'', ''update''}"
    "latest_revision ns (fa_key prev) m = Some h" "fa_id h = fa_id prev"
    "rows_affected (planned_head ns prev) (mm_facts m) = 1" "fid \<notin> fa_id ` set (mm_facts m)"
    "mm_facts m' = update_where (planned_head ns prev) (\<lambda>g. g\<lparr>fa_invalid := Some now\<rparr>) (mm_facts m)
       @ [merge_revision env fid now ns prev ats action]"
    "set (mm_namespaces m') = insert ns (set (mm_namespaces m))" "mm_driver m' = mm_driver m"
    "ns \<noteq> [] \<and> CHR '':'' \<notin> set ns"
proof (cases rule: ensureNamespace_cases [of ns m])
  case (refused e)
  then show ?thesis using assms(1) by (simp add: writeMergeRevisionTx_def)
next
  case (known m1)
  have latest: "latest_revision ns (fa_key prev) m1 = latest_revision ns (fa_key prev) m"
    using known(2) by (rule latest_revision_cong)
  have plain: "ns \<noteq> [] \<and> CHR '':'' \<notin> set ns"
    using known(1) by (auto simp: ensureNamespace_def split: if_splits)
  obtain h where h: "latest_revision ns (fa_key prev) m = Some h"
    using assms(1) known(1) latest by (cases "latest_revision ns (fa_key prev) m") (simp_all add: writeMergeRevisionTx_def)
  have dup: "\<not> (fa_hash h = en_hash env (fa_key prev) (fa_body prev) ats \<and> fa_action h \<noteq> ''tombstone'')"
    using assms(2) h by (auto simp: not_stored_def)
  have run: "(if fa_id h \<noteq> fa_id prev then (Inl (StalePlan (fa_key prev)), m1)
       else if rows_affected (planned_head ns prev) (mm_facts m1) \<noteq> 1
       then (Inl (StalePlan (fa_key prev)), invalidate now (planned_head ns prev) m1)
       else if fid \<in> fa_id ` set (mm_facts m1) then (Inl (MergeStore (DuplicateFact fid)), m1)
       else (Inr (), append_fact (merge_revision env fid now ns prev ats (liveAction ns (fa_key prev) m1))
              (invalidate now (planned_head ns prev) m1))) = (Inr (), m')"
    using assms(1) unfolding writeMergeRevisionTx_def known(1) by (simp only: prod.case sum.case latest h option.case if_not_P [OF dup])
  show ?thesis
    by (rule that [OF liveAction_live [of ns "fa_key prev" m1] h _ _ _ _ _ _ plain])
      (use run known in \<open>auto simp: append_fact_def invalidate_def split: if_splits\<close>)
qed

lemma merge_revision_simps [simp]:
  "fa_id (merge_revision env fid now ns prev ats action) = fid"
  "fa_ns (merge_revision env fid now ns prev ats action) = ns"
  "fa_key (merge_revision env fid now ns prev ats action) = fa_key prev"
  "fa_body (merge_revision env fid now ns prev ats action) = fa_body prev"
  "fa_attrs (merge_revision env fid now ns prev ats action) = ats"
  "fa_action (merge_revision env fid now ns prev ats action) = action"
  "fa_created (merge_revision env fid now ns prev ats action) = now"
  "fa_expires (merge_revision env fid now ns prev ats action) = None"
  "fa_invalid (merge_revision env fid now ns prev ats action) = None"
  "fa_valid (merge_revision env fid now ns prev ats action) = Some now"
  "fa_hash (merge_revision env fid now ns prev ats action) = en_hash env (fa_key prev) (fa_body prev) ats"
  by (simp_all add: merge_revision_def)

definition key_stamps :: "memory \<Rightarrow> (string \<times> string \<times> instant) list" where
  "key_stamps m = map (\<lambda>x. (fa_ns x, fa_key x, fa_created x)) (mm_facts m)"

text \<open>The store after a revision of a key: it is sound, the revision is open and read at its key at any time, and
  nothing else is read differently.\<close>

definition revised :: "string \<Rightarrow> fact \<Rightarrow> memory \<Rightarrow> memory \<Rightarrow> bool" where
  "revised ns r m m' \<longleftrightarrow>
     ns \<noteq> [] \<and> CHR '':'' \<notin> set ns \<and> memory_ok m' \<and> stamps_ok (mm_facts m') \<and> fa_ns r = ns \<and> fa_invalid r = None \<and> fa_action r \<noteq> ''tombstone''
     \<and> map fa_id (mm_facts m') = map fa_id (mm_facts m) @ [fa_id r]
     \<and> key_stamps m' = key_stamps m @ [(ns, fa_key r, fa_created r)]
     \<and> set (mm_namespaces m') = insert ns (set (mm_namespaces m))
     \<and> (\<forall>t ns' k. live_fact t ns' m' k = (if ns' = ns \<and> k = fa_key r then Some r else live_fact t ns' m k))"

lemma merge_write_revised:
  assumes ok: "memory_ok m" "stamps_ok (mm_facts m)" "ValidateKey (fa_key prev) = Inr ()"
    and newer: "\<forall>c. (ns, fa_key prev, c) \<in> set (key_stamps m) \<longrightarrow> c < now"
    and run: "writeMergeRevisionTx env fid now ns prev ats m = (Inr (), m')" "not_stored env ns prev ats m"
  obtains action where "revised ns (merge_revision env fid now ns prev ats action) m m'"
proof -
  obtain action where w: "action \<in> {''add'', ''update''}" "rows_affected (planned_head ns prev) (mm_facts m) = 1"
    "fid \<notin> fa_id ` set (mm_facts m)"
    "mm_facts m' = update_where (planned_head ns prev) (\<lambda>g. g\<lparr>fa_invalid := Some now\<rparr>) (mm_facts m)
       @ [merge_revision env fid now ns prev ats action]"
    "set (mm_namespaces m') = insert ns (set (mm_namespaces m))" "mm_driver m' = mm_driver m"
    "ns \<noteq> [] \<and> CHR '':'' \<notin> set ns"
    using run by (rule merge_write_recorded) blast
  let ?r = "merge_revision env fid now ns prev ats action"
  have facts: "mm_facts m' = update_where (open_of_key ns (fa_key prev)) (\<lambda>g. g\<lparr>fa_invalid := Some now\<rparr>) (mm_facts m) @ [?r]"
    using w(4) planned_head_open [OF ok(1) w(2)] by simp
  have rev: "of_key ns (fa_key prev) ?r" by (simp add: of_key_def)
  have "new_revision now ns (fa_key prev) m ?r" using w(3) ok(3) rev by (simp add: new_revision_def)
  then have "mem_step now m m'" using facts w(5,6) by (rule recorded)
  then have ok': "memory_ok m'" by (rule mem_step_ok [OF _ ok(1)])
  have older: "\<forall>g \<in> set (mm_facts m). of_key ns (fa_key prev) g \<longrightarrow> fa_created g < fa_created ?r"
    using newer by (force simp: key_stamps_def of_key_def)
  have live: "stamps_ok (mm_facts m') \<and> live_fact t ns' m' k = (if ns' = ns \<and> k = fa_key prev then Some ?r else live_fact t ns' m k)"
    for t ns' k
    by (rule recorded_live_fact [OF ok(1,2) older rev _ _ _ facts w(5)]) (use w(1,3) in auto)
  have fields: "map fa_id (mm_facts m') = map fa_id (mm_facts m) @ [fid]"
    "key_stamps m' = key_stamps m @ [(ns, fa_key prev, now)]"
    unfolding key_stamps_def facts by (simp_all add: map_update_where)
  show ?thesis
    by (rule that [of action]) (use live fields ok' w(1,5,7) in \<open>auto simp: revised_def\<close>)
qed

lemma merge_write_succeeds:
  assumes ok: "memory_ok m" and ns: "ns \<noteq> []" "CHR '':'' \<notin> set ns"
    and head: "latest_revision ns (fa_key prev) m = Some prev" "fa_invalid prev = None"
    and fresh: "fid \<notin> fa_id ` set (mm_facts m)" "not_stored env ns prev ats m"
  shows "\<exists>m'. writeMergeRevisionTx env fid now ns prev ats m = (Inr (), m')"
proof (cases rule: ensureNamespace_cases [of ns m])
  case (refused e)
  then show ?thesis using ns by (simp add: ensureNamespace_def)
next
  case (known m1)
  have latest: "latest_revision ns (fa_key prev) m1 = Some prev"
    using known(2) head(1) latest_revision_cong [of m1 m] by simp
  have prev: "prev \<in> set (mm_facts m)" "of_key ns (fa_key prev) prev" using latest_revision_Some [OF head(1)] by auto
  have "filter (planned_head ns prev) (mm_facts m) = [prev]"
    using ok prev head(2) by (intro filter_unique)
      (auto simp: memory_ok_def distinct_map inj_on_def planned_head_def open_of_key_def)
  then have one: "rows_affected (planned_head ns prev) (mm_facts m1) = 1" by (simp add: rows_affected_def known(2))
  have "\<not> (fa_hash prev = en_hash env (fa_key prev) (fa_body prev) ats \<and> fa_action prev \<noteq> ''tombstone'')"
    using fresh(2) head(1) by (auto simp: not_stored_def)
  then show ?thesis
    using one fresh(1) known(2) unfolding writeMergeRevisionTx_def known(1) by (simp add: latest)
qed

section \<open>Edges of a merge\<close>

definition mention_row :: "instant \<Rightarrow> string \<Rightarrow> string \<Rightarrow> string \<Rightarrow> link_row" where
  "mention_row now ns canonical src =
     \<lparr>lk_ns = ns, lk_from = src, lk_to = canonical, lk_type = ''mentions'', lk_weight = 1, lk_desc = None,
      lk_embedding = None, lk_created = now, lk_valid = Some now, lk_invalid = None\<rparr>"

lemma add_one_mention:
  assumes "addLinkTx ns src canonical ''mentions'' 1 [] None now ls = (Inr (), ls')"
  shows "ValidateKey src = Inr ()"
    and "\<not> list_ex (same_edge ns src canonical ''mentions'') ls \<Longrightarrow> ls' = ls @ [mention_row now ns canonical src]"
  using assms
  by (auto simp: addLinkTx_def normalizeLinkArgs_def link_type_of_def mention_row_def nullableString_def
      split: sum.splits if_splits)

lemma add_mentions_state:
  assumes "add_mentions now ns canonical srcs (m, ls) = (Inr (), g)" "distinct srcs"
    and "\<forall>s \<in> set srcs. \<not> list_ex (same_edge ns s canonical ''mentions'') ls"
  shows "g = (m, ls @ map (mention_row now ns canonical) srcs) \<and> (\<forall>s \<in> set srcs. ValidateKey s = Inr ())"
  using assms
proof (induction srcs arbitrary: ls)
  case (Cons s srcs)
  obtain ls' where one: "addLinkTx ns s canonical ''mentions'' 1 [] None now ls = (Inr (), ls')"
    and rest: "add_mentions now ns canonical srcs (m, ls') = (Inr (), g)"
    using Cons.prems(1) by (auto split: prod.splits sum.splits)
  have ls': "ls' = ls @ [mention_row now ns canonical s]" using add_one_mention(2) [OF one] Cons.prems(3) by simp
  have fresh: "\<forall>x \<in> set srcs. \<not> list_ex (same_edge ns x canonical ''mentions'') ls'"
  proof
    fix x
    assume x: "x \<in> set srcs"
    then have "\<not> same_edge ns x canonical ''mentions'' (mention_row now ns canonical s)"
      using Cons.prems(2) by (auto simp: same_edge_def mention_row_def)
    then show "\<not> list_ex (same_edge ns x canonical ''mentions'') ls'" using Cons.prems(3) x by (simp add: ls')
  qed
  show ?case
    using Cons.IH [OF rest _ fresh] Cons.prems(2) add_one_mention(1) [OF one] by (simp add: ls')
qed simp

lemma close_one_mention:
  assumes "ValidateKey src = Inr ()" "ValidateKey canonical = Inr ()"
  shows "snd (invalidateLinkTx ns src canonical ''mentions'' now ls)
      = update_where (open_edge ns src canonical ''mentions'') (\<lambda>l. l\<lparr>lk_invalid := Some now\<rparr>) ls
    \<and> (fst (invalidateLinkTx ns src canonical ''mentions'' now ls) = Inr ()
       \<or> fst (invalidateLinkTx ns src canonical ''mentions'' now ls) = Inl (LinkNotFound src canonical ''mentions''))"
  using assms by (simp add: invalidateLinkTx_def link_type_of_def ValidateLinkType_def LinkTypes_def Let_def)

lemma close_mentions_state:
  assumes "ValidateKey canonical = Inr ()" "\<forall>s \<in> set srcs. ValidateKey s = Inr ()"
  shows "close_mentions now ns canonical srcs (m, ls) = (Inr (), (m,
     update_where (\<lambda>l. \<exists>s \<in> set srcs. open_edge ns s canonical ''mentions'' l) (\<lambda>l. l\<lparr>lk_invalid := Some now\<rparr>) ls))"
  using assms(2)
proof (induction srcs arbitrary: ls)
  case Nil
  then show ?case by (simp add: update_where_none)
next
  case (Cons s srcs)
  let ?close = "\<lambda>l. l\<lparr>lk_invalid := Some now\<rparr>"
  let ?ls' = "update_where (open_edge ns s canonical ''mentions'') ?close ls"
  have step: "close_mentions now ns canonical (s # srcs) (m, ls) = close_mentions now ns canonical srcs (m, ?ls')"
    using close_one_mention [of s canonical ns now ls] Cons.prems assms(1)
    by (cases "invalidateLinkTx ns s canonical ''mentions'' now ls") auto
  have "update_where (\<lambda>l. \<exists>x \<in> set srcs. open_edge ns x canonical ''mentions'' l) ?close ?ls'
      = update_where (\<lambda>l. \<exists>x \<in> set (s # srcs). open_edge ns x canonical ''mentions'' l) ?close ls"
    by (auto simp: update_where_def open_edge_def)
  then show ?case unfolding step using Cons by simp
qed

text \<open>Edges that were added and closed again leave every neighbourhood as it was.\<close>

lemma live_neighbors_closed:
  assumes "\<forall>l \<in> set ls. \<not> P l" "\<forall>l \<in> set added. P l"
  shows "live_neighbors ns key dir (update_where P (\<lambda>l. l\<lparr>lk_invalid := Some now\<rparr>) (ls @ added)) = live_neighbors ns key dir ls"
proof -
  have "update_where P (\<lambda>l. l\<lparr>lk_invalid := Some now\<rparr>) (ls @ added) = ls @ map (\<lambda>l. l\<lparr>lk_invalid := Some now\<rparr>) added"
    using assms by (auto simp: update_where_def intro: map_idI)
  moreover have "filter (\<lambda>l. lk_ns l = ns \<and> near_end dir l = key \<and> lk_invalid l = None)
      (map (\<lambda>l. l\<lparr>lk_invalid := Some now\<rparr>) added) = []"
    by (simp add: filter_empty_conv)
  ultimately show ?thesis by (simp add: live_neighbors_def)
qed

section \<open>Attributes of a merge\<close>

lemma map_of_attr_set: "map_of (attr_set k v ats) x = (if x = k then Some v else map_of ats x)"
  by (induction ats) (auto simp: attr_set_def)

lemma map_of_attr_del: "map_of (attr_del k ats) x = (if x = k then None else map_of ats x)"
  by (induction ats) (auto simp: attr_del_def)

lemma map_of_set_nonempty:
  "map_of (set_nonempty k xs ats) x = (if x = k \<and> xs \<noteq> [] then Some (json_strings xs) else map_of ats x)"
  by (simp add: set_nonempty_def map_of_attr_set)

lemma map_of_set_or_del:
  "map_of (set_or_del k xs ats) x = (if x = k then (if xs = [] then None else Some (json_strings xs)) else map_of ats x)"
  by (simp add: set_or_del_def map_of_attr_set map_of_attr_del)

lemmas map_of_attrs = map_of_attr_set map_of_attr_del map_of_set_nonempty map_of_set_or_del

lemma json_string_list_strings [simp]: "json_string_list (json_strings xs) = xs"
  by (induction xs) (simp_all add: json_string_list_def json_strings_def)

lemma union_loop_append: "\<exists>seen'. union_loop seen (a @ b) = union_loop seen a @ union_loop seen' b"
  by (induction a arbitrary: seen) auto

lemma union_loop_set: "set (union_loop seen a) \<subseteq> set a"
  by (induction seen a rule: union_loop.induct) auto

lemma unionStrings_Nil: "unionStrings a b = [] \<Longrightarrow> a = []"
  by (cases a) (simp_all add: unionStrings_def)

lemma unionStrings_keep:
  assumes "\<And>x. x \<in> set a \<Longrightarrow> P x" "\<And>x. x \<in> set b \<Longrightarrow> \<not> P x"
  shows "filter P (unionStrings a b) = unionStrings a []"
proof -
  obtain seen' where u: "union_loop [] (a @ b) = union_loop [] a @ union_loop seen' b"
    using union_loop_append by blast
  have "filter P (union_loop [] a) = union_loop [] a" using union_loop_set [of "[]" a] assms(1) by (auto simp: filter_id_conv)
  moreover have "filter P (union_loop seen' b) = []" using union_loop_set [of seen' b] assms(2) by (auto simp: filter_empty_conv)
  ultimately show ?thesis by (simp add: unionStrings_def u)
qed

lemma fresh_aliases_set:
  "x \<in> set (fresh_aliases n seen cands) \<Longrightarrow> x \<in> set cands \<and> normalizeName x \<noteq> [] \<and> normalizeName x \<notin> seen"
  by (induction n seen cands rule: fresh_aliases.induct) (auto split: if_splits)

lemma fresh_sources_set: "x \<in> set (fresh_sources seen ids) \<Longrightarrow> x \<in> set ids \<and> x \<notin> seen"
  by (induction seen ids rule: fresh_sources.induct) (auto split: if_splits)

lemma normSet_iff: "n \<in> normSet names \<longleftrightarrow> n \<noteq> [] \<and> n \<in> normalizeName ` set names"
  by (auto simp: normSet_def)

text \<open>The canonical fact after the first merge into it, and after that merge was taken back.\<close>

definition merged_first :: "string \<Rightarrow> fact \<Rightarrow> fact \<Rightarrow> string list \<Rightarrow> string list \<Rightarrow> fact \<Rightarrow> bool" where
  "merged_first mid c a contributed canonSources c1 \<longleftrightarrow> lineage_list (fa_attrs c) = []
     \<and> fa_attrs c1 = canonical_attrs mid c a contributed canonSources"

definition first_record :: "string \<Rightarrow> fact \<Rightarrow> string list \<Rightarrow> string list \<Rightarrow> attrs" where
  "first_record mid a contributed canonSources =
     merge_record mid a contributed (filter (\<lambda>s. s \<notin> set canonSources) contributed)
       (filter (\<lambda>s. s \<in> set canonSources) contributed)"

lemma merged_first_attrs:
  assumes "merged_first mid c a contributed canonSources c1"
  shows "map_of (fa_attrs c1) k =
    (if k = ''merges'' then Some (JArr [JObj (first_record mid a contributed canonSources)])
     else if k = ''merge_base'' then Some (JObj (base_snapshot c canonSources))
     else if k = ''mention_count'' then
       Some (JNum (mentionCountOf c + of_nat (length (filter (\<lambda>s. s \<notin> set canonSources) contributed))))
     else if k = ''source_facts'' \<and> unionStrings (attrStringList c ''source_facts'') (added_sources c a) \<noteq> [] then
       Some (json_strings (unionStrings (attrStringList c ''source_facts'') (added_sources c a)))
     else if k = ''aliases'' \<and> unionStrings (entityAliases c) (added_aliases c a) \<noteq> [] then
       Some (json_strings (unionStrings (entityAliases c) (added_aliases c a)))
     else map_of (fa_attrs c) k)"
proof -
  have none: "mergeRecords c = []" "\<not> hasMergeRecord c mid" "claimed_mentions c = []"
    using assms by (simp_all add: merged_first_def mergeRecords_def hasMergeRecord_def claimed_mentions_def)
  have same: "map_of ats ''merges'' = map_of (fa_attrs c) ''merges'' \<Longrightarrow> lineage_list ats = []" for ats
    using assms by (simp add: merged_first_def lineage_list_def)
  have attrs: "fa_attrs c1 = canonical_attrs mid c a contributed canonSources"
    using assms by (simp add: merged_first_def)
  show ?thesis
    unfolding attrs canonical_attrs_def Let_def if_not_P [OF none(2)] if_P [OF none(1)]
    by (subst same) (simp_all add: map_of_attrs none first_record_def)
qed

lemma merged_first_lists:
  assumes "merged_first mid c a contributed canonSources c1"
  shows "entityAliases c1 = unionStrings (entityAliases c) (added_aliases c a)"
    and "attrStringList c1 ''source_facts'' = unionStrings (attrStringList c ''source_facts'') (added_sources c a)"
    and "mentionCountOf c1 = mentionCountOf c + of_nat (length (filter (\<lambda>s. s \<notin> set canonSources) contributed))"
    and "mergeBaseOf c1 = (set (map normalizeName (entityAliases c)), set (attrStringList c ''source_facts''), set canonSources)"
    and "splitMergeRecord c1 mid = (Some (first_record mid a contributed canonSources), [])"
    and "mergedIntoOf c1 = mergedIntoOf c"
proof -
  note at = merged_first_attrs [OF assms]
  show "entityAliases c1 = unionStrings (entityAliases c) (added_aliases c a)"
  proof (cases "unionStrings (entityAliases c) (added_aliases c a) = []")
    case True
    then have "entityAliases c = []" by (rule unionStrings_Nil)
    then show ?thesis using True by (simp add: entityAliases_def attrStringList_def recordStringList_def at)
  qed (simp add: entityAliases_def attrStringList_def recordStringList_def at)
  show "attrStringList c1 ''source_facts'' = unionStrings (attrStringList c ''source_facts'') (added_sources c a)"
  proof (cases "unionStrings (attrStringList c ''source_facts'') (added_sources c a) = []")
    case True
    then have "attrStringList c ''source_facts'' = []" by (rule unionStrings_Nil)
    then show ?thesis using True by (simp add: attrStringList_def recordStringList_def at)
  qed (simp add: attrStringList_def recordStringList_def at)
  show "mentionCountOf c1 = mentionCountOf c + of_nat (length (filter (\<lambda>s. s \<notin> set canonSources) contributed))"
    by (simp add: mentionCountOf_def at)
  show "mergeBaseOf c1 = (set (map normalizeName (entityAliases c)), set (attrStringList c ''source_facts''), set canonSources)"
    by (simp add: mergeBaseOf_def merge_base_def at base_snapshot_def recordStringList_def)
  show "splitMergeRecord c1 mid = (Some (first_record mid a contributed canonSources), [])"
    by (simp add: splitMergeRecord_def lineage_list_def at first_record_def merge_record_def)
  show "mergedIntoOf c1 = mergedIntoOf c" by (simp add: mergedIntoOf_def string_attr_def at)
qed

lemma first_record_lists [simp]:
  "recordStringList (first_record mid a contributed canonSources) ''contributed_aliases'' = contributed_aliases a"
  "recordStringList (first_record mid a contributed canonSources) ''contributed_source_facts'' = attrStringList a ''source_facts''"
  "recordStringList (first_record mid a contributed canonSources) ''contributed_mentions'' = contributed"
  "recordStringList (first_record mid a contributed canonSources) ''protected_mentions'' = filter (\<lambda>s. s \<in> set canonSources) contributed"
  by (simp_all add: first_record_def merge_record_def recordStringList_def)

lemma no_other_records [simp]: "contributed_by [] name = []"
  by (simp add: contributed_by_def other_records_def)

lemma first_closed_mentions:
  assumes "merged_first mid c a contributed canonSources c1" "distinct contributed"
  shows "set (closed_mentions c1 (first_record mid a contributed canonSources) [])
      = set (filter (\<lambda>s. s \<notin> set canonSources) contributed)"
    and "length (closed_mentions c1 (first_record mid a contributed canonSources) [])
      = length (filter (\<lambda>s. s \<notin> set canonSources) contributed)"
proof -
  have "closed_mentions c1 (first_record mid a contributed canonSources) []
      = sort (remdups (filter (\<lambda>s. s \<notin> set canonSources) contributed))"
    using merged_first_lists(4) [OF assms(1)]
    by (auto simp: closed_mentions_def intro!: arg_cong [of _ _ sort] arg_cong [of _ _ remdups] filter_cong)
  moreover have "distinct (filter (\<lambda>s. s \<notin> set canonSources) contributed)" using assms(2) by simp
  ultimately show "set (closed_mentions c1 (first_record mid a contributed canonSources) [])
      = set (filter (\<lambda>s. s \<notin> set canonSources) contributed)"
    and "length (closed_mentions c1 (first_record mid a contributed canonSources) [])
      = length (filter (\<lambda>s. s \<notin> set canonSources) contributed)"
    by (simp_all add: distinct_remdups_id)
qed

lemma first_kept_aliases:
  assumes "merged_first mid c a contributed canonSources c1"
  shows "filter (\<lambda>x. normalizeName x \<notin> dropped_aliases c1 (first_record mid a contributed canonSources) []) (entityAliases c1)
    = unionStrings (entityAliases c) []"
  unfolding merged_first_lists(1) [OF assms]
proof (rule unionStrings_keep)
  let ?dropped = "dropped_aliases c1 (first_record mid a contributed canonSources) []"
  have dropped: "?dropped = normSet (contributed_aliases a) - normalizeName ` set (entityAliases c)"
    by (simp add: dropped_aliases_def merged_first_lists(4) [OF assms])
  show "normalizeName x \<notin> ?dropped" if "x \<in> set (entityAliases c)" for x using that by (simp add: dropped)
  show "\<not> normalizeName x \<notin> ?dropped" if "x \<in> set (added_aliases c a)" for x
  proof -
    have "x \<in> set (contributed_aliases a) \<and> normalizeName x \<noteq> []
        \<and> normalizeName x \<notin> normSet (entityAliases c @ [fa_body c])"
      using that unfolding added_aliases_def by (rule fresh_aliases_set)
    then show ?thesis by (auto simp: dropped normSet_iff)
  qed
qed

lemma first_kept_sources:
  assumes "merged_first mid c a contributed canonSources c1"
  shows "filter (\<lambda>i. i \<notin> dropped_sources c1 (first_record mid a contributed canonSources) []) (attrStringList c1 ''source_facts'')
    = unionStrings (attrStringList c ''source_facts'') []"
  unfolding merged_first_lists(2) [OF assms]
proof (rule unionStrings_keep)
  let ?dropped = "dropped_sources c1 (first_record mid a contributed canonSources) []"
  have dropped: "?dropped = set (attrStringList a ''source_facts'') - set (attrStringList c ''source_facts'')"
    by (simp add: dropped_sources_def merged_first_lists(4) [OF assms])
  show "x \<notin> ?dropped" if "x \<in> set (attrStringList c ''source_facts'')" for x using that by (simp add: dropped)
  show "\<not> x \<notin> ?dropped" if "x \<in> set (added_sources c a)" for x
  proof -
    have "x \<in> set (attrStringList a ''source_facts'') \<and> x \<notin> set (attrStringList c ''source_facts'')"
      using that unfolding added_sources_def by (rule fresh_sources_set)
    then show ?thesis unfolding dropped by simp
  qed
qed

lemma reverted_first:
  assumes first: "merged_first mid c a contributed canonSources c1" and "distinct contributed"
    and undo: "fa_attrs c2 = reverted_attrs c1 (first_record mid a contributed canonSources) []"
  shows "entityAliases c2 = unionStrings (entityAliases c) []"
    and "attrStringList c2 ''source_facts'' = unionStrings (attrStringList c ''source_facts'') []"
    and "mentionCountOf c2 = max 0 (mentionCountOf c)"
    and "lineage_list (fa_attrs c2) = []" and "mergedIntoOf c2 = mergedIntoOf c"
    and "k \<notin> {''aliases'', ''source_facts'', ''mention_count'', ''merges'', ''merge_base''} \<Longrightarrow>
      map_of (fa_attrs c2) k = map_of (fa_attrs c) k"
proof -
  note c1 = merged_first_attrs [OF first] and lists = merged_first_lists [OF first]
  have at: "map_of (fa_attrs c2) x =
      (if x = ''merges'' \<or> x = ''merge_base'' then None
       else if x = ''mention_count'' then Some (JNum (max 0 (mentionCountOf c)))
       else if x = ''source_facts'' then (if unionStrings (attrStringList c ''source_facts'') [] = [] then None
         else Some (json_strings (unionStrings (attrStringList c ''source_facts'') [])))
       else if x = ''aliases'' then (if unionStrings (entityAliases c) [] = [] then None
         else Some (json_strings (unionStrings (entityAliases c) [])))
       else map_of (fa_attrs c) x)" for x
    unfolding undo reverted_attrs_def Let_def first_kept_aliases [OF first] first_kept_sources [OF first]
      first_closed_mentions(2) [OF first assms(2)] lists(3)
    by (simp add: map_of_attrs c1)
  show "entityAliases c2 = unionStrings (entityAliases c) []"
    by (simp add: entityAliases_def attrStringList_def recordStringList_def at)
  show "attrStringList c2 ''source_facts'' = unionStrings (attrStringList c ''source_facts'') []"
    by (simp add: attrStringList_def recordStringList_def at)
  show "mentionCountOf c2 = max 0 (mentionCountOf c)" by (simp add: mentionCountOf_def at)
  show "lineage_list (fa_attrs c2) = []" by (simp add: lineage_list_def at)
  show "mergedIntoOf c2 = mergedIntoOf c" by (simp add: mergedIntoOf_def string_attr_def at)
  show "map_of (fa_attrs c2) k = map_of (fa_attrs c) k"
    if "k \<notin> {''aliases'', ''source_facts'', ''mention_count'', ''merges'', ''merge_base''}"
    using that by (simp add: at)
qed

section \<open>Apply and revert\<close>

definition apply_id :: "merge_env \<Rightarrow> string \<Rightarrow> merge_proposal \<Rightarrow> string" where
  "apply_id env ns p = (if mp_id p = [] then entityMergeID (me_digest env) ns (mp_alias p) (mp_canonical p) else mp_id p)"

definition mentioners :: "string \<Rightarrow> string \<Rightarrow> links \<Rightarrow> string list" where
  "mentioners ns key ls = map lk_from (filter (\<lambda>l. lk_type l = ''mentions'') (live_neighbors ns key ''in'' ls))"

lemma apply_run:
  fixes others :: graph_others and g :: graph
  defines "g0 \<equiv> others 0 g" and "g1 \<equiv> others 1 (others 0 g)" and "g2 \<equiv> others 2 (others 1 (others 0 g))"
  assumes run: "ApplyEntityMerge env now others fid ns p allowed g = (Inr r, g')" "mr_applied r"
    and stamps: "stamps_ok (mm_facts (fst g0))"
    and live: "live_fact (now 0) ns (fst g0) (mp_canonical p) = Some c" "live_fact (now 0) ns (fst g0) (mp_alias p) = Some a"
  obtains "merge_checks allowed c a = Inr False" "mp_canonical p \<noteq> mp_alias p" "ValidateKey (mp_alias p) = Inr ()"
    "apply_body (me_mem env) fid (now 1) ns (apply_id env ns p) c a (mentioners ns (mp_alias p) (snd g1))
       (linkSourcesAll ns (mp_canonical p) ''mentions'' (snd g2)) (others 3 g2) = (Inr (), g')"
proof -
  have keys: "fa_key c = mp_canonical p" "fa_key a = mp_alias p" using live_fact_key(1) [OF stamps] live by auto
  have found: "fact_by_key (queryLiveByKeys (now 0) ns [mp_canonical p, mp_alias p] (fst g0)) (mp_canonical p) = Some c"
    "fact_by_key (queryLiveByKeys (now 0) ns [mp_canonical p, mp_alias p] (fst g0)) (mp_alias p) = Some a"
    using live by (simp_all add: fact_by_key_live [OF stamps])
  have valid: "ValidateKey (mp_canonical p) = Inr ()" "ValidateKey (mp_alias p) = Inr ()"
    "mp_canonical p \<noteq> mp_alias p" "\<not> (mp_protected p \<and> \<not> allowed)"
    using run by (auto simp: ApplyEntityMerge_def Let_def split: if_splits sum.splits)
  obtain b where checks: "merge_checks allowed c a = Inr b"
    using run valid(1-3) found unfolding ApplyEntityMerge_def Let_def g0_def
    by (cases "merge_checks allowed c a") (auto split: if_splits)
  have "\<not> b"
    using run valid(1-3) found checks unfolding ApplyEntityMerge_def Let_def g0_def by (auto split: if_splits)
  let ?mid = "if mp_id p = [] then entityMergeID (me_digest env) ns (mp_alias p) (mp_canonical p) else mp_id p"
  let ?in = "map link_of (live_neighbors ns (mp_alias p) ''in'' (snd g1))"
  have sources: "mention_sources ?in = mentioners ns (mp_alias p) (snd g1)"
    by (simp add: mention_sources_def mentioners_def filter_map comp_def link_of_def)
  let ?body = "apply_body (me_mem env) fid (now 1) ns ?mid c a (mention_sources ?in)
       (linkSourcesAll ns (mp_canonical p) ''mentions'' (snd g2))"
  have neighbors: "Neighbors ns (mp_alias p) ''in'' (snd g1) = Inr ?in" by (simp add: Neighbors_eq)
  have "\<exists>u. with_tx ?body (others 3 g2) = (Inr u, g')"
    using run valid found checks \<open>\<not> b\<close> neighbors keys
    unfolding ApplyEntityMerge_def Let_def g0_def g1_def g2_def by (auto split: if_splits sum.splits prod.splits)
  then have "?body (others 3 g2) = (Inr (), g')"
    by (cases rule: with_tx_cases [of ?body "others 3 g2"]) auto
  then show ?thesis using checks \<open>\<not> b\<close> valid(2,3) by (intro that) (simp_all add: sources apply_id_def)
qed

definition tells_lineage :: "mem_env \<Rightarrow> bool" where
  "tells_lineage env \<longleftrightarrow> (\<forall>k b x y. en_hash env k b x = en_hash env k b y \<longrightarrow>
     (lineage_list x = [] \<longleftrightarrow> lineage_list y = [])
     \<and> (string_attr x ''merged_into'' = [] \<longleftrightarrow> string_attr y ''merged_into'' = []))"

definition hashed :: "mem_env \<Rightarrow> fact \<Rightarrow> bool" where
  "hashed env f \<longleftrightarrow> fa_hash f = en_hash env (fa_key f) (fa_body f) (fa_attrs f)"

lemma tells_apart:
  assumes "tells_lineage env" "hashed env prev" "latest_revision ns (fa_key prev) m = Some prev"
    and "(lineage_list (fa_attrs prev) = []) \<noteq> (lineage_list ats = [])
      \<or> (string_attr (fa_attrs prev) ''merged_into'' = []) \<noteq> (string_attr ats ''merged_into'' = [])"
  shows "not_stored env ns prev ats m"
proof -
  have "fa_hash prev \<noteq> en_hash env (fa_key prev) (fa_body prev) ats"
  proof
    assume "fa_hash prev = en_hash env (fa_key prev) (fa_body prev) ats"
    then have "en_hash env (fa_key prev) (fa_body prev) (fa_attrs prev) = en_hash env (fa_key prev) (fa_body prev) ats"
      using assms(2) by (simp add: hashed_def)
    then show False using assms(1,4) unfolding tells_lineage_def by meson
  qed
  then show ?thesis by (simp add: not_stored_def assms(3))
qed

lemma merge_revision_hashed [simp]: "hashed env (merge_revision env fid now ns prev ats action)"
  by (simp add: hashed_def)

lemma fact_key_valid: "memory_ok m \<Longrightarrow> f \<in> set (mm_facts m) \<Longrightarrow> ValidateKey (fa_key f) = Inr ()"
  by (simp add: memory_ok_def list_all_iff)

lemma key_nonempty: "ValidateKey k = Inr () \<Longrightarrow> k \<noteq> []"
  by (auto simp: ValidateKey_def split: if_splits)

lemma absorbed_lineage:
  "string_attr (absorbed_attrs mid c a) ''merged_into'' = fa_key c" "string_attr (absorbed_attrs mid c a) ''merge_id'' = mid"
  by (simp_all add: string_attr_def absorbed_attrs_def map_of_attrs)

lemma restored_lineage:
  "map_of (restored_attrs f) k = (if k = ''merged_into'' \<or> k = ''merge_id'' then None else map_of (fa_attrs f) k)"
  by (simp add: restored_attrs_def map_of_attrs)

text \<open>What a first merge leaves: two revisions, and an edge from each new source of mentions.\<close>

definition applied ::
  "mem_env \<Rightarrow> instant \<Rightarrow> string \<Rightarrow> string \<Rightarrow> fact \<Rightarrow> fact \<Rightarrow> string list \<Rightarrow> string list \<Rightarrow> graph \<Rightarrow> graph \<Rightarrow> fact \<Rightarrow> fact \<Rightarrow> bool" where
  "applied env now ns mid c a contributed canonSources g g' c1 a1 \<longleftrightarrow>
     (\<exists>m. revised ns c1 (fst g) m \<and> revised ns a1 m (fst g'))
     \<and> merged_first mid c a contributed canonSources c1 \<and> fa_attrs a1 = absorbed_attrs mid c a
     \<and> fa_key c1 = fa_key c \<and> fa_body c1 = fa_body c \<and> fa_key a1 = fa_key a \<and> fa_body a1 = fa_body a
     \<and> fa_created c1 = now \<and> fa_created a1 = now \<and> hashed env c1 \<and> hashed env a1
     \<and> snd g' = snd g @ map (mention_row now ns (fa_key c)) (filter (\<lambda>s. s \<notin> set canonSources) contributed)
     \<and> (\<forall>s \<in> set contributed. s \<notin> set canonSources \<longrightarrow> ValidateKey s = Inr ())"

lemma on_memory_Inr: "on_memory fn g = (Inr u, g') \<Longrightarrow> fn (fst g) = (Inr (), fst g') \<and> snd g' = snd g"
  by (auto simp: on_memory_def split: prod.splits)

lemma apply_body_applied:
  assumes ok: "memory_ok (fst g)" "stamps_ok (mm_facts (fst g))" and older: "list_all (\<lambda>f. fa_created f < now) (mm_facts (fst g))"
    and env: "tells_lineage env" "hashed env c" "hashed env a"
    and live: "live_fact t ns (fst g) kc = Some c" "live_fact t ns (fst g) ka = Some a" "kc \<noteq> ka"
    and plain: "lineage_list (fa_attrs c) = []" "mergedIntoOf a = []"
    and edges: "distinct contributed" "\<forall>s \<in> set contributed. s \<notin> set canonSources \<longrightarrow> \<not> list_ex (same_edge ns s kc ''mentions'') (snd g)"
    and run: "apply_body env fid now ns mid c a contributed canonSources g = (Inr (), g')"
  shows "\<exists>c1 a1. applied env now ns mid c a contributed canonSources g g' c1 a1"
proof -
  note kc = live_fact_key [OF ok(2) live(1)] and ka = live_fact_key [OF ok(2) live(2)]
  let ?added = "filter (\<lambda>s. s \<notin> set canonSources) contributed"
  let ?catts = "canonical_attrs mid c a contributed canonSources"
  obtain gA gB where edge_run: "add_mentions now ns kc ?added g = (Inr (), gA)"
    and c_run: "on_memory (writeMergeRevisionTx env (fid 0) now ns c ?catts) gA = (Inr (), gB)"
    and a_run: "on_memory (writeMergeRevisionTx env (fid 1) now ns a (absorbed_attrs mid c a)) gB = (Inr (), g')"
    using run kc(1) unfolding apply_body_def by (auto split: prod.splits sum.splits)
  have gA: "gA = (fst g, snd g @ map (mention_row now ns kc) ?added)" "\<forall>s \<in> set ?added. ValidateKey s = Inr ()"
    using add_mentions_state [of now ns kc ?added "fst g" "snd g" gA] edge_run edges by auto
  have stamps: "\<forall>x \<in> set (key_stamps (fst g)). snd (snd x) < now" using older by (auto simp: key_stamps_def list_all_iff)
  have c_first: "lineage_list ?catts \<noteq> []"
  proof -
    have "merged_first mid c a contributed canonSources (c\<lparr>fa_attrs := ?catts\<rparr>)" using plain(1) by (simp add: merged_first_def)
    from merged_first_attrs [OF this, of "''merges''"] show ?thesis by (simp add: lineage_list_def)
  qed
  have "latest_revision ns (fa_key c) (fst g) = Some c" using live_is_latest [OF ok(2) live(1)] kc(1) by simp
  then have new_c: "not_stored env ns c ?catts (fst g)" using tells_apart [OF env(1,2)] plain(1) c_first by blast
  have c_write: "writeMergeRevisionTx env (fid 0) now ns c ?catts (fst g) = (Inr (), fst gB)" and "snd gB = snd gA"
    using on_memory_Inr [OF c_run] by (simp_all add: gA(1))
  have stampsA: "\<forall>x. (ns, fa_key c, x) \<in> set (key_stamps (fst g)) \<longrightarrow> x < now" using stamps by fastforce
  obtain action where c1: "revised ns (merge_revision env (fid 0) now ns c ?catts action) (fst g) (fst gB)"
    using merge_write_revised [OF ok fact_key_valid [OF ok(1) kc(3)] stampsA c_write new_c] by blast
  let ?c1 = "merge_revision env (fid 0) now ns c ?catts action"
  have okB: "memory_ok (fst gB)" "stamps_ok (mm_facts (fst gB))" using c1 by (simp_all add: revised_def)
  have live_a: "live_fact t ns (fst gB) ka = Some a" using c1 live(2,3) kc(1) by (simp add: revised_def)
  have into: "string_attr (fa_attrs a) ''merged_into'' = []" "string_attr (absorbed_attrs mid c a) ''merged_into'' \<noteq> []"
    using plain(2) key_nonempty [OF fact_key_valid [OF ok(1) kc(3)]] by (simp_all add: mergedIntoOf_def absorbed_lineage)
  have "latest_revision ns (fa_key a) (fst gB) = Some a" using live_is_latest [OF okB(2) live_a] ka(1) by simp
  then have new_a: "not_stored env ns a (absorbed_attrs mid c a) (fst gB)" using tells_apart [OF env(1,3)] into by blast
  have a_write: "writeMergeRevisionTx env (fid 1) now ns a (absorbed_attrs mid c a) (fst gB) = (Inr (), fst g')"
    and edges': "snd g' = snd gB" using on_memory_Inr [OF a_run] by simp_all
  have stampsB: "\<forall>x. (ns, fa_key a, x) \<in> set (key_stamps (fst gB)) \<longrightarrow> x < now"
    using c1 stamps live(3) kc(1) ka(1) by (auto simp: revised_def)
  obtain action' where a1: "revised ns (merge_revision env (fid 1) now ns a (absorbed_attrs mid c a) action') (fst gB) (fst g')"
    using merge_write_revised [OF okB fact_key_valid [OF ok(1) ka(3)] stampsB a_write new_a] by blast
  let ?a1 = "merge_revision env (fid 1) now ns a (absorbed_attrs mid c a) action'"
  have "applied env now ns mid c a contributed canonSources g g' ?c1 ?a1"
    unfolding applied_def using c1 a1 gA edges' \<open>snd gB = snd gA\<close> plain(1) kc(1) by (auto simp: merged_first_def)
  then show ?thesis by blast
qed

text \<open>Taking the merge back right away succeeds.\<close>

lemma revert_body_succeeds:
  assumes before: "applied env now ns mid c a contributed canonSources g g' c1 a1"
    and ok: "memory_ok (fst g)" "list_all (\<lambda>f. fa_created f < now) (mm_facts (fst g))" "now < later" "tells_lineage env"
    and keys: "fa_key c \<noteq> fa_key a" "ValidateKey (fa_key c) = Inr ()" "ValidateKey (fa_key a) = Inr ()"
    and plain: "lineage_list (fa_attrs c) = []" "distinct contributed"
    and fresh: "fid 0 \<notin> fa_id ` set (mm_facts (fst g'))" "fid 1 \<notin> fa_id ` set (mm_facts (fst g'))" "fid 0 \<noteq> fid 1"
  obtains mA m2 c2 a2 where
    "revert_body env fid later ns c1 a1 (first_record mid a contributed canonSources) [] g' =
       (Inr (), (m2, update_where (\<lambda>l. \<exists>s \<in> set (filter (\<lambda>s. s \<notin> set canonSources) contributed).
           open_edge ns s (fa_key c) ''mentions'' l) (\<lambda>l. l\<lparr>lk_invalid := Some later\<rparr>) (snd g')))"
    "revised ns c2 (fst g') mA" "revised ns a2 mA m2" "fa_key c2 = fa_key c" "fa_key a2 = fa_key a"
    "fa_body c2 = fa_body c" "fa_body a2 = fa_body a"
    "fa_attrs c2 = reverted_attrs c1 (first_record mid a contributed canonSources) []"
    "fa_attrs a2 = restored_attrs a1"
proof -
  let ?rec = "first_record mid a contributed canonSources"
  obtain m where rev: "revised ns c1 (fst g) m" "revised ns a1 m (fst g')"
    using before by (auto simp: applied_def)
  have first: "merged_first mid c a contributed canonSources c1" using before by (simp add: applied_def)
  have c1: "fa_key c1 = fa_key c" "fa_body c1 = fa_body c" "fa_created c1 = now" "hashed env c1" "fa_invalid c1 = None"
    and a1: "fa_key a1 = fa_key a" "fa_body a1 = fa_body a" "fa_created a1 = now" "hashed env a1" "fa_invalid a1 = None"
      "fa_attrs a1 = absorbed_attrs mid c a"
    using before rev by (simp_all add: applied_def revised_def)
  have ns: "ns \<noteq> []" "CHR '':'' \<notin> set ns" and okg: "memory_ok (fst g')" "stamps_ok (mm_facts (fst g'))"
    using rev(2) by (simp_all add: revised_def)
  have live: "live_fact 0 ns (fst g') (fa_key c) = Some c1" "live_fact 0 ns (fst g') (fa_key a) = Some a1"
    using rev keys(1) c1(1) a1(1) by (simp_all add: revised_def)
  have stamps: "snd (snd x) < later" if "x \<in> set (key_stamps (fst g'))" for x
    using rev ok(2,3) that c1(3) a1(3) by (auto simp: revised_def key_stamps_def list_all_iff)
  have latest_c: "latest_revision ns (fa_key c1) (fst g') = Some c1"
    using live_is_latest [OF okg(2) live(1)] c1(1) by simp
  have "lineage_list (fa_attrs c1) \<noteq> []" using merged_first_attrs [OF first] by (simp add: lineage_list_def)
  moreover have "lineage_list (reverted_attrs c1 ?rec []) = []"
    using reverted_first(4) [OF first plain(2), of "c1\<lparr>fa_attrs := reverted_attrs c1 ?rec []\<rparr>"] by simp
  ultimately have new_c: "not_stored env ns c1 (reverted_attrs c1 ?rec []) (fst g')"
    using tells_apart [OF ok(4) c1(4) latest_c] by blast
  obtain mA where c_write: "writeMergeRevisionTx env (fid 0) later ns c1 (reverted_attrs c1 ?rec []) (fst g') = (Inr (), mA)"
    using merge_write_succeeds [OF okg(1) ns latest_c c1(5) fresh(1) new_c] by blast
  have valid: "ValidateKey (fa_key c1) = Inr ()" "ValidateKey (fa_key a1) = Inr ()" using keys c1(1) a1(1) by simp_all
  have stamps_c: "\<forall>x. (ns, fa_key c1, x) \<in> set (key_stamps (fst g')) \<longrightarrow> x < later" using stamps by fastforce
  obtain action where cA: "revised ns (merge_revision env (fid 0) later ns c1 (reverted_attrs c1 ?rec []) action) (fst g') mA"
    using merge_write_revised [OF okg valid(1) stamps_c c_write new_c] by blast
  let ?c2 = "merge_revision env (fid 0) later ns c1 (reverted_attrs c1 ?rec []) action"
  have okA: "memory_ok mA" "stamps_ok (mm_facts mA)" using cA by (simp_all add: revised_def)
  have "live_fact 0 ns mA (fa_key a) = Some a1" using cA live(2) keys(1) c1(1) by (simp add: revised_def)
  then have latest_a: "latest_revision ns (fa_key a1) mA = Some a1" using live_is_latest [OF okA(2)] a1(1) by metis
  have "string_attr (fa_attrs a1) ''merged_into'' \<noteq> []" using key_nonempty [OF keys(2)] by (simp add: a1(6) absorbed_lineage)
  moreover have "string_attr (restored_attrs a1) ''merged_into'' = []" by (simp add: string_attr_def restored_lineage)
  ultimately have new_a: "not_stored env ns a1 (restored_attrs a1) mA"
    using tells_apart [OF ok(4) a1(4) latest_a] by blast
  have "map fa_id (mm_facts mA) = map fa_id (mm_facts (fst g')) @ [fid 0]" using cA by (simp add: revised_def)
  then have "fa_id ` set (mm_facts mA) = insert (fid 0) (fa_id ` set (mm_facts (fst g')))"
    by (metis list.set_map list.simps(15) rotate1.simps(2) set_rotate1)
  then have fresh_a: "fid 1 \<notin> fa_id ` set (mm_facts mA)" using fresh by auto
  obtain m2 where a_write: "writeMergeRevisionTx env (fid 1) later ns a1 (restored_attrs a1) mA = (Inr (), m2)"
    using merge_write_succeeds [OF okA(1) ns latest_a a1(5) fresh_a new_a] by blast
  have stamps_a: "\<forall>x. (ns, fa_key a1, x) \<in> set (key_stamps mA) \<longrightarrow> x < later"
    using cA stamps keys(1) c1(1) a1(1) by (fastforce simp: revised_def)
  obtain action' where aA: "revised ns (merge_revision env (fid 1) later ns a1 (restored_attrs a1) action') mA m2"
    using merge_write_revised [OF okA valid(2) stamps_a a_write new_a] by blast
  let ?closed = "closed_mentions c1 ?rec []"
  have closed: "set ?closed = set (filter (\<lambda>s. s \<notin> set canonSources) contributed)"
    by (rule first_closed_mentions(1) [OF first plain(2)])
  have "\<forall>s \<in> set ?closed. ValidateKey s = Inr ()" using before closed by (simp add: applied_def)
  then have close: "close_mentions later ns (fa_key c1) ?closed (mA, snd g') = (Inr (), (mA,
      update_where (\<lambda>l. \<exists>s \<in> set ?closed. open_edge ns s (fa_key c1) ''mentions'' l) (\<lambda>l. l\<lparr>lk_invalid := Some later\<rparr>) (snd g')))"
    by (rule close_mentions_state [OF valid(1)])
  have run: "revert_body env fid later ns c1 a1 ?rec [] g' = (Inr (), (m2,
      update_where (\<lambda>l. \<exists>s \<in> set ?closed. open_edge ns s (fa_key c1) ''mentions'' l) (\<lambda>l. l\<lparr>lk_invalid := Some later\<rparr>) (snd g')))"
    unfolding revert_body_def on_memory_def c_write by (simp add: close a_write del: One_nat_def)
  show ?thesis
    using run cA aA c1 a1 unfolding closed
    by (intro that [of m2 ?c2 mA "merge_revision env (fid 1) later ns a1 (restored_attrs a1) action'"]) simp_all
qed

section \<open>A merge that is taken back\<close>

lemma mention_sources_distinct:
  assumes "distinct (map edge_key ls)"
  shows "distinct (map lk_from (filter (\<lambda>l. lk_type l = ''mentions'') (live_neighbors ns key ''in'' ls)))"
proof -
  let ?rows = "filter (\<lambda>l. lk_type l = ''mentions'') (live_neighbors ns key ''in'' ls)"
  have "distinct (map (\<lambda>l. (lk_from l, lk_to l, lk_type l)) (live_neighbors ns key ''in'' ls))"
    using live_neighbors_distinct [OF assms, of ns key "''in''"] by (simp add: comp_def link_of_def)
  then have "distinct (map (\<lambda>l. (lk_from l, lk_to l, lk_type l)) ?rows)" by (rule distinct_map_filter)
  moreover have "map (\<lambda>l. (lk_from l, lk_to l, lk_type l)) ?rows = map (\<lambda>s. (s, key, ''mentions'')) (map lk_from ?rows)"
    by (auto simp: live_neighbors_def near_end_def)
  ultimately have "distinct (map (\<lambda>s. (s, key, ''mentions'')) (map lk_from ?rows))" by (simp only:)
  then show ?thesis by (rule distinct_mapD)
qed

lemma new_mention_fresh:
  assumes "s \<notin> set (linkSourcesAll ns key ''mentions'' ls)"
  shows "\<not> list_ex (same_edge ns s key ''mentions'') ls"
  using assms by (auto simp: linkSourcesAll_def list_ex_iff same_edge_def)

lemma first_apply:
  fixes now :: clock and ls :: links
  assumes "memory_ok m" "stamps_ok (mm_facts m)" "distinct (map edge_key ls)" "tells_lineage (me_mem env)"
    and "list_all (\<lambda>f. fa_created f < now 1) (mm_facts m)"
    and "live_fact (now 0) ns m (mp_canonical p) = Some c" "live_fact (now 0) ns m (mp_alias p) = Some a"
    and "hashed (me_mem env) c" "hashed (me_mem env) a" "lineage_list (fa_attrs c) = []"
    and "ApplyEntityMerge env now (\<lambda>_ x. x) fid ns p allowed (m, ls) = (Inr r, (m1, ls1))" "mr_applied r"
  obtains c1 a1 where "applied (me_mem env) (now 1) ns (apply_id env ns p) c a (mentioners ns (mp_alias p) ls)
      (linkSourcesAll ns (mp_canonical p) ''mentions'' ls) (m, ls) (m1, ls1) c1 a1"
    "mergedIntoOf c = []" "fa_key c \<noteq> fa_key a" "ValidateKey (fa_key c) = Inr ()" "ValidateKey (fa_key a) = Inr ()"
proof -
  let ?contributed = "mentioners ns (mp_alias p) ls" and ?canon = "linkSourcesAll ns (mp_canonical p) ''mentions'' ls"
  note kc = live_fact_key [OF assms(2,6)] and ka = live_fact_key [OF assms(2,7)]
  have checks: "merge_checks allowed c a = Inr False" "mp_canonical p \<noteq> mp_alias p"
    and run: "apply_body (me_mem env) fid (now 1) ns (apply_id env ns p) c a ?contributed ?canon (m, ls) = (Inr (), (m1, ls1))"
    using apply_run [OF assms(11,12)] assms(2,6,7) by (metis fst_conv snd_conv)+
  have into: "mergedIntoOf a = []" "mergedIntoOf c = []" using checks(1) by (auto simp: merge_checks_def split: if_splits)
  have distinct: "distinct ?contributed" unfolding mentioners_def by (rule mention_sources_distinct [OF assms(3)])
  have fresh: "\<forall>s \<in> set ?contributed. s \<notin> set ?canon \<longrightarrow> \<not> list_ex (same_edge ns s (mp_canonical p) ''mentions'') ls"
    using new_mention_fresh by blast
  have "\<exists>c1 a1. applied (me_mem env) (now 1) ns (apply_id env ns p) c a ?contributed ?canon (m, ls) (m1, ls1) c1 a1"
    by (rule apply_body_applied [OF _ _ _ assms(4,8,9) _ _ checks(2) assms(10) into(1) distinct _ run, where t = "now 0"])
      (use assms(1,2,5,6,7) fresh in simp_all)
  moreover have "fa_key c \<noteq> fa_key a" "ValidateKey (fa_key c) = Inr ()" "ValidateKey (fa_key a) = Inr ()"
    using checks(2) kc(1) ka(1) fact_key_valid [OF assms(1) kc(3)] fact_key_valid [OF assms(1) ka(3)] by simp_all
  ultimately show ?thesis using into(2) that by blast
qed

text \<open>The undo of an applied merge finds its record and runs its transaction.\<close>

lemma revert_applied:
  fixes later :: clock
  assumes before: "applied env now ns mid c a contributed canonSources g (m1, ls1) c1 a1"
    and keys: "fa_key c \<noteq> fa_key a" "ValidateKey (fa_key c) = Inr ()" "ValidateKey (fa_key a) = Inr ()"
    and run: "revert_body (me_mem menv) fid (later 2) ns c1 a1 (first_record mid a contributed canonSources) [] (m1, ls1) = (Inr (), g2)"
  shows "RevertEntityMerge menv later (\<lambda>_ x. x) fid ns (fa_key a) (m1, ls1) =
     (Inr \<lparr>mr_proposal = mid, mr_canonical = fa_key c, mr_alias = fa_key a, mr_applied = False, mr_reverted = True\<rparr>, g2)"
proof -
  obtain mB where rev: "revised ns c1 (fst g) mB" "revised ns a1 mB m1"
    and k1: "fa_key c1 = fa_key c" "fa_key a1 = fa_key a" "fa_attrs a1 = absorbed_attrs mid c a"
    and first: "merged_first mid c a contributed canonSources c1"
    using before by (auto simp: applied_def)
  have ok1: "stamps_ok (mm_facts m1)" using rev(2) by (simp add: revised_def)
  have live1: "live_fact t ns m1 (fa_key c) = Some c1" "live_fact t ns m1 (fa_key a) = Some a1" for t
    using rev k1 keys(1) by (auto simp: revised_def)
  have lineage: "mergedIntoOf a1 = fa_key c" "string_attr (fa_attrs a1) ''merge_id'' = mid" "fa_key c \<noteq> []"
    using key_nonempty [OF keys(2)] by (simp_all add: mergedIntoOf_def k1 absorbed_lineage)
  show ?thesis
    using run unfolding RevertEntityMerge_def Let_def keys(3) sum.case fst_conv queryLiveByKeys_fact [OF ok1] live1 option.case
      list.case lineage(1,2) if_not_P [OF lineage(3)] merged_first_lists(5) [OF first] prod.case with_tx_def by simp
qed

lemma undone_edges:
  assumes "\<forall>s \<in> set added. \<not> list_ex (same_edge ns s kc ''mentions'') ls"
  shows "Neighbors ns' k dir (update_where (\<lambda>l. \<exists>s \<in> set added. open_edge ns s kc ''mentions'' l) (\<lambda>l. l\<lparr>lk_invalid := Some later\<rparr>)
      (ls @ map (mention_row now ns kc) added)) = Neighbors ns' k dir ls"
proof -
  have old: "\<forall>l \<in> set ls. \<not> (\<exists>s \<in> set added. open_edge ns s kc ''mentions'' l)"
    using assms by (auto simp: open_edge_def list_ex_iff)
  have new: "\<forall>l \<in> set (map (mention_row now ns kc) added). \<exists>s \<in> set added. open_edge ns s kc ''mentions'' l"
    by (auto simp: open_edge_def same_edge_def mention_row_def)
  show ?thesis unfolding Neighbors_eq live_neighbors_closed [OF old new] by (rule refl)
qed

definition undone_attr :: "string \<Rightarrow> bool" where
  "undone_attr k \<longleftrightarrow> k \<notin> {''aliases'', ''source_facts'', ''mention_count'', ''merges'', ''merge_base''}"

text \<open>C12: a merge can be taken back.  When the first merge into a canonical entity is applied and reverted with nothing
  in between, the revert succeeds; the canonical entity has its own aliases, sources and count of mentions
  again (case variants of one alias are kept once) and every other attribute it had, the absorbed entity has
  its attributes without the lineage, bodies are unchanged, every other fact is read as before, and so is
  every neighbourhood.\<close>

theorem merge_undone:
  fixes now later :: clock and ls :: links
  assumes "memory_ok m" "stamps_ok (mm_facts m)" "distinct (map edge_key ls)" "tells_lineage (me_mem env)"
    and "list_all (\<lambda>f. fa_created f < now 1) (mm_facts m)" "now 1 < later 2"
    and "live_fact (now 0) ns m (mp_canonical p) = Some c" "live_fact (now 0) ns m (mp_alias p) = Some a"
    and "hashed (me_mem env) c" "hashed (me_mem env) a" "lineage_list (fa_attrs c) = []"
    and "ApplyEntityMerge env now (\<lambda>_ x. x) fid ns p allowed (m, ls) = (Inr r, (m1, ls1))" "mr_applied r"
    and "fid' 0 \<notin> fa_id ` set (mm_facts m1)" "fid' 1 \<notin> fa_id ` set (mm_facts m1)" "fid' 0 \<noteq> fid' 1"
  shows "\<exists>r' m2 ls2 c2 a2.
      RevertEntityMerge env later (\<lambda>_ x. x) fid' ns (mp_alias p) (m1, ls1) = (Inr r', (m2, ls2)) \<and> mr_reverted r'
    \<and> (\<forall>t ns' k. live_fact t ns' m2 k = (if ns' = ns \<and> k = mp_canonical p then Some c2
         else if ns' = ns \<and> k = mp_alias p then Some a2 else live_fact t ns' m k))
    \<and> fa_body c2 = fa_body c \<and> entityAliases c2 = unionStrings (entityAliases c) []
    \<and> attrStringList c2 ''source_facts'' = unionStrings (attrStringList c ''source_facts'') []
    \<and> mentionCountOf c2 = max 0 (mentionCountOf c) \<and> mergedIntoOf c2 = [] \<and> lineage_list (fa_attrs c2) = []
    \<and> (\<forall>k. undone_attr k \<longrightarrow> map_of (fa_attrs c2) k = map_of (fa_attrs c) k)
    \<and> fa_body a2 = fa_body a
    \<and> (\<forall>k. map_of (fa_attrs a2) k = (if k \<in> {''merged_into'', ''merge_id''} then None else map_of (fa_attrs a) k))
    \<and> (\<forall>ns' k dir. Neighbors ns' k dir ls2 = Neighbors ns' k dir ls)"
proof -
  let ?contributed = "mentioners ns (mp_alias p) ls" and ?canon = "linkSourcesAll ns (mp_canonical p) ''mentions'' ls"
  let ?added = "filter (\<lambda>s. s \<notin> set ?canon) ?contributed" and ?mid = "apply_id env ns p"
  have kc: "fa_key c = mp_canonical p" and ka: "fa_key a = mp_alias p"
    using live_fact_key(1) [OF assms(2)] assms(7,8) by auto
  have distinct: "distinct ?contributed" unfolding mentioners_def by (rule mention_sources_distinct [OF assms(3)])
  obtain c1 a1 where done1: "applied (me_mem env) (now 1) ns ?mid c a ?contributed ?canon (m, ls) (m1, ls1) c1 a1"
    and free: "mergedIntoOf c = []" and keys: "fa_key c \<noteq> fa_key a" "ValidateKey (fa_key c) = Inr ()" "ValidateKey (fa_key a) = Inr ()"
    by (rule first_apply [OF assms(1-5,7-13)])
  obtain mA m2 c2 a2 where revert: "revert_body (me_mem env) fid' (later 2) ns c1 a1 (first_record ?mid a ?contributed ?canon) [] (m1, ls1) =
       (Inr (), (m2, update_where (\<lambda>l. \<exists>s \<in> set ?added. open_edge ns s (fa_key c) ''mentions'' l)
          (\<lambda>l. l\<lparr>lk_invalid := Some (later 2)\<rparr>) ls1))"
    and rev: "revised ns c2 m1 mA" "revised ns a2 mA m2" "fa_key c2 = fa_key c" "fa_key a2 = fa_key a"
      "fa_body c2 = fa_body c" "fa_body a2 = fa_body a"
    and attrs: "fa_attrs c2 = reverted_attrs c1 (first_record ?mid a ?contributed ?canon) []" "fa_attrs a2 = restored_attrs a1"
    by (rule revert_body_succeeds [OF done1 _ _ assms(6,4) keys assms(11) distinct, unfolded fst_conv snd_conv,
          OF assms(1,5,14-16)])
  obtain mB where before: "revised ns c1 m mB" "revised ns a1 mB m1" "fa_key c1 = fa_key c" "fa_key a1 = fa_key a"
    and a1: "fa_attrs a1 = absorbed_attrs ?mid c a" and first: "merged_first ?mid c a ?contributed ?canon c1"
    and ls1: "ls1 = ls @ map (mention_row (now 1) ns (fa_key c)) ?added"
    using done1 by (auto simp: applied_def)
  have views: "live_fact t ns' m2 k = (if ns' = ns \<and> k = mp_canonical p then Some c2
         else if ns' = ns \<and> k = mp_alias p then Some a2 else live_fact t ns' m k)" for t ns' k
    using rev(1-4) before keys(1) by (auto simp: revised_def kc ka)
  let ?ls2 = "update_where (\<lambda>l. \<exists>s \<in> set ?added. open_edge ns s (fa_key c) ''mentions'' l) (\<lambda>l. l\<lparr>lk_invalid := Some (later 2)\<rparr>) ls1"
  have fresh: "\<forall>s \<in> set ?added. \<not> list_ex (same_edge ns s (fa_key c) ''mentions'') ls" using new_mention_fresh kc by auto
  have edges: "Neighbors ns' k dir ?ls2 = Neighbors ns' k dir ls" for ns' k dir unfolding ls1 by (rule undone_edges [OF fresh])
  note lists = reverted_first [OF first distinct attrs(1)]
  have a2: "map_of (fa_attrs a2) k = (if k \<in> {''merged_into'', ''merge_id''} then None else map_of (fa_attrs a) k)" for k
    by (simp add: attrs(2) restored_lineage a1 absorbed_attrs_def map_of_attrs)
  have c2: "undone_attr k \<longrightarrow> map_of (fa_attrs c2) k = map_of (fa_attrs c) k" for k
    using lists(6) by (simp add: undone_attr_def)
  let ?r = "\<lparr>mr_proposal = ?mid, mr_canonical = fa_key c, mr_alias = fa_key a, mr_applied = False, mr_reverted = True\<rparr>"
  have reverted: "RevertEntityMerge env later (\<lambda>_ x. x) fid' ns (mp_alias p) (m1, ls1) = (Inr ?r, (m2, ?ls2))"
    using revert_applied [where later = later, OF done1 keys revert] unfolding ka .
  have flag: "mr_reverted ?r" and free2: "mergedIntoOf c2 = []" using lists(5) free by simp_all
  show ?thesis
    by (rule exI [of _ ?r], rule exI [of _ m2], rule exI [of _ ?ls2], rule exI [of _ c2], rule exI [of _ a2])
      (intro conjI allI reverted flag views rev(5,6) lists(1-4) free2 c2 a2 edges)
qed

section \<open>Overtaken plans\<close>

lemma newest_update:
  assumes "\<And>x. fa_created (u x) = fa_created x" "\<And>x. fa_id (u x) = fa_id x"
  shows "newest (update_where P u fs) = map_option (\<lambda>x. if P x then u x else x) (newest fs)"
proof -
  let ?w = "\<lambda>x. if P x then u x else x"
  have "fa_created \<circ> ?w = fa_created" "fa_id \<circ> ?w = fa_id" using assms by auto
  then have "sort_key fa_created (sort_key fa_id (map ?w fs)) = map ?w (sort_key fa_created (sort_key fa_id fs))"
    by (simp only: sort_key_map)
  then show ?thesis by (simp add: newest_def update_where_def rev_map split: list.split)
qed

text \<open>What a write at one key leaves of the newest revision of another: its identity, content and action.\<close>

lemma merge_write_other:
  assumes "writeMergeRevisionTx env fid now ns prev ats m = (Inr (), m')" "key \<noteq> fa_key prev"
  shows "map_option (\<lambda>f. (fa_id f, fa_hash f, fa_action f)) (latest_revision ns key m')
    = map_option (\<lambda>f. (fa_id f, fa_hash f, fa_action f)) (latest_revision ns key m)"
proof (cases "not_stored env ns prev ats m")
  case True
  obtain action where facts: "mm_facts m' = update_where (planned_head ns prev) (\<lambda>g. g\<lparr>fa_invalid := Some now\<rparr>) (mm_facts m)
       @ [merge_revision env fid now ns prev ats action]"
    using assms(1) True by (rule merge_write_recorded) blast
  have "filter (of_key ns key) (mm_facts m') = update_where (planned_head ns prev) (\<lambda>g. g\<lparr>fa_invalid := Some now\<rparr>)
      (filter (of_key ns key) (mm_facts m))"
    using assms(2) by (simp add: facts of_key_def filter_update_where)
  then show ?thesis
    by (auto simp: latest_revision_def newest_update option.map_comp comp_def intro!: map_option_cong)
next
  case False
  then obtain h where h: "latest_revision ns (fa_key prev) m = Some h"
    "fa_hash h = en_hash env (fa_key prev) (fa_body prev) ats" "fa_action h \<noteq> ''tombstone''"
    by (auto simp: not_stored_def)
  show ?thesis
  proof (cases rule: ensureNamespace_cases [of ns m])
    case (refused e)
    then show ?thesis using assms(1) by (simp add: writeMergeRevisionTx_def)
  next
    case (known m1)
    have "latest_revision ns (fa_key prev) m1 = Some h" using known(2) h(1) latest_revision_cong [of m1 m] by simp
    then have "m' = reinforce (fa_id h) m1" using assms(1) known(1) h by (simp add: writeMergeRevisionTx_def)
    then have "filter (of_key ns key) (mm_facts m') = update_where (\<lambda>f. fa_id f = fa_id h)
        (\<lambda>f. f\<lparr>fa_reinforcements := fa_reinforcements f + 1\<rparr>) (filter (of_key ns key) (mm_facts m))"
      using known(2) by (simp add: reinforce_def of_key_def filter_update_where)
    then show ?thesis
      by (auto simp: latest_revision_def newest_update option.map_comp comp_def intro!: map_option_cong)
  qed
qed

lemma add_mentions_memory: "fst (snd (add_mentions now ns canonical srcs g)) = fst g"
  by (induction srcs arbitrary: g) (auto split: prod.split sum.split)

definition overtaken :: "mem_env \<Rightarrow> string \<Rightarrow> fact \<Rightarrow> attrs \<Rightarrow> memory \<Rightarrow> bool" where
  "overtaken env ns f ats m \<longleftrightarrow> not_stored env ns f ats m
     \<and> (\<forall>h. latest_revision ns (fa_key f) m = Some h \<longrightarrow> fa_id h \<noteq> fa_id f)"

lemma apply_body_current:
  assumes "apply_body env fid now ns mid c a contributed canonSources g = (Inr (), g')" "fa_key c \<noteq> fa_key a"
  shows "\<not> overtaken env ns c (canonical_attrs mid c a contributed canonSources) (fst g)"
    and "\<not> overtaken env ns a (absorbed_attrs mid c a) (fst g)"
proof -
  let ?catts = "canonical_attrs mid c a contributed canonSources"
  obtain gA gB where edge_run: "add_mentions now ns (fa_key c) (filter (\<lambda>s. s \<notin> set canonSources) contributed) g = (Inr (), gA)"
    and c_run: "on_memory (writeMergeRevisionTx env (fid 0) now ns c ?catts) gA = (Inr (), gB)"
    and a_run: "on_memory (writeMergeRevisionTx env (fid 1) now ns a (absorbed_attrs mid c a)) gB = (Inr (), g')"
    using assms(1) unfolding apply_body_def by (auto split: prod.splits sum.splits)
  have gA: "fst gA = fst g"
    using add_mentions_memory [of now ns "fa_key c" "filter (\<lambda>s. s \<notin> set canonSources) contributed" g] edge_run by simp
  have c_write: "writeMergeRevisionTx env (fid 0) now ns c ?catts (fst g) = (Inr (), fst gB)"
    using on_memory_Inr [OF c_run] gA by simp
  have a_write: "writeMergeRevisionTx env (fid 1) now ns a (absorbed_attrs mid c a) (fst gB) = (Inr (), fst g')"
    using on_memory_Inr [OF a_run] by simp
  show "\<not> overtaken env ns c ?catts (fst g)"
  proof
    assume o: "overtaken env ns c ?catts (fst g)"
    then have "not_stored env ns c ?catts (fst g)" by (simp add: overtaken_def)
    with c_write obtain h where "latest_revision ns (fa_key c) (fst g) = Some h" "fa_id h = fa_id c"
      by (rule merge_write_recorded)
    then show False using o by (simp add: overtaken_def)
  qed
  have same: "map_option (\<lambda>f. (fa_id f, fa_hash f, fa_action f)) (latest_revision ns (fa_key a) (fst gB))
      = map_option (\<lambda>f. (fa_id f, fa_hash f, fa_action f)) (latest_revision ns (fa_key a) (fst g))"
    by (rule merge_write_other [OF c_write not_sym [OF assms(2)]])
  show "\<not> overtaken env ns a (absorbed_attrs mid c a) (fst g)"
  proof
    assume o: "overtaken env ns a (absorbed_attrs mid c a) (fst g)"
    then have "not_stored env ns a (absorbed_attrs mid c a) (fst gB)"
      using same by (auto simp: overtaken_def not_stored_def map_option_case split: option.splits)
    with a_write obtain h where "latest_revision ns (fa_key a) (fst gB) = Some h" "fa_id h = fa_id a"
      by (rule merge_write_recorded)
    then show False using o same by (auto simp: overtaken_def map_option_case split: option.splits)
  qed
qed

definition apply_outcome :: "graph_others \<Rightarrow> graph \<Rightarrow> (merge_error + merge_result) \<times> graph \<Rightarrow> bool" where
  "apply_outcome others g out \<longleftrightarrow> (case out of
      (Inr r, g') \<Rightarrow> mr_applied r \<or> g' = others 0 g
    | (Inl e, g') \<Rightarrow> g' \<in> {g, others 0 g, others 1 (others 0 g), others 3 (others 2 (others 1 (others 0 g)))})"

lemma apply_outcomes:
  "apply_outcome others g (Inl e, g)" "apply_outcome others g (Inl e, others 0 g)"
  "apply_outcome others g (Inl e, others 1 (others 0 g))"
  "apply_outcome others g (Inl e, others 3 (others 2 (others 1 (others 0 g))))"
  "\<not> mr_applied r \<Longrightarrow> apply_outcome others g (Inr r, others 0 g)"
  "mr_applied r \<Longrightarrow> apply_outcome others g (Inr r, g')"
  by (simp_all add: apply_outcome_def)

lemma outcome_branches:
  "\<lbrakk>b \<Longrightarrow> apply_outcome others g x; \<not> b \<Longrightarrow> apply_outcome others g y\<rbrakk> \<Longrightarrow> apply_outcome others g (if b then x else y)"
  "\<lbrakk>\<And>e. apply_outcome others g (f e); \<And>r. apply_outcome others g (h r)\<rbrakk> \<Longrightarrow>
     apply_outcome others g (case s of Inl e \<Rightarrow> f e | Inr r \<Rightarrow> h r)"
  "\<lbrakk>apply_outcome others g x; \<And>v. apply_outcome others g (k v)\<rbrakk> \<Longrightarrow>
     apply_outcome others g (case o' of None \<Rightarrow> x | Some v \<Rightarrow> k v)"
  "\<lbrakk>apply_outcome others g x; apply_outcome others g y\<rbrakk> \<Longrightarrow>
     apply_outcome others g (case c of True \<Rightarrow> x | False \<Rightarrow> y)"
  by (simp_all split: sum.split option.split bool.split)

lemma tx_outcome:
  assumes "mr_applied r"
  shows "apply_outcome others g (case with_tx fn (others 3 (others 2 (others 1 (others 0 g)))) of
     (Inl e, g3) \<Rightarrow> (Inl e, g3) | (Inr u, g3) \<Rightarrow> (Inr r, g3))"
proof (cases rule: with_tx_cases [of fn "others 3 (others 2 (others 1 (others 0 g)))"])
  case (commit a s')
  then show ?thesis using apply_outcomes(6) [OF assms] by (simp only: prod.case sum.case)
next
  case (rollback e s')
  then show ?thesis using apply_outcomes(4) by (simp only: prod.case sum.case)
qed

lemma apply_states: "apply_outcome others g (ApplyEntityMerge env now others fid ns p allowed g)"
  unfolding ApplyEntityMerge_def Let_def
  by (intro outcome_branches apply_outcomes(1-5) tx_outcome) simp_all

text \<open>C13: a plan that was overtaken writes nothing.  Whatever the rest of the system does while a merge is planned,
  when the transaction finds that another revision has become the newest of one of the two entities, the merge
  is not applied and the tables are as the others left them; the other writer's lineage is never overwritten.\<close>

theorem overtaken_merge_refused:
  fixes others :: graph_others and g :: graph
  assumes "stamps_ok (mm_facts (fst (others 0 g)))"
    and "live_fact (now 0) ns (fst (others 0 g)) (mp_canonical p) = Some c"
    and "live_fact (now 0) ns (fst (others 0 g)) (mp_alias p) = Some a"
    and "overtaken (me_mem env) ns c (canonical_attrs (apply_id env ns p) c a
           (mentioners ns (mp_alias p) (snd (others 1 (others 0 g))))
           (linkSourcesAll ns (mp_canonical p) ''mentions'' (snd (others 2 (others 1 (others 0 g))))))
           (fst (others 3 (others 2 (others 1 (others 0 g)))))
      \<or> overtaken (me_mem env) ns a (absorbed_attrs (apply_id env ns p) c a)
           (fst (others 3 (others 2 (others 1 (others 0 g)))))"
  shows "case ApplyEntityMerge env now others fid ns p allowed g of
      (Inr r, g') \<Rightarrow> \<not> mr_applied r \<and> g' = others 0 g
    | (Inl e, g') \<Rightarrow> g' \<in> {g, others 0 g, others 1 (others 0 g), others 3 (others 2 (others 1 (others 0 g)))}"
proof -
  obtain res g' where pair: "ApplyEntityMerge env now others fid ns p allowed g = (res, g')"
    by (cases "ApplyEntityMerge env now others fid ns p allowed g")
  have "\<not> mr_applied r" if r: "res = Inr r" for r
  proof
    assume on: "mr_applied r"
    have run: "ApplyEntityMerge env now others fid ns p allowed g = (Inr r, g')" using pair r by simp
    show False
    proof (rule apply_run [OF run on assms(1-3)])
      assume keys: "mp_canonical p \<noteq> mp_alias p"
        and body: "apply_body (me_mem env) fid (now 1) ns (apply_id env ns p) c a
          (mentioners ns (mp_alias p) (snd (others 1 (others 0 g))))
          (linkSourcesAll ns (mp_canonical p) ''mentions'' (snd (others 2 (others 1 (others 0 g)))))
          (others 3 (others 2 (others 1 (others 0 g)))) = (Inr (), g')"
      have "fa_key c \<noteq> fa_key a"
        using keys live_fact_key(1) [OF assms(1,2)] live_fact_key(1) [OF assms(1,3)] by simp
      then show False using apply_body_current [OF body] assms(4) by blast
    qed
  qed
  then show ?thesis
    using apply_states [of others g env now fid ns p allowed] unfolding pair prod.case apply_outcome_def by (cases res) auto
qed

section \<open>What discovery proposes\<close>

definition declared_alias :: "fact \<Rightarrow> fact \<Rightarrow> bool" where
  "declared_alias a b \<longleftrightarrow> normalizeName (fa_body b) \<in> normSet (entityAliases a)
     \<or> normalizeName (fa_body a) \<in> normSet (entityAliases b)"

definition same_name_and_source :: "fact \<Rightarrow> fact \<Rightarrow> bool" where
  "same_name_and_source a b \<longleftrightarrow> nameSimilarity (fa_body a) (fa_body b) \<ge> entityAliasThreshold
     \<and> set (attrStringList a ''source_facts'') \<inter> set (attrStringList b ''source_facts'') \<noteq> {}"

lemma collected_evidence:
  "DeclaredAlias \<in> set (collectMergeEvidence env now ns m a b) \<longleftrightarrow> declared_alias a b"
  "SharedSource \<in> set (collectMergeEvidence env now ns m a b) \<longleftrightarrow>
     set (attrStringList a ''source_facts'') \<inter> set (attrStringList b ''source_facts'') \<noteq> {}"
  "NameSimilar \<in> set (collectMergeEvidence env now ns m a b) \<longleftrightarrow>
     nameSimilarity (fa_body a) (fa_body b) \<ge> entityAliasThreshold"
proof -
  let ?emb = "let raw = rev (embeddingsByKeys now ns [fa_key a, fa_key b] m) in
      case (map_of raw (fa_key a), map_of raw (fa_key b)) of
        (Some x, Some y) \<Rightarrow> if me_cosine env x y \<ge> entityMergeEmbeddingCosine then [EmbeddingSimilar] else []
      | _ \<Rightarrow> []"
  have emb: "set ?emb \<subseteq> {EmbeddingSimilar}" by (auto simp: Let_def split: option.split)
  have no: "DeclaredAlias \<notin> set ?emb" "SharedSource \<notin> set ?emb" "NameSimilar \<notin> set ?emb" using emb by auto
  show "DeclaredAlias \<in> set (collectMergeEvidence env now ns m a b) \<longleftrightarrow> declared_alias a b"
    unfolding collectMergeEvidence_def declared_alias_def using no(1) by simp
  show "SharedSource \<in> set (collectMergeEvidence env now ns m a b) \<longleftrightarrow>
     set (attrStringList a ''source_facts'') \<inter> set (attrStringList b ''source_facts'') \<noteq> {}"
    unfolding collectMergeEvidence_def using no(2) by (auto simp: filter_empty_conv)
  show "NameSimilar \<in> set (collectMergeEvidence env now ns m a b) \<longleftrightarrow>
     nameSimilarity (fa_body a) (fa_body b) \<ge> entityAliasThreshold"
    unfolding collectMergeEvidence_def using no(3) by simp
qed

lemma bucket_pairs_member: "(a, b) \<in> set (bucket_pairs fs) \<Longrightarrow> a \<in> set fs \<and> b \<in> set fs"
  by (induction fs) auto

lemma pickCanonical_pair: "pickCanonical a b = (a, b) \<or> pickCanonical a b = (b, a)"
  by (simp add: pickCanonical_def Let_def)

text \<open>Two entities of one type, neither absorbed, that the evidence makes one.\<close>

definition mergeable :: "bool \<Rightarrow> fact \<Rightarrow> fact \<Rightarrow> bool" where
  "mergeable includeProtected x y \<longleftrightarrow> mergedIntoOf x = [] \<and> mergedIntoOf y = []
     \<and> entityKeyType (fa_key x) = entityKeyType (fa_key y)
     \<and> (declared_alias x y \<or> (same_name_and_source x y \<and> entityKeyType (fa_key x) \<notin> set protectedEntityTypes))
     \<and> (includeProtected \<or> entityKeyType (fa_key x) \<notin> set protectedEntityTypes)"

lemma propose_pair_sound:
  assumes "p \<in> set (propose_pair env now ns includeProtected (entityKeyType (fa_key a)) m a b)"
    and "mergedIntoOf a = []" "mergedIntoOf b = []" "entityKeyType (fa_key a) = entityKeyType (fa_key b)"
  shows "mergeable includeProtected a b \<and> {mp_canonical p, mp_alias p} = {fa_key a, fa_key b}
    \<and> mp_protected p = (entityKeyType (fa_key a) \<in> set protectedEntityTypes)"
proof -
  let ?ty = "entityKeyType (fa_key a)" and ?ev = "collectMergeEvidence env now ns m a b"
  have gate: "identity_gate includeProtected (?ty \<in> set protectedEntityTypes) ?ev"
    using assms(1) by (simp add: propose_pair_def Let_def split: if_splits)
  then have "mergeable includeProtected a b"
    using assms(2-4) by (auto simp: mergeable_def identity_gate_def collected_evidence same_name_and_source_def)
  moreover have "{mp_canonical p, mp_alias p} = {fa_key a, fa_key b} \<and> mp_protected p = (?ty \<in> set protectedEntityTypes)"
    using assms(1) gate pickCanonical_pair [of a b] by (auto simp: propose_pair_def Let_def)
  ultimately show ?thesis by blast
qed

text \<open>C16: only identity proposes a merge.  Every proposal of discovery pairs two live entities of one type that are
  not absorbed, and either one declares the other's name as an alias, or their names are close and they share
  a source revision; closeness or a common source alone proposes nothing, and incidents and hosts need a
  declared alias and the caller's option.  No more proposals are made than asked for.\<close>

theorem proposals_need_identity:
  assumes "p \<in> set (ProposeEntityMerges env now pair_now ns limit includeProtected m)"
  shows "(\<exists>x \<in> set (scanLivePrefix now ns ''/entities'' m). \<exists>y \<in> set (scanLivePrefix now ns ''/entities'' m).
      mergeable includeProtected x y \<and> {mp_canonical p, mp_alias p} = {fa_key x, fa_key y}
      \<and> mp_protected p = (entityKeyType (fa_key x) \<in> set protectedEntityTypes))
    \<and> int (length (ProposeEntityMerges env now pair_now ns limit includeProtected m)) \<le> (if limit \<le> 0 then 100 else limit)"
proof -
  let ?all = "scanLivePrefix now ns ''/entities'' m"
  obtain ty where "p \<in> set (bucket_proposals env pair_now ns includeProtected m (merge_candidates ?all) ty)"
    using in_set_takeD [OF assms [unfolded ProposeEntityMerges_def Let_def]] by auto
  then obtain a b where pair: "(a, b) \<in> set (bucket_pairs (filter (\<lambda>e. entityKeyType (fa_key e) = ty) (merge_candidates ?all)))"
    and p: "p \<in> set (propose_pair env (pair_now (fa_key a) (fa_key b)) ns includeProtected ty m a b)"
    by (auto simp: bucket_proposals_def)
  have ab: "a \<in> set ?all" "b \<in> set ?all" "mergedIntoOf a = []" "mergedIntoOf b = []"
    "entityKeyType (fa_key a) = ty" "entityKeyType (fa_key b) = ty"
    using bucket_pairs_member [OF pair] by (auto simp: merge_candidates_def)
  have "mergeable includeProtected a b \<and> {mp_canonical p, mp_alias p} = {fa_key a, fa_key b}
    \<and> mp_protected p = (entityKeyType (fa_key a) \<in> set protectedEntityTypes)"
    using propose_pair_sound [of p env _ ns includeProtected a m b] p ab by metis
  moreover have "int (length (ProposeEntityMerges env now pair_now ns limit includeProtected m)) \<le> (if limit \<le> 0 then 100 else limit)"
    by (auto simp: ProposeEntityMerges_def Let_def)
  ultimately show ?thesis using ab(1,2) by blast
qed

end
