(* ===== verification/EntityMerge_Examples.thy ===== *)
theory EntityMerge_Examples
  imports EntityMerge_Proofs
begin

text \<open>
  The properties of entity merges at concrete stores: two services of which one declares the other's name, a
  rival writer, and a lineage of eight merges whose first key no longer resolves.
\<close>

section \<open>A store with two entities\<close>

definition demo_entity :: "string \<Rightarrow> string \<Rightarrow> string \<Rightarrow> attrs \<Rightarrow> fact" where
  "demo_entity fid key body ats = (demo_fact fid key 1)\<lparr>fa_body := body, fa_attrs := ats,
     fa_hash := [if lineage_list ats = [] then CHR ''a'' else CHR ''b'',
                 if string_attr ats ''merged_into'' = [] then CHR ''a'' else CHR ''b'']\<rparr>"

definition demo_hash_env :: mem_env where
  "demo_hash_env = \<lparr>en_hash = (\<lambda>k b ats. [if lineage_list ats = [] then CHR ''a'' else CHR ''b'',
       if string_attr ats ''merged_into'' = [] then CHR ''a'' else CHR ''b'']),
     en_embed = (\<lambda>k b. None), en_redactions = [], en_defense = [], en_policies = []\<rparr>"

definition demo_merge_env :: merge_env where
  "demo_merge_env = \<lparr>me_mem = demo_hash_env, me_digest = (\<lambda>s. s), me_cosine = (\<lambda>x y. 0)\<rparr>"

definition demo_entities :: memory where
  "demo_entities = demo_memory [
     demo_entity ''1'' ''/entities/service/api'' ''api'' [(''aliases'', json_strings [''gw'']), (''mention_count'', JNum 2)],
     demo_entity ''2'' ''/entities/service/gw'' ''gw'' []]"

definition demo_merge :: merge_proposal where
  "demo_merge = \<lparr>mp_id = ''em'', mp_ns = ''p'', mp_canonical = ''/entities/service/api'', mp_alias = ''/entities/service/gw'',
     mp_canonical_name = ''api'', mp_alias_name = ''gw'', mp_type = ''service'', mp_score = 1, mp_evidence = [DeclaredAlias],
     mp_protected = False\<rparr>"

lemma demo_entities_ok: "memory_ok demo_entities \<and> stamps_ok (mm_facts demo_entities)"
proof -
  have stamps: "stamps_ok (mm_facts demo_entities)" by code_simp
  have "rows_affected (open_of_key ns key) (mm_facts demo_entities) \<le> 1" for ns key
    by (auto simp: demo_entities_def demo_memory_def demo_entity_def demo_fact_def rows_affected_def open_of_key_def of_key_def)
  moreover have "distinct (map fa_id (mm_facts demo_entities))" by code_simp
  moreover have "set (map fa_ns (mm_facts demo_entities)) \<subseteq> set (mm_namespaces demo_entities)" by code_simp
  moreover have "list_all (\<lambda>k. ValidateKey k = Inr ()) (map fa_key (mm_facts demo_entities))" by code_simp
  ultimately show ?thesis using stamps by (simp add: memory_ok_def)
qed

lemma demo_scan: "scanLivePrefix (\<lambda>_. 9) ''p'' ''/entities'' demo_entities = mm_facts demo_entities"
proof -
  have "scan_pages (\<lambda>_. 9) ''p'' ''/entities'' demo_entities 0 [] = live_after 9 ''p'' ''/entities'' [] demo_entities"
    using scan_pages_all [OF conjunct2 [OF demo_entities_ok] refl] .
  moreover have "live_after 9 ''p'' ''/entities'' [] demo_entities = mm_facts demo_entities" by code_simp
  moreover have "''p'' \<in> set (mm_namespaces demo_entities)" by code_simp
  ultimately show ?thesis by (simp add: scanLivePrefix_def)
qed

theorem scan_complete_witness:
  "distinct (map fa_key (scanLivePrefix (\<lambda>_. 9) ''p'' ''/entities'' demo_entities))
   \<and> length (scanLivePrefix (\<lambda>_. 9) ''p'' ''/entities'' demo_entities) = 2"
  using scan_complete [of demo_entities 9 "''p''" "''/entities''"] demo_entities_ok
  by (simp add: demo_scan) (simp add: demo_entities_def demo_memory_def)

lemma in_concat_map: "x \<in> set xs \<Longrightarrow> y \<in> set (f x) \<Longrightarrow> y \<in> set (concat (map f xs))"
  by auto

lemma demo_proposals: "ProposeEntityMerges demo_merge_env (\<lambda>_. 9) (\<lambda>_ _. 9) ''p'' 0 False demo_entities \<noteq> []"
proof -
  let ?a = "mm_facts demo_entities ! 0" and ?b = "mm_facts demo_entities ! 1"
  have declared: "declared_alias ?a ?b" unfolding declared_alias_def by code_simp
  have cands: "merge_candidates (mm_facts demo_entities) = [?a, ?b]" by code_simp
  have types: "entityKeyType (fa_key ?a) = ''service''" "entityKeyType (fa_key ?b) = ''service''" by code_simp+
  have unprotected: "''service'' \<notin> set protectedEntityTypes" by code_simp
  have "DeclaredAlias \<in> set (collectMergeEvidence demo_merge_env 9 ''p'' demo_entities ?a ?b)"
    by (simp only: collected_evidence declared)
  then have "propose_pair demo_merge_env 9 ''p'' False ''service'' demo_entities ?a ?b \<noteq> []"
    using unprotected by (simp add: propose_pair_def identity_gate_def Let_def split: prod.split)
  then have "bucket_proposals demo_merge_env (\<lambda>_ _. 9) ''p'' False demo_entities [?a, ?b] ''service'' \<noteq> []"
    by (simp add: bucket_proposals_def types del: One_nat_def)
  then obtain q where q0: "q \<in> set (bucket_proposals demo_merge_env (\<lambda>_ _. 9) ''p'' False demo_entities [?a, ?b] ''service'')"
    by (metis last_in_set)
  have svc: "''service'' \<in> set (sort (remdups (map (\<lambda>e. entityKeyType (fa_key e)) [?a, ?b])))" by (simp add: types del: One_nat_def)
  have q: "q \<in> set (concat (map (bucket_proposals demo_merge_env (\<lambda>_ _. 9) ''p'' False demo_entities [?a, ?b])
      (sort (remdups (map (\<lambda>e. entityKeyType (fa_key e)) [?a, ?b])))))"
    by (rule in_concat_map [where f = "bucket_proposals demo_merge_env (\<lambda>_ _. 9) ''p'' False demo_entities [?a, ?b]", OF svc q0])
  have "take 100 (sort_key k xs) \<noteq> []" if "q \<in> set xs" for k :: "merge_proposal \<Rightarrow> rat \<times> string \<times> string" and xs
  proof -
    have "0 < length (sort_key k xs)" using that by (simp only: length_sort length_pos_if_in_set)
    then have "sort_key k xs \<noteq> []" by (rule length_greater_0_conv [THEN iffD1])
    then show ?thesis by simp
  qed
  note taken = this [OF q]
  show ?thesis
    unfolding ProposeEntityMerges_def demo_scan cands Let_def if_P [OF order_refl] by (rule taken)
qed

theorem proposals_need_identity_witness:
  "\<exists>x \<in> set (mm_facts demo_entities). \<exists>y \<in> set (mm_facts demo_entities). mergeable False x y"
proof -
  obtain p where "p \<in> set (ProposeEntityMerges demo_merge_env (\<lambda>_. 9) (\<lambda>_ _. 9) ''p'' 0 False demo_entities)"
    using demo_proposals by (meson hd_in_set)
  from proposals_need_identity [OF this] show ?thesis unfolding demo_scan by blast
qed

lemma demo_applied:
  fixes out defines "out \<equiv> ApplyEntityMerge demo_merge_env (\<lambda>_. 5) (\<lambda>_ x. x) (\<lambda>n. if n = 0 then ''3'' else ''4'') ''p''
    demo_merge False (demo_entities, [])"
  shows "\<exists>r. fst out = Inr r \<and> mr_applied r" "fa_id ` set (mm_facts (fst (snd out))) = {''1'', ''2'', ''3'', ''4''}"
proof -
  have "(case fst out of Inr r \<Rightarrow> mr_applied r | Inl _ \<Rightarrow> False)" unfolding out_def by code_simp
  then show "\<exists>r. fst out = Inr r \<and> mr_applied r" by (cases "fst out") auto
  have "map fa_id (mm_facts (fst (snd out))) = [''1'', ''2'', ''3'', ''4'']" unfolding out_def by code_simp
  then have "set (map fa_id (mm_facts (fst (snd out)))) = set [''1'', ''2'', ''3'', ''4'']" by (rule arg_cong)
  then show "fa_id ` set (mm_facts (fst (snd out))) = {''1'', ''2'', ''3'', ''4''}" by simp
qed

lemma demo_merge_live:
  "live_fact 5 ''p'' demo_entities ''/entities/service/api'' = Some (mm_facts demo_entities ! 0)"
  "live_fact 5 ''p'' demo_entities ''/entities/service/gw'' = Some (mm_facts demo_entities ! 1)"
  by code_simp+

lemma demo_hash: "tells_lineage (me_mem demo_merge_env)"
  by (auto simp: tells_lineage_def demo_merge_env_def demo_hash_env_def split: if_splits)

theorem merge_undone_witness:
  "\<exists>r g. RevertEntityMerge demo_merge_env (\<lambda>_. 9) (\<lambda>_ x. x) (\<lambda>n. if n = 0 then ''5'' else ''6'') ''p'' ''/entities/service/gw''
      (snd (ApplyEntityMerge demo_merge_env (\<lambda>_. 5) (\<lambda>_ x. x) (\<lambda>n. if n = 0 then ''3'' else ''4'') ''p'' demo_merge False
        (demo_entities, []))) = (Inr r, g) \<and> mr_reverted r"
proof -
  let ?out = "ApplyEntityMerge demo_merge_env (\<lambda>_. 5) (\<lambda>_ x. x) (\<lambda>n. if n = 0 then ''3'' else ''4'') ''p'' demo_merge False (demo_entities, [])"
  obtain r where r: "fst ?out = Inr r" "mr_applied r" using demo_applied(1) by blast
  obtain m1 ls1 where g: "snd ?out = (m1, ls1)" by (cases "snd ?out")
  have out: "?out = (Inr r, (m1, ls1))" using r(1) g by (metis prod.collapse)
  have ids: "fa_id ` set (mm_facts m1) = {''1'', ''2'', ''3'', ''4''}" using demo_applied(2) g by simp
  have facts: "list_all (\<lambda>f. fa_created f < 5) (mm_facts demo_entities)"
    "hashed (me_mem demo_merge_env) (mm_facts demo_entities ! 0)" "hashed (me_mem demo_merge_env) (mm_facts demo_entities ! 1)"
    "lineage_list (fa_attrs (mm_facts demo_entities ! 0)) = []" by code_simp+
  have names: "mp_canonical demo_merge = ''/entities/service/api''" "mp_alias demo_merge = ''/entities/service/gw''"
    by (simp_all add: demo_merge_def)
  have "\<exists>r' m2 ls2. RevertEntityMerge demo_merge_env (\<lambda>_. 9) (\<lambda>_ x. x) (\<lambda>n. if n = 0 then ''5'' else ''6'') ''p''
      (mp_alias demo_merge) (m1, ls1) = (Inr r', (m2, ls2)) \<and> mr_reverted r'"
    using merge_undone [of demo_entities "[]" demo_merge_env "\<lambda>_. 5" "\<lambda>_. 9" "''p''" demo_merge, OF _ _ _ demo_hash _ _ _ _ _ _ _ out r(2),
        of "mm_facts demo_entities ! 0" "mm_facts demo_entities ! 1" "\<lambda>n. if n = 0 then ''5'' else ''6''"]
      demo_entities_ok facts demo_merge_live ids names by (simp del: One_nat_def) blast
  then show ?thesis unfolding g names by blast
qed

definition demo_rival :: memory where
  "demo_rival = demo_memory (mm_facts demo_entities @
     [(demo_entity ''9'' ''/entities/service/gw'' ''gw'' [])\<lparr>fa_created := 3, fa_hash := ''rival''\<rparr>])"

definition demo_meddling :: graph_others where
  "demo_meddling k g = (if k = 3 then (demo_rival, []) else g)"

theorem overtaken_merge_refused_witness:
  "\<not> (\<exists>r g. ApplyEntityMerge demo_merge_env (\<lambda>_. 5) demo_meddling (\<lambda>n. if n = 0 then ''3'' else ''4'') ''p'' demo_merge False
     (demo_entities, []) = (Inr r, g) \<and> mr_applied r)"
proof -
  have before: "demo_meddling 0 g = g" "demo_meddling 1 g = g" "demo_meddling 2 g = g" "demo_meddling 3 g = (demo_rival, [])" for g
    by (simp_all add: demo_meddling_def)
  have names: "mp_canonical demo_merge = ''/entities/service/api''" "mp_alias demo_merge = ''/entities/service/gw''"
    by (simp_all add: demo_merge_def)
  let ?a = "mm_facts demo_entities ! 1"
  have head: "latest_revision ''p'' ''/entities/service/gw'' demo_rival = Some (mm_facts demo_rival ! 2)"
    "fa_id (mm_facts demo_rival ! 2) \<noteq> fa_id ?a" "fa_hash (mm_facts demo_rival ! 2) = ''rival''"
    "fa_key ?a = ''/entities/service/gw''" by code_simp+
  have "overtaken (me_mem demo_merge_env) ''p'' ?a ats demo_rival" for ats
    using head by (simp add: overtaken_def not_stored_def demo_merge_env_def demo_hash_env_def)
  then show ?thesis
    using overtaken_merge_refused [of demo_meddling "(demo_entities, [])" "\<lambda>_. 5" "''p''" demo_merge
        "mm_facts demo_entities ! 0" ?a demo_merge_env "\<lambda>n. if n = 0 then ''3'' else ''4''" False]
      demo_entities_ok demo_merge_live
    unfolding before fst_conv names by (auto split: prod.splits)
qed

text \<open>Nine entities absorbed one into the next: the second resolves, the first does not.\<close>

definition demo_lineage :: memory where
  "demo_lineage = demo_memory (map (\<lambda>i. demo_entity (nat_str i) (''/e/'' @ nat_str i) ''x''
     (if i < 8 then [(''merged_into'', JStr (''/e/'' @ nat_str (Suc i)))] else [])) [0, 1, 2, 3, 4, 5, 6, 7, 8])"

lemma demo_lineage_up: "absorbed_by 9 ''p'' demo_lineage ''/e/0'' = Some ''/e/1''"
  by code_simp

lemma nine_merges_unresolved:
  "ResolveEntityKey (\<lambda>_. 9) (\<lambda>_. demo_lineage) ''p'' ''/e/0'' = Inl (ChainTooLong ''/e/0'')
   \<and> ResolveEntityKey (\<lambda>_. 9) (\<lambda>_. demo_lineage) ''p'' ''/e/1'' = Inr ''/e/8''"
  by code_simp

end
