(* ===== verification/Wake.thy ===== *)
theory Wake
  imports Complex_Main Prelude "HOL-Library.Multiset" "HOL-Library.Word"
begin

unbundle bit_operations_syntax

text \<open>
  The wake listener, \<open>internal/nativewake/state.go\<close> and the decisions of \<open>runner.go\<close>: a scan of the inbox
  metadata, the cooldown of an unchanged unread set, and the budget of wake attempts that is kept on disk so that
  a restart cannot reset it.  What the server answers, what the host answers to a wake, whether a save
  succeeds and what the clock shows are inputs of a pass.
\<close>

section \<open>The state on disk\<close>

record wake_state =
  ws_version :: int
  ws_identity :: string
  ws_attempts :: "instant list"
  ws_fingerprint :: string
  ws_last :: instant

definition wakeStateVersion :: int where "wakeStateVersion = 1"
definition maxStoredAttempts :: nat where "maxStoredAttempts = 4096"
definition wake_second :: duration where "wake_second = 1000000000"

datatype wake_error =
    WakeVersion int
  | TooManyAttempts nat
  | Unsorted nat
  | FutureAttempt nat
  | WakeUnreadable
  | WakeCorrupt

text \<open>The loop over the attempts of \<open>validate\<close>, with the attempt before.\<close>

fun check_attempts :: "instant \<Rightarrow> nat \<Rightarrow> instant option \<Rightarrow> instant list \<Rightarrow> wake_error option" where
  "check_attempts skew i prev [] = None"
| "check_attempts skew i prev (a # as) =
     (if (case prev of None \<Rightarrow> False | Some p \<Rightarrow> a < p) then Some (Unsorted i)
      else if a > skew then Some (FutureAttempt i)
      else check_attempts skew (Suc i) (Some a) as)"

definition validate_state :: "instant \<Rightarrow> wake_state \<Rightarrow> wake_error option" where
  "validate_state now st =
     (if ws_version st \<noteq> wakeStateVersion then Some (WakeVersion (ws_version st))
      else if length (ws_attempts st) > maxStoredAttempts then Some (TooManyAttempts (length (ws_attempts st)))
      else check_attempts (now + 60 * wake_second) 0 None (ws_attempts st))"

text \<open>The state file: missing, not readable, not a state, or a state.\<close>

datatype wake_file = NoFile | Unreadable | NotState | Saved wake_state

definition fresh_state :: "string \<Rightarrow> wake_state" where
  "fresh_state identity =
     \<lparr>ws_version = wakeStateVersion, ws_identity = identity, ws_attempts = [], ws_fingerprint = [], ws_last = 0\<rparr>"

definition loadWakeState :: "instant \<Rightarrow> string \<Rightarrow> wake_file \<Rightarrow> wake_error + wake_state" where
  "loadWakeState now identity disk =
     (case disk of
        NoFile \<Rightarrow> Inr (fresh_state identity)
      | Unreadable \<Rightarrow> Inl WakeUnreadable
      | NotState \<Rightarrow> Inl WakeCorrupt
      | Saved st \<Rightarrow>
          (case validate_state now st of
             Some e \<Rightarrow> Inl e
           | None \<Rightarrow> if ws_identity st \<noteq> identity then Inr (fresh_state identity) else Inr st))"

text \<open>A save writes a temporary file and renames it: it takes effect as a whole or not at all.\<close>

definition saveWakeState :: "bool \<Rightarrow> wake_state \<Rightarrow> wake_file \<Rightarrow> wake_file" where
  "saveWakeState saves st disk = (if saves then Saved st else disk)"

definition pruneAttempts :: "instant \<Rightarrow> duration \<Rightarrow> wake_state \<Rightarrow> wake_state" where
  "pruneAttempts now window st = st\<lparr>ws_attempts := filter (\<lambda>a. a > now - window) (ws_attempts st)\<rparr>"

definition add_attempt :: "instant \<Rightarrow> wake_state \<Rightarrow> wake_state" where
  "add_attempt now st = st\<lparr>ws_attempts := ws_attempts st @ [now]\<rparr>"

definition drop_attempt :: "wake_state \<Rightarrow> wake_state" where
  "drop_attempt st = st\<lparr>ws_attempts := butlast (ws_attempts st)\<rparr>"

text \<open>The run in memory with its file: reserving and refunding an attempt.\<close>

record wake_run =
  wr_state :: wake_state
  wr_disk :: wake_file
  wr_timer :: "instant option"

definition reserveAttempt :: "bool \<Rightarrow> instant \<Rightarrow> wake_run \<Rightarrow> bool \<times> wake_run" where
  "reserveAttempt saves now r =
     (let st = add_attempt now (wr_state r) in
      (saves, r\<lparr>wr_state := st, wr_disk := saveWakeState saves st (wr_disk r)\<rparr>))"

definition refundAttempt :: "bool \<Rightarrow> wake_run \<Rightarrow> bool \<times> wake_run" where
  "refundAttempt saves r =
     (if ws_attempts (wr_state r) = [] then (True, r)
      else let st = drop_attempt (wr_state r) in
        (saves, r\<lparr>wr_state := st, wr_disk := saveWakeState saves st (wr_disk r)\<rparr>))"

section \<open>Configuration\<close>

record wake_config =
  wc_max :: int
  wc_window :: duration
  wc_cooldown :: duration
  wc_url :: string
  wc_namespace :: string
  wc_address :: string
  wc_allow :: "string list"

definition defaultMaxWakes :: int where "defaultMaxWakes = 5"
definition defaultWindow :: duration where "defaultWindow = 600 * wake_second"
definition defaultCooldown :: duration where "defaultCooldown = 60 * wake_second"

fun trim_slashes :: "string \<Rightarrow> string" where
  "trim_slashes s = rev (dropWhile (\<lambda>c. c = CHR ''/'') (rev s))"

definition withDefaults :: "wake_config \<Rightarrow> wake_config" where
  "withDefaults cfg = cfg
     \<lparr>wc_max := (if wc_max cfg < 0 then defaultMaxWakes else wc_max cfg),
      wc_window := (if wc_window cfg \<le> 0 then defaultWindow else wc_window cfg),
      wc_cooldown := (if wc_cooldown cfg \<le> 0 then defaultCooldown else wc_cooldown cfg),
      wc_url := trim_slashes (trim_space (wc_url cfg))\<rparr>"

definition stateIdentity :: "wake_config \<Rightarrow> string" where
  "stateIdentity cfg = wc_url cfg @ [CHR 0x0A] @ wc_namespace cfg @ [CHR 0x0A] @ wc_address cfg"

definition busyRetry :: duration where "busyRetry = 15 * wake_second"
definition wakeRetry :: duration where "wakeRetry = 10 * wake_second"
definition fetchRetry :: duration where "fetchRetry = 5 * wake_second"
definition reconnectMin :: duration where "reconnectMin = wake_second div 2"
definition reconnectMax :: duration where "reconnectMax = 10 * wake_second"

definition growBackoff :: "duration \<Rightarrow> duration" where
  "growBackoff d = (if d * 2 > reconnectMax then reconnectMax else d * 2)"

definition lower_or_digit :: "char \<Rightarrow> bool" where
  "lower_or_digit c \<longleftrightarrow> in_range 97 122 (byte c) \<or> in_range 48 57 (byte c)"

definition validClientToken :: "string \<Rightarrow> bool" where
  "validClientToken s \<longleftrightarrow> s \<noteq> [] \<and> length s \<le> 64
     \<and> (\<forall>i < length s. lower_or_digit (s ! i) \<or> 0 < i \<and> s ! i \<in> {CHR ''.'', CHR ''_'', CHR ''-''})"

definition validSessionToken :: "string \<Rightarrow> bool" where
  "validSessionToken s \<longleftrightarrow> s \<noteq> [] \<and> length s \<le> 256
     \<and> (\<forall>c \<in> set s. lower_or_digit c \<or> in_range 65 90 (byte c) \<or> c \<in> {CHR ''.'', CHR ''_'', CHR ''-''})"

definition validNamespace :: "string \<Rightarrow> bool" where
  "validNamespace s \<longleftrightarrow> s \<noteq> [] \<and> length s \<le> 128
     \<and> (\<forall>c \<in> set s. c \<noteq> CHR '':'' \<and> c \<noteq> CHR ''/'' \<and> \<not> byte c \<le> 32 \<and> byte c \<noteq> 127)"

text \<open>\<open>deriveAddress\<close>; \<open>url_ok\<close> is what \<open>url.Parse\<close> says of the address of the server.\<close>

datatype address_error = BadClient | BadSession | BadNamespace | NoURL | BadURL | NoStateDir

definition deriveAddress ::
  "(string \<Rightarrow> bool) \<Rightarrow> string \<Rightarrow> string \<Rightarrow> string \<Rightarrow> string \<Rightarrow> string \<Rightarrow> address_error + string" where
  "deriveAddress url_ok client session ns url dir =
     (if \<not> validClientToken client then Inl BadClient
      else if \<not> validSessionToken session then Inl BadSession
      else if \<not> validNamespace ns then Inl BadNamespace
      else if url = [] then Inl NoURL
      else if \<not> url_ok url then Inl BadURL
      else if trim_space dir = [] then Inl NoStateDir
      else Inr (client @ '':'' @ session))"

section \<open>Scanning the inbox\<close>

record message_meta =
  me_seq :: int
  me_id :: string
  me_sender :: string
  me_recipient :: string
  me_created :: string
  me_acked :: string
  me_leased :: "instant option"

text \<open>\<open>me_leased\<close> is the time the lease field parses to, if it does.\<close>

definition leaseActive :: "instant \<Rightarrow> message_meta \<Rightarrow> bool" where
  "leaseActive now m \<longleftrightarrow> (case me_leased m of None \<Rightarrow> False | Some u \<Rightarrow> u > now)"

definition fnv_offset :: "64 word" where "fnv_offset = 14695981039346656037"
definition fnv_prime :: "64 word" where "fnv_prime = 1099511628211"

definition fnv_byte :: "char \<Rightarrow> 64 word \<Rightarrow> 64 word" where
  "fnv_byte c h = (h XOR of_nat (byte c)) * fnv_prime"

definition meta_bytes :: "message_meta \<Rightarrow> string" where
  "meta_bytes m = me_id m @ [CHR 0x00] @ me_sender m @ [CHR 0x00] @ me_created m @ [CHR 0x0A]"

definition hex_digit :: "nat \<Rightarrow> char" where
  "hex_digit n = char_of (if n < 10 then n + 48 else n + 87)"

fun hex_str :: "nat \<Rightarrow> string" where
  "hex_str n = (if n < 16 then [hex_digit n] else hex_str (n div 16) @ [hex_digit (n mod 16)])"

declare hex_str.simps [simp del]

definition fingerprint_of :: "message_meta list \<Rightarrow> string" where
  "fingerprint_of ms = hex_str (unat (fold fnv_byte (concat (map meta_bytes ms)) fnv_offset))"

fun SenderAllowed_loop :: "string list \<Rightarrow> string \<Rightarrow> bool" where
  "SenderAllowed_loop [] sender = False"
| "SenderAllowed_loop (entry # allow) sender =
     (case cut_suffix entry ''*'' of
        Some p \<Rightarrow> if has_prefix sender p then True else SenderAllowed_loop allow sender
      | None \<Rightarrow> if sender = entry then True else SenderAllowed_loop allow sender)"

definition SenderAllowed :: "string list \<Rightarrow> string \<Rightarrow> bool" where
  "SenderAllowed allow sender = (if allow = [] then True else SenderAllowed_loop allow sender)"

record inbox_scan =
  is_allowed :: "message_meta list"
  is_denied :: nat
  is_unread :: int
  is_limited :: bool

definition classify :: "wake_config \<Rightarrow> message_meta \<Rightarrow> inbox_scan \<Rightarrow> inbox_scan" where
  "classify cfg m scan =
     (if SenderAllowed (wc_allow cfg) (me_sender m) then scan\<lparr>is_allowed := is_allowed scan @ [m]\<rparr>
      else scan\<lparr>is_denied := Suc (is_denied scan)\<rparr>)"

definition metadataLimit :: nat where "metadataLimit = 100"
definition logScanBudget :: nat where "logScanBudget = 1000"

definition skip_log_row :: "wake_config \<Rightarrow> instant \<Rightarrow> string list \<Rightarrow> message_meta \<Rightarrow> bool" where
  "skip_log_row cfg now seen m \<longleftrightarrow>
     me_id m \<in> set seen \<or> me_recipient m \<noteq> wc_address cfg \<or> me_acked m \<noteq> [] \<or> leaseActive now m"

fun log_rows :: "wake_config \<Rightarrow> instant \<Rightarrow> message_meta list \<Rightarrow> string list \<Rightarrow> inbox_scan \<Rightarrow> string list \<times> inbox_scan" where
  "log_rows cfg now [] seen scan = (seen, scan)"
| "log_rows cfg now (m # ms) seen scan =
     (if skip_log_row cfg now seen m then log_rows cfg now ms seen scan
      else log_rows cfg now ms (me_id m # seen) (classify cfg m scan))"

definition sortBySeq :: "message_meta list \<Rightarrow> message_meta list" where
  "sortBySeq ms = sort_key me_seq (sort_key me_id ms)"

text \<open>A page of the operator log: its rows and the cursor of the next one; \<open>None\<close> when the request fails.\<close>

type_synonym log_source = "int \<Rightarrow> (message_meta list \<times> int) option"

function scan_log ::
  "wake_config \<Rightarrow> instant \<Rightarrow> log_source \<Rightarrow> nat \<Rightarrow> int \<Rightarrow> string list \<Rightarrow> inbox_scan \<Rightarrow> inbox_scan" where
  "scan_log cfg now src scanned before seen scan =
     (if scanned < logScanBudget then
        (case src before of
           None \<Rightarrow> scan
         | Some (page, nextBefore) \<Rightarrow>
             if page = [] then scan
             else (case log_rows cfg now page seen scan of (seen', scan') \<Rightarrow>
               if nextBefore \<le> 0 \<or> nextBefore \<ge> before \<and> before > 0 then scan'
               else if is_allowed scan' \<noteq> [] then scan'\<lparr>is_allowed := sortBySeq (is_allowed scan')\<rparr>
               else scan_log cfg now src (scanned + length page) nextBefore seen' scan'))
      else scan\<lparr>is_limited := True\<rparr>)"
  by pat_completeness auto
termination
  by (relation "measure (\<lambda>(_, _, _, scanned, _, _, _). logScanBudget - scanned)")
    (auto simp: length_greater_0_conv [symmetric] simp del: length_greater_0_conv)

declare scan_log.simps [simp del]

text \<open>The answers of the server to one scan.\<close>

record inbox_server =
  sv_page :: "message_meta list option"
  sv_count :: "int option"
  sv_log :: log_source

definition fetchUnread :: "wake_config \<Rightarrow> instant \<Rightarrow> inbox_server \<Rightarrow> inbox_scan option" where
  "fetchUnread cfg now server =
     (case sv_page server of
        None \<Rightarrow> None
      | Some page \<Rightarrow>
          (let unread = (case sv_count server of None \<Rightarrow> int (length page) | Some n \<Rightarrow> n);
               scan = fold (classify cfg) page
                 \<lparr>is_allowed = [], is_denied = 0, is_unread = unread, is_limited = False\<rparr>
           in if length page < metadataLimit \<or> is_allowed scan \<noteq> [] then Some scan
              else Some (scan_log cfg now (sv_log server) 0 0 (map me_id page) scan)))"

section \<open>One pass\<close>

text \<open>\<open>None\<close> when nothing is to be followed up; the code leaves the timer as it is then.\<close>

definition earlier :: "instant \<Rightarrow> instant \<Rightarrow> instant option \<Rightarrow> instant option" where
  "earlier now t found = (if t > now \<and> (case found of None \<Rightarrow> True | Some u \<Rightarrow> t < u) then Some t else found)"

definition scheduleMaintenance :: "wake_config \<Rightarrow> instant \<Rightarrow> wake_run \<Rightarrow> wake_run" where
  "scheduleMaintenance cfg now r =
     (let a = (if ws_last (wr_state r) > 0 then earlier now (ws_last (wr_state r) + wc_cooldown cfg) None else None);
          st = pruneAttempts now (wc_window cfg) (wr_state r);
          b = (if int (length (ws_attempts st)) \<ge> wc_max cfg \<and> ws_attempts st \<noteq> []
               then earlier now (hd (ws_attempts st) + wc_window cfg) a else a);
          r' = r\<lparr>wr_state := st\<rparr>
      in case b of None \<Rightarrow> r' | Some t \<Rightarrow> r'\<lparr>wr_timer := Some t\<rparr>)"

definition activeAttempts :: "wake_config \<Rightarrow> instant \<Rightarrow> wake_run \<Rightarrow> wake_run" where
  "activeAttempts cfg now r = r\<lparr>wr_state := pruneAttempts now (wc_window cfg) (wr_state r)\<rparr>"

definition scheduleAfter :: "instant \<Rightarrow> duration \<Rightarrow> wake_run \<Rightarrow> wake_run" where
  "scheduleAfter now d r = r\<lparr>wr_timer := Some (now + max 0 d)\<rparr>"

text \<open>What the host made of a wake: delivered (perhaps unconfirmed), busy, gone, or an error after which the
  wake may have reached it.\<close>

datatype wake_outcome = Woken bool | HostBusy | HostGone | WakeFailed

datatype pass_result = PassDone | PassUnavailable | PassSuperseded

text \<open>The diagnostic states a pass reports.\<close>

datatype wake_report =
    ReportDisabled string | ReportFailed string | ReportFiltered | ReportWaiting | ReportReady
  | ReportExhausted | ReportUnconfirmed | ReportBusy

record pass_input =
  pi_scan_time :: instant
  pi_clock :: clock
  pi_server :: inbox_server
  pi_canceled :: bool
  pi_control :: bool
  pi_reserve_saves :: bool
  pi_outcome :: wake_outcome
  pi_then_saves :: bool

definition idle_report :: "inbox_scan \<Rightarrow> wake_report" where
  "idle_report scan =
     (if is_denied scan > 0 then ReportFiltered else if is_unread scan > 0 then ReportWaiting else ReportReady)"

definition after_wake ::
  "wake_config \<Rightarrow> pass_input \<Rightarrow> string \<Rightarrow> wake_run \<Rightarrow> pass_result \<times> wake_report option \<times> wake_run" where
  "after_wake cfg pin fp r =
     (let now = pi_clock pin in
      case pi_outcome pin of
        Woken unconfirmed \<Rightarrow>
          (let st = (wr_state r)\<lparr>ws_fingerprint := fp, ws_last := now 0\<rparr>;
               r1 = r\<lparr>wr_state := st, wr_disk := saveWakeState (pi_then_saves pin) st (wr_disk r)\<rparr>
           in (PassDone, Some (if unconfirmed then ReportUnconfirmed else ReportReady),
               scheduleMaintenance cfg (now 2) (activeAttempts cfg (now 1) r1)))
      | HostBusy \<Rightarrow>
          (PassDone, Some ReportBusy, scheduleAfter (now 2) busyRetry
             (activeAttempts cfg (now 1) (snd (refundAttempt (pi_then_saves pin) r))))
      | HostGone \<Rightarrow>
          (PassUnavailable, Some (ReportDisabled ''target_unavailable''),
             activeAttempts cfg (now 1) (snd (refundAttempt (pi_then_saves pin) r)))
      | WakeFailed \<Rightarrow>
          (PassDone, Some (ReportFailed ''wake_failed''),
             scheduleAfter (now 2) wakeRetry (activeAttempts cfg (now 1) r)))"

text \<open>The gates between an eligible scan and the host.  The first component of the result tells
  whether the host was asked to wake.\<close>

definition try_wake ::
  "wake_config \<Rightarrow> pass_input \<Rightarrow> inbox_scan \<Rightarrow> wake_run \<Rightarrow> bool \<times> pass_result \<times> wake_report option \<times> wake_run" where
  "try_wake cfg pin scan r =
     (let now = pi_clock pin; fp = fingerprint_of (is_allowed scan) in
      if fp = ws_fingerprint (wr_state r) \<and> now 0 - ws_last (wr_state r) < wc_cooldown cfg
      then (False, PassDone, None, scheduleMaintenance cfg (now 1) r)
      else (let r0 = r\<lparr>wr_state := pruneAttempts (now 0) (wc_window cfg) (wr_state r)\<rparr> in
        if int (length (ws_attempts (wr_state r0))) \<ge> wc_max cfg
        then (False, PassDone, Some ReportExhausted, scheduleMaintenance cfg (now 1) r0)
        else if \<not> pi_control pin then (False, PassSuperseded, None, r0)
        else (case reserveAttempt (pi_reserve_saves pin) (now 0) r0 of (saved, r1) \<Rightarrow>
          if \<not> saved then (False, PassDone, Some (ReportFailed ''state_failed''), scheduleAfter (now 1) fetchRetry r1)
          else (True, after_wake cfg pin fp r1))))"

definition processWake ::
  "wake_config \<Rightarrow> pass_input \<Rightarrow> wake_run \<Rightarrow> bool \<times> pass_result \<times> wake_report option \<times> wake_run" where
  "processWake cfg pin r =
     (if wc_max cfg = 0 then (False, PassDone, Some (ReportDisabled ''wakes_disabled''), r)
      else (case fetchUnread cfg (pi_scan_time pin) (pi_server pin) of
          None \<Rightarrow>
            if pi_canceled pin then (False, PassDone, None, r)
            else (False, PassDone, Some (ReportFailed ''read_failed''),
              scheduleAfter (pi_clock pin 2) fetchRetry (activeAttempts cfg (pi_clock pin 1) r))
        | Some scan \<Rightarrow>
            if is_allowed scan = []
            then (False, PassDone, Some (idle_report scan), activeAttempts cfg (pi_clock pin 1) r)
            else try_wake cfg pin scan r))"

section \<open>Runs over restarts\<close>

text \<open>The file, the run while the listener is up, and the times of the wakes handed to the host that it did
  not refuse.  A start loads the file or is refused; a stop or a crash between two passes loses the run.  A
  crash within a pass is a pass whose second save fails, followed by a stop: after the reservation was
  saved and before the host was reached it is one with outcome \<open>HostBusy\<close>.\<close>

record wake_world =
  ww_disk :: wake_file
  ww_run :: "(wake_state \<times> instant option) option"
  ww_now :: instant
  ww_handed :: "instant list"

datatype wake_op = WakeStart instant | WakeStop | WakePass pass_input

definition reaches_host :: "wake_outcome \<Rightarrow> bool" where
  "reaches_host out \<longleftrightarrow> out \<noteq> HostBusy \<and> out \<noteq> HostGone"

definition end_run :: "pass_result \<Rightarrow> wake_run \<Rightarrow> (wake_state \<times> instant option) option" where
  "end_run res r = (if res = PassDone then Some (wr_state r, wr_timer r) else None)"

fun wake_do :: "wake_config \<Rightarrow> wake_op \<Rightarrow> wake_world \<Rightarrow> wake_world" where
  "wake_do cfg (WakeStart now) w =
     (case loadWakeState now (stateIdentity cfg) (ww_disk w) of
        Inl e \<Rightarrow> w\<lparr>ww_run := None, ww_now := now\<rparr>
      | Inr st \<Rightarrow> w\<lparr>ww_run := Some (st, None), ww_now := now\<rparr>)"
| "wake_do cfg WakeStop w = w\<lparr>ww_run := None\<rparr>"
| "wake_do cfg (WakePass pin) w =
     (case ww_run w of
        None \<Rightarrow> w
      | Some (st, timer) \<Rightarrow>
          (case processWake cfg pin \<lparr>wr_state = st, wr_disk = ww_disk w, wr_timer = timer\<rparr> of
             (handed, res, rep, r) \<Rightarrow>
               w\<lparr>ww_disk := wr_disk r, ww_run := end_run res r, ww_now := pi_clock pin 2,
                 ww_handed := (if handed \<and> reaches_host (pi_outcome pin)
                   then ww_handed w @ [pi_clock pin 0] else ww_handed w)\<rparr>))"

text \<open>The clock does not go back.\<close>

fun clock_forward :: "wake_op \<Rightarrow> wake_world \<Rightarrow> bool" where
  "clock_forward (WakeStart now) w = (ww_now w \<le> now)"
| "clock_forward WakeStop w = True"
| "clock_forward (WakePass pin) w =
     (ww_now w \<le> pi_clock pin 0 \<and> pi_clock pin 0 \<le> pi_clock pin 1 \<and> pi_clock pin 1 \<le> pi_clock pin 2)"

inductive wake_reach :: "wake_config \<Rightarrow> wake_world \<Rightarrow> bool" for cfg where
  wake_init: "wake_reach cfg \<lparr>ww_disk = disk, ww_run = None, ww_now = now, ww_handed = []\<rparr>"
| wake_step: "wake_reach cfg w \<Longrightarrow> clock_forward op w \<Longrightarrow> wake_reach cfg (wake_do cfg op w)"

section \<open>The budget\<close>

text \<open>The attempts the next load of the file will see.\<close>

definition kept_attempts :: "string \<Rightarrow> wake_file \<Rightarrow> instant list" where
  "kept_attempts identity disk =
     (case disk of Saved st \<Rightarrow> if ws_identity st = identity then ws_attempts st else [] | _ \<Rightarrow> [])"

definition covers :: "duration \<Rightarrow> instant \<Rightarrow> instant list \<Rightarrow> instant list \<Rightarrow> bool" where
  "covers window now handed as \<longleftrightarrow> mset (filter (\<lambda>h. h > now - window) handed) \<subseteq># mset as"

lemma covers_later: "covers w now hs as \<Longrightarrow> now \<le> now' \<Longrightarrow> covers w now' hs as"
  unfolding covers_def
  by (erule subset_mset.order_trans [rotated])
    (auto simp: mset_filter intro!: filter_mset_mono_strong)

lemma covers_prune:
  assumes "covers w now hs as" "now \<le> now'"
  shows "covers w now' hs (filter (\<lambda>a. a > now' - w) as)"
proof -
  have "filter (\<lambda>h. h > now' - w) (filter (\<lambda>h. h > now - w) hs) = filter (\<lambda>h. h > now' - w) hs"
    unfolding filter_filter using assms(2) by (intro filter_cong) auto
  then have "mset (filter (\<lambda>h. h > now' - w) hs) = filter_mset (\<lambda>h. h > now' - w) (mset (filter (\<lambda>h. h > now - w) hs))"
    by (metis mset_filter)
  also have "\<dots> \<subseteq># filter_mset (\<lambda>h. h > now' - w) (mset as)"
    by (rule multiset_filter_mono) (use assms(1) in \<open>simp only: covers_def\<close>)
  finally show ?thesis by (simp add: covers_def)
qed

lemma covers_more: "covers w now hs as \<Longrightarrow> covers w now hs (as @ bs)"
  unfolding covers_def by (simp add: subset_mset.add_increasing2)

lemma covers_hand: "covers w now hs as \<Longrightarrow> 0 < w \<Longrightarrow> covers w now (hs @ [now]) (as @ [now])"
  unfolding covers_def by simp

text \<open>What a pass keeps, as a relation between the run before and after.\<close>

definition run_ok :: "wake_config \<Rightarrow> instant \<Rightarrow> instant list \<Rightarrow> wake_run \<Rightarrow> bool" where
  "run_ok cfg now hs r \<longleftrightarrow> ws_identity (wr_state r) = stateIdentity cfg
     \<and> covers (wc_window cfg) now hs (ws_attempts (wr_state r))
     \<and> covers (wc_window cfg) now hs (kept_attempts (stateIdentity cfg) (wr_disk r))"

lemma run_ok_later: "run_ok cfg now hs r \<Longrightarrow> now \<le> now' \<Longrightarrow> run_ok cfg now' hs r"
  by (auto simp: run_ok_def intro: covers_later)

lemma run_ok_timer: "run_ok cfg now hs (r\<lparr>wr_timer := t\<rparr>) = run_ok cfg now hs r"
  by (simp add: run_ok_def)

lemma run_ok_prune:
  "run_ok cfg now hs r \<Longrightarrow> now \<le> now' \<Longrightarrow>
   run_ok cfg now' hs (r\<lparr>wr_state := pruneAttempts now' (wc_window cfg) (wr_state r)\<rparr>)"
  by (auto simp: run_ok_def pruneAttempts_def intro: covers_prune covers_later)

lemma run_ok_active: "run_ok cfg now hs r \<Longrightarrow> now \<le> now' \<Longrightarrow> run_ok cfg now' hs (activeAttempts cfg now' r)"
  unfolding activeAttempts_def by (rule run_ok_prune)

lemma run_ok_after: "run_ok cfg now hs (scheduleAfter t d r) = run_ok cfg now hs r"
  by (simp add: scheduleAfter_def run_ok_timer)

lemma run_ok_maintenance:
  "run_ok cfg now hs r \<Longrightarrow> now \<le> now' \<Longrightarrow> run_ok cfg now' hs (scheduleMaintenance cfg now' r)"
  using run_ok_prune [of cfg now hs r now']
  by (auto simp: scheduleMaintenance_def Let_def run_ok_timer split: option.splits)

lemma run_ok_save:
  assumes "run_ok cfg now hs r" "ws_identity st = stateIdentity cfg" "covers (wc_window cfg) now hs (ws_attempts st)"
  shows "run_ok cfg now hs (r\<lparr>wr_state := st, wr_disk := saveWakeState b st (wr_disk r)\<rparr>)"
  using assms by (auto simp: run_ok_def saveWakeState_def kept_attempts_def)

text \<open>After a saved reservation and a refused wake the run is as good as before.\<close>

lemma run_ok_reserve:
  assumes "run_ok cfg now hs r"
  shows "run_ok cfg now hs (snd (reserveAttempt b now r))"
  using run_ok_save [OF assms, of "add_attempt now (wr_state r)" b] assms
  by (simp add: reserveAttempt_def Let_def add_attempt_def run_ok_def covers_more)

lemma run_ok_refund:
  assumes "run_ok cfg now hs r0"
  shows "run_ok cfg now hs (snd (refundAttempt c (snd (reserveAttempt b now r0))))"
proof -
  let ?r = "snd (reserveAttempt b now r0)"
  have "drop_attempt (wr_state ?r) = wr_state r0"
    by (simp add: reserveAttempt_def Let_def drop_attempt_def add_attempt_def)
  moreover have "ws_attempts (wr_state ?r) \<noteq> []"
    by (simp add: reserveAttempt_def Let_def add_attempt_def)
  ultimately show ?thesis
    using run_ok_save [OF run_ok_reserve [OF assms, of b], of "wr_state r0" c] assms
    by (simp add: refundAttempt_def Let_def run_ok_def)
qed

lemma run_ok_hand:
  assumes "run_ok cfg now hs r" "0 < wc_window cfg"
  shows "run_ok cfg now (hs @ [now]) (snd (reserveAttempt True now r))"
  using assms by (auto simp: run_ok_def reserveAttempt_def Let_def add_attempt_def saveWakeState_def kept_attempts_def
      intro: covers_hand)

lemma run_ok_fingerprint:
  assumes "run_ok cfg now hs r"
  shows "run_ok cfg now hs (r\<lparr>wr_state := (wr_state r)\<lparr>ws_fingerprint := fp, ws_last := t\<rparr>,
    wr_disk := saveWakeState b ((wr_state r)\<lparr>ws_fingerprint := fp, ws_last := t\<rparr>) (wr_disk r)\<rparr>)"
  by (rule run_ok_save [OF assms]) (use assms in \<open>simp_all add: run_ok_def\<close>)

lemma after_wake_ok:
  assumes "run_ok cfg (pi_clock pin 0) hs r0" "0 < wc_window cfg"
    and "pi_clock pin 0 \<le> pi_clock pin 1" "pi_clock pin 1 \<le> pi_clock pin 2"
    and "after_wake cfg pin fp (snd (reserveAttempt True (pi_clock pin 0) r0)) = (res, rep, r')"
  shows "run_ok cfg (pi_clock pin 2) (if reaches_host (pi_outcome pin) then hs @ [pi_clock pin 0] else hs) r'"
proof (cases "pi_outcome pin")
  case (Woken u)
  note a = run_ok_fingerprint [OF run_ok_hand [OF assms(1,2)], where fp = fp and t = "pi_clock pin 0" and b = "pi_then_saves pin"]
  show ?thesis
    using run_ok_maintenance [OF run_ok_active [OF a assms(3)] assms(4)] assms(5) Woken
    by (auto simp: after_wake_def Let_def reaches_host_def)
next
  case HostBusy
  note a = run_ok_refund [OF assms(1), of "pi_then_saves pin" True]
  show ?thesis
    using run_ok_later [OF run_ok_active [OF a assms(3)] assms(4)] assms(5) HostBusy
    by (auto simp: after_wake_def Let_def reaches_host_def run_ok_after)
next
  case HostGone
  note a = run_ok_refund [OF assms(1), of "pi_then_saves pin" True]
  show ?thesis
    using run_ok_later [OF run_ok_active [OF a assms(3)] assms(4)] assms(5) HostGone
    by (auto simp: after_wake_def Let_def reaches_host_def)
next
  case WakeFailed
  note a = run_ok_hand [OF assms(1,2)]
  show ?thesis
    using run_ok_later [OF run_ok_active [OF a assms(3)] assms(4)] assms(5) WakeFailed
    by (auto simp: after_wake_def Let_def reaches_host_def run_ok_after)
qed

lemma filter_count_mono: "(\<And>x. P x \<Longrightarrow> Q x) \<Longrightarrow> length (filter P xs) \<le> length (filter Q xs)"
  by (induction xs) auto

definition handed_recently :: "duration \<Rightarrow> instant \<Rightarrow> instant list \<Rightarrow> nat" where
  "handed_recently window now handed = length (filter (\<lambda>h. now - window < h \<and> h \<le> now) handed)"

lemma covers_count: "covers w now hs as \<Longrightarrow> length (filter (\<lambda>h. now - w < h) hs) \<le> length as"
  unfolding covers_def by (metis size_mset size_mset_mono)

lemma try_wake_ok:
  assumes r: "run_ok cfg (pi_clock pin 0) hs r" and pos: "0 < wc_window cfg"
    and c: "pi_clock pin 0 \<le> pi_clock pin 1" "pi_clock pin 1 \<le> pi_clock pin 2"
    and run: "try_wake cfg pin scan r = (handed, res, rep, r')"
  shows "run_ok cfg (pi_clock pin 2)
      (if handed \<and> reaches_host (pi_outcome pin) then hs @ [pi_clock pin 0] else hs) r'
    \<and> (handed \<longrightarrow> int (length (filter (\<lambda>h. pi_clock pin 0 - wc_window cfg < h) hs)) < wc_max cfg)"
proof -
  define now where "now = pi_clock pin"
  define fp where "fp = fingerprint_of (is_allowed scan)"
  define r0 where "r0 = r\<lparr>wr_state := pruneAttempts (now 0) (wc_window cfg) (wr_state r)\<rparr>"
  have ok0: "run_ok cfg (now 0) hs r0"
    using run_ok_prune [OF r, of "now 0"] by (simp add: r0_def now_def)
  have held: "length (filter (\<lambda>h. now 0 - wc_window cfg < h) hs) \<le> length (ws_attempts (wr_state r0))"
    using ok0 covers_count unfolding run_ok_def by blast
  have quiet: "run_ok cfg (now 2) hs (scheduleMaintenance cfg (now 1) x)" if "run_ok cfg (now 0) hs x" for x
    by (rule run_ok_later [OF run_ok_maintenance [OF that]]) (use c in \<open>simp_all add: now_def\<close>)
  have c02: "now 0 \<le> now 2" using c by (simp add: now_def)
  consider (cooling) "fp = ws_fingerprint (wr_state r) \<and> now 0 - ws_last (wr_state r) < wc_cooldown cfg"
    | (full) "\<not> (fp = ws_fingerprint (wr_state r) \<and> now 0 - ws_last (wr_state r) < wc_cooldown cfg)"
        "int (length (ws_attempts (wr_state r0))) \<ge> wc_max cfg"
    | (stale) "\<not> (fp = ws_fingerprint (wr_state r) \<and> now 0 - ws_last (wr_state r) < wc_cooldown cfg)"
        "\<not> int (length (ws_attempts (wr_state r0))) \<ge> wc_max cfg" "\<not> pi_control pin"
    | (unsaved) "\<not> (fp = ws_fingerprint (wr_state r) \<and> now 0 - ws_last (wr_state r) < wc_cooldown cfg)"
        "\<not> int (length (ws_attempts (wr_state r0))) \<ge> wc_max cfg" "pi_control pin" "\<not> pi_reserve_saves pin"
    | (asked) "\<not> (fp = ws_fingerprint (wr_state r) \<and> now 0 - ws_last (wr_state r) < wc_cooldown cfg)"
        "\<not> int (length (ws_attempts (wr_state r0))) \<ge> wc_max cfg" "pi_control pin" "pi_reserve_saves pin"
    by blast
  then show ?thesis
  proof cases
    case cooling
    then have "handed = False" "r' = scheduleMaintenance cfg (now 1) r"
      using run by (auto simp: try_wake_def Let_def now_def fp_def)
    then show ?thesis using quiet r by (simp add: now_def)
  next
    case full
    then have "handed = False" "r' = scheduleMaintenance cfg (now 1) r0"
      using run by (auto simp: try_wake_def Let_def now_def fp_def r0_def)
    then show ?thesis using quiet ok0 by (simp add: now_def)
  next
    case stale
    then have "handed = False" "r' = r0"
      using run by (auto simp: try_wake_def Let_def now_def fp_def r0_def)
    then show ?thesis using run_ok_later [OF ok0 c02] by (simp add: now_def)
  next
    case unsaved
    then have "handed = False" "r' = scheduleAfter (now 1) fetchRetry (snd (reserveAttempt False (now 0) r0))"
      using run by (auto simp: try_wake_def Let_def now_def fp_def r0_def reserveAttempt_def)
    then show ?thesis using run_ok_later [OF run_ok_reserve [OF ok0] c02] by (simp add: now_def run_ok_after)
  next
    case asked
    then have "handed = True" "after_wake cfg pin fp (snd (reserveAttempt True (now 0) r0)) = (res, rep, r')"
      using run by (auto simp: try_wake_def Let_def now_def fp_def r0_def reserveAttempt_def)
    then show ?thesis
      using after_wake_ok [OF ok0 [unfolded now_def] pos c] asked(2) held by (auto simp: now_def)
  qed
qed

lemma processWake_ok:
  assumes r: "run_ok cfg t hs r" "t \<le> pi_clock pin 0" and pos: "0 < wc_window cfg"
    and c: "pi_clock pin 0 \<le> pi_clock pin 1" "pi_clock pin 1 \<le> pi_clock pin 2"
    and run: "processWake cfg pin r = (handed, res, rep, r')"
  shows "run_ok cfg (pi_clock pin 2)
      (if handed \<and> reaches_host (pi_outcome pin) then hs @ [pi_clock pin 0] else hs) r'
    \<and> (handed \<longrightarrow> int (length (filter (\<lambda>h. pi_clock pin 0 - wc_window cfg < h) hs)) < wc_max cfg)"
proof -
  note r0 = run_ok_later [OF r]
  have r2: "run_ok cfg (pi_clock pin 2) hs r" by (rule run_ok_later [OF r0]) (use c in simp)
  have active: "run_ok cfg (pi_clock pin 2) hs (activeAttempts cfg (pi_clock pin 1) r)"
    by (rule run_ok_later [OF run_ok_active [OF r0 c(1)] c(2)])
  show ?thesis
  proof (cases "wc_max cfg = 0")
    case True
    then show ?thesis using run r2 by (auto simp: processWake_def)
  next
    case False
    show ?thesis
    proof (cases "fetchUnread cfg (pi_scan_time pin) (pi_server pin)")
      case None
      then show ?thesis using run r2 active False by (auto simp: processWake_def run_ok_after split: if_splits)
    next
      case (Some scan)
      show ?thesis
      proof (cases "is_allowed scan = []")
        case True
        then show ?thesis using run active False Some by (auto simp: processWake_def)
      next
        case nonempty: False
        then have "try_wake cfg pin scan r = (handed, res, rep, r')"
          using run False Some by (simp add: processWake_def)
        then show ?thesis by (rule try_wake_ok [OF r0 pos c])
      qed
    qed
  qed
qed

definition world_ok :: "wake_config \<Rightarrow> wake_world \<Rightarrow> bool" where
  "world_ok cfg w \<longleftrightarrow>
     covers (wc_window cfg) (ww_now w) (ww_handed w) (kept_attempts (stateIdentity cfg) (ww_disk w))
     \<and> (\<forall>st timer. ww_run w = Some (st, timer) \<longrightarrow> ws_identity st = stateIdentity cfg
          \<and> covers (wc_window cfg) (ww_now w) (ww_handed w) (ws_attempts st))
     \<and> (\<forall>h \<in> set (ww_handed w). h \<le> ww_now w)
     \<and> (\<forall>t. int (handed_recently (wc_window cfg) t (ww_handed w)) \<le> wc_max cfg)"

lemma handed_one_more:
  assumes "\<forall>h \<in> set hs. h \<le> now" "\<forall>t. int (handed_recently w t hs) \<le> mx"
    and "int (length (filter (\<lambda>h. now - w < h) hs)) < mx"
  shows "int (handed_recently w t (hs @ [now])) \<le> mx"
proof (cases "now \<le> t")
  case True
  have "handed_recently w t hs \<le> length (filter (\<lambda>h. now - w < h) hs)"
    unfolding handed_recently_def using True
    by (intro filter_count_mono) auto
  then show ?thesis using assms(3) by (simp add: handed_recently_def)
next
  case False
  then show ?thesis using assms(2) by (simp add: handed_recently_def)
qed

lemma world_step:
  assumes w: "world_ok cfg w" and pos: "0 < wc_window cfg" and fwd: "clock_forward op w"
  shows "world_ok cfg (wake_do cfg op w)"
proof (cases op)
  case (WakeStart now)
  then have later: "ww_now w \<le> now" using fwd by simp
  note disk = covers_later [OF w [unfolded world_ok_def, THEN conjunct1] later]
  have "ws_identity st = stateIdentity cfg \<and> covers (wc_window cfg) now (ww_handed w) (ws_attempts st)"
    if "loadWakeState now (stateIdentity cfg) (ww_disk w) = Inr st" for st
    using that disk by (auto simp: loadWakeState_def kept_attempts_def fresh_state_def split: wake_file.splits option.splits if_splits)
  then show ?thesis
    using w later disk WakeStart by (auto simp: world_ok_def split: sum.splits)
next
  case WakeStop
  then show ?thesis using w by (auto simp: world_ok_def)
next
  case (WakePass pin)
  show ?thesis
  proof (cases "ww_run w")
    case None
    then show ?thesis using w WakePass by simp
  next
    case (Some a)
    obtain st timer where a: "a = (st, timer)" by (cases a)
    define r where "r = \<lparr>wr_state = st, wr_disk = ww_disk w, wr_timer = timer\<rparr>"
    obtain handed res rep r' where run: "processWake cfg pin r = (handed, res, rep, r')" by (metis prod_cases4)
    have "run_ok cfg (ww_now w) (ww_handed w) r" using w Some a by (simp add: world_ok_def run_ok_def r_def)
    note pass = processWake_ok [OF this _ pos _ _ run]
    let ?hs = "if handed \<and> reaches_host (pi_outcome pin) then ww_handed w @ [pi_clock pin 0] else ww_handed w"
    have now: "ww_now w \<le> pi_clock pin 0" "pi_clock pin 0 \<le> pi_clock pin 1" "pi_clock pin 1 \<le> pi_clock pin 2"
      using fwd WakePass by auto
    have "\<forall>h \<in> set (ww_handed w). h \<le> pi_clock pin 0" using w now by (force simp: world_ok_def)
    then have "int (handed_recently (wc_window cfg) t ?hs) \<le> wc_max cfg" for t
      using handed_one_more [of "ww_handed w" "pi_clock pin 0" "wc_window cfg" "wc_max cfg" t] w now pass
      by (auto simp: world_ok_def)
    moreover have "\<forall>h \<in> set ?hs. h \<le> pi_clock pin 2"
    proof
      fix h
      assume "h \<in> set ?hs"
      then have "h \<le> pi_clock pin 0"
        using \<open>\<forall>h \<in> set (ww_handed w). h \<le> pi_clock pin 0\<close> by (auto split: if_splits)
      then show "h \<le> pi_clock pin 2" using now by linarith
    qed
    moreover have "run_ok cfg (pi_clock pin 2) ?hs r'" using pass now by blast
    moreover have "wake_do cfg op w = w\<lparr>ww_disk := wr_disk r', ww_run := end_run res r', ww_now := pi_clock pin 2,
        ww_handed := ?hs\<rparr>"
      using WakePass Some a run by (simp add: r_def)
    ultimately show ?thesis by (auto simp: world_ok_def run_ok_def end_run_def)
  qed
qed

lemma world_reach:
  assumes "wake_reach cfg w" "0 < wc_window cfg" "0 \<le> wc_max cfg"
  shows "world_ok cfg w"
  using assms(1)
proof induction
  case (wake_init disk now)
  then show ?case using assms(3) by (simp add: world_ok_def covers_def handed_recently_def)
next
  case (wake_step w op)
  then show ?case using world_step [OF _ assms(2)] by blast
qed

lemma withDefaults_ranges: "0 < wc_window (withDefaults cfg)" "0 \<le> wc_max (withDefaults cfg)"
  "0 < wc_cooldown (withDefaults cfg)"
  by (auto simp: withDefaults_def defaultWindow_def defaultMaxWakes_def defaultCooldown_def wake_second_def)

text \<open>C4: the wake budget holds over restarts.  Whatever the file held at first, however often the listener
  stops, crashes and starts again, whichever saves fail and whatever server and host answer: as long as the clock
  does not go back, at most \<open>MaxWakes\<close> wakes are handed to the host in any window.\<close>

theorem wake_budget:
  assumes "wake_reach (withDefaults cfg) w"
  shows "int (handed_recently (wc_window (withDefaults cfg)) t (ww_handed w)) \<le> wc_max (withDefaults cfg)"
  using world_reach [OF assms withDefaults_ranges(1,2)] by (simp add: world_ok_def)

section \<open>Following up\<close>

lemma earlier_Some: "earlier now t found = Some u \<Longrightarrow> (\<And>v. found = Some v \<Longrightarrow> now < v) \<Longrightarrow> now < u"
  by (auto simp: earlier_def split: if_splits)

lemma earlier_not_None: "now < t \<or> found \<noteq> None \<Longrightarrow> earlier now t found \<noteq> None"
  by (auto simp: earlier_def split: option.splits)

text \<open>The instants a maintenance looks for: the end of the cooldown, and the time the oldest attempt leaves a
  full budget.\<close>

definition expiries :: "wake_config \<Rightarrow> wake_state \<Rightarrow> instant list" where
  "expiries cfg st =
     (if ws_last st > 0 then [ws_last st + wc_cooldown cfg] else [])
     @ (if int (length (ws_attempts st)) \<ge> wc_max cfg \<and> ws_attempts st \<noteq> []
        then [hd (ws_attempts st) + wc_window cfg] else [])"

lemma maintenance_timer:
  assumes "e \<in> set (expiries cfg (wr_state r))" "now < e" "\<forall>a \<in> set (ws_attempts (wr_state r)). now - wc_window cfg < a"
  shows "\<exists>d. wr_timer (scheduleMaintenance cfg now r) = Some d \<and> now < d"
proof -
  define a where "a = (if ws_last (wr_state r) > 0 then earlier now (ws_last (wr_state r) + wc_cooldown cfg) None else None)"
  have same: "pruneAttempts now (wc_window cfg) (wr_state r) = wr_state r"
    using assms(3) by (simp add: pruneAttempts_def)
  define b where "b = (if int (length (ws_attempts (wr_state r))) \<ge> wc_max cfg \<and> ws_attempts (wr_state r) \<noteq> []
      then earlier now (hd (ws_attempts (wr_state r)) + wc_window cfg) a else a)"
  have later: "now < u" if "a = Some u" for u using that earlier_Some by (auto simp: a_def split: if_splits)
  have "b \<noteq> None"
    using assms(1,2) earlier_not_None by (auto simp: b_def a_def expiries_def split: if_splits)
  then obtain d where d: "b = Some d" by blast
  then have "now < d" using later earlier_Some by (auto simp: b_def split: if_splits)
  then show ?thesis using d by (simp add: scheduleMaintenance_def Let_def same a_def [symmetric] b_def [symmetric])
qed

lemma expiries_prune:
  "\<forall>a \<in> set (ws_attempts st). now - w < a \<Longrightarrow> pruneAttempts now w st = st"
  by (simp add: pruneAttempts_def)


text \<open>The follow-up can be lost.  The gates and the timer read the clock separately.  When the cooldown of an
  unchanged unread set ends between the two readings and no earlier attempt fills the budget, the pass keeps quiet
  because of the cooldown and then sees nothing to wait for: no timer is set, and the mail waits for the next
  hint.\<close>

lemma wake_followup_gap:
  assumes seen: "fetchUnread cfg (pi_scan_time pin) (pi_server pin) = Some scan" "is_allowed scan \<noteq> []"
    and "0 < wc_max cfg" "ws_fingerprint (wr_state r) = fingerprint_of (is_allowed scan)"
    and "pi_clock pin 0 < ws_last (wr_state r) + wc_cooldown cfg" "ws_last (wr_state r) + wc_cooldown cfg \<le> pi_clock pin 1"
    and "int (length (filter (\<lambda>a. pi_clock pin 1 - wc_window cfg < a) (ws_attempts (wr_state r)))) < wc_max cfg"
    and "wr_timer r = None"
  shows "\<exists>r'. processWake cfg pin r = (False, PassDone, None, r') \<and> wr_timer r' = None"
proof -
  have "processWake cfg pin r = (False, PassDone, None, scheduleMaintenance cfg (pi_clock pin 1) r)"
    using assms by (simp add: processWake_def try_wake_def Let_def)
  moreover have "wr_timer (scheduleMaintenance cfg (pi_clock pin 1) r) = None"
    using assms(6-8) by (simp add: scheduleMaintenance_def Let_def earlier_def pruneAttempts_def)
  ultimately show ?thesis by blast
qed

section \<open>A clock that steps back\<close>

lemma check_attempts_sorted:
  "check_attempts skew i prev as = None \<Longrightarrow> sorted as \<and> (\<forall>p. prev = Some p \<longrightarrow> (\<forall>b \<in> set as. p \<le> b))"
proof (induction as arbitrary: i prev)
  case (Cons a as)
  then have "check_attempts skew (Suc i) (Some a) as = None" by (auto split: if_splits)
  then have "sorted as" "\<forall>b \<in> set as. a \<le> b" using Cons.IH by blast+
  moreover have "p \<le> a" if "prev = Some p" for p using Cons.prems that by (auto split: if_splits)
  ultimately show ?case by fastforce
qed simp

lemma load_unsorted:
  assumes "\<not> sorted (ws_attempts st)"
  shows "\<exists>e. loadWakeState t identity (Saved st) = Inl e"
  using assms check_attempts_sorted
  by (fastforce simp: loadWakeState_def validate_state_def split: option.splits)

text \<open>C31: after the clock stepped back the listener cannot start again.  When a wake is handed over at a time
  before the last attempt on record, the file that is saved lists its attempts out of order, and no later start
  ever accepts it, not even after every attempt in it has expired.\<close>

theorem wake_backstep_refused:
  assumes clock: "\<And>k. pi_clock pin k = now"
    and last: "ws_attempts (wr_state r) = as @ [a]" "now < a" and cfg: "0 < wc_window cfg"
    and run: "processWake cfg pin r = (True, PassDone, rep, r')"
    and host: "reaches_host (pi_outcome pin)"
  shows "\<exists>e. loadWakeState t (stateIdentity cfg) (wr_disk r') = Inl e"
proof -
  obtain scan where tried: "try_wake cfg pin scan r = (True, PassDone, rep, r')"
    using run by (auto simp: processWake_def split: if_splits option.splits)
  define r0 where "r0 = r\<lparr>wr_state := pruneAttempts now (wc_window cfg) (wr_state r)\<rparr>"
  define r1 where "r1 = snd (reserveAttempt True now r0)"
  have woke: "after_wake cfg pin (fingerprint_of (is_allowed scan)) r1 = (PassDone, rep, r')"
    using tried by (auto simp: try_wake_def Let_def clock r1_def r0_def reserveAttempt_def split: if_splits)
  have kept: "ws_attempts (wr_state r1) = filter (\<lambda>a. a > now - wc_window cfg) as @ [a, now]"
    using last cfg by (simp add: r1_def reserveAttempt_def Let_def add_attempt_def r0_def pruneAttempts_def)
  then have unsorted: "\<not> sorted (ws_attempts (wr_state r1))" using last(2) by (auto simp: sorted_append)
  have disk: "wr_disk r1 = Saved (wr_state r1)" by (simp add: r1_def reserveAttempt_def Let_def saveWakeState_def)
  have "\<exists>st. wr_disk r' = Saved st \<and> ws_attempts st = ws_attempts (wr_state r1)"
  proof (cases "pi_outcome pin")
    case (Woken u)
    then show ?thesis
      using woke disk by (auto simp: after_wake_def Let_def activeAttempts_def scheduleMaintenance_def saveWakeState_def
          split: option.splits)
  next
    case WakeFailed
    then show ?thesis
      using woke disk by (auto simp: after_wake_def Let_def activeAttempts_def scheduleAfter_def)
  qed (use host in \<open>simp_all add: reaches_host_def\<close>)
  then show ?thesis using load_unsorted unsorted by metis
qed

section \<open>An example run\<close>

definition demo_wake_config :: wake_config where
  "demo_wake_config = \<lparr>wc_max = 1, wc_window = 600, wc_cooldown = 60, wc_url = ''u'', wc_namespace = ''n'',
     wc_address = ''c:1'', wc_allow = []\<rparr>"

definition demo_meta :: message_meta where
  "demo_meta = \<lparr>me_seq = 1, me_id = ''m'', me_sender = ''s'', me_recipient = ''c:1'', me_created = [], me_acked = [],
     me_leased = None\<rparr>"

definition demo_pass :: "clock \<Rightarrow> wake_outcome \<Rightarrow> pass_input" where
  "demo_pass clk out = \<lparr>pi_scan_time = clk 0, pi_clock = clk,
     pi_server = \<lparr>sv_page = Some [demo_meta], sv_count = Some 1, sv_log = (\<lambda>_. None)\<rparr>, pi_canceled = False,
     pi_control = True, pi_reserve_saves = True, pi_outcome = out, pi_then_saves = True\<rparr>"

definition demo_scan :: inbox_scan where
  "demo_scan = \<lparr>is_allowed = [demo_meta], is_denied = 0, is_unread = 1, is_limited = False\<rparr>"

lemma demo_fetch: "fetchUnread demo_wake_config t (pi_server (demo_pass clk out)) = Some demo_scan"
  by (simp add: fetchUnread_def demo_pass_def demo_wake_config_def classify_def SenderAllowed_def metadataLimit_def
      demo_scan_def Let_def)

lemma hex_str_not_Nil: "hex_str n \<noteq> []"
  by (subst hex_str.simps) simp

definition demo_wake_state :: "instant list \<Rightarrow> string \<Rightarrow> instant \<Rightarrow> wake_state" where
  "demo_wake_state as fp since = \<lparr>ws_version = 1, ws_identity = stateIdentity demo_wake_config, ws_attempts = as,
     ws_fingerprint = fp, ws_last = since\<rparr>"

definition demo_run_at :: "instant list \<Rightarrow> string \<Rightarrow> instant \<Rightarrow> wake_run" where
  "demo_run_at as fp since = \<lparr>wr_state = demo_wake_state as fp since, wr_disk = NoFile, wr_timer = None\<rparr>"

lemma demo_defaults: "withDefaults demo_wake_config = demo_wake_config"
proof -
  have "trim_space ''u'' = ''u''" by (rule trim_space_plain) (simp add: graphic_def in_range_def byte_def)
  then show ?thesis by (simp add: withDefaults_def demo_wake_config_def)
qed

text \<open>A run that wakes the host once; its budget is one wake in 600.\<close>

definition demo_world :: wake_world where
  "demo_world = wake_do demo_wake_config (WakePass (demo_pass (\<lambda>_. 1000) (Woken False)))
     (wake_do demo_wake_config (WakeStart 1000) \<lparr>ww_disk = NoFile, ww_run = None, ww_now = 0, ww_handed = []\<rparr>)"

lemma demo_world_reach: "wake_reach demo_wake_config demo_world"
  unfolding demo_world_def
  by (rule wake_step, rule wake_step, rule wake_init)
    (simp_all add: demo_pass_def loadWakeState_def)

lemma demo_world_handed: "ww_handed demo_world = [1000]"
proof -
  have "fingerprint_of [demo_meta] \<noteq> []" by (simp add: fingerprint_of_def hex_str_not_Nil)
  then have "\<exists>x. processWake demo_wake_config (demo_pass (\<lambda>_. 1000) (Woken False))
      \<lparr>wr_state = fresh_state (stateIdentity demo_wake_config), wr_disk = NoFile, wr_timer = None\<rparr> = (True, x)"
    unfolding processWake_def demo_fetch
    by (simp add: try_wake_def Let_def demo_scan_def fresh_state_def demo_wake_config_def demo_pass_def pruneAttempts_def
        reserveAttempt_def) (metis prod_cases3)
  then show ?thesis
    by (auto simp: demo_world_def loadWakeState_def reaches_host_def demo_pass_def split: prod.splits)
qed

theorem wake_budget_witness:
  "int (handed_recently 600 1000 (ww_handed demo_world)) \<le> 1 \<and> ww_handed demo_world = [1000]"
proof -
  have "wake_reach (withDefaults demo_wake_config) demo_world" using demo_world_reach by (simp only: demo_defaults)
  from wake_budget [OF this, of 1000] show ?thesis
    by (simp add: demo_defaults demo_world_handed) (simp add: demo_wake_config_def)
qed

lemma demo_pass_runs:
  assumes "out = Woken False \<or> out = WakeFailed" "as = [] \<or> as = [t] \<and> t \<le> 400"
  shows "\<exists>rep r'. processWake demo_wake_config (demo_pass (\<lambda>_. 1000) out) (demo_run_at as [] 0) = (True, PassDone, rep, r')"
proof -
  have "fingerprint_of [demo_meta] \<noteq> []" by (simp add: fingerprint_of_def hex_str_not_Nil)
  then show ?thesis
    unfolding processWake_def demo_fetch
    using assms by (auto simp: try_wake_def Let_def demo_scan_def demo_run_at_def demo_wake_state_def demo_wake_config_def
        demo_pass_def pruneAttempts_def reserveAttempt_def after_wake_def)
qed


lemma wake_followup_gap_witness:
  "\<exists>r'. processWake demo_wake_config (demo_pass (\<lambda>k. 1000 + int k) WakeFailed)
     (demo_run_at [] (fingerprint_of [demo_meta]) 941) = (False, PassDone, None, r') \<and> wr_timer r' = None"
  by (rule wake_followup_gap [OF demo_fetch])
    (simp_all add: demo_wake_config_def demo_scan_def demo_run_at_def demo_wake_state_def, simp_all add: demo_pass_def)

definition demo_wide_config :: wake_config where "demo_wide_config = demo_wake_config\<lparr>wc_max := 5\<rparr>"

lemma demo_wide_fetch: "fetchUnread demo_wide_config t (pi_server (demo_pass clk out)) = Some demo_scan"
  by (simp add: fetchUnread_def demo_pass_def demo_wide_config_def demo_wake_config_def classify_def SenderAllowed_def
      metadataLimit_def demo_scan_def Let_def)

theorem wake_backstep_refused_witness:
  "\<exists>rep r'. processWake demo_wide_config (demo_pass (\<lambda>_. 1000) WakeFailed) (demo_run_at [1100] [] 0) = (True, PassDone, rep, r')
     \<and> (\<exists>e. loadWakeState 9000000 (stateIdentity demo_wide_config) (wr_disk r') = Inl e)"
proof -
  have "fingerprint_of [demo_meta] \<noteq> []" by (simp add: fingerprint_of_def hex_str_not_Nil)
  then have "\<exists>rep r'. processWake demo_wide_config (demo_pass (\<lambda>_. 1000) WakeFailed) (demo_run_at [1100] [] 0)
      = (True, PassDone, rep, r')"
    unfolding processWake_def demo_wide_fetch
    by (simp add: try_wake_def Let_def demo_scan_def demo_run_at_def demo_wake_state_def demo_wide_config_def
        demo_wake_config_def demo_pass_def pruneAttempts_def reserveAttempt_def after_wake_def)
  then obtain rep r' where run: "processWake demo_wide_config (demo_pass (\<lambda>_. 1000) WakeFailed) (demo_run_at [1100] [] 0)
      = (True, PassDone, rep, r')" by blast
  have "\<exists>e. loadWakeState 9000000 (stateIdentity demo_wide_config) (wr_disk r') = Inl e"
    by (rule wake_backstep_refused [where now = 1000 and as = "[]" and a = 1100, OF _ _ _ _ run])
      (simp_all add: demo_pass_def demo_run_at_def demo_wake_state_def demo_wide_config_def demo_wake_config_def reaches_host_def)
  then show ?thesis using run by blast
qed

end
