(* ===== verification/WakeScan.thy ===== *)
theory WakeScan
  imports Wake Delivery
begin

text \<open>
  The scan of the wake listener against the inbox it reads: the first page is \<open>ReadMessages\<close>, the pages behind it
  are those of the operator log (\<open>handleMessageLog\<close> in \<open>internal/api/messaging_handlers.go\<close> over
  \<open>ListMessages\<close>).  \<open>stamp\<close> renders a time.
\<close>

definition logPageLimit :: nat where "logPageLimit = 25"

definition meta_of :: "(instant \<Rightarrow> string) \<Rightarrow> message \<Rightarrow> message_meta" where
  "meta_of stamp m =
     \<lparr>me_seq = int (ms_seq m), me_id = ms_id m, me_sender = ms_sender m, me_recipient = ms_recipient m,
      me_created = stamp (ms_created_at m),
      me_acked = (case ms_acked_at m of None \<Rightarrow> [] | Some t \<Rightarrow> stamp t), me_leased = ms_leased_until m\<rparr>"

definition handleMessageLog ::
  "(instant \<Rightarrow> string) \<Rightarrow> hub \<Rightarrow> string \<Rightarrow> string \<Rightarrow> int \<Rightarrow> int \<Rightarrow> (message_meta list \<times> int) option" where
  "handleMessageLog stamp h ns agent limit before =
     (case ListMessages ns agent limit before h of
        Inl e \<Rightarrow> None
      | Inr msgs \<Rightarrow> Some (map (meta_of stamp) msgs, if msgs = [] then 0 else int (ms_seq (last msgs))))"

definition hub_server :: "(instant \<Rightarrow> string) \<Rightarrow> wake_config \<Rightarrow> instant \<Rightarrow> hub \<Rightarrow> inbox_server" where
  "hub_server stamp cfg now h =
     \<lparr>sv_page = (case ReadMessages (\<lambda>_. now) (wc_namespace cfg) (wc_address cfg) (int metadataLimit) h of
         (Inl e, _) \<Rightarrow> None | (Inr msgs, _) \<Rightarrow> Some (map (meta_of stamp) msgs)),
      sv_count = None,
      sv_log = handleMessageLog stamp h (wc_namespace cfg) (wc_address cfg) (int logPageLimit)\<rparr>"

text \<open>The log of an address, newest first, and the rows of it below a cursor.\<close>

definition full_log :: "string \<Rightarrow> string \<Rightarrow> hub \<Rightarrow> message list" where
  "full_log ns agent h = sort_key (\<lambda>m. - int (ms_seq m))
     (filter (\<lambda>m. ms_ns m = ns \<and> (agent \<noteq> [] \<longrightarrow> ms_sender m = agent \<or> ms_recipient m = agent)) (hu_messages h))"

definition descending :: "message list \<Rightarrow> bool" where
  "descending ms \<longleftrightarrow> sorted_wrt (\<lambda>a b. ms_seq b < ms_seq a) ms"

lemma full_log_descending:
  assumes "distinct (map ms_seq (hu_messages h))"
  shows "descending (full_log ns agent h)"
proof -
  let ?L = "full_log ns agent h" and ?k = "\<lambda>m. - int (ms_seq m)"
  have "distinct (map ms_seq ?L)"
    using assms unfolding full_log_def by (auto simp: distinct_map inj_on_def)
  moreover have "sorted (map ?k ?L)" unfolding full_log_def by (rule sorted_sort_key)
  ultimately have "ms_seq (?L ! j) < ms_seq (?L ! i)" if "i < j" "j < length ?L" for i j
  proof -
    have "ms_seq (?L ! j) \<le> ms_seq (?L ! i)"
      using \<open>sorted (map ?k ?L)\<close> that sorted_nth_mono [of "map ?k ?L" i j] by simp
    moreover have "ms_seq (?L ! j) \<noteq> ms_seq (?L ! i)"
      using \<open>distinct (map ms_seq ?L)\<close> that nth_eq_iff_index_eq [of "map ms_seq ?L" j i] by simp
    ultimately show ?thesis by simp
  qed
  then show ?thesis by (simp add: descending_def sorted_wrt_iff_nth_less)
qed

definition log_cursor :: "message list \<Rightarrow> nat \<Rightarrow> int" where
  "log_cursor L k = (if k = 0 then 0 else int (ms_seq (L ! (k - 1))))"

lemma descending_below:
  assumes "descending L" "k < length L"
  shows "filter (\<lambda>m. ms_seq m < ms_seq (L ! k)) L = drop (Suc k) L"
proof -
  have L: "L = take k L @ L ! k # drop (Suc k) L" using assms(2) by (rule id_take_nth_drop)
  have "sorted_wrt (\<lambda>a b. ms_seq b < ms_seq a) (take k L @ L ! k # drop (Suc k) L)"
    using assms(1) L by (simp add: descending_def)
  then have "\<forall>m \<in> set (take k L). ms_seq (L ! k) < ms_seq m" "\<forall>m \<in> set (drop (Suc k) L). ms_seq m < ms_seq (L ! k)"
    by (auto simp: sorted_wrt_append)
  then have "filter (\<lambda>m. ms_seq m < ms_seq (L ! k)) (take k L) = []"
    "filter (\<lambda>m. ms_seq m < ms_seq (L ! k)) (drop (Suc k) L) = drop (Suc k) L"
    by (auto simp: filter_empty_conv intro!: filter_True)
  then show ?thesis by (subst L) (simp del: filter_filter)
qed

text \<open>The page behind the first \<open>k\<close> rows of the log.\<close>

lemma log_page:
  assumes "checkInbox ns agent = Inr ()" "distinct (map ms_seq (hu_messages h))"
    and "\<forall>m \<in> set (hu_messages h). 0 < ms_seq m" "k \<le> length (full_log ns agent h)"
  shows "ListMessages ns agent (int logPageLimit) (log_cursor (full_log ns agent h) k) h
    = Inr (take 25 (drop k (full_log ns agent h)))"
proof -
  let ?L = "full_log ns agent h" and ?c = "log_cursor (full_log ns agent h) k"
  have sub: "set ?L \<subseteq> set (hu_messages h)" by (auto simp: full_log_def)
  have "filter (\<lambda>m. ?c > 0 \<longrightarrow> int (ms_seq m) < ?c) ?L = drop k ?L"
  proof (cases k)
    case 0
    then show ?thesis by (simp add: log_cursor_def)
  next
    case (Suc j)
    then have "?L ! j \<in> set ?L" using assms(4) by simp
    then have "0 < ?c" using Suc assms(3) sub by (auto simp: log_cursor_def)
    then have "filter (\<lambda>m. ?c > 0 \<longrightarrow> int (ms_seq m) < ?c) ?L = filter (\<lambda>m. ms_seq m < ms_seq (?L ! j)) ?L"
      using Suc by (simp add: log_cursor_def)
    then show ?thesis using descending_below [OF full_log_descending [OF assms(2)]] Suc assms(4) by simp
  qed
  moreover have "sort_key (\<lambda>m. - int (ms_seq m)) (filter (\<lambda>m. ms_ns m = ns
      \<and> (agent \<noteq> [] \<longrightarrow> ms_sender m = agent \<or> ms_recipient m = agent)
      \<and> (?c > 0 \<longrightarrow> int (ms_seq m) < ?c)) (hu_messages h)) = filter (\<lambda>m. ?c > 0 \<longrightarrow> int (ms_seq m) < ?c) ?L"
    unfolding full_log_def filter_sort filter_filter
    by (intro arg_cong [of _ _ "sort_key _"] filter_cong) auto
  moreover have "first_error [checkNamespace ns, checkIdent ''agent'' agent False] = Inr ()"
    using assms(1) by (auto simp: checkInbox_def checkIdent_def split: sum.splits if_splits)
  ultimately show ?thesis
    by (simp add: ListMessages_def clampMessageLogLimit_def logPageLimit_def)
qed

section \<open>The scan finds the mail there is\<close>

definition eligible :: "wake_config \<Rightarrow> instant \<Rightarrow> message \<Rightarrow> bool" where
  "eligible cfg now m \<longleftrightarrow> ms_ns m = wc_namespace cfg \<and> ms_recipient m = wc_address cfg \<and> deliverable now m
     \<and> SenderAllowed (wc_allow cfg) (ms_sender m)"

lemma classify_grows: "is_allowed scan \<noteq> [] \<Longrightarrow> is_allowed (classify cfg m scan) \<noteq> []"
  by (simp add: classify_def)

lemma log_rows_grow: "is_allowed scan \<noteq> [] \<Longrightarrow> is_allowed (snd (log_rows cfg now ms seen scan)) \<noteq> []"
  by (induction ms arbitrary: seen scan) (simp_all add: classify_grows)

lemma log_rows_seen: "set (fst (log_rows cfg now ms seen scan)) \<subseteq> set seen \<union> me_id ` set ms"
proof (induction ms arbitrary: seen scan)
  case (Cons m ms)
  show ?case using Cons [of seen scan] Cons [of "me_id m # seen" "classify cfg m scan"] by auto
qed simp

lemma log_rows_find:
  assumes "m \<in> set ms" "me_id m \<notin> set seen" "distinct (map me_id ms)"
    and "me_recipient m = wc_address cfg" "me_acked m = []" "\<not> leaseActive now m"
    and "SenderAllowed (wc_allow cfg) (me_sender m)"
  shows "is_allowed (snd (log_rows cfg now ms seen scan)) \<noteq> []"
  using assms(1-3)
proof (induction ms arbitrary: seen scan)
  case (Cons x ms)
  show ?case
  proof (cases "x = m")
    case True
    then have "\<not> skip_log_row cfg now seen x" using Cons.prems assms by (simp add: skip_log_row_def)
    moreover have "is_allowed (classify cfg x scan) \<noteq> []" using True assms by (simp add: classify_def)
    ultimately show ?thesis by (simp add: log_rows_grow)
  next
    case False
    then have "m \<in> set ms" "me_id x \<noteq> me_id m" using Cons.prems by (auto simp: image_iff)
    then show ?thesis using Cons by simp
  qed
qed simp

lemma sortBySeq_Nil: "sortBySeq ms = [] \<longleftrightarrow> ms = []"
  by (metis sortBySeq_def length_0_conv length_sort)

lemma meta_of_eligible:
  assumes "eligible cfg now m"
  shows "me_recipient (meta_of stamp m) = wc_address cfg" "me_acked (meta_of stamp m) = []"
    "\<not> leaseActive now (meta_of stamp m)" "SenderAllowed (wc_allow cfg) (me_sender (meta_of stamp m))"
  using assms by (auto simp: eligible_def meta_of_def deliverable_def leaseActive_def split: option.splits)

lemma scan_log_finds:
  assumes inbox: "checkInbox (wc_namespace cfg) (wc_address cfg) = Inr ()"
    and ids: "distinct (map ms_id (hu_messages h))" and seqs: "distinct (map ms_seq (hu_messages h))"
    and pos: "\<forall>m \<in> set (hu_messages h). 0 < ms_seq m"
    and L: "L = full_log (wc_namespace cfg) (wc_address cfg) h"
    and m: "eligible cfg now m" "m \<in> set (drop k (take logScanBudget L))" "ms_id m \<notin> set seen"
    and k: "k < logScanBudget" "25 dvd k"
  shows "is_allowed (scan_log cfg now (handleMessageLog stamp h (wc_namespace cfg) (wc_address cfg) (int logPageLimit))
    k (log_cursor L k) seen scan) \<noteq> []"
  using m(2,3) k
proof (induction "logScanBudget - k" arbitrary: k seen scan rule: less_induct)
  case less
  let ?src = "handleMessageLog stamp h (wc_namespace cfg) (wc_address cfg) (int logPageLimit)"
  define page where "page = take 25 (drop k L)"
  define metas where "metas = map (meta_of stamp) page"
  have "drop k (take logScanBudget L) \<noteq> []" using less.prems(1) by auto
  then have long: "k < length L" by auto
  then have page: "page \<noteq> []" by (simp add: page_def)
  define nextBefore where "nextBefore = int (ms_seq (last page))"
  have src: "?src (log_cursor L k) = Some (metas, nextBefore)"
    using log_page [OF inbox seqs pos, of k] long page
    by (simp add: handleMessageLog_def L [symmetric] page_def metas_def nextBefore_def)
  obtain seen' scan' where rows: "log_rows cfg now metas seen scan = (seen', scan')" by fastforce
  have sub: "set L \<subseteq> set (hu_messages h)" by (auto simp: L full_log_def)
  have dist: "distinct (map ms_id L)" using ids by (auto simp: L full_log_def distinct_map inj_on_def)
  have "m \<in> set page \<or> m \<in> set (drop (k + 25) (take logScanBudget L))"
  proof -
    define rest where "rest = drop k (take logScanBudget L)"
    have "set rest = set (take 25 rest) \<union> set (drop 25 rest)"
      by (simp flip: set_append)
    moreover have "drop 25 rest = drop (k + 25) (take logScanBudget L)" unfolding rest_def drop_drop by (simp only: add.commute)
    moreover have "take 25 rest = take (min 25 (logScanBudget - k)) (drop k L)" by (simp add: rest_def drop_take)
    then have "set (take 25 rest) \<subseteq> set page" by (simp add: page_def set_take_subset_set_take)
    moreover have "m \<in> set rest" unfolding rest_def by (rule less.prems(1))
    ultimately show ?thesis by (metis Un_iff subsetD)
  qed
  then have result: "is_allowed scan' \<noteq> [] \<or> m \<in> set (drop (k + 25) (take logScanBudget L)) \<and> ms_id m \<notin> set seen'"
  proof
    assume in_page: "m \<in> set page"
    have "map me_id metas = map ms_id page" by (simp add: metas_def meta_of_def)
    also have "\<dots> = take 25 (drop k (map ms_id L))" by (simp only: page_def take_map drop_map)
    finally have "distinct (map me_id metas)" using dist distinct_take distinct_drop by metis
    moreover have "meta_of stamp m \<in> set metas" using in_page by (simp add: metas_def)
    moreover have "me_id (meta_of stamp m) \<notin> set seen" using less.prems(2) by (simp add: meta_of_def)
    ultimately show ?thesis
      using log_rows_find [of "meta_of stamp m" metas seen cfg now scan] meta_of_eligible [OF m(1)] rows by simp
  next
    assume later: "m \<in> set (drop (k + 25) (take logScanBudget L))"
    have "ms_id m \<notin> ms_id ` set page"
    proof -
      have "L = take (k + 25) L @ drop (k + 25) L" by simp
      then have "set (map ms_id (take (k + 25) L)) \<inter> set (map ms_id (drop (k + 25) L)) = {}"
        using dist by (metis distinct_append map_append)
      moreover have "set page \<subseteq> set (take (k + 25) L)"
        by (metis page_def take_drop add.commute set_drop_subset)
      moreover have "m \<in> set (drop (k + 25) L)"
        using later by (metis drop_take in_set_takeD)
      ultimately show ?thesis by auto
    qed
    moreover have "set seen' \<subseteq> set seen \<union> ms_id ` set page"
      using log_rows_seen [of cfg now metas seen scan] rows by (auto simp: metas_def meta_of_def)
    ultimately show ?thesis using later less.prems(2) by auto
  qed
  have step: "scan_log cfg now ?src k (log_cursor L k) seen scan =
      (if nextBefore \<le> 0 \<or> nextBefore \<ge> log_cursor L k \<and> log_cursor L k > 0 then scan'
       else if is_allowed scan' \<noteq> [] then scan'\<lparr>is_allowed := sortBySeq (is_allowed scan')\<rparr>
       else scan_log cfg now ?src (k + length metas) nextBefore seen' scan')"
    using less.prems(3) src rows page by (subst scan_log.simps) (simp add: metas_def)
  show ?case
  proof (cases "is_allowed scan' = []")
    case False
    have "is_allowed (scan'\<lparr>is_allowed := sortBySeq (is_allowed scan')\<rparr>) \<noteq> []"
      using False by (simp add: sortBySeq_Nil)
    then show ?thesis using False unfolding step by simp
  next
    case True
    then have later: "m \<in> set (drop (k + 25) (take logScanBudget L))" "ms_id m \<notin> set seen'" using result by auto
    then have more_rows: "k + 25 < length L" "k + 25 < logScanBudget" by (auto dest!: length_pos_if_in_set)
    then have full: "length page = 25" by (simp add: page_def)
    have last: "last page = L ! (k + 24)" using more_rows by (simp add: page_def last_conv_nth)
    have cursor: "nextBefore = log_cursor L (k + 25)" by (simp add: nextBefore_def last log_cursor_def add.commute)
    have "L ! (k + 24) \<in> set (hu_messages h)" using more_rows(1) sub nth_mem [of "k + 24" L] by auto
    then have "0 < nextBefore" using pos by (simp add: nextBefore_def last)
    moreover have "\<not> (nextBefore \<ge> log_cursor L k \<and> log_cursor L k > 0)"
    proof (cases k)
      case (Suc j)
      have "ms_seq (L ! (k + 24)) < ms_seq (L ! j)"
        using full_log_descending [OF seqs] more_rows Suc
        unfolding L descending_def sorted_wrt_iff_nth_less by simp
      then show ?thesis using Suc by (simp add: nextBefore_def last log_cursor_def)
    qed (simp add: log_cursor_def)
    ultimately have on: "\<not> (nextBefore \<le> 0 \<or> nextBefore \<ge> log_cursor L k \<and> log_cursor L k > 0)" by force
    have "scan_log cfg now ?src k (log_cursor L k) seen scan
        = scan_log cfg now ?src (k + 25) (log_cursor L (k + 25)) seen' scan'"
      unfolding step if_not_P [OF on] using True full by (simp add: cursor metas_def)
    moreover have "is_allowed (scan_log cfg now ?src (k + 25) (log_cursor L (k + 25)) seen' scan') \<noteq> []"
      by (rule less.hyps) (use more_rows later less.prems(4) in auto)
    ultimately show ?thesis by simp
  qed
qed

lemma fold_classify_allowed:
  "is_allowed (fold (classify cfg) ms scan) = is_allowed scan @ filter (\<lambda>m. SenderAllowed (wc_allow cfg) (me_sender m)) ms"
  by (induction ms arbitrary: scan) (simp_all add: classify_def)


definition demo_bob_config :: wake_config where
  "demo_bob_config = demo_wake_config\<lparr>wc_namespace := ''ns'', wc_address := ''bob'', wc_allow := [''a*'']\<rparr>"


end
