(* ===== verification/ApiGate.thy ===== *)
theory ApiGate
  imports Complex_Main Authz
begin

text \<open>
  The gate of the HTTP interface: API keys and the middleware of \<open>internal/api/auth.go\<close>, the checks of
  long-lived streams in \<open>authz_boundary.go\<close>, and the limits of \<open>limits.go\<close>.  Only the hash of a
  token is stored; SHA-256 is the parameter \<open>sha\<close>.  Parsing of network addresses is a parameter, too.
\<close>

section \<open>API keys\<close>

record api_key =
  ak_id :: nat
  ak_name :: string
  ak_hash :: string
  ak_subject :: string
  ak_created :: instant
  ak_revoked :: "instant option"

record key_table =
  kt_rows :: "api_key list"
  kt_next :: nat

datatype key_error = KeyNameRequired | KeyExists | KeyNotActive string

definition hashToken :: "(string \<Rightarrow> string) \<Rightarrow> string \<Rightarrow> string" where
  "hashToken sha token = sha token"

text \<open>\<open>raw\<close> is the random part in hexadecimal.  Names and hashes are unique in the table.\<close>

definition CreateKey :: "(string \<Rightarrow> string) \<Rightarrow> instant \<Rightarrow> string \<Rightarrow> string \<Rightarrow> string \<Rightarrow> (key_table, key_error, string) op" where
  "CreateKey sha now raw name subject t =
     (if trim_space name = [] then (Inl KeyNameRequired, t)
      else let token = ''prk_'' @ raw in
        if list_ex (\<lambda>k. ak_name k = name \<or> ak_hash k = hashToken sha token) (kt_rows t) then (Inl KeyExists, t)
        else (Inr token, t\<lparr>kt_rows := kt_rows t @ [\<lparr>ak_id = kt_next t, ak_name = name, ak_hash = hashToken sha token,
               ak_subject = subject, ak_created = now, ak_revoked = None\<rparr>], kt_next := Suc (kt_next t)\<rparr>))"

definition revocable :: "string \<Rightarrow> api_key \<Rightarrow> bool" where
  "revocable name k \<longleftrightarrow> ak_name k = name \<and> ak_revoked k = None"

definition RevokeKey :: "instant \<Rightarrow> string \<Rightarrow> (key_table, key_error, unit) op" where
  "RevokeKey now name t =
     (if rows_affected (revocable name) (kt_rows t) = 0 then (Inl (KeyNotActive name), t)
      else (Inr (), t\<lparr>kt_rows := update_where (revocable name) (\<lambda>k. k\<lparr>ak_revoked := Some now\<rparr>) (kt_rows t)\<rparr>))"

definition ActiveCount :: "key_table \<Rightarrow> nat" where
  "ActiveCount t = length (filter (\<lambda>k. ak_revoked k = None) (kt_rows t))"

definition CheckKey :: "(string \<Rightarrow> string) \<Rightarrow> string \<Rightarrow> key_table \<Rightarrow> (nat \<times> string) option" where
  "CheckKey sha token t =
     map_option (\<lambda>k. (ak_id k, ak_subject k))
       (find (\<lambda>k. ak_hash k = hashToken sha token \<and> ak_revoked k = None) (kt_rows t))"

definition KeyActive :: "nat \<Rightarrow> key_table \<Rightarrow> bool" where
  "KeyActive kid t \<longleftrightarrow> kid \<noteq> 0 \<and> list_ex (\<lambda>k. ak_id k = kid \<and> ak_revoked k = None) (kt_rows t)"

section \<open>The middleware\<close>

record http_request =
  rq_method :: string
  rq_path :: string
  rq_raw_path :: string
  rq_authorization :: string
  rq_subject :: string
  rq_key_id :: string
  rq_remote :: string
  rq_forwarded :: string

definition namespacesPrefix :: string where "namespacesPrefix = ''/v1/namespaces/''"

definition namespaceFromPath :: "string \<Rightarrow> string" where
  "namespaceFromPath path =
     (case cut_prefix path namespacesPrefix of
        None \<Rightarrow> []
      | Some rest \<Rightarrow> takeWhile (\<lambda>c. c \<noteq> CHR ''/'') rest)"

definition routePathFor :: "http_request \<Rightarrow> string" where
  "routePathFor r = (if rq_raw_path r \<noteq> [] then rq_raw_path r else rq_path r)"

text \<open>The state the gate reads: the keys, if any are configured, and the grants, if authorization is enforced.\<close>

record gate_state =
  gs_keys :: "key_table option"
  gs_grants :: "grants option"

definition authorizer :: "gate_state \<Rightarrow> grants option" where
  "authorizer g = (case gs_keys g of None \<Rightarrow> None | Some _ \<Rightarrow> gs_grants g)"

definition request_op :: "http_request \<Rightarrow> string" where
  "request_op r = (if rq_method r = ''GET'' \<or> rq_method r = ''HEAD'' then OpRead else OpWrite)"

datatype gate_result = Served http_request | Unauthorized string | Forbidden string string

definition enforceNamespace :: "gate_state \<Rightarrow> http_request \<Rightarrow> string \<Rightarrow> (string \<times> string) option" where
  "enforceNamespace g r subject =
     (case gs_grants g of
        None \<Rightarrow> None
      | Some az \<Rightarrow>
          (let ns = namespaceFromPath (routePathFor r) in
           if ns = [] then None
           else if Allow subject ns (request_op r) az then None
           else Some (request_op r, ns)))"

definition strip_identity :: "http_request \<Rightarrow> http_request" where
  "strip_identity r = r\<lparr>rq_subject := [], rq_key_id := []\<rparr>"

definition bearer :: string where "bearer = ''Bearer ''"

definition authMiddleware :: "(string \<Rightarrow> string) \<Rightarrow> gate_state \<Rightarrow> http_request \<Rightarrow> gate_result" where
  "authMiddleware sha g r0 =
     (let r = strip_identity r0 in
      case gs_keys g of
        None \<Rightarrow> Served r
      | Some t \<Rightarrow>
          if ActiveCount t = 0 then
            (case enforceNamespace g r [] of Some (p, ns) \<Rightarrow> Forbidden p ns | None \<Rightarrow> Served r)
          else (case cut_prefix (rq_authorization r) bearer of
            None \<Rightarrow> Unauthorized ''missing bearer token''
          | Some token \<Rightarrow>
              if token = [] then Unauthorized ''missing bearer token''
              else (case CheckKey sha token t of
                None \<Rightarrow> Unauthorized ''invalid token''
              | Some (kid, subject) \<Rightarrow>
                  (case enforceNamespace g r subject of
                     Some (p, ns) \<Rightarrow> Forbidden p ns
                   | None \<Rightarrow> Served (r\<lparr>rq_subject := subject, rq_key_id := nat_str kid\<rparr>)))))"

section \<open>Streams\<close>

text \<open>\<open>strconv.ParseInt\<close> on the header the middleware set; what does not parse gives zero.\<close>

definition verifiedSubject :: "http_request \<Rightarrow> string" where "verifiedSubject r = rq_subject r"

definition verifiedKeyID :: "http_request \<Rightarrow> nat" where
  "verifiedKeyID r = (if rq_key_id r \<noteq> [] \<and> (\<forall>c \<in> set (rq_key_id r). in_range 48 57 (byte c))
     then nat_val 0 (rq_key_id r) else 0)"

definition allowNS :: "gate_state \<Rightarrow> string \<Rightarrow> string \<Rightarrow> string \<Rightarrow> bool" where
  "allowNS g subject ns p = (case authorizer g of None \<Rightarrow> True | Some az \<Rightarrow> Allow subject ns p az)"

definition credentialActive :: "gate_state \<Rightarrow> nat \<Rightarrow> bool" where
  "credentialActive g kid =
     (if authorizer g = None \<or> kid = 0 then True
      else (case gs_keys g of None \<Rightarrow> True | Some t \<Rightarrow> KeyActive kid t))"

definition streamAllowed :: "gate_state \<Rightarrow> nat \<Rightarrow> string \<Rightarrow> string \<Rightarrow> string \<Rightarrow> bool" where
  "streamAllowed g kid subject ns p \<longleftrightarrow> credentialActive g kid \<and> allowNS g subject ns p"

definition authorizeResolved :: "gate_state \<Rightarrow> http_request \<Rightarrow> string \<Rightarrow> string \<Rightarrow> bool" where
  "authorizeResolved g r ns p = allowNS g (verifiedSubject r) ns p"

definition readableNamespaces :: "gate_state \<Rightarrow> string \<Rightarrow> string list \<Rightarrow> string list" where
  "readableNamespaces g subject namespaces =
     (case authorizer g of None \<Rightarrow> namespaces | Some az \<Rightarrow> filter (\<lambda>ns. Allow subject ns OpRead az) namespaces)"

text \<open>The gate of an MCP session, bound to the key that opened it.\<close>

definition mcpGate_Allow :: "grants \<Rightarrow> key_table \<Rightarrow> nat \<Rightarrow> string \<Rightarrow> string \<Rightarrow> string \<Rightarrow> bool" where
  "mcpGate_Allow az t kid subject ns p =
     (if kid \<noteq> 0 \<and> \<not> KeyActive kid t then False else Allow subject ns p az)"

section \<open>Limits\<close>

record limits =
  li_body :: int
  li_rps :: rat
  li_burst :: int
  li_streams :: int
  li_ip_streams :: int

definition limits_withDefaults :: "limits \<Rightarrow> limits" where
  "limits_withDefaults l = l
     \<lparr>li_body := (if li_body l \<le> 0 then 8 * 2 ^ 20 else li_body l),
      li_rps := (if li_rps l \<le> 0 then 50 else li_rps l),
      li_burst := (if li_burst l \<le> 0 then 100 else li_burst l),
      li_streams := (if li_streams l \<le> 0 then 4 else li_streams l),
      li_ip_streams := (if li_ip_streams l \<le> 0 then 256 else li_ip_streams l)\<rparr>"

text \<open>The cap on a request's body: unlimited for a method without one, refused when the declared length is too
  large, and otherwise cut at the limit while it is read.\<close>

datatype body_result = BodyUncapped | BodyTooLarge | BodyCapped int

definition bodyLimit :: "limits \<Rightarrow> string \<Rightarrow> int \<Rightarrow> body_result" where
  "bodyLimit l meth content_length =
     (if meth \<notin> {''POST'', ''PUT'', ''PATCH''} then BodyUncapped
      else if content_length > li_body l then BodyTooLarge
      else BodyCapped (li_body l))"

text \<open>The map of the limiter holds no entry for a key without slots.\<close>

record limiter =
  lm_limit :: int
  lm_active :: "string \<Rightarrow> nat option"

definition newConcurrencyLimiter :: "int \<Rightarrow> limiter" where
  "newConcurrencyLimiter limit = \<lparr>lm_limit = (if limit \<le> 0 then 4 else limit), lm_active = Map.empty\<rparr>"

definition inUse :: "limiter \<Rightarrow> string \<Rightarrow> nat" where
  "inUse c key = (case lm_active c key of None \<Rightarrow> 0 | Some n \<Rightarrow> n)"

definition acquireSlot :: "string \<Rightarrow> limiter \<Rightarrow> bool \<times> limiter" where
  "acquireSlot key c =
     (if int (inUse c key) \<ge> lm_limit c then (False, c)
      else (True, c\<lparr>lm_active := (lm_active c)(key \<mapsto> inUse c key + 1)\<rparr>))"

definition releaseSlot :: "string \<Rightarrow> limiter \<Rightarrow> limiter" where
  "releaseSlot key c =
     (if inUse c key > 1 then c\<lparr>lm_active := (lm_active c)(key \<mapsto> inUse c key - 1)\<rparr>
      else c\<lparr>lm_active := (lm_active c)(key := None)\<rparr>)"

definition InboxStreamKey :: "string \<Rightarrow> string \<Rightarrow> string \<Rightarrow> string" where
  "InboxStreamKey subject ns agent = subject @ [CHR 0x00] @ ns @ [CHR 0x00] @ agent"

record stream_caps =
  cap_inbox :: limiter
  cap_ip :: limiter

text \<open>A stream's slots: the key of its inbox and its address; both empty when nothing is held.\<close>

definition acquireStream :: "string \<Rightarrow> string \<Rightarrow> stream_caps \<Rightarrow> (string \<times> string) option \<times> stream_caps" where
  "acquireStream inboxKey ipKey s =
     (case acquireSlot inboxKey (cap_inbox s) of
        (False, _) \<Rightarrow> (None, s)
      | (True, inbox) \<Rightarrow>
          (case acquireSlot ipKey (cap_ip s) of
             (False, _) \<Rightarrow> (None, s\<lparr>cap_inbox := releaseSlot inboxKey inbox\<rparr>)
           | (True, ip) \<Rightarrow> (Some (inboxKey, ipKey), \<lparr>cap_inbox = inbox, cap_ip = ip\<rparr>)))"

definition releaseStream :: "string \<times> string \<Rightarrow> stream_caps \<Rightarrow> stream_caps" where
  "releaseStream sl s =
     (let s1 = (if snd sl \<noteq> [] then s\<lparr>cap_ip := releaseSlot (snd sl) (cap_ip s)\<rparr> else s)
      in if fst sl \<noteq> [] then s1\<lparr>cap_inbox := releaseSlot (fst sl) (cap_inbox s1)\<rparr> else s1)"

text \<open>\<open>net.SplitHostPort\<close>, \<open>net.ParseIP\<close> and the trusted networks are parameters.\<close>

definition clientIP :: "(string \<Rightarrow> string option) \<Rightarrow> string \<Rightarrow> string" where
  "clientIP split_host remote = (case split_host remote of Some host \<Rightarrow> host | None \<Rightarrow> remote)"

fun forwarded_client :: "(string \<Rightarrow> 'ip option) \<Rightarrow> ('ip \<Rightarrow> bool) \<Rightarrow> string \<Rightarrow> string list \<Rightarrow> string" where
  "forwarded_client parse_ip trusted peer [] = peer"
| "forwarded_client parse_ip trusted peer (part # parts) =
     (case parse_ip (trim_space part) of
        None \<Rightarrow> forwarded_client parse_ip trusted peer parts
      | Some ip \<Rightarrow> if trusted ip then forwarded_client parse_ip trusted peer parts else trim_space part)"

definition effectiveClientIP ::
  "(string \<Rightarrow> string option) \<Rightarrow> (string \<Rightarrow> 'ip option) \<Rightarrow> ('ip \<Rightarrow> bool) \<Rightarrow> http_request \<Rightarrow> string" where
  "effectiveClientIP split_host parse_ip trusted r =
     (let peer = clientIP split_host (rq_remote r) in
      case parse_ip peer of
        None \<Rightarrow> peer
      | Some ip \<Rightarrow>
          if \<not> trusted ip then peer
          else forwarded_client parse_ip trusted peer (rev (split_byte CHR '','' (rq_forwarded r))))"

section \<open>Who gets through\<close>

text \<open>The contract of the gate, over what holds of the keys and grants instead of the steps that look
  it up.\<close>

definition ns_open :: "gate_state \<Rightarrow> http_request \<Rightarrow> string \<Rightarrow> bool" where
  "ns_open g r subject \<longleftrightarrow>
     (\<forall>az. gs_grants g = Some az \<longrightarrow> namespaceFromPath (routePathFor r) \<noteq> [] \<longrightarrow>
        Allow subject (namespaceFromPath (routePathFor r)) (request_op r) az)"

lemma enforceNamespace_None: "enforceNamespace g r subject = None \<longleftrightarrow> ns_open g r subject"
  by (auto simp: enforceNamespace_def ns_open_def Let_def split: option.splits)

lemma strip_identity_simps [simp]:
  "routePathFor (strip_identity r) = routePathFor r" "request_op (strip_identity r) = request_op r"
  "rq_authorization (strip_identity r) = rq_authorization r"
  by (simp_all add: strip_identity_def routePathFor_def request_op_def)

lemma ns_open_strip [simp]: "ns_open g (strip_identity r) subject = ns_open g r subject"
  by (simp add: ns_open_def)

definition live_key :: "key_table \<Rightarrow> api_key \<Rightarrow> bool" where
  "live_key t k \<longleftrightarrow> k \<in> set (kt_rows t) \<and> ak_revoked k = None"

definition keys_ok :: "key_table \<Rightarrow> bool" where
  "keys_ok t \<longleftrightarrow> distinct (map ak_hash (kt_rows t)) \<and> distinct (map ak_id (kt_rows t))
     \<and> (\<forall>k \<in> set (kt_rows t). 0 < ak_id k \<and> ak_id k < kt_next t) \<and> 0 < kt_next t"

lemma CheckKey_iff:
  assumes "keys_ok t"
  shows "CheckKey sha token t = Some (kid, subject) \<longleftrightarrow>
    (\<exists>k. live_key t k \<and> ak_hash k = sha token \<and> ak_id k = kid \<and> ak_subject k = subject)"
proof
  assume "CheckKey sha token t = Some (kid, subject)"
  then show "\<exists>k. live_key t k \<and> ak_hash k = sha token \<and> ak_id k = kid \<and> ak_subject k = subject"
    by (auto simp: CheckKey_def live_key_def hashToken_def find_Some_iff) (metis nth_mem)
next
  assume "\<exists>k. live_key t k \<and> ak_hash k = sha token \<and> ak_id k = kid \<and> ak_subject k = subject"
  then obtain k where k: "k \<in> set (kt_rows t)" "ak_revoked k = None" "ak_hash k = sha token" "ak_id k = kid" "ak_subject k = subject"
    by (auto simp: live_key_def)
  then obtain k' where k': "find (\<lambda>k. ak_hash k = hashToken sha token \<and> ak_revoked k = None) (kt_rows t) = Some k'"
    by (fastforce simp: hashToken_def find_None_iff dest: not_None_eq [THEN iffD1])
  then have "k' \<in> set (kt_rows t)" "ak_hash k' = sha token" by (auto simp: find_Some_iff hashToken_def)
  moreover have "inj_on ak_hash (set (kt_rows t))" using assms by (simp add: keys_ok_def distinct_map)
  ultimately have "k' = k" using k by (metis inj_onD)
  then show "CheckKey sha token t = Some (kid, subject)" using k k' by (simp add: CheckKey_def)
qed

lemma ActiveCount_0: "ActiveCount t = 0 \<longleftrightarrow> (\<forall>k. \<not> live_key t k)"
  by (auto simp: ActiveCount_def live_key_def filter_empty_conv)

lemma cut_prefix_Some: "cut_prefix s p = Some u \<longleftrightarrow> s = p @ u"
  by (auto simp: cut_prefix_def has_prefix_append)

text \<open>C5: the gate serves exactly the requests it should, and names their caller itself.  A request reaches a
  handler in one of three cases: no keys are configured; no key is active and the namespace of its path is
  open to nobody in particular; or it carries the token of an active key whose subject may do what the
  method means on that namespace.  The identity a handler reads is then that of the key, and empty in the first two
  cases, whatever the request claimed.\<close>

theorem auth_gate_exact:
  assumes "\<And>t. gs_keys g = Some t \<Longrightarrow> keys_ok t"
  shows "authMiddleware sha g r = Served r' \<longleftrightarrow>
    (gs_keys g = None \<and> r' = strip_identity r)
    \<or> (\<exists>t. gs_keys g = Some t \<and> (\<forall>k. \<not> live_key t k) \<and> ns_open g r [] \<and> r' = strip_identity r)
    \<or> (\<exists>t k token. gs_keys g = Some t \<and> live_key t k \<and> token \<noteq> [] \<and> rq_authorization r = bearer @ token
        \<and> ak_hash k = sha token \<and> ns_open g r (ak_subject k)
        \<and> r' = r\<lparr>rq_subject := ak_subject k, rq_key_id := nat_str (ak_id k)\<rparr>)"
proof (cases "gs_keys g")
  case None
  then show ?thesis by (auto simp: authMiddleware_def Let_def)
next
  case (Some t)
  have ok: "keys_ok t" by (rule assms [OF Some])
  show ?thesis
  proof (cases "ActiveCount t = 0")
    case True
    then show ?thesis
      using Some enforceNamespace_None [of g "strip_identity r" "[]"] ActiveCount_0 [of t]
      by (auto simp: authMiddleware_def Let_def split: option.splits)
  next
    case False
    have "authMiddleware sha g r = Served r' \<longleftrightarrow> (\<exists>token kid subject. rq_authorization r = bearer @ token
        \<and> token \<noteq> [] \<and> CheckKey sha token t = Some (kid, subject) \<and> ns_open g r subject
        \<and> r' = (strip_identity r)\<lparr>rq_subject := subject, rq_key_id := nat_str kid\<rparr>)"
    proof (cases "cut_prefix (rq_authorization r) bearer")
      case None
      then have "\<nexists>token. rq_authorization r = bearer @ token" by (metis cut_prefix_Some option.distinct(1))
      then show ?thesis using False Some None by (simp add: authMiddleware_def Let_def)
    next
      case token: (Some token)
      then have auth: "rq_authorization r = bearer @ token" by (simp add: cut_prefix_Some)
      have "enforceNamespace g (strip_identity r) subject = None \<longleftrightarrow> ns_open g r subject" for subject
        by (simp add: enforceNamespace_None)
      then show ?thesis
        using False Some token
        by (auto simp: authMiddleware_def Let_def auth split: option.splits) (metis option.distinct(1))
    qed
    moreover have "(strip_identity r)\<lparr>rq_subject := s, rq_key_id := i\<rparr> = r\<lparr>rq_subject := s, rq_key_id := i\<rparr>" for s i
      by (simp add: strip_identity_def)
    moreover have "\<not> (\<forall>k. \<not> live_key t k)" using False unfolding ActiveCount_0 .
    ultimately show ?thesis using Some CheckKey_iff [OF ok] by auto
  qed
qed

section \<open>Revocation\<close>

datatype key_op = CreateOp instant string string string | RevokeKeyOp instant string

fun key_do :: "(string \<Rightarrow> string) \<Rightarrow> key_op \<Rightarrow> key_table \<Rightarrow> key_table" where
  "key_do sha (CreateOp now raw name subject) t = snd (CreateKey sha now raw name subject t)"
| "key_do sha (RevokeKeyOp now name) t = snd (RevokeKey now name t)"

definition no_keys :: key_table where "no_keys = \<lparr>kt_rows = [], kt_next = 1\<rparr>"

definition keys_run :: "(string \<Rightarrow> string) \<Rightarrow> key_op list \<Rightarrow> key_table \<Rightarrow> key_table" where
  "keys_run sha ops t = fold (key_do sha) ops t"

definition revoke_row :: "instant \<Rightarrow> string \<Rightarrow> api_key \<Rightarrow> api_key" where
  "revoke_row now name k = (if revocable name k then k\<lparr>ak_revoked := Some now\<rparr> else k)"

lemma key_do_rows:
  "(\<exists>k. kt_rows (key_do sha op t) = kt_rows t @ [k] \<and> ak_id k = kt_next t \<and> ak_hash k \<notin> ak_hash ` set (kt_rows t)
      \<and> kt_next (key_do sha op t) = Suc (kt_next t))
   \<or> (\<exists>now name. kt_rows (key_do sha op t) = map (revoke_row now name) (kt_rows t) \<and> kt_next (key_do sha op t) = kt_next t)
   \<or> key_do sha op t = t"
proof (cases op)
  case (CreateOp now raw name subject)
  then show ?thesis by (auto simp: CreateKey_def Let_def list_ex_iff)
next
  case (RevokeKeyOp now name)
  then have "key_do sha op t = t \<or> kt_rows (key_do sha op t) = map (revoke_row now name) (kt_rows t)
      \<and> kt_next (key_do sha op t) = kt_next t"
    by (auto simp: RevokeKey_def update_where_def revoke_row_def)
  then show ?thesis by blast
qed

lemma revoke_row_parts [simp]: "ak_id (revoke_row now name k) = ak_id k" "ak_hash (revoke_row now name k) = ak_hash k"
  by (simp_all add: revoke_row_def)

lemma key_do_ok: "keys_ok t \<Longrightarrow> keys_ok (key_do sha op t)"
  using key_do_rows [of sha op t] by (fastforce simp: keys_ok_def comp_def)

lemma keys_run_ok: "keys_ok t \<Longrightarrow> keys_ok (keys_run sha ops t)"
  unfolding keys_run_def by (induction ops arbitrary: t) (simp_all add: key_do_ok)

lemma no_keys_ok: "keys_ok no_keys"
  by (simp add: keys_ok_def no_keys_def)

lemma revoked_row_stays: "k \<in> set (kt_rows t) \<Longrightarrow> ak_revoked k \<noteq> None \<Longrightarrow> k \<in> set (kt_rows (keys_run sha ops t))"
  unfolding keys_run_def
proof (induction ops arbitrary: t)
  case (Cons op ops)
  have fixed: "revoke_row now name k = k" for now name using Cons.prems by (simp add: revoke_row_def revocable_def)
  consider k' where "kt_rows (key_do sha op t) = kt_rows t @ [k']"
    | now name where "kt_rows (key_do sha op t) = map (revoke_row now name) (kt_rows t)"
    | "key_do sha op t = t"
    using key_do_rows [of sha op t] by blast
  then have "k \<in> set (kt_rows (key_do sha op t))"
  proof cases
    case (2 now name)
    have "revoke_row now name k \<in> set (map (revoke_row now name) (kt_rows t))" using Cons.prems(1) by simp
    then show ?thesis unfolding 2 fixed .
  qed (use Cons.prems(1) in simp_all)
  then show ?case using Cons by simp
qed simp

text \<open>A revoked key is dead for good.  Whatever keys are created and revoked afterwards, its token finds no key, its
  identity is not active, no delivery on a stream or an MCP session it opened is allowed while authorization is
  enforced, and a request with its token gets through only if no key at all is active.\<close>

lemma revoked_key_dead:
  assumes "k \<in> set (kt_rows (keys_run sha ops no_keys))" "ak_revoked k \<noteq> None" "sha token = ak_hash k" "token \<noteq> []"
    and t': "t' = keys_run sha later (keys_run sha ops no_keys)"
  shows "CheckKey sha token t' = None \<and> \<not> KeyActive (ak_id k) t'
    \<and> \<not> streamAllowed \<lparr>gs_keys = Some t', gs_grants = Some az\<rparr> (ak_id k) subject ns p
    \<and> \<not> mcpGate_Allow az t' (ak_id k) subject ns p
    \<and> (\<forall>r r' grants. rq_authorization r = bearer @ token \<longrightarrow>
         authMiddleware sha \<lparr>gs_keys = Some t', gs_grants = grants\<rparr> r = Served r' \<longrightarrow> ActiveCount t' = 0)"
proof -
  have ok: "keys_ok t'" unfolding t' by (intro keys_run_ok no_keys_ok)
  have k: "k \<in> set (kt_rows t')" unfolding t' by (rule revoked_row_stays [OF assms(1,2)])
  have same_hash: "k' = k" if "k' \<in> set (kt_rows t')" "ak_hash k' = ak_hash k" for k'
    using ok k that by (auto simp: keys_ok_def distinct_map inj_on_def)
  have same_id: "k' = k" if "k' \<in> set (kt_rows t')" "ak_id k' = ak_id k" for k'
    using ok k that by (auto simp: keys_ok_def distinct_map inj_on_def)
  have check: "CheckKey sha token t' = None"
  proof (rule ccontr)
    assume "CheckKey sha token t' \<noteq> None"
    then obtain i s where "CheckKey sha token t' = Some (i, s)" by auto
    then obtain k' where k': "live_key t' k'" "ak_hash k' = sha token" using CheckKey_iff [OF ok] by blast
    then have "k' = k" using same_hash assms(3) by (simp add: live_key_def)
    then show False using k'(1) assms(2) by (simp add: live_key_def)
  qed
  moreover have dead: "\<not> KeyActive (ak_id k) t'"
    using same_id assms(2) by (auto simp: KeyActive_def list_ex_iff)
  moreover have "ak_id k \<noteq> 0" using ok k by (auto simp: keys_ok_def)
  then have "\<not> streamAllowed \<lparr>gs_keys = Some t', gs_grants = Some az\<rparr> (ak_id k) subject ns p"
    "\<not> mcpGate_Allow az t' (ak_id k) subject ns p"
    using dead by (simp_all add: streamAllowed_def credentialActive_def authorizer_def mcpGate_Allow_def)
  moreover have "ActiveCount t' = 0"
    if "rq_authorization r = bearer @ token" "authMiddleware sha \<lparr>gs_keys = Some t', gs_grants = grants\<rparr> r = Served r'"
    for r r' grants
    using that check assms(4) cut_prefix_Some [of "rq_authorization r" bearer token]
    by (auto simp: authMiddleware_def Let_def split: if_splits)
  ultimately show ?thesis by blast
qed

text \<open>Revoking the last key opens the gate.  With authorization not enforced, once the only active key is revoked
  every request is served without any credential, and so is one that still carries the revoked token.\<close>

lemma last_key_reopens:
  assumes "gs_keys g = Some t" "gs_grants g = None" "\<And>k. live_key t k \<Longrightarrow> ak_name k = name"
    and "RevokeKey now name t = (Inr u, t')"
  shows "authMiddleware sha (g\<lparr>gs_keys := Some t'\<rparr>) r = Served (strip_identity r)"
proof -
  have rows: "kt_rows t' = map (revoke_row now name) (kt_rows t)"
    using assms(4) by (auto simp: RevokeKey_def update_where_def revoke_row_def split: if_splits)
  have "ak_revoked (revoke_row now name k) \<noteq> None" if "k \<in> set (kt_rows t)" for k
    using assms(3) [of k] that by (cases "ak_revoked k") (auto simp: revoke_row_def revocable_def live_key_def)
  then have "ActiveCount t' = 0" by (auto simp: ActiveCount_0 live_key_def rows)
  then show ?thesis using assms(2) by (simp add: authMiddleware_def Let_def enforceNamespace_def)
qed

section \<open>Stream slots\<close>

text \<open>Streams opened and closed in any order; a stream that was refused holds nothing.\<close>

datatype stream_op = OpenStream string string | CloseStream nat

record stream_world =
  sw_caps :: stream_caps
  sw_open :: "(string \<times> string) list"

fun stream_do :: "stream_op \<Rightarrow> stream_world \<Rightarrow> stream_world" where
  "stream_do (OpenStream inboxKey ipKey) w =
     (case acquireStream inboxKey ipKey (sw_caps w) of
        (None, caps) \<Rightarrow> w\<lparr>sw_caps := caps\<rparr>
      | (Some sl, caps) \<Rightarrow> \<lparr>sw_caps = caps, sw_open = sw_open w @ [sl]\<rparr>)"
| "stream_do (CloseStream i) w =
     (if i < length (sw_open w)
      then \<lparr>sw_caps = releaseStream (sw_open w ! i) (sw_caps w), sw_open = take i (sw_open w) @ drop (Suc i) (sw_open w)\<rparr>
      else w)"

definition newStreams :: "limits \<Rightarrow> stream_world" where
  "newStreams l = \<lparr>sw_caps = \<lparr>cap_inbox = newConcurrencyLimiter (li_streams l), cap_ip = newConcurrencyLimiter (li_ip_streams l)\<rparr>,
     sw_open = []\<rparr>"

definition limiter_holds :: "string list \<Rightarrow> limiter \<Rightarrow> bool" where
  "limiter_holds held c \<longleftrightarrow> 0 < lm_limit c
     \<and> (\<forall>key. lm_active c key = (if key \<in> set held then Some (count_list held key) else None)
          \<and> int (count_list held key) \<le> lm_limit c)"

lemma count_list_pos: "key \<in> set held \<longleftrightarrow> 0 < count_list held key"
  by (metis count_list_0_iff gr0I less_numeral_extra(3))

lemma inUse_holds: "limiter_holds held c \<Longrightarrow> inUse c key = count_list held key"
  by (auto simp: limiter_holds_def inUse_def count_notin)

lemma acquire_holds:
  assumes "limiter_holds held c" "acquireSlot key c = (True, c')"
  shows "limiter_holds (held @ [key]) c'"
  using assms inUse_holds [OF assms(1), of key]
  by (auto simp: acquireSlot_def limiter_holds_def split: if_splits)

lemma release_holds:
  assumes "limiter_holds (xs @ key # ys) c"
  shows "limiter_holds (xs @ ys) (releaseSlot key c)"
proof -
  have use: "inUse c key = Suc (count_list (xs @ ys) key)" using inUse_holds [OF assms, of key] by simp
  have other: "lm_active c k = (if k \<in> set (xs @ ys) then Some (count_list (xs @ ys) k) else None)"
    "int (count_list (xs @ ys) k) \<le> lm_limit c" if "k \<noteq> key" for k
    using assms that by (auto simp: limiter_holds_def split: if_splits)
  have cap: "int (Suc (count_list (xs @ ys) key)) \<le> lm_limit c" "0 < lm_limit c"
    using assms by (auto simp: limiter_holds_def dest: spec [of _ key])
  show ?thesis
    using use other cap count_list_pos [of key "xs @ ys"]
    by (auto simp: limiter_holds_def releaseSlot_def)
qed

fun with_address :: "stream_op \<Rightarrow> bool" where
  "with_address (OpenStream inboxKey ipKey) = (inboxKey \<noteq> [] \<and> ipKey \<noteq> [])"
| "with_address (CloseStream i) = True"

definition streams_ok :: "stream_world \<Rightarrow> bool" where
  "streams_ok w \<longleftrightarrow> limiter_holds (map fst (sw_open w)) (cap_inbox (sw_caps w))
     \<and> limiter_holds (map snd (sw_open w)) (cap_ip (sw_caps w))
     \<and> (\<forall>sl \<in> set (sw_open w). fst sl \<noteq> [] \<and> snd sl \<noteq> [])"

lemma stream_do_ok:
  assumes ok: "streams_ok w" and op: "with_address op"
  shows "streams_ok (stream_do op w)"
proof (cases op)
  case (OpenStream a b)
  let ?i = "cap_inbox (sw_caps w)" and ?p = "cap_ip (sw_caps w)"
  show ?thesis
  proof (cases "acquireSlot a ?i")
    case got: (Pair x inbox)
    show ?thesis
    proof (cases x)
      case False
      then show ?thesis using ok OpenStream got by (simp add: acquireStream_def)
    next
      case True
      have held: "limiter_holds (map fst (sw_open w) @ [a]) inbox"
        using acquire_holds [of "map fst (sw_open w)" ?i a inbox] ok got True by (simp add: streams_ok_def)
      show ?thesis
      proof (cases "acquireSlot b ?p")
        case ip: (Pair y addr)
        show ?thesis
        proof (cases y)
          case False
          then have "stream_do op w = w\<lparr>sw_caps := (sw_caps w)\<lparr>cap_inbox := releaseSlot a inbox\<rparr>\<rparr>"
            using OpenStream got True ip by (simp add: acquireStream_def)
          moreover have "limiter_holds (map fst (sw_open w)) (releaseSlot a inbox)"
            using release_holds [of "map fst (sw_open w)" a "[]" inbox] held by simp
          ultimately show ?thesis using ok by (simp add: streams_ok_def)
        next
          case acquired: True
          then have "stream_do op w = \<lparr>sw_caps = \<lparr>cap_inbox = inbox, cap_ip = addr\<rparr>, sw_open = sw_open w @ [(a, b)]\<rparr>"
            using OpenStream got True ip by (simp add: acquireStream_def)
          moreover have "limiter_holds (map snd (sw_open w) @ [b]) addr"
            using acquire_holds [of "map snd (sw_open w)" ?p b addr] ok ip acquired by (simp add: streams_ok_def)
          ultimately show ?thesis using ok held op OpenStream by (auto simp: streams_ok_def)
        qed
      qed
    qed
  qed
next
  case (CloseStream i)
  show ?thesis
  proof (cases "i < length (sw_open w)")
    case True
    define sl where "sl = sw_open w ! i"
    define before where "before = take i (sw_open w)"
    define after where "after = drop (Suc i) (sw_open w)"
    have split: "sw_open w = before @ sl # after"
      unfolding before_def sl_def after_def by (rule id_take_nth_drop [OF True])
    have names: "fst sl \<noteq> []" "snd sl \<noteq> []" using ok split by (auto simp: streams_ok_def)
    have "stream_do op w = \<lparr>sw_caps = (sw_caps w)\<lparr>cap_ip := releaseSlot (snd sl) (cap_ip (sw_caps w)),
        cap_inbox := releaseSlot (fst sl) (cap_inbox (sw_caps w))\<rparr>, sw_open = before @ after\<rparr>"
      using CloseStream True names by (simp add: releaseStream_def Let_def sl_def before_def after_def)
    moreover have "limiter_holds (map fst (before @ after)) (releaseSlot (fst sl) (cap_inbox (sw_caps w)))"
      "limiter_holds (map snd (before @ after)) (releaseSlot (snd sl) (cap_ip (sw_caps w)))"
      using ok split release_holds [of "map fst before" "fst sl" "map fst after"]
        release_holds [of "map snd before" "snd sl" "map snd after"] by (auto simp: streams_ok_def)
    moreover have "\<forall>x \<in> set (before @ after). fst x \<noteq> [] \<and> snd x \<noteq> []"
      using ok split by (auto simp: streams_ok_def)
    ultimately show ?thesis by (simp add: streams_ok_def)
  next
    case False
    then show ?thesis using ok CloseStream by simp
  qed
qed

definition stream_run :: "limits \<Rightarrow> stream_op list \<Rightarrow> stream_world" where
  "stream_run l ops = fold stream_do ops (newStreams l)"

lemma stream_run_ok: "list_all with_address ops \<Longrightarrow> streams_ok (stream_run l ops)"
proof -
  have "streams_ok (newStreams l)"
    by (simp add: streams_ok_def newStreams_def limiter_holds_def newConcurrencyLimiter_def)
  moreover have "streams_ok w \<Longrightarrow> list_all with_address ops \<Longrightarrow> streams_ok (fold stream_do ops w)" for w
    by (induction ops arbitrary: w) (simp_all add: stream_do_ok)
  ultimately show "list_all with_address ops \<Longrightarrow> streams_ok (stream_run l ops)" by (simp add: stream_run_def)
qed

lemma stream_do_limits: "lm_limit (cap_inbox (sw_caps (stream_do op w))) = lm_limit (cap_inbox (sw_caps w))
    \<and> lm_limit (cap_ip (sw_caps (stream_do op w))) = lm_limit (cap_ip (sw_caps w))"
  by (cases op) (auto simp: acquireStream_def acquireSlot_def releaseSlot_def releaseStream_def Let_def split: prod.splits)

lemma stream_run_limits: "lm_limit (cap_inbox (sw_caps (stream_run l ops))) = (if li_streams l \<le> 0 then 4 else li_streams l)
    \<and> lm_limit (cap_ip (sw_caps (stream_run l ops))) = (if li_ip_streams l \<le> 0 then 4 else li_ip_streams l)"
proof -
  have "lm_limit (cap_inbox (sw_caps (fold stream_do ops w))) = lm_limit (cap_inbox (sw_caps w))
      \<and> lm_limit (cap_ip (sw_caps (fold stream_do ops w))) = lm_limit (cap_ip (sw_caps w))" for w
    by (induction ops arbitrary: w) (simp_all add: stream_do_limits)
  then show ?thesis by (simp add: stream_run_def newStreams_def newConcurrencyLimiter_def)
qed

text \<open>The stream caps hold and no slot leaks.  However streams are opened, refused and closed, the limiters count
  exactly the streams that are open, per inbox and per address; no inbox and no address is over its cap; and when
  the last stream of a key is closed nothing of it is left.\<close>

lemma stream_slots_exact:
  assumes "list_all with_address ops" and w: "w = stream_run (limits_withDefaults l) ops"
  shows "inUse (cap_inbox (sw_caps w)) key = length (filter (\<lambda>sl. fst sl = key) (sw_open w))
    \<and> inUse (cap_ip (sw_caps w)) key = length (filter (\<lambda>sl. snd sl = key) (sw_open w))
    \<and> int (inUse (cap_inbox (sw_caps w)) key) \<le> li_streams (limits_withDefaults l)
    \<and> int (inUse (cap_ip (sw_caps w)) key) \<le> li_ip_streams (limits_withDefaults l)
    \<and> (sw_open w = [] \<longrightarrow> lm_active (cap_inbox (sw_caps w)) = Map.empty \<and> lm_active (cap_ip (sw_caps w)) = Map.empty)"
proof -
  have ok: "limiter_holds (map fst (sw_open w)) (cap_inbox (sw_caps w))" "limiter_holds (map snd (sw_open w)) (cap_ip (sw_caps w))"
    using stream_run_ok [OF assms(1)] unfolding w by (simp_all add: streams_ok_def)
  have count: "count_list (map f xs) key = length (filter (\<lambda>x. f x = key) xs)" for f :: "string \<times> string \<Rightarrow> string" and xs
    by (induction xs) auto
  have caps: "lm_limit (cap_inbox (sw_caps w)) = li_streams (limits_withDefaults l)"
    "lm_limit (cap_ip (sw_caps w)) = li_ip_streams (limits_withDefaults l)"
    using stream_run_limits [of "limits_withDefaults l" ops] unfolding w by (auto simp: limits_withDefaults_def)
  have "int (count_list (map fst (sw_open w)) key) \<le> lm_limit (cap_inbox (sw_caps w))"
    "int (count_list (map snd (sw_open w)) key) \<le> lm_limit (cap_ip (sw_caps w))"
    using ok by (simp_all add: limiter_holds_def)
  moreover have "lm_active (cap_inbox (sw_caps w)) = Map.empty \<and> lm_active (cap_ip (sw_caps w)) = Map.empty"
    if "sw_open w = []"
    using ok that by (auto simp: limiter_holds_def intro!: ext)
  ultimately show ?thesis
    unfolding inUse_holds [OF ok(1), of key] inUse_holds [OF ok(2), of key] caps count [of fst] count [of snd] by blast
qed

section \<open>The client's address\<close>

lemma forwarded_client_found:
  "\<exists>part \<in> set parts. \<exists>ip. parse_ip (trim_space part) = Some ip \<and> \<not> trusted ip
   \<Longrightarrow> forwarded_client parse_ip trusted peer (parts @ more_parts) = forwarded_client parse_ip trusted peer parts"
  by (induction parts) (auto split: option.splits)

lemma split_byte_join: "split_byte d (s @ d # t) = split_byte d s @ split_byte d t"
proof (induction s)
  case Nil
  then show ?case by simp
next
  case (Cons c s)
  then show ?case
    by (cases "split_byte d s") (auto split: list.splits)
qed

text \<open>A client cannot choose its address.  From a peer that is no trusted proxy the forwarding header is ignored.
  From a trusted one, whatever a client put at the front of the header changes nothing once the proxies appended
  the address of a host that is not one of them.\<close>

lemma client_ip_unspoofable:
  assumes peer: "clientIP split_host (rq_remote r) = peer"
  shows "(parse_ip peer = Some ip \<and> \<not> trusted ip \<longrightarrow> effectiveClientIP split_host parse_ip trusted r = peer)
    \<and> ((\<exists>part \<in> set (split_byte CHR '','' honest). \<exists>ip. parse_ip (trim_space part) = Some ip \<and> \<not> trusted ip) \<longrightarrow>
         effectiveClientIP split_host parse_ip trusted (r\<lparr>rq_forwarded := forged @ '','' @ honest\<rparr>)
         = effectiveClientIP split_host parse_ip trusted (r\<lparr>rq_forwarded := honest\<rparr>))"
proof -
  have "forwarded_client parse_ip trusted peer (rev (split_byte CHR '','' (forged @ '','' @ honest)))
      = forwarded_client parse_ip trusted peer (rev (split_byte CHR '','' honest))"
    if "\<exists>part \<in> set (split_byte CHR '','' honest). \<exists>ip. parse_ip (trim_space part) = Some ip \<and> \<not> trusted ip"
    using forwarded_client_found [of "rev (split_byte CHR '','' honest)" parse_ip trusted peer] that
    by (simp add: split_byte_join)
  then show ?thesis using peer by (auto simp: effectiveClientIP_def Let_def split: option.splits)
qed

section \<open>Examples\<close>

definition demo_api_key :: "instant option \<Rightarrow> api_key" where
  "demo_api_key revoked = \<lparr>ak_id = 1, ak_name = ''n'', ak_hash = ''prk_r'', ak_subject = ''s'', ak_created = 1, ak_revoked = revoked\<rparr>"

definition demo_keys :: "instant option \<Rightarrow> key_table" where
  "demo_keys revoked = \<lparr>kt_rows = [demo_api_key revoked], kt_next = 2\<rparr>"

definition demo_request :: http_request where
  "demo_request = \<lparr>rq_method = ''GET'', rq_path = ''/v1/tasks'', rq_raw_path = [], rq_authorization = bearer @ ''prk_r'',
     rq_subject = ''forged'', rq_key_id = ''9'', rq_remote = ''1'', rq_forwarded = []\<rparr>"

lemma demo_created: "key_do id (CreateOp 1 ''r'' ''n'' ''s'') no_keys = demo_keys None"
proof -
  have "trim_space ''n'' = ''n''" by (rule trim_space_plain) (simp add: graphic_def in_range_def byte_def)
  then show ?thesis by (simp add: CreateKey_def Let_def no_keys_def demo_keys_def demo_api_key_def hashToken_def)
qed

lemma demo_revoked: "key_do id (RevokeKeyOp 2 ''n'') (demo_keys None) = demo_keys (Some 2)"
  by (simp add: RevokeKey_def demo_keys_def demo_api_key_def revocable_def rows_affected_def update_where_def)

lemma demo_keys_ok: "keys_ok (demo_keys x)"
  by (simp add: keys_ok_def demo_keys_def demo_api_key_def)

theorem auth_gate_exact_witness:
  "authMiddleware id \<lparr>gs_keys = Some (demo_keys None), gs_grants = None\<rparr> demo_request
   = Served (demo_request\<lparr>rq_subject := ''s'', rq_key_id := nat_str 1\<rparr>)"
proof (rule iffD2 [OF auth_gate_exact])
  show "keys_ok t" if "gs_keys \<lparr>gs_keys = Some (demo_keys None), gs_grants = None\<rparr> = Some t" for t
    using that demo_keys_ok by auto
  have "live_key (demo_keys None) (demo_api_key None)" by (simp add: live_key_def demo_keys_def demo_api_key_def)
  then show "(gs_keys \<lparr>gs_keys = Some (demo_keys None), gs_grants = None\<rparr> = None
      \<and> demo_request\<lparr>rq_subject := ''s'', rq_key_id := nat_str 1\<rparr> = strip_identity demo_request)
    \<or> (\<exists>t. gs_keys \<lparr>gs_keys = Some (demo_keys None), gs_grants = None\<rparr> = Some t \<and> (\<forall>k. \<not> live_key t k)
        \<and> ns_open \<lparr>gs_keys = Some (demo_keys None), gs_grants = None\<rparr> demo_request []
        \<and> demo_request\<lparr>rq_subject := ''s'', rq_key_id := nat_str 1\<rparr> = strip_identity demo_request)
    \<or> (\<exists>t k token. gs_keys \<lparr>gs_keys = Some (demo_keys None), gs_grants = None\<rparr> = Some t \<and> live_key t k \<and> token \<noteq> []
        \<and> rq_authorization demo_request = bearer @ token \<and> ak_hash k = id token
        \<and> ns_open \<lparr>gs_keys = Some (demo_keys None), gs_grants = None\<rparr> demo_request (ak_subject k)
        \<and> demo_request\<lparr>rq_subject := ''s'', rq_key_id := nat_str 1\<rparr>
          = demo_request\<lparr>rq_subject := ak_subject k, rq_key_id := nat_str (ak_id k)\<rparr>)"
    by (intro disjI2 exI [of _ "demo_keys None"] exI [of _ "demo_api_key None"] exI [of _ "''prk_r''"])
      (simp add: ns_open_def demo_request_def demo_api_key_def del: nat_str.simps)
qed

lemma revoked_key_dead_witness:
  "CheckKey id ''prk_r'' (demo_keys (Some 2)) = None \<and> \<not> KeyActive 1 (demo_keys (Some 2))"
proof -
  have run: "keys_run id [CreateOp 1 ''r'' ''n'' ''s'', RevokeKeyOp 2 ''n''] no_keys = demo_keys (Some 2)"
    by (simp only: keys_run_def fold.simps comp_def id_apply demo_created demo_revoked)
  have stay: "demo_keys (Some 2) = keys_run id [] (keys_run id [CreateOp 1 ''r'' ''n'' ''s'', RevokeKeyOp 2 ''n''] no_keys)"
    by (simp only: run) (simp add: keys_run_def)
  have "demo_api_key (Some 2) \<in> set (kt_rows (keys_run id [CreateOp 1 ''r'' ''n'' ''s'', RevokeKeyOp 2 ''n''] no_keys))"
    unfolding run by (simp add: demo_keys_def)
  from revoked_key_dead [OF this _ _ _ stay, of "''prk_r''"] show ?thesis by (simp add: demo_api_key_def)
qed

lemma last_key_reopens_witness:
  "authMiddleware id \<lparr>gs_keys = Some (demo_keys (Some 2)), gs_grants = None\<rparr> demo_request
   = Served (strip_identity demo_request)"
proof -
  have "RevokeKey 2 ''n'' (demo_keys None) = (Inr (), demo_keys (Some 2))"
    by (simp add: RevokeKey_def demo_keys_def demo_api_key_def revocable_def rows_affected_def update_where_def)
  from last_key_reopens [OF _ _ _ this, of "\<lparr>gs_keys = Some (demo_keys None), gs_grants = None\<rparr>" id demo_request]
  show ?thesis by (simp add: live_key_def demo_keys_def demo_api_key_def)
qed

definition demo_limits :: limits where
  "demo_limits = \<lparr>li_body = 0, li_rps = 0, li_burst = 0, li_streams = 1, li_ip_streams = 0\<rparr>"

lemma stream_slots_exact_witness:
  "int (inUse (cap_inbox (sw_caps (stream_run (limits_withDefaults demo_limits)
     [OpenStream ''a'' ''i'', OpenStream ''a'' ''i'', CloseStream 0]))) ''a'') \<le> 1"
  using stream_slots_exact [of "[OpenStream ''a'' ''i'', OpenStream ''a'' ''i'', CloseStream 0]" _ demo_limits "''a''"]
  by (simp add: demo_limits_def limits_withDefaults_def)

lemma client_ip_unspoofable_witness:
  "effectiveClientIP Some Some (\<lambda>ip. ip = ''1'') (demo_request\<lparr>rq_forwarded := ''9'' @ '','' @ ''7''\<rparr>)
   = effectiveClientIP Some Some (\<lambda>ip. ip = ''1'') (demo_request\<lparr>rq_forwarded := ''7''\<rparr>)"
proof -
  have "trim_space ''7'' = ''7''" by (rule trim_space_plain) (simp add: graphic_def in_range_def byte_def)
  then show ?thesis
    using client_ip_unspoofable [of Some demo_request "''1''" Some "''1''" "\<lambda>ip. ip = ''1''" "''7''" "''9''"]
    by (simp add: clientIP_def demo_request_def)
qed

end
