(* ===== verification/Spec2Isabelle.thy ===== *)
theory Spec2Isabelle
  imports Delivery Policy Routing DocSource TaskBoard Authz Cost Enrich EntityMerge_Examples WakeScan ApiGate
begin

text \<open>
  Punk-records is a hub for software agents: a ledger of tasks, a bitemporal store of facts, durable inboxes
  between agents, and the policies that say which agent may do what.  It is one Go program over one SQL
  database (SQLite or Postgres); its packages are under \<open>src/internal\<close>.  This development models the
  packages whose code decides something and proves what makes them correct.

  \<^bold>\<open>How the code is read.\<close>  A Go string is a list of bytes.  A table is a list of rows in the order of
  their identifiers, and a statement is the list function that selects or changes the rows its \<open>WHERE\<close>
  clause names.  A method that can fail is an operation \<open>'s \<Rightarrow> ('e + 'a) \<times> 's\<close> on the tables; \<open>with_tx\<close> drops the
  changes of one that fails, as the transaction of \<open>store.WithTx\<close> does.  Times are integers (nanoseconds);
  a call that reads the clock more than once takes the sequence of its readings.  What the source calls but
  does not contain is an argument: regular expressions and content patterns are predicates, hash functions
  are functions, a YAML document is the value it decodes to, random choices and fresh identifiers are given.
  Integers are unbounded where the code only counts rows or compares, and 64-bit words where it
  multiplies (rating in Cost) or hashes (the FNV fingerprint in Wake).

  \<^bold>\<open>The parts and their theories.\<close>

  \<^item> Prelude: bytes, UTF-8 and the parts of \<open>strings\<close> and \<open>unicode\<close> that the source uses, updates of
    tables, results.  GoPath: \<open>path.Match\<close>.
  \<^item> Db (\<open>internal/store\<close>): \<open>WithTx\<close>, \<open>Rebind\<close>, quoting, the timestamp format.  The locale \<open>atomic_op\<close> is the
    contract of a transaction.
  \<^item> Ledger, Ledger_Proofs (\<open>internal/task\<close>): tasks, events, skill runs.  The step relation over all
    operations has the invariant that the status column is the legal replay of the event log; the locale of a
    numbered log is interpreted on the events of a task.
  \<^item> SpecModel (\<open>internal/spec\<close>), Policy (\<open>internal/policy\<close>), Routing (\<open>internal/route\<close>), Topo (\<open>internal/topo\<close>),
    Registry (\<open>internal/registry\<close>): specifications and their loading, verdicts and proposals, the choice of an
    agent for a task, the dependency walk, and snapshots with pinned versions.  Routing parks or refuses a
    task through the operations of Ledger.
  \<^item> Region, Claims, Messages, Hub_Proofs, Delivery (\<open>internal/region\<close>): members and streams, work leases,
    inboxes with leases, quarantine, idempotent sends, retention and archives.  Hub_Proofs has one lemma
    \<open>hub_do_effect\<close> that says what each operation changes, from which the invariant and every delivery
    property follow.
  \<^item> Facts, Facts_Proofs, Document, TaskBoard (\<open>internal/memory\<close>, \<open>internal/taskboard\<close>): revisions and tombstones,
    reading now and as of a past time, retention, export and import; documents cut into chunks; tasks kept as
    facts, and their board.  The abstract specification is a map from keys to bodies, refined by the store.
  \<^item> Links: the typed edges between facts with their two time axes, reading a graph now and as of a past
    time.  Pipeline, Recovery: the durable enrichment runs (claims with fences, stages, retries, recovery of a
    run whose worker died) and the outbox that starts them.  Enrich: the stage that embeds a fact and links
    it to its neighbours; the embedding and the distances are arguments.
  \<^item> Similarity, EntityMerge, EntityMerge_Proofs, EntityMerge_Examples (\<open>internal/memory/similarity.go\<close>,
    \<open>entity_resolve.go\<close>): the closeness of names with its edit distance, the discovery of entities that are one,
    their merge in one transaction, its undo, and the resolution of absorbed keys.
  \<^item> DocSource (\<open>internal/memory/document_source.go\<close>): documents owned by an external source, the byte range of
    every chunk, and the dry run that reports what a write would do.
  \<^item> Wake, WakeScan (\<open>internal/nativewake\<close>): the budget, deduplication and timers of the local waker, and its
    scan over the messages that Messages lists; its transports and file locks are inputs.
  \<^item> ApiGate (\<open>internal/api\<close>): API keys, the bearer check in front of every route, the namespace boundary,
    stream slots and the address a request is counted under.  SHA-256 and \<open>net.ParseIP\<close> are arguments; the
    token bucket of the rate limiter belongs to another package.
  \<^item> Authz (\<open>internal/authz\<close>): namespace grants, refining a set of triples.
  \<^item> Bus (\<open>internal/bus\<close>): subscriptions with bounded buffers.
  \<^item> Cost (\<open>internal/cost\<close>, the price table and call ledger of \<open>internal/llm\<close>): rating, previews, alerts.

  \<^bold>\<open>What the lemmas show.\<close>  Every component has an invariant kept by all its operations (statuses and logs
  agree, keys are unique, at most one open revision, at most one live lease).  On top of it stand
  the functional results (what a write, a send, a claim or a document write leaves behind, on each
  branch), the refinements (facts to a map, grants to a set, a timer to its alerts), round trips (rendering
  and parsing a status, archiving and restoring, merging and taking back), termination (chunking, the pattern
  matcher, the graph walk), bounds (inboxes, buffers, costs) and progress (messages are never lost, an acyclic board can go on).
  Where the code does not do what its comments promise, the theorem states what it does: expired
  rewrites that are lost, a retention sweep that brings back an older revision, prefixes that ignore case on
  SQLite, a fresh claim that two agents can win on Postgres, a price table with a gap, a pending run that no
  recovery picks up once it has expired, a closed edge that a second assertion loses, a waker that refuses to
  go on after the clock stepped back, a lineage of eight merges that no longer resolves, and a hub that is open
  again once its last key is revoked.

  \<^bold>\<open>Bounds and recursion.\<close>  No definition uses fuel: loops over text and patterns recurse on what is
  left of them, graph walks on their depth, retry loops on the finite list of what they read, the paged scan of
  the wake log on the rows of its budget and the resolution of an entity key on its hops (1000 and 8, the
  constants of the code), and the paged scan of a prefix on the keys past its cursor.

  \<^bold>\<open>Not modelled.\<close>  Apart from the checks of ApiGate and Authz, the HTTP and MCP handlers, the command line
  and the editors of other programs' configuration files decode arguments, call the operations above and
  print; vector search, entity extraction and reflection rest on floating point and on the output of models,
  as do the mining of skills and their evaluation; the loop that polls for enrichment work, process control
  and file locking are operating system I/O; benchmarks measure.  Failures of the database engine, other
  than those the code provokes, are not modelled.
\<close>

end
